(* ===== verification/Prelude.thy ===== *)
theory Prelude
  imports Main "HOL-Library.Word" "HOL-Library.Monad_Syntax"
begin

unbundle bit_operations_syntax

text \<open>
  Shared vocabulary of the development: the types that name machine addresses and
  integers, the \<open>named_theorems\<close> collections, the ordered-insertion interface that several
  kernel lists share, and the facts on linked lists that the pointer-level components use.

  Memory is modelled field by field: a struct field \<open>f\<close> of the nodes in memory is a function
  from the address of a node to the value of the field, so \<open>p->f = v\<close> is the function
  update \<open>f(p := v)\<close>. Address \<open>0\<close> is \<open>NULL\<close>.
\<close>

type_synonym addr = nat
type_synonym u8 = "8 word"
type_synonym u16 = "16 word"
type_synonym u32 = "32 word"
type_synonym u64 = "64 word"

abbreviation (input) NULL :: addr where "NULL \<equiv> 0"

text \<open>\<open>DEBUGASSERT\<close>: execution does not go past a failed assertion.\<close>

definition debugassert :: "bool \<Rightarrow> unit option" where
  "debugassert b = (if b then Some () else None)"

named_theorems link_simps \<open>linked-list facts: frames, boundaries, concatenation\<close>
named_theorems flag_simps \<open>flag and mask arithmetic\<close>

lemma hd_nonnull [simp]: "NULL \<notin> set xs \<Longrightarrow> xs \<noteq> [] \<Longrightarrow> 0 < hd xs"
  by (cases xs) auto

lemma last_nonnull [simp]: "NULL \<notin> set xs \<Longrightarrow> xs \<noteq> [] \<Longrightarrow> 0 < last xs"
  by (cases xs rule: rev_cases) auto

lemma hd_notin [simp]: "a \<notin> set xs \<Longrightarrow> xs \<noteq> [] \<Longrightarrow> hd xs \<noteq> a \<and> a \<noteq> hd xs"
  by (cases xs) auto

lemma last_notin [simp]: "a \<notin> set xs \<Longrightarrow> xs \<noteq> [] \<Longrightarrow> last xs \<noteq> a \<and> a \<noteq> last xs"
  by (cases xs rule: rev_cases) auto

section \<open>Machine words\<close>

lemma unat_and_not_mask: "unat (w AND NOT (mask k)) = unat w div 2 ^ k * 2 ^ k" for w :: "'a::len word"
proof -
  have "unat (w AND NOT (mask k)) = push_bit k (drop_bit k (unat w))"
    by (rule bit_eqI) (auto simp: bit_simps dest: bit_imp_le_length)
  then show ?thesis by (simp add: push_bit_eq_mult drop_bit_eq_div)
qed

lemma unat_pow2: "k < 32 \<Longrightarrow> unat (2 ^ k :: u32) = 2 ^ k"
proof -
  assume "k < 32"
  then have "(2::nat) ^ k < 2 ^ 32" by (intro power_strict_increasing) auto
  then show ?thesis using unat_of_nat [of "2 ^ k", where ?'a = 32] by simp
qed

lemma unat_add_nowrap: "unat a + unat b < 2 ^ LENGTH('a) \<Longrightarrow> unat (a + b) = unat a + unat b" for a b :: "'a::len word"
  by (simp add: unat_word_ariths)

text \<open>Signed 32-bit arithmetic: the value of an \<open>int\<close> expression after wrap-around.\<close>

definition s32 :: "int \<Rightarrow> int" where
  "s32 x = (x + 2 ^ 31) mod 2 ^ 32 - 2 ^ 31"

lemma s32_id: "- (2 ^ 31) \<le> x \<Longrightarrow> x < 2 ^ 31 \<Longrightarrow> s32 x = x"
  by (simp add: s32_def)

section \<open>Singly linked segments\<close>

text \<open>
  \<open>slist fl xs y\<close>: following the forward links from the first node of \<open>xs\<close> visits exactly
  \<open>xs\<close> and then arrives at \<open>y\<close>.
\<close>

fun slist :: "(addr \<Rightarrow> addr) \<Rightarrow> addr list \<Rightarrow> addr \<Rightarrow> bool" where
  "slist fl [] y = True"
| "slist fl (a # as) y = (a \<noteq> NULL \<and> fl a = hd (as @ [y]) \<and> slist fl as y)"

lemma slist_append [link_simps]:
  "slist fl (xs @ ys) y \<longleftrightarrow> slist fl xs (hd (ys @ [y])) \<and> slist fl ys y"
  by (induction xs) (auto simp: hd_append)

lemma slist_frame [link_simps]:
  "a \<notin> set xs \<Longrightarrow> slist (fl(a := v)) xs y = slist fl xs y"
  by (induction xs) auto

lemma slist_nonnull: "slist fl xs y \<Longrightarrow> NULL \<notin> set xs"
  by (induction xs) auto

lemma slist_set_next:
  assumes "slist fl xs y" "xs \<noteq> []" "distinct xs"
  shows "slist (fl(last xs := y')) xs y'"
  using assms
proof (induction xs)
  case Nil
  then show ?case by simp
next
  case (Cons a as)
  then show ?case
    by (cases as) (auto simp: slist_frame)
qed

section \<open>Doubly linked segments\<close>

text \<open>
  \<open>dlist fl bl p xs y\<close>: \<open>xs\<close> is a chain of nodes whose forward links run through \<open>xs\<close> to
  \<open>y\<close> and whose backward links run through \<open>xs\<close> back to \<open>p\<close>.
\<close>

fun dlist :: "(addr \<Rightarrow> addr) \<Rightarrow> (addr \<Rightarrow> addr) \<Rightarrow> addr \<Rightarrow> addr list \<Rightarrow> addr \<Rightarrow> bool" where
  "dlist fl bl p [] y = True"
| "dlist fl bl p (a # as) y =
     (a \<noteq> NULL \<and> bl a = p \<and> fl a = hd (as @ [y]) \<and> dlist fl bl a as y)"

lemma dlist_append [link_simps]:
  "dlist fl bl p (xs @ ys) y \<longleftrightarrow>
     dlist fl bl p xs (hd (ys @ [y])) \<and> dlist fl bl (last (p # xs)) ys y"
  by (induction xs arbitrary: p) (auto simp: hd_append)

lemma dlist_frame_fl [link_simps]:
  "a \<notin> set xs \<Longrightarrow> dlist (fl(a := v)) bl p xs y = dlist fl bl p xs y"
  by (induction xs arbitrary: p) auto

lemma dlist_frame_bl [link_simps]:
  "a \<notin> set xs \<Longrightarrow> dlist fl (bl(a := v)) p xs y = dlist fl bl p xs y"
  by (induction xs arbitrary: p) auto

lemma dlist_nonnull: "dlist fl bl p xs y \<Longrightarrow> NULL \<notin> set xs"
  by (induction xs arbitrary: p) auto

lemma dlist_set_next:
  assumes "dlist fl bl p xs y" "xs \<noteq> []" "distinct xs"
  shows "dlist (fl(last xs := y')) bl p xs y'"
  using assms
proof (induction xs arbitrary: p)
  case Nil
  then show ?case by simp
next
  case (Cons a as)
  then show ?case
    by (cases as) (auto simp: dlist_frame_fl)
qed

lemma dlist_set_prev:
  assumes "dlist fl bl p xs y" "xs \<noteq> []" "distinct xs"
  shows "dlist fl (bl(hd xs := p')) p' xs y"
  using assms by (cases xs) (auto simp: dlist_frame_bl)

lemma dlist_flink_mid: "dlist fl bl p (us @ a # vs) y \<Longrightarrow> fl a = hd (vs @ [y])"
  by (simp add: link_simps)

lemma dlist_blink_mid: "dlist fl bl p (us @ a # vs) y \<Longrightarrow> bl a = last (p # us)"
  by (simp add: link_simps)

lemma dlist_slist: "dlist fl bl p xs y \<Longrightarrow> slist fl xs y"
  by (induction xs arbitrary: p) auto

lemma dlist_remove:
  assumes "dlist fl bl p (us @ a # vs) NULL" "distinct (us @ a # vs)" "us \<noteq> []"
  shows "dlist (fl(last us := hd (vs @ [NULL])))
    (if vs = [] then bl else bl(hd vs := last us)) p (us @ vs) NULL"
proof -
  obtain us' u where us: "us = us' @ [u]" using assms(3) by (cases us rule: rev_cases) auto
  show ?thesis using assms by (cases vs) (simp_all add: us link_simps)
qed

lemma dlist_insert:
  assumes "dlist fl bl p (us @ vs) NULL" "distinct (us @ vs)" "us \<noteq> []"
    "a \<notin> set (us @ vs)" "a \<noteq> NULL"
  shows "dlist (fl(last us := a, a := hd (vs @ [NULL])))
    (if vs = [] then bl(a := last us) else bl(a := last us, hd vs := a)) p (us @ a # vs) NULL"
proof -
  obtain us' u where us: "us = us' @ [u]" using assms(3) by (cases us rule: rev_cases) auto
  show ?thesis using assms by (cases vs) (simp_all add: us link_simps)
qed

section \<open>Ordered insertion\<close>

text \<open>Several kernel lists are kept in order by a walk that passes some elements and inserts before the
  first one it does not pass.\<close>

fun walk_insert :: "('a \<Rightarrow> bool) \<Rightarrow> 'a \<Rightarrow> 'a list \<Rightarrow> 'a list" where
  "walk_insert pass x [] = [x]"
| "walk_insert pass x (y # ys) = (if pass y then y # walk_insert pass x ys else x # y # ys)"

lemma walk_insert_split:
  "\<forall>y \<in> set us. pass y \<Longrightarrow> vs = [] \<or> \<not> pass (hd vs) \<Longrightarrow> walk_insert pass x (us @ vs) = us @ x # vs"
  by (induction us) (cases vs; auto)+

lemma set_walk_insert [simp]: "set (walk_insert pass x ys) = insert x (set ys)"
  by (induction ys) auto

lemma length_walk_insert [simp]: "length (walk_insert pass x ys) = Suc (length ys)"
  by (induction ys) auto

lemma map_walk_insert:
  "(\<And>y. y \<in> set ys \<Longrightarrow> pass' (f y) = pass y) \<Longrightarrow> map f (walk_insert pass x ys) = walk_insert pass' (f x) (map f ys)"
  by (induction ys) auto

lemma filter_walk_insert: "\<not> P x \<Longrightarrow> filter P (walk_insert pass x ys) = filter P ys"
  by (induction ys) auto

lemma distinct_walk_insert [simp]: "distinct (walk_insert pass x ys) \<longleftrightarrow> x \<notin> set ys \<and> distinct ys"
  by (induction ys) auto

locale ordered_list =
  fixes le :: "'a \<Rightarrow> 'a \<Rightarrow> bool"
  assumes le_trans: "le x y \<Longrightarrow> le y z \<Longrightarrow> le x z"
    and le_total: "le x y \<or> le y x"
begin

lemma sorted_insert: "sorted_wrt le ys \<Longrightarrow> sorted_wrt le (walk_insert (\<lambda>y. le y x) x ys)"
proof (induction ys)
  case (Cons y ys)
  then show ?case using le_total [of x y] by (auto intro: le_trans)
qed simp

end

end
