(* ===== verification/Queue.thy ===== *)
theory Queue
  imports Prelude
begin

text \<open>
  The intrusive queues of \<open>lib/libc/queue\<close> (\<open>sq_*\<close>: singly linked, \<open>dq_*\<close>: doubly linked),
  translated link by link. A queue operation maps the pair of the link memory and the queue
  header to the updated pair. \<open>sq_repr\<close> and \<open>dq_repr\<close> say which sequence of nodes a queue
  holds, and every operation is proved to implement the corresponding list operation on
  that sequence. The locales \<open>fifo_queue\<close> and \<open>linked_deque\<close> are the contracts the rest of
  the kernel relies on; both are interpreted on the translated code.
\<close>

record links =
  flink :: "addr \<Rightarrow> addr"
  blink :: "addr \<Rightarrow> addr"

record queue =
  head :: addr
  tail :: addr

abbreviation set_flink :: "addr \<Rightarrow> addr \<Rightarrow> 'a links_scheme \<Rightarrow> 'a links_scheme" where
  "set_flink p v m \<equiv> m\<lparr>flink := (flink m)(p := v)\<rparr>"

abbreviation set_blink :: "addr \<Rightarrow> addr \<Rightarrow> 'a links_scheme \<Rightarrow> 'a links_scheme" where
  "set_blink p v m \<equiv> m\<lparr>blink := (blink m)(p := v)\<rparr>"

type_synonym 'a qstate = "'a links_scheme \<times> queue"

section \<open>Singly linked queues\<close>

definition sq_addfirst :: "addr \<Rightarrow> 'a qstate \<Rightarrow> 'a qstate" where
  "sq_addfirst node = (\<lambda>(m, q).
     let m = set_flink node (head q) m;
         q = (if head q = NULL then q\<lparr>tail := node\<rparr> else q)
     in (m, q\<lparr>head := node\<rparr>))"

definition sq_addlast :: "addr \<Rightarrow> 'a qstate \<Rightarrow> 'a qstate" where
  "sq_addlast node = (\<lambda>(m, q).
     let m = set_flink node NULL m
     in if head q = NULL then (m, q\<lparr>head := node, tail := node\<rparr>)
        else (set_flink (tail q) node m, q\<lparr>tail := node\<rparr>))"

definition sq_addafter :: "addr \<Rightarrow> addr \<Rightarrow> 'a qstate \<Rightarrow> 'a qstate" where
  "sq_addafter prev node = (\<lambda>(m, q).
     if head q = NULL \<or> prev = tail q then sq_addlast node (m, q)
     else let m = set_flink node (flink m prev) m
          in (set_flink prev node m, q))"

definition sq_remfirst :: "'a qstate \<Rightarrow> addr \<times> 'a qstate" where
  "sq_remfirst = (\<lambda>(m, q).
     let ret = head q
     in if ret \<noteq> NULL then
          (let q = q\<lparr>head := flink m ret\<rparr>;
               q = (if head q = NULL then q\<lparr>tail := NULL\<rparr> else q)
           in (ret, set_flink ret NULL m, q))
        else (ret, m, q))"

definition sq_remafter :: "addr \<Rightarrow> 'a qstate \<Rightarrow> addr \<times> 'a qstate" where
  "sq_remafter node = (\<lambda>(m, q).
     let ret = flink m node
     in if head q \<noteq> NULL \<and> ret \<noteq> NULL then
          (let (m, q) =
             (if tail q = ret then (set_flink node NULL m, q\<lparr>tail := node\<rparr>)
              else (set_flink node (flink m ret) m, q))
           in (ret, set_flink ret NULL m, q))
        else (ret, m, q))"

text \<open>
  The search loop of \<open>sq_rem\<close> and \<open>sq_remlast\<close>:
  \<open>for (prev = head; prev && prev->flink != node; prev = prev->flink)\<close>. On a cyclic chain
  that misses \<open>node\<close> it does not end, which is the value \<open>None\<close>.
\<close>

partial_function (option) sq_find_prev :: "(addr \<Rightarrow> addr) \<Rightarrow> addr \<Rightarrow> addr \<Rightarrow> addr option" where
  "sq_find_prev fl node prev =
     (if prev \<noteq> NULL \<and> fl prev \<noteq> node then sq_find_prev fl node (fl prev) else Some prev)"

definition sq_rem :: "addr \<Rightarrow> 'a qstate \<Rightarrow> 'a qstate option" where
  "sq_rem node = (\<lambda>(m, q).
     if head q \<noteq> NULL \<and> node \<noteq> NULL then
       (if node = head q then
          (let q = q\<lparr>head := flink m node\<rparr>;
               q = (if node = tail q then q\<lparr>tail := NULL\<rparr> else q)
           in Some (m, q))
        else
          (case sq_find_prev (flink m) node (head q) of
             None \<Rightarrow> None
           | Some prev \<Rightarrow>
               (if prev \<noteq> NULL then Some (snd (sq_remafter prev (m, q))) else Some (m, q))))
     else Some (m, q))"

definition sq_remlast :: "'a qstate \<Rightarrow> (addr \<times> 'a qstate) option" where
  "sq_remlast = (\<lambda>(m, q).
     let ret = tail q
     in if ret \<noteq> NULL then
          (if head q = tail q then
             Some (ret, set_flink ret NULL m, q\<lparr>head := NULL, tail := NULL\<rparr>)
           else
             (case sq_find_prev (flink m) ret (head q) of
                None \<Rightarrow> None
              | Some prev \<Rightarrow>
                  (let (m, q) =
                     (if prev \<noteq> NULL then (set_flink prev NULL m, q\<lparr>tail := prev\<rparr>)
                      else (m, q))
                   in Some (ret, set_flink ret NULL m, q))))
        else Some (ret, m, q))"

section \<open>Doubly linked queues\<close>

definition dq_addfirst :: "addr \<Rightarrow> 'a qstate \<Rightarrow> 'a qstate" where
  "dq_addfirst node = (\<lambda>(m, q).
     let m = set_blink node NULL m;
         m = set_flink node (head q) m
     in if head q = NULL then (m, q\<lparr>head := node, tail := node\<rparr>)
        else (set_blink (head q) node m, q\<lparr>head := node\<rparr>))"

definition dq_addlast :: "addr \<Rightarrow> 'a qstate \<Rightarrow> 'a qstate" where
  "dq_addlast node = (\<lambda>(m, q).
     let m = set_flink node NULL m;
         m = set_blink node (tail q) m
     in if head q = NULL then (m, q\<lparr>head := node, tail := node\<rparr>)
        else (set_flink (tail q) node m, q\<lparr>tail := node\<rparr>))"

definition dq_addafter :: "addr \<Rightarrow> addr \<Rightarrow> 'a qstate \<Rightarrow> 'a qstate" where
  "dq_addafter prev node = (\<lambda>(m, q).
     if head q = NULL \<or> prev = tail q then dq_addlast node (m, q)
     else let nxt = flink m prev;
              m = set_blink node prev m;
              m = set_flink node nxt m;
              m = set_blink nxt node m
          in (set_flink prev node m, q))"

definition dq_addbefore :: "addr \<Rightarrow> addr \<Rightarrow> 'a qstate \<Rightarrow> 'a qstate" where
  "dq_addbefore nxt node = (\<lambda>(m, q).
     if head q = NULL \<or> nxt = head q then dq_addfirst node (m, q)
     else let prev = blink m nxt;
              m = set_flink node nxt m;
              m = set_blink node prev m;
              m = set_flink prev node m
          in (set_blink nxt node m, q))"

definition dq_rem :: "addr \<Rightarrow> 'a qstate \<Rightarrow> 'a qstate" where
  "dq_rem node = (\<lambda>(m, q).
     let prev = blink m node;
         nxt = flink m node;
         (m, q) = (if prev = NULL then (m, q\<lparr>head := nxt\<rparr>) else (set_flink prev nxt m, q));
         (m, q) = (if nxt = NULL then (m, q\<lparr>tail := prev\<rparr>) else (set_blink nxt prev m, q));
         m = set_flink node NULL m
     in (set_blink node NULL m, q))"

definition dq_remfirst :: "'a qstate \<Rightarrow> addr \<times> 'a qstate" where
  "dq_remfirst = (\<lambda>(m, q).
     let ret = head q
     in if ret \<noteq> NULL then
          (let nxt = flink m ret;
               (m, q) =
                 (if nxt = NULL then (m, q\<lparr>head := NULL, tail := NULL\<rparr>)
                  else (set_blink nxt NULL m, q\<lparr>head := nxt\<rparr>));
               m = set_flink ret NULL m
           in (ret, set_blink ret NULL m, q))
        else (ret, m, q))"

definition dq_remlast :: "'a qstate \<Rightarrow> addr \<times> 'a qstate" where
  "dq_remlast = (\<lambda>(m, q).
     let ret = tail q
     in if ret \<noteq> NULL then
          (let prev = blink m ret;
               (m, q) =
                 (if prev = NULL then (m, q\<lparr>head := NULL, tail := NULL\<rparr>)
                  else (set_flink prev NULL m, q\<lparr>tail := prev\<rparr>));
               m = set_flink ret NULL m
           in (ret, set_blink ret NULL m, q))
        else (ret, m, q))"

section \<open>Which sequence a queue holds\<close>

definition sq_repr :: "'a qstate \<Rightarrow> addr list \<Rightarrow> bool" where
  "sq_repr s xs \<longleftrightarrow> slist (flink (fst s)) xs NULL \<and> distinct xs \<and>
     head (snd s) = hd (xs @ [NULL]) \<and> tail (snd s) = last (NULL # xs)"

definition dq_repr :: "'a qstate \<Rightarrow> addr list \<Rightarrow> bool" where
  "dq_repr s xs \<longleftrightarrow> dlist (flink (fst s)) (blink (fst s)) NULL xs NULL \<and> distinct xs \<and>
     head (snd s) = hd (xs @ [NULL]) \<and> tail (snd s) = last (NULL # xs)"

lemma sq_repr_nonnull: "sq_repr s xs \<Longrightarrow> NULL \<notin> set xs"
  by (auto simp: sq_repr_def dest: slist_nonnull)

lemma dq_repr_nonnull: "dq_repr s xs \<Longrightarrow> NULL \<notin> set xs"
  by (auto simp: dq_repr_def dest: dlist_nonnull)

lemma dq_repr_distinct: "dq_repr s xs \<Longrightarrow> distinct xs"
  by (simp add: dq_repr_def)

lemma dq_repr_sq_repr: "dq_repr s xs \<Longrightarrow> sq_repr s xs"
  by (auto simp: dq_repr_def sq_repr_def intro: dlist_slist)

subsection \<open>Singly linked operations\<close>

lemma sq_addfirst_repr:
  assumes "sq_repr s xs" "n \<noteq> NULL" "n \<notin> set xs"
  shows "sq_repr (sq_addfirst n s) (n # xs)"
  using assms sq_repr_nonnull [OF assms(1)]
  by (cases xs) (auto simp: sq_repr_def sq_addfirst_def Let_def link_simps split: prod.splits)

lemma sq_addlast_repr:
  assumes "sq_repr s xs" "n \<noteq> NULL" "n \<notin> set xs"
  shows "sq_repr (sq_addlast n s) (xs @ [n])"
  using assms sq_repr_nonnull [OF assms(1)]
  by (cases xs rule: rev_cases)
    (auto simp: sq_repr_def sq_addlast_def link_simps hd_append split: prod.splits)

lemma sq_addafter_repr:
  assumes "sq_repr s (us @ p # vs)" "n \<noteq> NULL" "n \<notin> set (us @ p # vs)"
  shows "sq_repr (sq_addafter p n s) (us @ p # n # vs)"
proof (cases vs)
  case Nil
  with assms sq_addlast_repr [OF assms(1) assms(2) assms(3)] show ?thesis
    by (simp add: sq_repr_def sq_addafter_def split_beta)
next
  case (Cons v vs')
  obtain m q where s: "s = (m, q)" by (cases s)
  have "head q \<noteq> NULL" "tail q \<noteq> p" "flink m p = v"
    using assms(1) sq_repr_nonnull [OF assms(1)]
    by (auto simp: sq_repr_def s Cons link_simps hd_append)
  then have "sq_addafter p n s = (set_flink p n (set_flink n v m), q)"
    by (simp add: sq_addafter_def s Let_def)
  with assms Cons s show ?thesis
    by (simp add: sq_repr_def link_simps hd_append)
qed

lemma sq_remfirst_repr:
  assumes "sq_repr s xs"
  shows "fst (sq_remfirst s) = hd (xs @ [NULL])" "sq_repr (snd (sq_remfirst s)) (tl xs)"
proof -
  obtain m q where s: "s = (m, q)" by (cases s)
  show "fst (sq_remfirst s) = hd (xs @ [NULL])"
    using assms s by (simp add: sq_repr_def sq_remfirst_def Let_def)
  show "sq_repr (snd (sq_remfirst s)) (tl xs)"
    using assms s sq_repr_nonnull [OF assms]
  proof (cases xs)
    case (Cons n vs)
    with assms s sq_repr_nonnull [OF assms] show ?thesis
      by (cases vs) (simp_all add: sq_repr_def sq_remfirst_def Let_def link_simps)
  qed (simp add: sq_repr_def sq_remfirst_def)
qed

lemma sq_remafter_repr:
  assumes "sq_repr s (us @ p # a # vs)"
  shows "fst (sq_remafter p s) = a" "sq_repr (snd (sq_remafter p s)) (us @ p # vs)"
proof -
  obtain m q where s: "s = (m, q)" by (cases s)
  have facts: "flink m p = a" "flink m a = hd (vs @ [NULL])" "a \<noteq> NULL" "head q \<noteq> NULL"
    "tail q = last (a # vs)"
    using assms sq_repr_nonnull [OF assms]
    by (auto simp: sq_repr_def s link_simps hd_append)
  then show "fst (sq_remafter p s) = a"
    by (simp add: sq_remafter_def s Let_def split_beta)
  show "sq_repr (snd (sq_remafter p s)) (us @ p # vs)"
    using assms s facts
    by (cases "vs = []") (simp_all add: sq_repr_def sq_remafter_def Let_def link_simps hd_append)
qed

lemma sq_find_prev_found:
  assumes "slist fl (us @ p # a # vs) NULL" "a \<notin> set us" "a \<noteq> p"
  shows "sq_find_prev fl a (hd (us @ [p])) = Some p"
  using assms
proof (induction us)
  case Nil
  then show ?case by (simp add: sq_find_prev.simps)
next
  case (Cons u us)
  then have "fl u = hd (us @ [p])" "fl u \<noteq> a" "u \<noteq> NULL"
    by (auto simp: hd_append)
  with Cons show ?case by (simp add: sq_find_prev.simps [of fl a u])
qed

lemma sq_rem_repr:
  assumes "sq_repr s (us @ n # vs)"
  shows "\<exists>s'. sq_rem n s = Some s' \<and> sq_repr s' (us @ vs)"
proof (cases us rule: rev_cases)
  case Nil
  with assms sq_repr_nonnull [OF assms] show ?thesis
    by (cases vs) (auto simp: sq_repr_def sq_rem_def Let_def split: prod.splits if_splits)
next
  case (snoc us' p)
  obtain m q where s: "s = (m, q)" by (cases s)
  have "sq_find_prev (flink m) n (hd (us' @ [p])) = Some p"
    using assms by (intro sq_find_prev_found [where vs = vs]) (auto simp: sq_repr_def s snoc)
  with assms sq_repr_nonnull [OF assms] have "sq_rem n s = Some (snd (sq_remafter p s))"
    by (auto simp: sq_repr_def sq_rem_def s snoc hd_append split: if_splits)
  with assms sq_remafter_repr(2) [of s us' p n vs] show ?thesis
    by (simp add: snoc)
qed

lemma sq_remlast_repr:
  assumes "sq_repr s (us @ [n])"
  shows "\<exists>s'. sq_remlast s = Some (n, s') \<and> sq_repr s' us"
proof (cases us rule: rev_cases)
  case Nil
  with assms sq_repr_nonnull [OF assms] show ?thesis
    by (auto simp: sq_repr_def sq_remlast_def Let_def split: prod.splits if_splits)
next
  case (snoc us' p)
  obtain m q where s: "s = (m, q)" by (cases s)
  have "sq_find_prev (flink m) n (hd (us' @ [p])) = Some p"
    using assms by (intro sq_find_prev_found [where vs = "[]"]) (auto simp: sq_repr_def s snoc)
  with assms sq_repr_nonnull [OF assms] show ?thesis
    by (auto simp: sq_repr_def sq_remlast_def s snoc hd_append link_simps)
qed

subsection \<open>Doubly linked operations\<close>

lemma dq_addfirst_repr:
  assumes "dq_repr s xs" "n \<noteq> NULL" "n \<notin> set xs"
  shows "dq_repr (dq_addfirst n s) (n # xs)"
  using assms dq_repr_nonnull [OF assms(1)]
  by (cases xs) (auto simp: dq_repr_def dq_addfirst_def Let_def link_simps split: prod.splits if_splits)

lemma dq_addlast_repr:
  assumes "dq_repr s xs" "n \<noteq> NULL" "n \<notin> set xs"
  shows "dq_repr (dq_addlast n s) (xs @ [n])"
  using assms dq_repr_nonnull [OF assms(1)]
  by (cases xs rule: rev_cases)
    (auto simp: dq_repr_def dq_addlast_def Let_def link_simps hd_append split: prod.splits if_splits)

lemma dq_addafter_repr:
  assumes "dq_repr s (us @ p # vs)" "n \<noteq> NULL" "n \<notin> set (us @ p # vs)"
  shows "dq_repr (dq_addafter p n s) (us @ p # n # vs)"
proof (cases vs)
  case Nil
  with assms dq_addlast_repr [OF assms(1) assms(2) assms(3)] show ?thesis
    by (simp add: dq_repr_def dq_addafter_def split_beta)
next
  case (Cons v vs')
  obtain m q where s: "s = (m, q)" by (cases s)
  have "head q \<noteq> NULL" "tail q \<noteq> p" "flink m p = v"
    using assms(1) dq_repr_nonnull [OF assms(1)]
    by (auto simp: dq_repr_def s Cons link_simps hd_append)
  then have "dq_addafter p n s =
      (set_flink p n (set_blink v n (set_flink n v (set_blink n p m))), q)"
    by (simp add: dq_addafter_def s Let_def)
  with assms Cons s show ?thesis
    by (simp add: dq_repr_def link_simps hd_append)
qed

lemma dq_addbefore_repr:
  assumes "dq_repr s (us @ p # vs)" "n \<noteq> NULL" "n \<notin> set (us @ p # vs)"
  shows "dq_repr (dq_addbefore p n s) (us @ n # p # vs)"
proof (cases us rule: rev_cases)
  case Nil
  with assms dq_addfirst_repr [OF assms(1) assms(2) assms(3)] show ?thesis
    by (simp add: dq_repr_def dq_addbefore_def split_beta)
next
  case (snoc us' u)
  obtain m q where s: "s = (m, q)" by (cases s)
  have "head q \<noteq> NULL" "head q \<noteq> p" "blink m p = u"
    using assms(1) dq_repr_nonnull [OF assms(1)]
    by (auto simp: dq_repr_def s snoc link_simps hd_append)
  then have "dq_addbefore p n s =
      (set_blink p n (set_flink u n (set_blink n u (set_flink n p m))), q)"
    by (simp add: dq_addbefore_def s Let_def)
  with assms snoc s show ?thesis
    by (simp add: dq_repr_def link_simps hd_append)
qed

lemma dq_rem_repr:
  assumes "dq_repr s (us @ n # vs)"
  shows "dq_repr (dq_rem n s) (us @ vs)"
proof -
  obtain m q where s: "s = (m, q)" by (cases s)
  have "blink m n = last (NULL # us)" "flink m n = hd (vs @ [NULL])"
    using assms by (auto simp: dq_repr_def s link_simps)
  with assms dq_repr_nonnull [OF assms] s show ?thesis
    by (cases us rule: rev_cases; cases vs)
      (simp_all add: dq_repr_def dq_rem_def Let_def link_simps hd_append)
qed

lemma dq_remfirst_repr:
  assumes "dq_repr s xs"
  shows "fst (dq_remfirst s) = hd (xs @ [NULL])" "dq_repr (snd (dq_remfirst s)) (tl xs)"
proof -
  obtain m q where s: "s = (m, q)" by (cases s)
  show "fst (dq_remfirst s) = hd (xs @ [NULL])"
    using assms s by (simp add: dq_repr_def dq_remfirst_def Let_def split_beta)
  show "dq_repr (snd (dq_remfirst s)) (tl xs)"
    using assms s dq_repr_nonnull [OF assms]
  proof (cases xs)
    case (Cons n vs)
    with assms s dq_repr_nonnull [OF assms] show ?thesis
      by (cases vs)
        (simp_all add: dq_repr_def dq_remfirst_def Let_def link_simps)
  qed (simp add: dq_repr_def dq_remfirst_def)
qed

lemma dq_remlast_repr:
  assumes "dq_repr s xs"
  shows "fst (dq_remlast s) = last (NULL # xs)" "dq_repr (snd (dq_remlast s)) (butlast xs)"
proof -
  obtain m q where s: "s = (m, q)" by (cases s)
  show "fst (dq_remlast s) = last (NULL # xs)"
    using assms s by (simp add: dq_repr_def dq_remlast_def Let_def split_beta)
  show "dq_repr (snd (dq_remlast s)) (butlast xs)"
    using assms s dq_repr_nonnull [OF assms]
  proof (cases xs rule: rev_cases)
    case (snoc us n)
    with assms s dq_repr_nonnull [OF assms] show ?thesis
      by (cases us rule: rev_cases)
        (simp_all add: dq_repr_def dq_remlast_def Let_def link_simps hd_append butlast_append)
  qed (simp add: dq_repr_def dq_remlast_def)
qed

section \<open>The queue contracts\<close>

text \<open>
  \<open>remove_n f k s\<close> applies the removal operation \<open>f\<close> \<open>k\<close> times and collects what it returned.
\<close>

fun remove_n :: "('s \<Rightarrow> addr \<times> 's) \<Rightarrow> nat \<Rightarrow> 's \<Rightarrow> addr list \<times> 's" where
  "remove_n f 0 s = ([], s)"
| "remove_n f (Suc k) s =
     (let (n, s) = f s; (ns, s) = remove_n f k s in (n # ns, s))"

locale fifo_queue =
  fixes repr :: "'s \<Rightarrow> addr list \<Rightarrow> bool"
    and addfirst :: "addr \<Rightarrow> 's \<Rightarrow> 's"
    and addlast :: "addr \<Rightarrow> 's \<Rightarrow> 's"
    and remfirst :: "'s \<Rightarrow> addr \<times> 's"
  assumes repr_addfirst: "repr s xs \<Longrightarrow> n \<noteq> NULL \<Longrightarrow> n \<notin> set xs \<Longrightarrow> repr (addfirst n s) (n # xs)"
    and repr_addlast: "repr s xs \<Longrightarrow> n \<noteq> NULL \<Longrightarrow> n \<notin> set xs \<Longrightarrow> repr (addlast n s) (xs @ [n])"
    and remfirst_ret: "repr s xs \<Longrightarrow> fst (remfirst s) = hd (xs @ [NULL])"
    and repr_remfirst: "repr s xs \<Longrightarrow> repr (snd (remfirst s)) (tl xs)"
begin

lemma repr_fold_addlast:
  assumes "repr s xs" "distinct (xs @ ns)" "NULL \<notin> set ns"
  shows "repr (fold addlast ns s) (xs @ ns)"
  using assms
proof (induction ns arbitrary: s xs)
  case Nil
  then show ?case by simp
next
  case (Cons n ns)
  then have "repr (addlast n s) (xs @ [n])"
    by (intro repr_addlast) auto
  with Cons.IH [of "addlast n s" "xs @ [n]"] Cons.prems show ?case by simp
qed

lemma remove_n_repr:
  assumes "repr s (xs @ ys)"
  shows "fst (remove_n remfirst (length xs) s) = xs \<and>
    repr (snd (remove_n remfirst (length xs) s)) ys"
  using assms
proof (induction xs arbitrary: s)
  case Nil
  then show ?case by simp
next
  case (Cons x xs)
  have "fst (remfirst s) = x" "repr (snd (remfirst s)) (xs @ ys)"
    using remfirst_ret [OF Cons.prems] repr_remfirst [OF Cons.prems] by auto
  with Cons.IH [of "snd (remfirst s)"] show ?case
    by (simp add: split_beta)
qed

lemma fifo:
  assumes "repr s xs" "distinct (xs @ ns)" "NULL \<notin> set ns"
  shows "fst (remove_n remfirst (length xs + length ns) (fold addlast ns s)) = xs @ ns"
  using remove_n_repr [of "fold addlast ns s" "xs @ ns" "[]"] repr_fold_addlast [OF assms]
  by simp

lemma remfirst_empty: "repr s [] \<Longrightarrow> fst (remfirst s) = NULL"
  using remfirst_ret [of s "[]"] by simp

end

locale linked_deque = fifo_queue +
  fixes remlast :: "'s \<Rightarrow> addr \<times> 's"
    and rem :: "addr \<Rightarrow> 's \<Rightarrow> 's"
  assumes repr_distinct: "repr s xs \<Longrightarrow> distinct xs"
    and remlast_ret: "repr s xs \<Longrightarrow> fst (remlast s) = last (NULL # xs)"
    and repr_remlast: "repr s xs \<Longrightarrow> repr (snd (remlast s)) (butlast xs)"
    and repr_rem: "repr s (us @ n # vs) \<Longrightarrow> repr (rem n s) (us @ vs)"
begin

lemma repr_rem_remove1:
  assumes "repr s xs" "n \<in> set xs"
  shows "repr (rem n s) (remove1 n xs)"
proof -
  from assms(2) obtain us vs where xs: "xs = us @ n # vs" "n \<notin> set us"
    by (auto dest: split_list_first)
  with repr_rem [of s us n vs] assms(1) show ?thesis
    by (simp add: remove1_append)
qed

lemma addlast_then_rem:
  assumes "repr s xs" "n \<noteq> NULL" "n \<notin> set xs"
  shows "repr (rem n (addlast n s)) xs"
  using repr_rem [of "addlast n s" xs n "[]"] repr_addlast [OF assms] by simp

lemma addfirst_then_remfirst:
  assumes "repr s xs" "n \<noteq> NULL" "n \<notin> set xs"
  shows "fst (remfirst (addfirst n s)) = n \<and> repr (snd (remfirst (addfirst n s))) xs"
  using remfirst_ret [OF repr_addfirst [OF assms]] repr_remfirst [OF repr_addfirst [OF assms]]
  by simp

lemma lifo_end:
  assumes "repr s xs" "n \<noteq> NULL" "n \<notin> set xs"
  shows "fst (remlast (addlast n s)) = n \<and> repr (snd (remlast (addlast n s))) xs"
  using remlast_ret [OF repr_addlast [OF assms]] repr_remlast [OF repr_addlast [OF assms]]
  by simp

end

interpretation sq: fifo_queue sq_repr sq_addfirst sq_addlast sq_remfirst
  by unfold_locales
    (auto intro: sq_addfirst_repr sq_addlast_repr simp: sq_remfirst_repr)

interpretation dq: linked_deque dq_repr dq_addfirst dq_addlast dq_remfirst dq_remlast dq_rem
  by unfold_locales
    ((rule dq_addfirst_repr dq_addlast_repr dq_remfirst_repr dq_remlast_repr dq_rem_repr
        dq_repr_distinct; assumption)+)

section \<open>Properties\<close>

definition empty_queue :: "unit qstate" where
  "empty_queue = (\<lparr>flink = (\<lambda>_. NULL), blink = (\<lambda>_. NULL)\<rparr>, \<lparr>head = NULL, tail = NULL\<rparr>)"

lemma empty_queue_repr: "sq_repr empty_queue []" "dq_repr empty_queue []"
  by (simp_all add: empty_queue_def sq_repr_def dq_repr_def)

text \<open>The doubly linked queue is first-in first-out: nodes appended with \<open>dq_addlast\<close> to a
  queue holding \<open>xs\<close> come back from \<open>dq_remfirst\<close> after \<open>xs\<close> and in the order they were added.\<close>

lemma dq_fifo:
  assumes "dq_repr s xs" "distinct (xs @ ns)" "NULL \<notin> set ns"
  shows "fst (remove_n dq_remfirst (length xs + length ns) (fold dq_addlast ns s)) = xs @ ns"
  using assms by (rule dq.fifo)

lemma dq_fifo_witness:
  "fst (remove_n dq_remfirst 3 (fold dq_addlast [16, 48, 32] empty_queue)) = [16, 48, 32]"
  using dq_fifo [OF empty_queue_repr(2), of "[16, 48, 32]"]
  by (simp del: remove_n.simps add: numeral_3_eq_3)

text \<open>(C7) Every \<open>dq_*\<close> operation keeps the queue well linked in both directions and changes the
  sequence of nodes exactly as the list operation of its name: insertion at either end, after or
  before a given node, removal at either end or of a given node. This includes the empty queue, where
  the insertions make a queue of one node and the removals return NULL.\<close>

theorem dq_refines_list:
  assumes "dq_repr s xs" "n \<noteq> NULL" "n \<notin> set xs"
  shows "dq_repr (dq_addfirst n s) (n # xs) \<and> dq_repr (dq_addlast n s) (xs @ [n]) \<and>
    fst (dq_remfirst s) = (case xs of [] \<Rightarrow> NULL | x # _ \<Rightarrow> x) \<and> dq_repr (snd (dq_remfirst s)) (tl xs) \<and>
    fst (dq_remlast s) = (if xs = [] then NULL else last xs) \<and> dq_repr (snd (dq_remlast s)) (butlast xs) \<and>
    (xs = [] \<longrightarrow> dq_repr (dq_addafter p n s) [n] \<and> dq_repr (dq_addbefore p n s) [n]) \<and>
    (\<forall>us vs. xs = us @ p # vs \<longrightarrow> dq_repr (dq_addafter p n s) (us @ p # n # vs) \<and>
       dq_repr (dq_addbefore p n s) (us @ n # p # vs) \<and> dq_repr (dq_rem p s) (us @ vs))"
proof -
  have "dq_addafter p n s = dq_addlast n s" "dq_addbefore p n s = dq_addfirst n s" if "xs = []"
    using assms(1) that by (simp_all add: dq_repr_def dq_addafter_def dq_addbefore_def split_beta)
  then show ?thesis
    using assms dq_addfirst_repr [OF assms] dq_addlast_repr [OF assms] dq_remfirst_repr [OF assms(1)] dq_remlast_repr [OF assms(1)]
    by (auto simp: dq_addafter_repr dq_addbefore_repr dq_rem_repr split: list.splits)
qed

definition two_queue :: "unit qstate" where
  "two_queue = dq_addlast 32 (dq_addlast 16 empty_queue)"

lemma two_queue_repr: "dq_repr two_queue [16, 32]"
  unfolding two_queue_def
  using dq_addlast_repr [OF dq_addlast_repr [OF empty_queue_repr(2), of 16], of 32] by simp

theorem dq_refines_list_witness:
  "dq_repr (dq_addbefore 32 48 two_queue) [16, 48, 32] \<and> dq_repr (dq_rem 32 two_queue) [16] \<and>
   dq_repr (dq_addfirst 48 empty_queue) [48] \<and> fst (dq_remlast empty_queue) = NULL"
proof -
  have "\<forall>us vs. [16, 32] = us @ 32 # vs \<longrightarrow> dq_repr (dq_addafter 32 48 two_queue) (us @ 32 # 48 # vs) \<and>
      dq_repr (dq_addbefore 32 48 two_queue) (us @ 48 # 32 # vs) \<and> dq_repr (dq_rem 32 two_queue) (us @ vs)"
    using dq_refines_list [OF two_queue_repr, of 48 32] by simp
  from this [rule_format, of "[16]" "[]"] dq_refines_list [OF empty_queue_repr(2), of 48 0] show ?thesis by simp
qed

text \<open>Removing any node from a singly linked queue terminates and leaves the other nodes in
  order, whatever the node's position: the predecessor search of \<open>sq_rem\<close> always finds it.\<close>

lemma sq_rem_refines_list:
  assumes "sq_repr s xs" "n \<in> set xs"
  shows "\<exists>s'. sq_rem n s = Some s' \<and> sq_repr s' (remove1 n xs)"
proof -
  from assms(2) obtain us vs where xs: "xs = us @ n # vs" "n \<notin> set us"
    by (auto dest: split_list_first)
  with sq_rem_repr [of s us n vs] assms(1) show ?thesis
    by (simp add: remove1_append)
qed

lemma sq_rem_refines_list_witness:
  "\<exists>s'. sq_rem 32 (sq_addlast 32 (sq_addlast 16 empty_queue)) = Some s' \<and> sq_repr s' [16]"
proof -
  have "sq_repr (sq_addlast 32 (sq_addlast 16 empty_queue)) [16, 32]"
    using sq_addlast_repr [OF sq_addlast_repr [OF empty_queue_repr(1), of 16], of 32] by simp
  from sq_rem_refines_list [OF this, of 32] show ?thesis by simp
qed

end
