(* ===== verification/MM_Heap.thy ===== *)
theory MM_Heap
  imports Queue
begin

unbundle bit_operations_syntax

text \<open>
  The heap allocator of \<open>os/mm/mm_heap\<close>, in the configuration of \<open>sidk_s5jt200/tc\<close>
  (\<open>CONFIG_DEBUG_MM_HEAPINFO\<close>, \<open>CONFIG_DEBUG\<close>, one region, 32-bit \<open>size_t\<close>). This theory holds
  the translated operations; \<open>MM_Heap_Inv\<close> holds the invariant and the correctness proofs.

  Chunk headers live in the field-wise memory of \<open>mm_heap\<close>: \<open>csize\<close>, \<open>preceding\<close>, \<open>flink\<close> and
  \<open>blink\<close> are the header fields of the chunk at an address, \<open>payload\<close> holds the data bytes. The
  sentinel nodes \<open>mm_nodelist[i]\<close> are nodes of the same memory at consecutive addresses. An
  operation returns \<open>None\<close> when it does not return: a link walk that never ends, a failed
  \<open>DEBUGASSERT\<close>, or a wait on the heap semaphore while another task holds it. The debug fields
  \<open>alloc_call_addr\<close> and \<open>pid\<close> share their bytes with the links of a free node; they are separate
  fields here, since the links are only read while a node is free and the debug fields only
  while it is allocated.
\<close>

section \<open>Constants and state\<close>

definition MM_MIN_SHIFT :: nat where "MM_MIN_SHIFT = 4"
definition MM_MAX_SHIFT :: nat where "MM_MAX_SHIFT = 22"
definition MM_MIN_CHUNK :: nat where "MM_MIN_CHUNK = 2 ^ MM_MIN_SHIFT"
definition MM_MAX_CHUNK :: nat where "MM_MAX_CHUNK = 2 ^ MM_MAX_SHIFT"
definition MM_NNODES :: nat where "MM_NNODES = MM_MAX_SHIFT - MM_MIN_SHIFT + 1"
definition MM_GRAN_MASK :: u32 where "MM_GRAN_MASK = of_nat MM_MIN_CHUNK - 1"
definition MM_ALLOC_BIT :: nat where "MM_ALLOC_BIT = 0x80000000"
definition SIZEOF_MM_ALLOCNODE :: nat where "SIZEOF_MM_ALLOCNODE = 16"
definition SIZEOF_MM_FREENODE :: nat where "SIZEOF_MM_FREENODE = 16"

lemmas mm_consts = MM_MIN_SHIFT_def MM_MAX_SHIFT_def MM_MIN_CHUNK_def MM_MAX_CHUNK_def
  MM_NNODES_def MM_GRAN_MASK_def SIZEOF_MM_ALLOCNODE_def SIZEOF_MM_FREENODE_def

definition MM_ALIGN_UP :: "u32 \<Rightarrow> u32" where
  "MM_ALIGN_UP a = (a + MM_GRAN_MASK) AND NOT MM_GRAN_MASK"

definition MM_ALIGN_DOWN :: "u32 \<Rightarrow> u32" where
  "MM_ALIGN_DOWN a = a AND NOT MM_GRAN_MASK"

record tcb_heapinfo =
  tcb_curr_alloc_size :: int
  tcb_peak_alloc_size :: int
  tcb_num_alloc_free :: int

record mm_heap = links +
  csize :: "addr \<Rightarrow> nat"
  preceding :: "addr \<Rightarrow> nat"
  alloc_call_addr :: "addr \<Rightarrow> u32"
  node_pid :: "addr \<Rightarrow> int"
  payload :: "addr \<Rightarrow> u8"
  mm_heapsize :: nat
  mm_heapstart :: addr
  mm_heapend :: addr
  mm_nodelist :: addr
  mm_semaphore :: int
  mm_holder :: int
  mm_counts_held :: int
  total_alloc_size :: int
  peak_alloc_size :: int
  tcb_info :: "int \<Rightarrow> tcb_heapinfo option"

text \<open>What an operation reads of its caller: \<open>getpid()\<close>, \<open>up_interrupt_context()\<close> and the
  return address recorded for debugging.\<close>

record caller =
  getpid :: int
  up_interrupt_context :: bool
  caller_retaddr :: u32

abbreviation set_csize :: "addr \<Rightarrow> nat \<Rightarrow> mm_heap \<Rightarrow> mm_heap" where
  "set_csize p v h \<equiv> h\<lparr>csize := (csize h)(p := v)\<rparr>"

abbreviation set_preceding :: "addr \<Rightarrow> nat \<Rightarrow> mm_heap \<Rightarrow> mm_heap" where
  "set_preceding p v h \<equiv> h\<lparr>preceding := (preceding h)(p := v)\<rparr>"

text \<open>The address of \<open>heap->mm_nodelist[i]\<close>.\<close>

definition nodelist :: "mm_heap \<Rightarrow> nat \<Rightarrow> addr" where
  "nodelist h i = mm_nodelist h + SIZEOF_MM_FREENODE * i"

definition is_alloc :: "nat \<Rightarrow> bool" where
  "is_alloc p \<longleftrightarrow> p AND MM_ALLOC_BIT \<noteq> 0"

definition clear_alloc :: "nat \<Rightarrow> nat" where
  "clear_alloc p = p AND (MM_ALLOC_BIT - 1)"

section \<open>Heap bookkeeping (mm_heapinfo.c)\<close>

text \<open>The accounting fields are of type \<open>int\<close> in the code; the chunks of a heap add up to less than \<open>2 ^ 31\<close>
  bytes, so that the sums over allocated chunks do not overflow.\<close>

definition heapinfo_add_size :: "int \<Rightarrow> nat \<Rightarrow> mm_heap \<Rightarrow> mm_heap" where
  "heapinfo_add_size pid sz h =
     (case tcb_info h pid of
        None \<Rightarrow> h
      | Some t \<Rightarrow>
          (let t = t\<lparr>tcb_curr_alloc_size := tcb_curr_alloc_size t + int sz\<rparr>;
               t = t\<lparr>tcb_num_alloc_free := tcb_num_alloc_free t + 1\<rparr>;
               t = (if tcb_curr_alloc_size t > tcb_peak_alloc_size t
                    then t\<lparr>tcb_peak_alloc_size := tcb_curr_alloc_size t\<rparr> else t)
           in h\<lparr>tcb_info := (tcb_info h)(pid \<mapsto> t)\<rparr>))"

definition heapinfo_subtract_size :: "int \<Rightarrow> nat \<Rightarrow> mm_heap \<Rightarrow> mm_heap" where
  "heapinfo_subtract_size pid sz h =
     (case tcb_info h pid of
        None \<Rightarrow> h
      | Some t \<Rightarrow>
          (let t = t\<lparr>tcb_curr_alloc_size := tcb_curr_alloc_size t - int sz\<rparr>;
               t = t\<lparr>tcb_num_alloc_free := tcb_num_alloc_free t - 1\<rparr>
           in h\<lparr>tcb_info := (tcb_info h)(pid \<mapsto> t)\<rparr>))"

definition heapinfo_update_total_size :: "int \<Rightarrow> mm_heap \<Rightarrow> mm_heap" where
  "heapinfo_update_total_size sz h =
     (let h = h\<lparr>total_alloc_size := total_alloc_size h + sz\<rparr>
      in if total_alloc_size h > peak_alloc_size h
         then h\<lparr>peak_alloc_size := total_alloc_size h\<rparr> else h)"

definition heapinfo_update_node :: "caller \<Rightarrow> u32 \<Rightarrow> addr \<Rightarrow> mm_heap \<Rightarrow> mm_heap" where
  "heapinfo_update_node c retaddr node h =
     (let h = h\<lparr>alloc_call_addr := (alloc_call_addr h)(node := retaddr)\<rparr>
      in if up_interrupt_context c
         then h\<lparr>node_pid := (node_pid h)(node := -1)\<rparr>
         else h\<lparr>node_pid := (node_pid h)(node := getpid c)\<rparr>)"

text \<open>The bookkeeping blocks of the allocation paths: charge a chunk to its new owner, and credit it
  back before it changes.\<close>

definition heapinfo_charge :: "caller \<Rightarrow> addr \<Rightarrow> mm_heap \<Rightarrow> mm_heap" where
  "heapinfo_charge c node h =
     (let h = heapinfo_update_node c (caller_retaddr c) node h;
          h = heapinfo_add_size (node_pid h node) (csize h node) h
      in heapinfo_update_total_size (int (csize h node)) h)"

definition heapinfo_credit :: "addr \<Rightarrow> mm_heap \<Rightarrow> mm_heap" where
  "heapinfo_credit node h =
     (let h = heapinfo_subtract_size (node_pid h node) (csize h node) h
      in heapinfo_update_total_size (- int (csize h node)) h)"

section \<open>The heap semaphore (mm_sem.c)\<close>

definition mm_seminitialize :: "mm_heap \<Rightarrow> mm_heap" where
  "mm_seminitialize h = h\<lparr>mm_semaphore := 1, mm_holder := -1, mm_counts_held := 0\<rparr>"

text \<open>\<open>sem_trywait\<close> and the uncontended \<open>sem_wait\<close> on the heap's own semaphore decrement a
  positive count; a wait on a count that is not positive blocks. Both assert that they are not
  called from an interrupt handler.\<close>

definition mm_trysemaphore :: "caller \<Rightarrow> mm_heap \<Rightarrow> (bool \<times> mm_heap) option" where
  "mm_trysemaphore c h =
     (let my_pid = getpid c
      in if mm_holder h = my_pid then Some (True, h\<lparr>mm_counts_held := mm_counts_held h + 1\<rparr>)
         else do {
           debugassert (\<not> up_interrupt_context c);
           if mm_semaphore h > 0 then
             Some (True, h\<lparr>mm_semaphore := mm_semaphore h - 1, mm_holder := my_pid, mm_counts_held := 1\<rparr>)
           else Some (False, h)
         })"

definition mm_takesemaphore :: "caller \<Rightarrow> mm_heap \<Rightarrow> mm_heap option" where
  "mm_takesemaphore c h =
     (let my_pid = getpid c
      in if mm_holder h = my_pid then Some (h\<lparr>mm_counts_held := mm_counts_held h + 1\<rparr>)
         else do {
           debugassert (\<not> up_interrupt_context c);
           if mm_semaphore h > 0 then
             Some (h\<lparr>mm_semaphore := mm_semaphore h - 1, mm_holder := my_pid, mm_counts_held := 1\<rparr>)
           else None
         })"

definition mm_givesemaphore :: "int \<Rightarrow> mm_heap \<Rightarrow> mm_heap option" where
  "mm_givesemaphore my_pid h = do {
     debugassert (mm_holder h = my_pid);
     if mm_counts_held h > 1 then Some (h\<lparr>mm_counts_held := mm_counts_held h - 1\<rparr>)
     else Some (h\<lparr>mm_holder := -1, mm_counts_held := 0, mm_semaphore := mm_semaphore h + 1\<rparr>)
   }"

section \<open>The free list\<close>

fun size2ndx_loop :: "nat \<Rightarrow> nat \<Rightarrow> nat" where
  "size2ndx_loop sz ndx = (if sz > 1 then size2ndx_loop (sz div 2) (ndx + 1) else ndx)"

declare size2ndx_loop.simps [simp del]

definition mm_size2ndx :: "nat \<Rightarrow> nat" where
  "mm_size2ndx sz =
     (if sz \<ge> MM_MAX_CHUNK then MM_NNODES - 1
      else size2ndx_loop (drop_bit MM_MIN_SHIFT sz) 0)"

text \<open>The walk of \<open>mm_addfreechunk\<close>: stop at the end, at the next sentinel (size zero) or at the
  first node that is at least as large.\<close>

partial_function (option) addfree_walk ::
  "(addr \<Rightarrow> nat) \<Rightarrow> (addr \<Rightarrow> addr) \<Rightarrow> nat \<Rightarrow> addr \<Rightarrow> addr \<Rightarrow> (addr \<times> addr) option" where
  "addfree_walk csz fl sz prev nxt =
     (if nxt \<noteq> NULL \<and> csz nxt \<noteq> 0 \<and> csz nxt < sz
      then addfree_walk csz fl sz nxt (fl nxt) else Some (prev, nxt))"

definition mm_addfreechunk :: "addr \<Rightarrow> mm_heap \<Rightarrow> mm_heap option" where
  "mm_addfreechunk node h = do {
     let ndx = mm_size2ndx (csize h node);
     (prev, nxt) \<leftarrow> addfree_walk (csize h) (flink h) (csize h node)
       (nodelist h ndx) (flink h (nodelist h ndx));
     let h = set_flink prev node h;
     let h = set_blink node prev h;
     let h = set_flink node nxt h;
     if nxt \<noteq> NULL then Some (set_blink nxt node h) else Some h
   }"

text \<open>The removal of a node from the free list, with its assertion, as it stands in
  \<open>mm_malloc\<close>, \<open>mm_free\<close>, \<open>mm_shrinkchunk\<close> and \<open>mm_realloc\<close>.\<close>

definition mm_unlink :: "addr \<Rightarrow> mm_heap \<Rightarrow> mm_heap option" where
  "mm_unlink node h = do {
     debugassert (blink h node \<noteq> NULL);
     let h = set_flink (blink h node) (flink h node) h;
     if flink h node \<noteq> NULL then Some (set_blink (flink h node) (blink h node) h) else Some h
   }"

section \<open>Allocation (mm_malloc.c, mm_zalloc.c, mm_calloc.c)\<close>

partial_function (option) find_fit ::
  "(addr \<Rightarrow> nat) \<Rightarrow> (addr \<Rightarrow> addr) \<Rightarrow> nat \<Rightarrow> addr \<Rightarrow> addr option" where
  "find_fit csz fl sz node =
     (if node \<noteq> NULL \<and> csz node < sz then find_fit csz fl sz (fl node) else Some node)"

text \<open>The part of \<open>mm_malloc\<close> that splits the chunk it found when the rest can hold a free node.\<close>

definition mm_malloc_split :: "nat \<Rightarrow> addr \<Rightarrow> mm_heap \<Rightarrow> mm_heap option" where
  "mm_malloc_split sz node h =
     (let remaining = csize h node - sz
      in if remaining \<ge> SIZEOF_MM_FREENODE then
           (let nxt = node + csize h node;
                remainder = node + sz;
                h = set_csize remainder remaining h;
                h = set_preceding remainder sz h;
                h = set_csize node sz h;
                h = set_preceding nxt (remaining OR (preceding h nxt AND MM_ALLOC_BIT)) h
            in mm_addfreechunk remainder h)
         else Some h)"

text \<open>The part of \<open>mm_malloc\<close> that takes the chunk: unlink it, split it, mark it allocated and
  account for it.\<close>

definition mm_malloc_take :: "caller \<Rightarrow> nat \<Rightarrow> addr \<Rightarrow> mm_heap \<Rightarrow> (addr \<times> mm_heap) option" where
  "mm_malloc_take c sz node h = do {
     h \<leftarrow> mm_unlink node h;
     h \<leftarrow> mm_malloc_split sz node h;
     let h = set_preceding node (preceding h node OR MM_ALLOC_BIT) h;
     let h = heapinfo_charge c node h;
     Some (node + SIZEOF_MM_ALLOCNODE, h)
   }"

definition mm_malloc :: "caller \<Rightarrow> u32 \<Rightarrow> mm_heap \<Rightarrow> (addr \<times> mm_heap) option" where
  "mm_malloc c req h =
     (if req < 1 then Some (NULL, h)
      else do {
        let sz = unat (MM_ALIGN_UP (req + of_nat SIZEOF_MM_ALLOCNODE));
        h \<leftarrow> mm_takesemaphore c h;
        let ndx = (if sz \<ge> MM_MAX_CHUNK then MM_NNODES - 1 else mm_size2ndx sz);
        node \<leftarrow> find_fit (csize h) (flink h) sz (flink h (nodelist h ndx));
        (ret, h) \<leftarrow>
          (if node \<noteq> NULL then mm_malloc_take c sz node h else Some (NULL, h));
        h \<leftarrow> mm_givesemaphore (getpid c) h;
        Some (ret, h)
      })"

definition memset_payload :: "addr \<Rightarrow> u8 \<Rightarrow> nat \<Rightarrow> mm_heap \<Rightarrow> mm_heap" where
  "memset_payload p v n h =
     h\<lparr>payload := (\<lambda>a. if p \<le> a \<and> a < p + n then v else payload h a)\<rparr>"

definition mm_zalloc :: "caller \<Rightarrow> u32 \<Rightarrow> mm_heap \<Rightarrow> (addr \<times> mm_heap) option" where
  "mm_zalloc c sz h = do {
     (alloc, h) \<leftarrow> mm_malloc c sz h;
     if alloc \<noteq> NULL then Some (alloc, memset_payload alloc 0 (unat sz) h)
     else Some (alloc, h)
   }"

definition mm_calloc :: "caller \<Rightarrow> u32 \<Rightarrow> u32 \<Rightarrow> mm_heap \<Rightarrow> (addr \<times> mm_heap) option" where
  "mm_calloc c n elem_size h =
     (if n > 0 \<and> elem_size > 0 then mm_zalloc c (n * elem_size) h else Some (NULL, h))"

section \<open>Release (mm_free.c)\<close>

text \<open>Merge the node with the following one when that is free; returns the node after it.\<close>

definition mm_free_merge_next :: "addr \<Rightarrow> mm_heap \<Rightarrow> (addr \<times> mm_heap) option" where
  "mm_free_merge_next node h =
     (let nxt = node + csize h node
      in if \<not> is_alloc (preceding h nxt) then do {
           let andbeyond = nxt + csize h nxt;
           h \<leftarrow> mm_unlink nxt h;
           let h = set_csize node (csize h node + csize h nxt) h;
           let h = set_preceding andbeyond
             (csize h node OR (preceding h andbeyond AND MM_ALLOC_BIT)) h;
           Some (andbeyond, h)
         }
         else Some (nxt, h))"

text \<open>Merge the node into the preceding one when that is free; returns the merged node.\<close>

definition mm_free_merge_prev :: "addr \<Rightarrow> addr \<Rightarrow> mm_heap \<Rightarrow> (addr \<times> mm_heap) option" where
  "mm_free_merge_prev node nxt h =
     (let prev = node - preceding h node
      in if \<not> is_alloc (preceding h prev) then do {
           h \<leftarrow> mm_unlink prev h;
           let h = set_csize prev (csize h prev + csize h node) h;
           let h = set_preceding nxt (csize h prev OR (preceding h nxt AND MM_ALLOC_BIT)) h;
           Some (prev, h)
         }
         else Some (node, h))"

definition mm_free :: "caller \<Rightarrow> addr \<Rightarrow> mm_heap \<Rightarrow> mm_heap option" where
  "mm_free c mem h =
     (if mem = NULL then Some h
      else do {
        h \<leftarrow> mm_takesemaphore c h;
        let node = mem - SIZEOF_MM_ALLOCNODE;
        let h = (if is_alloc (preceding h node) then heapinfo_credit node h else h);
        let h = set_preceding node (clear_alloc (preceding h node)) h;
        (nxt, h) \<leftarrow> mm_free_merge_next node h;
        (node, h) \<leftarrow> mm_free_merge_prev node nxt h;
        h \<leftarrow> mm_addfreechunk node h;
        mm_givesemaphore (getpid c) h
      })"

section \<open>Regions (mm_initialize.c, mm_extend.c)\<close>

text \<open>The headers that \<open>mm_addregion\<close> writes: the two guards and the free node between them.\<close>

definition mm_region_headers :: "caller \<Rightarrow> u32 \<Rightarrow> u32 \<Rightarrow> mm_heap \<Rightarrow> addr \<times> mm_heap" where
  "mm_region_headers c heapstart heapsize h =
     (let base = MM_ALIGN_UP heapstart;
          heapend = MM_ALIGN_DOWN (heapstart + heapsize);
          heapsize = heapend - base;
          h = h\<lparr>mm_heapsize := mm_heapsize h + unat heapsize\<rparr>;
          h = h\<lparr>mm_heapstart := unat base\<rparr>;
          h = set_csize (mm_heapstart h) SIZEOF_MM_ALLOCNODE h;
          h = set_preceding (mm_heapstart h) MM_ALLOC_BIT h;
          h = heapinfo_update_node c 0xDEAD (mm_heapstart h) h;
          node = unat base + SIZEOF_MM_ALLOCNODE;
          h = set_csize node (unat (heapsize - of_nat (2 * SIZEOF_MM_ALLOCNODE))) h;
          h = set_preceding node SIZEOF_MM_ALLOCNODE h;
          h = h\<lparr>mm_heapend := unat heapend - SIZEOF_MM_ALLOCNODE\<rparr>;
          h = set_csize (mm_heapend h) SIZEOF_MM_ALLOCNODE h;
          h = set_preceding (mm_heapend h) (csize h node OR MM_ALLOC_BIT) h;
          h = heapinfo_update_node c 0xDEADDEAD (mm_heapend h) h
      in (node, h))"

definition mm_addregion :: "caller \<Rightarrow> u32 \<Rightarrow> u32 \<Rightarrow> mm_heap \<Rightarrow> mm_heap option" where
  "mm_addregion c heapstart heapsize h =
     (let (node, h) = mm_region_headers c heapstart heapsize h in mm_addfreechunk node h)"

text \<open>\<open>nodelist_init\<close> is the loop that chains the sentinels after the \<open>memset\<close>.\<close>

definition nodelist_init :: "mm_heap \<Rightarrow> mm_heap" where
  "nodelist_init h =
     (let h = fold (\<lambda>i h. set_csize (nodelist h i) 0 (set_preceding (nodelist h i) 0
            (set_flink (nodelist h i) NULL (set_blink (nodelist h i) NULL h)))) [0..<MM_NNODES] h
      in fold (\<lambda>i h. set_blink (nodelist h i) (nodelist h (i - 1))
            (set_flink (nodelist h (i - 1)) (nodelist h i) h)) [1..<MM_NNODES] h)"

definition mm_initialize :: "caller \<Rightarrow> u32 \<Rightarrow> u32 \<Rightarrow> mm_heap \<Rightarrow> mm_heap option" where
  "mm_initialize c heapstart heapsize h =
     (let h = h\<lparr>mm_heapsize := 0\<rparr>;
          h = nodelist_init h;
          h = mm_seminitialize h
      in mm_addregion c heapstart heapsize h)"

definition MIN_EXTEND :: nat where "MIN_EXTEND = 2 * SIZEOF_MM_ALLOCNODE"

definition mm_extend :: "caller \<Rightarrow> u32 \<Rightarrow> u32 \<Rightarrow> int \<Rightarrow> mm_heap \<Rightarrow> mm_heap option" where
  "mm_extend c mem sz region h = do {
     debugassert (mem \<noteq> 0);
     debugassert (unat sz \<ge> MIN_EXTEND \<and> region = 0);
     let blockstart = mem;
     let blockend = blockstart + sz;
     debugassert (MM_ALIGN_UP blockstart = blockstart);
     debugassert (MM_ALIGN_DOWN blockend = blockend);
     h \<leftarrow> mm_takesemaphore c h;
     let oldnode = mm_heapend h;
     debugassert (oldnode + SIZEOF_MM_ALLOCNODE = unat mem);
     let h = set_csize oldnode (unat sz) h;
     debugassert (is_alloc (preceding h oldnode));
     let newnode = unat blockend - SIZEOF_MM_ALLOCNODE;
     let h = set_csize newnode SIZEOF_MM_ALLOCNODE h;
     let h = set_preceding newnode (csize h oldnode OR MM_ALLOC_BIT) h;
     let h = h\<lparr>mm_heapend := newnode\<rparr>;
     h \<leftarrow> mm_givesemaphore (getpid c) h;
     mm_free c (unat mem) h
   }"

section \<open>Heap information (mm_mallinfo.c)\<close>

record mallinfo =
  arena :: nat
  ordblks :: nat
  mxordblk :: nat
  uordblks :: nat
  fordblks :: nat

partial_function (option) mallinfo_walk ::
  "(addr \<Rightarrow> nat) \<Rightarrow> (addr \<Rightarrow> nat) \<Rightarrow> addr \<Rightarrow> addr \<Rightarrow> mallinfo \<Rightarrow> (addr \<times> mallinfo) option" where
  "mallinfo_walk csz pr heapend node mi =
     (if node < heapend
      then mallinfo_walk csz pr heapend (node + csz node)
        (if is_alloc (pr node) then mi\<lparr>uordblks := uordblks mi + csz node\<rparr>
         else mi\<lparr>ordblks := ordblks mi + 1, fordblks := fordblks mi + csz node,
           mxordblk := (if csz node > mxordblk mi then csz node else mxordblk mi)\<rparr>)
      else Some (node, mi))"

definition mm_mallinfo :: "caller \<Rightarrow> mm_heap \<Rightarrow> (mallinfo \<times> mm_heap) option" where
  "mm_mallinfo c h = do {
     h \<leftarrow> mm_takesemaphore c h;
     (node, mi) \<leftarrow> mallinfo_walk (csize h) (preceding h) (mm_heapend h) (mm_heapstart h)
       \<lparr>arena = 0, ordblks = 0, mxordblk = 0, uordblks = 0, fordblks = 0\<rparr>;
     h \<leftarrow> mm_givesemaphore (getpid c) h;
     debugassert (node = mm_heapend h);
     let mi = mi\<lparr>uordblks := uordblks mi + SIZEOF_MM_ALLOCNODE\<rparr>;
     debugassert (uordblks mi + fordblks mi = mm_heapsize h);
     Some (mi\<lparr>arena := mm_heapsize h\<rparr>, h)
   }"

section \<open>Resizing (mm_shrinkchunk.c, mm_memalign.c, mm_realloc.c)\<close>

definition mm_shrinkchunk :: "addr \<Rightarrow> nat \<Rightarrow> mm_heap \<Rightarrow> mm_heap option" where
  "mm_shrinkchunk node sz h =
     (let nxt = node + csize h node
      in if \<not> is_alloc (preceding h nxt) then do {
           let andbeyond = nxt + csize h nxt;
           h \<leftarrow> mm_unlink nxt h;
           let newnode = node + sz;
           let h = set_csize newnode (csize h nxt + csize h node - sz) h;
           let h = set_preceding newnode sz h;
           let h = set_csize node sz h;
           let h = set_preceding andbeyond
             (csize h newnode OR (preceding h andbeyond AND MM_ALLOC_BIT)) h;
           mm_addfreechunk newnode h
         }
         else if csize h node \<ge> sz + SIZEOF_MM_FREENODE then
           (let newnode = node + sz;
                h = set_csize newnode (csize h node - sz) h;
                h = set_preceding newnode sz h;
                h = set_csize node sz h;
                h = set_preceding nxt (csize h newnode OR MM_ALLOC_BIT) h
            in mm_addfreechunk newnode h)
         else Some h)"

text \<open>The part of \<open>mm_memalign\<close> that gives back the space before the aligned chunk; it returns
  the aligned address, the node and the usable size.\<close>

definition mm_memalign_lead ::
  "u32 \<Rightarrow> addr \<Rightarrow> addr \<Rightarrow> addr \<Rightarrow> mm_heap \<Rightarrow> (addr \<times> addr \<times> nat \<times> mm_heap) option" where
  "mm_memalign_lead alignment rawchunk alignedchunk node h = do {
     let nxt = node + csize h node;
     debugassert (alignedchunk \<ge> rawchunk + 8);
     let newnode = alignedchunk - SIZEOF_MM_ALLOCNODE;
     let precedingsize = newnode - node;
     let (alignedchunk, newnode, precedingsize) =
       (if precedingsize < SIZEOF_MM_FREENODE
        then (alignedchunk + unat alignment,
          alignedchunk + unat alignment - SIZEOF_MM_ALLOCNODE,
          alignedchunk + unat alignment - SIZEOF_MM_ALLOCNODE - node)
        else (alignedchunk, newnode, precedingsize));
     let h = set_csize newnode (nxt - newnode) h;
     let h = set_preceding newnode (precedingsize OR MM_ALLOC_BIT) h;
     let h = set_csize node precedingsize h;
     let h = set_preceding node (clear_alloc (preceding h node)) h;
     let h = set_preceding nxt (csize h newnode OR (preceding h nxt AND MM_ALLOC_BIT)) h;
     let allocsize = csize h newnode - SIZEOF_MM_ALLOCNODE;
     h \<leftarrow> mm_addfreechunk node h;
     Some (alignedchunk, newnode, allocsize, h)
   }"

definition mm_memalign :: "caller \<Rightarrow> u32 \<Rightarrow> u32 \<Rightarrow> mm_heap \<Rightarrow> (addr \<times> mm_heap) option" where
  "mm_memalign c alignment req h =
     (let msk = alignment - 1
      in if unat alignment \<le> MM_MIN_CHUNK then mm_malloc c req h
         else do {
           let sz = MM_ALIGN_UP req;
           let allocsize = sz + 2 * alignment;
           (rawchunk, h) \<leftarrow> mm_malloc c allocsize h;
           if rawchunk = NULL then Some (NULL, h)
           else do {
             h \<leftarrow> mm_takesemaphore c h;
             let node = rawchunk - SIZEOF_MM_ALLOCNODE;
             let h = heapinfo_credit node h;
             let alignedchunk = unat ((of_nat rawchunk + msk) AND NOT msk);
             (alignedchunk, node, allocsize, h) \<leftarrow>
               (if alignedchunk \<noteq> rawchunk
                then mm_memalign_lead alignment rawchunk alignedchunk node h
                else Some (alignedchunk, node, unat allocsize, h));
             h \<leftarrow> (if allocsize > unat sz
                   then mm_shrinkchunk node (unat sz + SIZEOF_MM_ALLOCNODE) h else Some h);
             let h = heapinfo_charge c node h;
             h \<leftarrow> mm_givesemaphore (getpid c) h;
             Some (alignedchunk, h)
           }
         })"

text \<open>The loop of \<open>memcpy\<close> (lib_memcpy.c): one byte at a time, in ascending order. \<open>mm_realloc\<close> copies the
  size of a chunk with its header, so it reads up to the header of a following chunk; \<open>payload\<close> holds
  arbitrary bytes there, and what is copied from there lies behind the data of the old block.\<close>

fun memcpy_loop :: "addr \<Rightarrow> addr \<Rightarrow> nat \<Rightarrow> (addr \<Rightarrow> u8) \<Rightarrow> (addr \<Rightarrow> u8)" where
  "memcpy_loop pout pin 0 m = m"
| "memcpy_loop pout pin (Suc n) m = memcpy_loop (pout + 1) (pin + 1) n (m(pout := m pin))"

definition memcpy_payload :: "addr \<Rightarrow> addr \<Rightarrow> nat \<Rightarrow> mm_heap \<Rightarrow> mm_heap" where
  "memcpy_payload dst src n h = h\<lparr>payload := memcpy_loop dst src n (payload h)\<rparr>"

text \<open>How much \<open>mm_realloc\<close> takes from the previous and from the next chunk.\<close>

definition realloc_takes :: "nat \<Rightarrow> nat \<Rightarrow> nat \<Rightarrow> nat \<times> nat" where
  "realloc_takes needed prevsize nextsize =
     (let (takeprev, takenext, needed) =
        (if prevsize > 0 \<and> (nextsize \<ge> prevsize \<or> nextsize < 1)
         then if needed > prevsize then (prevsize, needed - prevsize, 0) else (needed, 0, 0)
         else (0, 0, needed))
      in if nextsize > 0 \<and> needed \<noteq> 0
         then if needed > nextsize then (needed - nextsize, nextsize) else (0, needed)
         else (takeprev, takenext))"

text \<open>Extend into the previous free chunk: returns the new node and the new data address.\<close>

definition realloc_prev ::
  "addr \<Rightarrow> addr \<Rightarrow> addr \<Rightarrow> addr \<Rightarrow> nat \<Rightarrow> nat \<Rightarrow> nat \<Rightarrow> mm_heap \<Rightarrow> (addr \<times> addr \<times> mm_heap) option" where
  "realloc_prev oldmem oldnode prev nxt oldsize prevsize takeprev h = do {
     h \<leftarrow> mm_unlink prev h;
     (newnode, h) \<leftarrow>
       (if prevsize - takeprev \<ge> SIZEOF_MM_FREENODE then do {
          let newnode = oldnode - takeprev;
          let h = set_csize prev (csize h prev - takeprev) h;
          let h = set_csize newnode (oldsize + takeprev) h;
          let h = set_preceding newnode (csize h prev OR MM_ALLOC_BIT) h;
          let h = set_preceding nxt (csize h newnode OR (preceding h nxt AND MM_ALLOC_BIT)) h;
          h \<leftarrow> mm_addfreechunk prev h;
          Some (newnode, h)
        } else do {
          let takeprev = csize h prev;
          let newnode = oldnode - takeprev;
          let h = set_csize newnode (csize h newnode + oldsize) h;
          let h = set_preceding newnode (preceding h newnode OR MM_ALLOC_BIT) h;
          let h = set_preceding nxt (csize h newnode OR (preceding h nxt AND MM_ALLOC_BIT)) h;
          Some (newnode, h)
        });
     let newmem = newnode + SIZEOF_MM_ALLOCNODE;
     let h = memcpy_payload newmem oldmem (csize h newnode - SIZEOF_MM_ALLOCNODE) h;
     Some (newmem, newnode, h)
   }"

text \<open>Extend into the next free chunk.\<close>

definition realloc_next ::
  "addr \<Rightarrow> addr \<Rightarrow> nat \<Rightarrow> nat \<Rightarrow> nat \<Rightarrow> mm_heap \<Rightarrow> mm_heap option" where
  "realloc_next oldnode nxt oldsize nextsize takenext h = do {
     let andbeyond = nxt + nextsize;
     h \<leftarrow> mm_unlink nxt h;
     if nextsize - takenext \<ge> SIZEOF_MM_FREENODE then do {
       let h = set_csize oldnode (oldsize + takenext) h;
       let newnode = oldnode + csize h oldnode;
       let h = set_csize newnode (nextsize - takenext) h;
       let h = set_preceding newnode (csize h oldnode) h;
       let h = set_preceding andbeyond
         (csize h newnode OR (preceding h andbeyond AND MM_ALLOC_BIT)) h;
       mm_addfreechunk newnode h
     } else do {
       let takenext = nextsize;
       let h = set_csize oldnode (oldsize + takenext) h;
       let h = set_preceding andbeyond
         (csize h oldnode OR (preceding h andbeyond AND MM_ALLOC_BIT)) h;
       Some h
     }
   }"

text \<open>The growth of a chunk in place, into its free neighbours.\<close>

definition realloc_grow ::
  "caller \<Rightarrow> addr \<Rightarrow> addr \<Rightarrow> addr \<Rightarrow> addr \<Rightarrow> nat \<Rightarrow> nat \<Rightarrow> nat \<Rightarrow> nat \<Rightarrow> mm_heap
     \<Rightarrow> (addr \<times> mm_heap) option" where
  "realloc_grow c oldmem oldnode prev nxt sz oldsize prevsize nextsize h = do {
     let (takeprev, takenext) = realloc_takes (sz - oldsize) prevsize nextsize;
     let h = heapinfo_credit oldnode h;
     (newmem, oldnode, oldsize, h) \<leftarrow>
       (if takeprev \<noteq> 0 then do {
          (newmem, newnode, h) \<leftarrow> realloc_prev oldmem oldnode prev nxt oldsize prevsize takeprev h;
          Some (newmem, newnode, csize h newnode, h)
        } else Some (oldmem, oldnode, oldsize, h));
     h \<leftarrow> (if takenext \<noteq> 0 then realloc_next oldnode nxt oldsize nextsize takenext h else Some h);
     let h = heapinfo_charge c oldnode h;
     h \<leftarrow> mm_givesemaphore (getpid c) h;
     Some (newmem, h)
   }"

definition mm_realloc :: "caller \<Rightarrow> addr \<Rightarrow> u32 \<Rightarrow> mm_heap \<Rightarrow> (addr \<times> mm_heap) option" where
  "mm_realloc c oldmem req h =
     (if oldmem = NULL then mm_malloc c req h
      else if req < 1 then do { h \<leftarrow> mm_free c oldmem h; Some (NULL, h) }
      else do {
        let size32 = MM_ALIGN_UP (req + of_nat SIZEOF_MM_ALLOCNODE);
        let sz = unat size32;
        let oldnode = oldmem - SIZEOF_MM_ALLOCNODE;
        h \<leftarrow> mm_takesemaphore c h;
        let oldsize = csize h oldnode;
        if sz \<le> oldsize then do {
          h \<leftarrow> (if sz < oldsize then do {
                  let h = heapinfo_credit oldnode h;
                  h \<leftarrow> mm_shrinkchunk oldnode sz h;
                  Some (heapinfo_charge c oldnode h)
                } else Some h);
          h \<leftarrow> mm_givesemaphore (getpid c) h;
          Some (oldmem, h)
        } else do {
          let nxt = oldnode + csize h oldnode;
          let nextsize = (if \<not> is_alloc (preceding h nxt) then csize h nxt else 0);
          let prev = oldnode - clear_alloc (preceding h oldnode);
          let prevsize = (if \<not> is_alloc (preceding h prev) then csize h prev else 0);
          if nextsize + prevsize + oldsize \<ge> sz
          then realloc_grow c oldmem oldnode prev nxt sz oldsize prevsize nextsize h
          else do {
            h \<leftarrow> mm_givesemaphore (getpid c) h;
            (newmem, h) \<leftarrow> mm_malloc c size32 h;
            if newmem \<noteq> NULL then do {
              let h = memcpy_payload newmem oldmem oldsize h;
              h \<leftarrow> mm_free c oldmem h;
              Some (newmem, h)
            } else Some (newmem, h)
          }
        }
      })"

end
