(* ===== verification/MM_Heap_Inv.thy ===== *)
theory MM_Heap_Inv
  imports MM_Heap
begin

unbundle bit_operations_syntax

text \<open>
  The invariant of the heap allocator and the steps its operations are made of.
  \<open>layout\<close> says that the headers tile the region as a list of (size, allocated) chunks, with
  every \<open>preceding\<close> field right; \<open>freelist\<close> says that one doubly linked chain runs through the
  sentinels and the free chunks, each bucket sorted by size. \<open>mm_wf\<close> puts them together with
  the guard chunks and the rule that no two free chunks are neighbours. The \<open>part_*\<close> lemmas
  give the effect of unlinking, splitting, marking, merging and adding a chunk; the operations
  of \<open>MM_Heap\<close> are compositions of these.
\<close>

section \<open>The allocation bit\<close>

definition prec :: "nat \<Rightarrow> bool \<Rightarrow> nat" where
  "prec p b = (if b then p OR MM_ALLOC_BIT else p)"

lemma alloc_bit_exp: "MM_ALLOC_BIT = 2 ^ 31"
  by (simp add: MM_ALLOC_BIT_def)

lemma bit_alloc [simp]: "bit MM_ALLOC_BIT n \<longleftrightarrow> n = 31"
  unfolding alloc_bit_exp bit_exp_iff by auto

lemma small_bit: "p < 2 ^ 31 \<Longrightarrow> bit p n \<Longrightarrow> n < 31" for p :: nat
  by (metis bit_take_bit_iff take_bit_nat_eq_self_iff)

lemma prec_and_alloc [flag_simps]:
  assumes "p < 2 ^ 31"
  shows "prec p b AND MM_ALLOC_BIT = (if b then MM_ALLOC_BIT else 0)"
  by (rule bit_eqI) (auto simp: prec_def bit_simps dest: small_bit [OF assms])

lemma is_alloc_prec [flag_simps]: "p < 2 ^ 31 \<Longrightarrow> is_alloc (prec p b) = b"
  by (simp add: is_alloc_def prec_and_alloc) (simp add: alloc_bit_exp)

lemma clear_alloc_prec [flag_simps]:
  assumes "p < 2 ^ 31"
  shows "clear_alloc (prec p b) = p"
proof -
  have "clear_alloc (prec p b) = take_bit 31 (prec p b)"
    by (simp add: clear_alloc_def alloc_bit_exp take_bit_eq_mask mask_eq_exp_minus_1)
  also have "\<dots> = p"
    by (rule bit_eqI) (auto simp: prec_def bit_simps dest: small_bit [OF assms])
  finally show ?thesis .
qed

lemma or_keep_alloc [flag_simps]:
  assumes "p < 2 ^ 31"
  shows "n OR (prec p b AND MM_ALLOC_BIT) = prec n b"
  unfolding prec_and_alloc [OF assms] by (simp add: prec_def)

lemma prec_or_alloc [flag_simps]: "prec p b OR MM_ALLOC_BIT = prec p True"
  by (rule bit_eqI) (auto simp: prec_def bit_simps)

lemma or_alloc_prec [flag_simps]: "p OR MM_ALLOC_BIT = prec p True"
  by (simp add: prec_def)

lemma prec_False [flag_simps]: "prec p False = p"
  by (simp add: prec_def)

section \<open>Size classes\<close>

lemma size2ndx_loop_acc: "size2ndx_loop s k = k + size2ndx_loop s 0"
proof (induction s arbitrary: k rule: less_induct)
  case (less s)
  show ?case
  proof (cases "s > 1")
    case True
    then have "size2ndx_loop (s div 2) (k + 1) = k + 1 + size2ndx_loop (s div 2) 0"
      "size2ndx_loop (s div 2) (0 + 1) = 0 + 1 + size2ndx_loop (s div 2) 0"
      by (intro less.IH; simp)+
    with True show ?thesis by (subst (1 2) size2ndx_loop.simps) simp
  next
    case False
    then show ?thesis by (subst (1 2) size2ndx_loop.simps) simp
  qed
qed

lemma size2ndx_loop_half: "s > 1 \<Longrightarrow> size2ndx_loop s 0 = Suc (size2ndx_loop (s div 2) 0)"
proof -
  assume "s > 1"
  then have "size2ndx_loop s 0 = size2ndx_loop (s div 2) 1"
    by (subst size2ndx_loop.simps) simp
  also have "\<dots> = Suc (size2ndx_loop (s div 2) 0)"
    by (subst size2ndx_loop_acc) simp
  finally show ?thesis .
qed

lemma size2ndx_loop_one: "size2ndx_loop 1 0 = 0"
  by (subst size2ndx_loop.simps) simp

lemma size2ndx_loop_floor:
  assumes "s > 0"
  shows "2 ^ size2ndx_loop s 0 \<le> s \<and> s < 2 ^ Suc (size2ndx_loop s 0)"
  using assms
proof (induction s rule: less_induct)
  case (less s)
  show ?case
  proof (cases "s > 1")
    case True
    define p :: nat where "p = 2 ^ size2ndx_loop (s div 2) 0"
    have "p \<le> s div 2 \<and> s div 2 < 2 * p"
      using True less.IH [of "s div 2"] by (simp add: p_def)
    then have "2 * p \<le> s \<and> s < 4 * p" by presburger
    then show ?thesis by (simp add: size2ndx_loop_half [OF True] p_def)
  next
    case False
    with less.prems have "s = 1" by simp
    then show ?thesis using size2ndx_loop_one by simp
  qed
qed

lemma pow2_between_unique:
  fixes s :: nat
  assumes "2 ^ i \<le> s" "s < 2 ^ Suc i" "2 ^ j \<le> t" "t < 2 ^ Suc j" "s \<le> t"
  shows "i \<le> j"
proof (rule ccontr)
  assume "\<not> i \<le> j"
  then have "(2::nat) ^ Suc j \<le> 2 ^ i" by (intro power_increasing) auto
  with assms show False by linarith
qed

lemma mm_size2ndx_less: "16 \<le> s \<Longrightarrow> mm_size2ndx s < MM_NNODES"
proof -
  assume s: "16 \<le> s"
  show ?thesis
  proof (cases "s \<ge> MM_MAX_CHUNK")
    case True
    then show ?thesis by (simp add: mm_size2ndx_def mm_consts)
  next
    case False
    let ?k = "size2ndx_loop (s div 16) 0"
    have "2 ^ ?k \<le> s div 16" "s div 16 < 2 ^ 18"
      using s False size2ndx_loop_floor [of "s div 16"] by (auto simp: mm_consts)
    then have "(2::nat) ^ ?k < 2 ^ 18" by linarith
    then have "?k < 18" by (rule power_less_imp_less_exp [of "2::nat", rotated]) simp
    then show ?thesis using False by (simp add: mm_size2ndx_def mm_consts drop_bit_eq_div)
  qed
qed

lemma mm_size2ndx_mono: "16 \<le> s \<Longrightarrow> s \<le> t \<Longrightarrow> mm_size2ndx s \<le> mm_size2ndx t"
proof -
  assume s: "16 \<le> s" "s \<le> t"
  show ?thesis
  proof (cases "t \<ge> MM_MAX_CHUNK")
    case True
    then show ?thesis using mm_size2ndx_less [of s] s by (simp add: mm_size2ndx_def [of t])
  next
    case False
    have pos: "0 < s div 16" "0 < t div 16" "s div 16 \<le> t div 16"
      using s by (auto simp: div_greater_zero_iff div_le_mono)
    have "size2ndx_loop (s div 16) 0 \<le> size2ndx_loop (t div 16) 0"
      using size2ndx_loop_floor [OF pos(1)] size2ndx_loop_floor [OF pos(2)] pos(3)
      by (blast intro: pow2_between_unique)
    then show ?thesis using False s by (simp add: mm_size2ndx_def mm_consts drop_bit_eq_div)
  qed
qed

section \<open>The physical layout of the region\<close>

type_synonym chunk = "nat \<times> bool"

abbreviation extent :: "chunk list \<Rightarrow> nat" where
  "extent ks \<equiv> sum_list (map fst ks)"

fun layout :: "(addr \<Rightarrow> nat) \<Rightarrow> (addr \<Rightarrow> nat) \<Rightarrow> addr \<Rightarrow> nat \<Rightarrow> chunk list \<Rightarrow> bool" where
  "layout cs pr a p [] = True"
| "layout cs pr a p ((n, b) # ks) =
     (cs a = n \<and> pr a = prec p b \<and> 16 dvd n \<and> 16 \<le> n \<and> layout cs pr (a + n) n ks)"

lemma layout_append:
  "layout cs pr a p (us @ vs) \<longleftrightarrow>
     layout cs pr a p us \<and> layout cs pr (a + extent us) (last (p # map fst us)) vs"
  by (induction us arbitrary: a p) (auto simp: add.assoc)

lemma layout_frame_cs:
  "x < a \<or> a + extent ks \<le> x \<Longrightarrow> layout (cs(x := v)) pr a p ks = layout cs pr a p ks"
proof (induction ks arbitrary: a p)
  case (Cons k ks)
  obtain n b where k: "k = (n, b)" by (cases k)
  show ?case
  proof (cases "16 \<le> n")
    case True
    with Cons.prems have "x \<noteq> a" "x < a + n \<or> a + n + extent ks \<le> x" by (auto simp: k)
    with Cons.IH [of "a + n" n] k show ?thesis by auto
  next
    case False
    then show ?thesis by (auto simp: k)
  qed
qed simp

lemma layout_frame_pr:
  "x < a \<or> a + extent ks \<le> x \<Longrightarrow> layout cs (pr(x := v)) a p ks = layout cs pr a p ks"
proof (induction ks arbitrary: a p)
  case (Cons k ks)
  obtain n b where k: "k = (n, b)" by (cases k)
  show ?case
  proof (cases "16 \<le> n")
    case True
    with Cons.prems have "x \<noteq> a" "x < a + n \<or> a + n + extent ks \<le> x" by (auto simp: k)
    with Cons.IH [of "a + n" n] k show ?thesis by auto
  next
    case False
    then show ?thesis by (auto simp: k)
  qed
qed simp

lemma layout_sizes: "layout cs pr a p ks \<Longrightarrow> (n, b) \<in> set ks \<Longrightarrow> 16 \<le> n \<and> 16 dvd n"
  by (induction cs pr a p ks rule: layout.induct) auto

lemma layout_total_dvd: "layout cs pr a p ks \<Longrightarrow> 16 dvd extent ks"
  by (induction cs pr a p ks rule: layout.induct) auto

fun frees :: "addr \<Rightarrow> chunk list \<Rightarrow> addr list" where
  "frees a [] = []"
| "frees a ((n, b) # ks) = (if b then frees (a + n) ks else a # frees (a + n) ks)"

lemma frees_append [simp]: "frees a (us @ vs) = frees a us @ frees (a + extent us) vs"
  by (induction a us rule: frees.induct) (auto simp: add.assoc)

lemma frees_range:
  "x \<in> set (frees a ks) \<Longrightarrow> layout cs pr a p ks \<Longrightarrow> a \<le> x \<and> x < a + extent ks"
proof (induction a ks arbitrary: p rule: frees.induct)
  case (2 a n b ks)
  then show ?case by (cases b) fastforce+
qed simp

lemma frees_split:
  "x \<in> set (frees a ks) \<Longrightarrow> \<exists>us n vs. ks = us @ (n, False) # vs \<and> x = a + extent us"
proof (induction a ks rule: frees.induct)
  case (2 a n b ks)
  show ?case
  proof (cases "\<not> b \<and> x = a")
    case True
    then show ?thesis by (intro exI [of _ "[]"]) auto
  next
    case False
    with 2 obtain us m vs where "ks = us @ (m, False) # vs" "x = a + n + extent us"
      by (auto split: if_splits)
    then show ?thesis by (intro exI [of _ "(n, b) # us"]) auto
  qed
qed simp

section \<open>The free list\<close>

definition flat_range :: "addr \<Rightarrow> (nat \<Rightarrow> addr list) \<Rightarrow> nat list \<Rightarrow> addr list" where
  "flat_range nl bk js = concat (map (\<lambda>i. (nl + 16 * i) # bk i) js)"

abbreviation flat :: "addr \<Rightarrow> (nat \<Rightarrow> addr list) \<Rightarrow> addr list" where
  "flat nl bk \<equiv> flat_range nl bk [0..<MM_NNODES]"

definition sents :: "addr \<Rightarrow> addr set" where
  "sents nl = (\<lambda>i. nl + 16 * i) ` {..<MM_NNODES}"

lemma nodelist_eq: "nodelist h i = mm_nodelist h + 16 * i"
  by (simp add: nodelist_def SIZEOF_MM_FREENODE_def)

lemma flat_range_upd [simp]:
  "i \<notin> set js \<Longrightarrow> flat_range nl (bk(i := x)) js = flat_range nl bk js"
  by (auto simp: flat_range_def intro!: arg_cong [of _ _ concat])

lemma flat_split:
  assumes "i < MM_NNODES"
  shows "flat nl bk =
    flat_range nl bk [0..<i] @ (nl + 16 * i) # bk i @ flat_range nl bk [Suc i..<MM_NNODES]"
proof -
  have "[0..<MM_NNODES] = [0..<i] @ i # [Suc i..<MM_NNODES]"
    using assms by (metis le_add1 less_imp_add_positive upt_add_eq_append upt_conv_Cons add_0)
  then show ?thesis by (simp add: flat_range_def)
qed

lemma set_flat: "set (flat nl bk) = sents nl \<union> (\<Union>i<MM_NNODES. set (bk i))"
  by (auto simp: flat_range_def sents_def)

definition bucket_ok :: "(addr \<Rightarrow> nat) \<Rightarrow> nat \<Rightarrow> addr list \<Rightarrow> bool" where
  "bucket_ok cs i ns \<longleftrightarrow>
     sorted (map cs ns) \<and> (\<forall>c \<in> set ns. 16 \<le> cs c \<and> mm_size2ndx (cs c) = i)"

definition freelist :: "mm_heap \<Rightarrow> (nat \<Rightarrow> addr list) \<Rightarrow> addr set \<Rightarrow> bool" where
  "freelist h bk F \<longleftrightarrow>
     dlist (flink h) (blink h) NULL (flat (mm_nodelist h) bk) NULL \<and>
     distinct (flat (mm_nodelist h) bk) \<and>
     (\<forall>s \<in> sents (mm_nodelist h). csize h s = 0) \<and>
     (\<forall>i < MM_NNODES. bucket_ok (csize h) i (bk i)) \<and>
     (\<Union>i<MM_NNODES. set (bk i)) = F"

lemma freelist_mem: "freelist h bk F \<Longrightarrow> x \<in> F \<Longrightarrow>
  16 \<le> csize h x \<and> mm_size2ndx (csize h x) < MM_NNODES \<and> x \<in> set (bk (mm_size2ndx (csize h x)))"
  by (fastforce simp: freelist_def bucket_ok_def)

lemma freelist_cong:
  assumes "flink h' = flink h" "blink h' = blink h" "mm_nodelist h' = mm_nodelist h"
    "\<And>x. x \<in> F \<union> sents (mm_nodelist h) \<Longrightarrow> csize h' x = csize h x"
  shows "freelist h' bk F = freelist h bk F"
proof -
  have "bucket_ok (csize h') i (bk i) = bucket_ok (csize h) i (bk i)"
    if "i < MM_NNODES" "(\<Union>i<MM_NNODES. set (bk i)) = F" for i
  proof -
    have "\<forall>c \<in> set (bk i). csize h' c = csize h c" using that assms(4) by auto
    then show ?thesis by (auto simp: bucket_ok_def cong: map_cong)
  qed
  then show ?thesis using assms by (auto simp: freelist_def)
qed

lemma freelist_set_csize:
  "x \<notin> F \<Longrightarrow> x \<notin> sents (mm_nodelist h) \<Longrightarrow> freelist (set_csize x v h) bk F = freelist h bk F"
  by (rule freelist_cong) auto

lemma freelist_set_preceding [simp]: "freelist (set_preceding x v h) bk F = freelist h bk F"
  by (rule freelist_cong) auto

lemma addfree_walk_stops:
  assumes "slist fl (bs @ rest) NULL" "rest = [] \<or> cs (hd rest) = 0" "\<forall>b \<in> set bs. cs b \<noteq> 0"
  shows "addfree_walk cs fl n prev (hd (bs @ rest @ [NULL])) =
    Some (last (prev # takeWhile (\<lambda>b. cs b < n) bs), hd (dropWhile (\<lambda>b. cs b < n) bs @ rest @ [NULL]))"
  using assms
proof (induction bs arbitrary: prev)
  case Nil
  then show ?case by (cases rest) (simp_all add: addfree_walk.simps)
next
  case (Cons b bs)
  then have "fl b = hd (bs @ rest @ [NULL])" "b \<noteq> NULL" "cs b \<noteq> 0" by auto
  with Cons show ?case by (simp add: addfree_walk.simps [of cs fl n prev b])
qed

lemma bucket_insert:
  assumes "bucket_ok cs i ns" "16 \<le> cs a" "mm_size2ndx (cs a) = i"
  shows "bucket_ok cs i (takeWhile (\<lambda>b. cs b < cs a) ns @ a # dropWhile (\<lambda>b. cs b < cs a) ns)"
proof -
  let ?P = "\<lambda>b. cs b < cs a"
  have sw: "sorted (map cs (takeWhile ?P ns)) \<and> sorted (map cs (dropWhile ?P ns))"
    using assms(1) sorted_append [of "map cs (takeWhile ?P ns)" "map cs (dropWhile ?P ns)"]
    by (simp add: bucket_ok_def flip: map_append)
  have l: "\<forall>b \<in> set (takeWhile ?P ns). cs b < cs a" by (auto dest: set_takeWhileD)
  have r: "\<forall>b \<in> set (dropWhile ?P ns). cs a \<le> cs b"
  proof (cases "dropWhile ?P ns")
    case (Cons d ds)
    then have "\<not> cs d < cs a" using hd_dropWhile [of ?P ns] by simp
    moreover have "\<forall>e \<in> set ds. cs d \<le> cs e" using sw Cons by simp
    ultimately show ?thesis using Cons by force
  next
    case Nil
    then show ?thesis by (simp only: Nil) simp
  qed
  have "sorted (map cs (takeWhile ?P ns @ a # dropWhile ?P ns))"
  proof -
    have "\<forall>x \<in> cs ` set (takeWhile ?P ns). \<forall>y \<in> insert (cs a) (cs ` set (dropWhile ?P ns)). x \<le> y"
    proof (intro ballI)
      fix x y assume "x \<in> cs ` set (takeWhile ?P ns)" "y \<in> insert (cs a) (cs ` set (dropWhile ?P ns))"
      then have "x < cs a" "cs a \<le> y" using l r by auto
      then show "x \<le> y" by simp
    qed
    with sw r show ?thesis by (simp add: sorted_append)
  qed
  moreover have "set (takeWhile ?P ns @ a # dropWhile ?P ns) = insert a (set ns)"
    by (metis Un_insert_right list.simps(15) set_append takeWhile_dropWhile_id)
  ultimately show ?thesis using assms by (auto simp: bucket_ok_def)
qed

lemma bucket_remove:
  assumes "bucket_ok cs i (us @ a # vs)"
  shows "bucket_ok cs i (us @ vs)"
  using assms by (auto simp: bucket_ok_def sorted_append)

lemma buckets_upd:
  assumes "i < (n::nat)"
  shows "(\<Union>j<n. set ((bk(i := xs)) j)) = (\<Union>j\<in>{..<n} - {i}. set (bk j)) \<union> set xs"
    "(\<Union>j<n. set (bk j)) = (\<Union>j\<in>{..<n} - {i}. set (bk j)) \<union> set (bk i)"
proof -
  have upd: "(\<Union>j<n. set ((bk(i := xs)) j)) = (\<Union>j\<in>{..<n} - {i}. set (bk j)) \<union> set xs" for xs
  proof -
    have "{..<n} = insert i ({..<n} - {i})" using assms by auto
    then have "(\<Union>j<n. set ((bk(i := xs)) j)) =
        set xs \<union> (\<Union>j\<in>{..<n} - {i}. set ((bk(i := xs)) j))"
      by (metis UN_insert fun_upd_same)
    then show ?thesis by auto
  qed
  show "(\<Union>j<n. set ((bk(i := xs)) j)) = (\<Union>j\<in>{..<n} - {i}. set (bk j)) \<union> set xs" by (rule upd)
  show "(\<Union>j<n. set (bk j)) = (\<Union>j\<in>{..<n} - {i}. set (bk j)) \<union> set (bk i)"
    using upd [of "bk i"] by simp
qed

text \<open>What \<open>mm_unlink\<close> and \<open>mm_addfreechunk\<close> do to the list and to nothing else.\<close>

lemma mm_unlink_freelist:
  assumes "freelist h bk F" "node \<in> F"
  shows "\<exists>fl bl bk'. mm_unlink node h = Some (h\<lparr>flink := fl, blink := bl\<rparr>) \<and>
    freelist (h\<lparr>flink := fl, blink := bl\<rparr>) bk' (F - {node})"
proof -
  define i where "i = mm_size2ndx (csize h node)"
  let ?nl = "mm_nodelist h"
  have i: "i < MM_NNODES" and "node \<in> set (bk i)"
    using freelist_mem [OF assms] by (auto simp: i_def)
  then obtain us vs where bki: "bk i = us @ node # vs" by (auto dest: split_list)
  define pre where "pre = flat_range ?nl bk [0..<i] @ (?nl + 16 * i) # us"
  define post where "post = vs @ flat_range ?nl bk [Suc i..<MM_NNODES]"
  have fl: "flat ?nl bk = pre @ node # post"
    by (simp add: flat_split [OF i] bki pre_def post_def)
  have fl': "flat ?nl (bk(i := us @ vs)) = pre @ post"
    by (simp add: flat_split [OF i] pre_def post_def)
  have d: "dlist (flink h) (blink h) NULL (pre @ node # post) NULL" "distinct (pre @ node # post)"
    using assms(1) by (simp_all add: freelist_def fl)
  have ne: "pre \<noteq> []" "NULL \<notin> set (pre @ node # post)"
    using dlist_nonnull [OF d(1)] by (auto simp: pre_def)
  have b: "blink h node = last pre" "flink h node = hd (post @ [NULL])" "last pre \<noteq> node"
    using d ne by (auto simp: link_simps last_append)
  let ?h = "h\<lparr>flink := (flink h)(last pre := hd (post @ [NULL])),
     blink := (if post = [] then blink h else (blink h)(hd post := last pre))\<rparr>"
  have un: "mm_unlink node h = Some ?h"
    using b ne by (cases post) (auto simp: mm_unlink_def debugassert_def)
  have U: "(\<Union>j<MM_NNODES. set ((bk(i := us @ vs)) j)) = F - {node}"
  proof -
    have "node \<notin> set (us @ vs)" "\<And>j. j < MM_NNODES \<Longrightarrow> j \<noteq> i \<Longrightarrow> node \<notin> set (bk j)"
    proof -
      show "node \<notin> set (us @ vs)" using d(2) by (auto simp: pre_def post_def)
      fix j assume "j < MM_NNODES" "j \<noteq> i"
      then show "node \<notin> set (bk j)"
        using assms(1) i_def by (auto simp: freelist_def bucket_ok_def)
    qed
    moreover have "(\<Union>j<MM_NNODES. set (bk j)) = F" using assms(1) by (simp add: freelist_def)
    ultimately show ?thesis
      unfolding buckets_upd(1) [OF i] using buckets_upd(2) [OF i, of bk] bki by auto
  qed
  have "freelist ?h (bk(i := us @ vs)) (F - {node})"
    unfolding freelist_def
  proof (intro conjI)
    show "dlist (flink ?h) (blink ?h) NULL (flat (mm_nodelist ?h) (bk(i := us @ vs))) NULL"
      using dlist_remove [OF d ne(1)] by (simp add: fl')
    show "distinct (flat (mm_nodelist ?h) (bk(i := us @ vs)))" using d(2) by (simp add: fl')
    show "\<forall>s\<in>sents (mm_nodelist ?h). csize ?h s = 0" using assms(1) by (simp add: freelist_def)
    show "\<forall>j<MM_NNODES. bucket_ok (csize ?h) j ((bk(i := us @ vs)) j)"
      using assms(1) bucket_remove [of "csize h" i us node vs] bki by (auto simp: freelist_def)
    show "(\<Union>j<MM_NNODES. set ((bk(i := us @ vs)) j)) = F - {node}" by (rule U)
  qed
  with un show ?thesis by blast
qed

lemma mm_addfreechunk_freelist:
  assumes "freelist h bk F" "node \<notin> F" "node \<notin> sents (mm_nodelist h)" "node \<noteq> NULL"
    "16 \<le> csize h node"
  shows "\<exists>fl bl bk'. mm_addfreechunk node h = Some (h\<lparr>flink := fl, blink := bl\<rparr>) \<and>
    freelist (h\<lparr>flink := fl, blink := bl\<rparr>) bk' (insert node F)"
proof -
  define i where "i = mm_size2ndx (csize h node)"
  let ?nl = "mm_nodelist h" and ?P = "\<lambda>b. csize h b < csize h node"
  have i: "i < MM_NNODES" using mm_size2ndx_less [OF assms(5)] by (simp add: i_def)
  define us where "us = takeWhile ?P (bk i)"
  define vs where "vs = dropWhile ?P (bk i)"
  define rest where "rest = flat_range ?nl bk [Suc i..<MM_NNODES]"
  define pre where "pre = flat_range ?nl bk [0..<i] @ (?nl + 16 * i) # us"
  have bki: "bk i = us @ vs" by (simp add: us_def vs_def)
  have fl: "flat ?nl bk = pre @ vs @ rest"
    by (simp add: flat_split [OF i] bki pre_def rest_def)
  have fl': "flat ?nl (bk(i := us @ node # vs)) = pre @ node # vs @ rest"
    by (simp add: flat_split [OF i] pre_def rest_def)
  have d: "dlist (flink h) (blink h) NULL (pre @ vs @ rest) NULL" "distinct (pre @ vs @ rest)"
    using assms(1) by (simp_all add: freelist_def fl)
  have nn: "NULL \<notin> set (pre @ vs @ rest)" using dlist_nonnull [OF d(1)] .
  have new: "node \<notin> set (pre @ vs @ rest)"
    using assms(1-3) set_flat [of ?nl bk] by (auto simp: freelist_def fl)
  have chain: "slist (flink h) (flat_range ?nl bk [0..<i] @ (?nl + 16 * i) # bk i @ rest) NULL"
    using dlist_slist [OF d(1)] by (simp add: pre_def bki)
  have r0: "rest = [] \<or> csize h (hd rest) = 0"
  proof (cases "Suc i < MM_NNODES")
    case True
    then have "hd rest = ?nl + 16 * Suc i" by (simp add: rest_def flat_range_def upt_conv_Cons)
    then have "hd rest \<in> sents ?nl" using True unfolding sents_def by blast
    then show ?thesis using assms(1) by (auto simp: freelist_def)
  qed (simp add: rest_def flat_range_def)
  have nz: "\<forall>b \<in> set (bk i). csize h b \<noteq> 0"
    using assms(1) i by (force simp: freelist_def bucket_ok_def)
  have "addfree_walk (csize h) (flink h) (csize h node) (?nl + 16 * i) (flink h (?nl + 16 * i)) =
      Some (last pre, hd (vs @ rest @ [NULL]))"
    using addfree_walk_stops [of "flink h" "bk i" rest "csize h" "csize h node" "?nl + 16 * i"]
      chain r0 nz by (simp add: link_simps us_def vs_def pre_def last_append)
  moreover have "last pre \<noteq> node" "hd (vs @ rest @ [NULL]) \<noteq> node"
    using new assms(4) by (auto simp: pre_def hd_append)
  ultimately have add: "mm_addfreechunk node h = Some (h\<lparr>
      flink := (flink h)(last pre := node, node := hd (vs @ rest @ [NULL])),
      blink := (if vs @ rest = [] then (blink h)(node := last pre)
                else (blink h)(node := last pre, hd (vs @ rest) := node))\<rparr>)"
    (is "_ = Some ?h")
    using nn by (auto simp: mm_addfreechunk_def Let_def nodelist_eq i_def [symmetric] hd_append)
  have U: "(\<Union>j<MM_NNODES. set ((bk(i := us @ node # vs)) j)) = insert node F"
  proof -
    have "(\<Union>j<MM_NNODES. set (bk j)) = F" using assms(1) by (simp add: freelist_def)
    then show ?thesis
      unfolding buckets_upd(1) [OF i] using buckets_upd(2) [OF i, of bk] bki by auto
  qed
  have "freelist ?h (bk(i := us @ node # vs)) (insert node F)"
    unfolding freelist_def
  proof (intro conjI)
    show "dlist (flink ?h) (blink ?h) NULL (flat (mm_nodelist ?h) (bk(i := us @ node # vs))) NULL"
      using dlist_insert [OF d _ new assms(4)] by (simp add: fl' pre_def)
    show "distinct (flat (mm_nodelist ?h) (bk(i := us @ node # vs)))" using d(2) new by (simp add: fl')
    show "\<forall>s\<in>sents (mm_nodelist ?h). csize ?h s = 0" using assms(1) by (simp add: freelist_def)
    show "\<forall>j<MM_NNODES. bucket_ok (csize ?h) j ((bk(i := us @ node # vs)) j)"
    proof -
      have bo: "\<forall>j<MM_NNODES. bucket_ok (csize h) j (bk j)" using assms(1) by (simp add: freelist_def)
      then have "bucket_ok (csize h) i (us @ node # vs)"
        unfolding us_def vs_def using i assms(5) by (intro bucket_insert) (simp_all add: i_def)
      with bo show ?thesis by simp
    qed
    show "(\<Union>j<MM_NNODES. set ((bk(i := us @ node # vs)) j)) = insert node F" by (rule U)
  qed
  with add show ?thesis by blast
qed

section \<open>Splitting, merging and marking chunks\<close>

lemma layout_split:
  assumes "layout cs pr a p (us @ (n, b) # (m, c) # vs)" "16 \<le> s" "16 dvd s" "s + 16 \<le> n"
  shows "layout (cs(a + extent us + s := n - s, a + extent us := s))
    (pr(a + extent us + s := s, a + extent us + n := prec (n - s) c)) a p
    (us @ (s, b) # (n - s, False) # (m, c) # vs)"
  using assms
  by (auto simp: layout_append layout_frame_cs layout_frame_pr prec_False add.assoc
      intro: dvd_diff_nat)

lemma layout_mark:
  assumes "layout cs pr a p (us @ (n, b) # vs)"
  shows "layout cs (pr(a + extent us := prec (last (p # map fst us)) c)) a p (us @ (n, c) # vs)"
  using assms by (auto simp: layout_append layout_frame_pr)

lemma layout_merge:
  assumes "layout cs pr a p (us @ (n, b) # (m, c) # (k, d) # vs)"
  shows "layout (cs(a + extent us := n + m)) (pr(a + extent us + n + m := prec (n + m) d)) a p
    (us @ (n + m, b) # (k, d) # vs)"
  using assms by (auto simp: layout_append layout_frame_cs layout_frame_pr add.assoc)

lemma layout_at:
  assumes "layout cs pr a p (us @ (n, b) # vs)"
  shows "cs (a + extent us) = n" "pr (a + extent us) = prec (last (p # map fst us)) b"
    "16 \<le> n" "16 dvd n"
  using assms by (auto simp: layout_append)

lemma layout_next:
  assumes "layout cs pr a p (us @ (n, b) # (m, c) # vs)"
  shows "cs (a + extent us + n) = m" "pr (a + extent us + n) = prec n c"
  using assms by (auto simp: layout_append)

lemma total_append: "extent (us @ vs) = extent us + extent vs"
  by simp

fun coalesced :: "chunk list \<Rightarrow> bool" where
  "coalesced (k # l # ks) = ((snd k \<or> snd l) \<and> coalesced (l # ks))"
| "coalesced ks = True"

lemma coalesced_Cons: "coalesced (k # ks) \<longleftrightarrow> (ks = [] \<or> snd k \<or> snd (hd ks)) \<and> coalesced ks"
  by (cases ks) auto

lemma coalesced_append:
  "coalesced (us @ vs) \<longleftrightarrow>
     coalesced us \<and> coalesced vs \<and> (us = [] \<or> vs = [] \<or> snd (last us) \<or> snd (hd vs))"
  by (induction us) (auto simp: coalesced_Cons hd_append)

section \<open>The heap invariant\<close>

definition guarded :: "chunk list \<Rightarrow> bool" where
  "guarded ks \<longleftrightarrow> (\<exists>mid. ks = (16, True) # mid @ [(16, True)])"

definition region_ok :: "mm_heap \<Rightarrow> chunk list \<Rightarrow> bool" where
  "region_ok h ks \<longleftrightarrow>
     guarded ks \<and> mm_heapend h + 16 = mm_heapstart h + extent ks \<and>
     extent ks < 2 ^ 31 \<and> mm_heapstart h + extent ks < 2 ^ 32 \<and>
     16 dvd mm_heapstart h \<and> mm_heapstart h \<noteq> NULL \<and>
     (\<forall>s \<in> sents (mm_nodelist h). s < mm_heapstart h \<or> mm_heapstart h + extent ks \<le> s)"

text \<open>\<open>mm_part h ks X\<close>: the region is tiled by the chunks \<open>ks\<close>, and the free list holds exactly
  the free chunks outside \<open>X\<close>. The operations work on such states between taking a chunk off
  the free list and putting one back.\<close>

definition mm_part :: "mm_heap \<Rightarrow> chunk list \<Rightarrow> addr set \<Rightarrow> bool" where
  "mm_part h ks X \<longleftrightarrow>
     region_ok h ks \<and> layout (csize h) (preceding h) (mm_heapstart h) 0 ks \<and>
     (\<exists>bk. freelist h bk (set (frees (mm_heapstart h) ks) - X))"

definition mm_wf :: "mm_heap \<Rightarrow> chunk list \<Rightarrow> bool" where
  "mm_wf h ks \<longleftrightarrow> mm_part h ks {} \<and> coalesced ks"

text \<open>What no allocator operation changes besides the headers and the bookkeeping.\<close>

definition same_env :: "mm_heap \<Rightarrow> mm_heap \<Rightarrow> bool" where
  "same_env h h' \<longleftrightarrow>
     mm_heapstart h' = mm_heapstart h \<and> mm_heapend h' = mm_heapend h \<and>
     mm_heapsize h' = mm_heapsize h \<and> mm_nodelist h' = mm_nodelist h \<and>
     mm_semaphore h' = mm_semaphore h \<and> mm_holder h' = mm_holder h \<and>
     mm_counts_held h' = mm_counts_held h \<and> payload h' = payload h"

lemma same_env_refl [simp]: "same_env h h"
  by (simp add: same_env_def)

lemma same_env_trans [trans]: "same_env h h' \<Longrightarrow> same_env h' h'' \<Longrightarrow> same_env h h''"
  by (simp add: same_env_def)

lemma same_env_upd [simp]:
  "same_env h (h\<lparr>flink := fl, blink := bl\<rparr>)"
  "same_env h (h\<lparr>csize := cs, preceding := pr\<rparr>)"
  "same_env h (h\<lparr>preceding := pr\<rparr>)"
  by (simp_all add: same_env_def)

text \<open>The bookkeeping functions leave the headers alone.\<close>

definition same_headers :: "mm_heap \<Rightarrow> mm_heap \<Rightarrow> bool" where
  "same_headers h h' \<longleftrightarrow> same_env h h' \<and> csize h' = csize h \<and> preceding h' = preceding h \<and>
     flink h' = flink h \<and> blink h' = blink h"

lemma same_headers_refl [simp]: "same_headers h h"
  by (simp add: same_headers_def)

lemma heapinfo_same_headers:
  "same_headers h (heapinfo_charge c node h)"
  "same_headers h (heapinfo_credit node h)"
  by (simp_all add: same_headers_def same_env_def heapinfo_add_size_def heapinfo_subtract_size_def
      heapinfo_update_total_size_def heapinfo_update_node_def heapinfo_charge_def
      heapinfo_credit_def Let_def split: option.split)

lemma mm_part_cong:
  assumes "same_headers h h'"
  shows "mm_part h' ks X = mm_part h ks X"
proof -
  have "freelist h' bk F = freelist h bk F" for bk F
    using assms by (intro freelist_cong) (auto simp: same_headers_def same_env_def)
  with assms show ?thesis by (simp add: mm_part_def region_ok_def same_headers_def same_env_def)
qed

lemma mm_part_chunk:
  assumes "mm_part h (us @ (n, b) # vs) X"
  shows "mm_heapstart h + extent us \<noteq> NULL" "mm_heapstart h + extent us \<notin> sents (mm_nodelist h)"
    "16 dvd mm_heapstart h + extent us" "n < 2 ^ 31" "16 \<le> n" "16 dvd n"
    "csize h (mm_heapstart h + extent us) = n"
    "preceding h (mm_heapstart h + extent us) = prec (last (0 # map fst us)) b"
proof -
  have r: "region_ok h (us @ (n, b) # vs)"
    and l: "layout (csize h) (preceding h) (mm_heapstart h) 0 (us @ (n, b) # vs)"
    using assms by (auto simp: mm_part_def)
  show n: "16 \<le> n" "16 dvd n" "csize h (mm_heapstart h + extent us) = n"
    "preceding h (mm_heapstart h + extent us) = prec (last (0 # map fst us)) b"
    using layout_at [OF l] by auto
  show "mm_heapstart h + extent us \<noteq> NULL" "n < 2 ^ 31" using r by (auto simp: region_ok_def)
  show "mm_heapstart h + extent us \<notin> sents (mm_nodelist h)" using r n by (force simp: region_ok_def)
  show "16 dvd mm_heapstart h + extent us"
    using r l layout_total_dvd [of "csize h" "preceding h" "mm_heapstart h" 0 us]
    by (auto simp: region_ok_def layout_append)
qed

lemma mm_part_next:
  assumes "mm_part h (us @ (n, b) # (m, d) # vs) X"
  shows "csize h (mm_heapstart h + extent us + n) = m"
    "preceding h (mm_heapstart h + extent us + n) = prec n d"
  using assms layout_next by (auto simp: mm_part_def)

lemma inner_notin_sents:
  assumes "region_ok h ks" "mm_heapstart h \<le> x" "x < mm_heapstart h + extent ks"
  shows "x \<notin> sents (mm_nodelist h)"
  using assms by (force simp: region_ok_def)

lemma guarded_replace:
  assumes "guarded (us @ xs @ vs)" "us \<noteq> []" "vs \<noteq> []"
  shows "guarded (us @ ys @ vs)"
proof -
  obtain mid where mid: "us @ xs @ vs = (16, True) # mid @ [(16, True)]"
    using assms(1) by (auto simp: guarded_def)
  obtain us' where us: "us = (16, True) # us'" using mid assms(2) by (cases us) auto
  obtain vs' v where vs: "vs = vs' @ [v]" using assms(3) by (cases vs rule: rev_cases) auto
  have "v = (16, True)" using mid us vs by (metis append_Cons append_assoc last_snoc list.inject)
  then show ?thesis using us vs by (auto simp: guarded_def)
qed

lemma guarded_free:
  assumes "guarded (us @ (n, False) # vs)"
  shows "us \<noteq> []" "vs \<noteq> []"
  using assms by (auto simp: guarded_def append_eq_Cons_conv)

section \<open>Steps on partial states\<close>

lemma frees_others:
  assumes "layout cs pr a p (us @ (n, b) # vs)"
  shows "y \<in> set (frees a us) \<Longrightarrow> a \<le> y \<and> y < a + extent us"
    "y \<in> set (frees (a + extent us + n) vs) \<Longrightarrow> a + extent us + n \<le> y"
  using assms frees_range [of _ a us cs pr p] frees_range [of _ "a + extent us + n" vs cs pr n]
  by (auto simp: layout_append)

lemma frees_not_mid:
  assumes "layout cs pr a p (us @ (n, b) # vs)" "0 < k" "k < n"
  shows "a + extent us + k \<notin> set (frees a (us @ (n, b) # vs))"
  using assms(2,3) frees_others(1) [OF assms(1), of "a + extent us + k"]
    frees_others(2) [OF assms(1), of "a + extent us + k"]
  by (cases b) auto

lemma frees_at:
  assumes "layout cs pr a p (us @ (n, b) # vs)"
  shows "a + extent us \<in> set (frees a (us @ (n, b) # vs)) \<longleftrightarrow> \<not> b"
  using layout_at(3) [OF assms] frees_others(1) [OF assms, of "a + extent us"]
    frees_others(2) [OF assms, of "a + extent us"]
  by (cases b) auto

lemma part_unlink:
  assumes "mm_part h (us @ (n, False) # vs) X" "mm_heapstart h + extent us \<notin> X"
  shows "\<exists>fl bl. mm_unlink (mm_heapstart h + extent us) h = Some (h\<lparr>flink := fl, blink := bl\<rparr>) \<and>
    mm_part (h\<lparr>flink := fl, blink := bl\<rparr>) (us @ (n, False) # vs) (insert (mm_heapstart h + extent us) X)"
proof -
  let ?x = "mm_heapstart h + extent us" and ?ks = "us @ (n, False) # vs"
  obtain bk where "freelist h bk (set (frees (mm_heapstart h) ?ks) - X)"
    using assms(1) by (auto simp: mm_part_def)
  from mm_unlink_freelist [OF this, of ?x] assms(2) obtain fl bl bk'
    where un: "mm_unlink ?x h = Some (h\<lparr>flink := fl, blink := bl\<rparr>)"
      and f: "freelist (h\<lparr>flink := fl, blink := bl\<rparr>) bk' (set (frees (mm_heapstart h) ?ks) - X - {?x})"
    by auto
  have "set (frees (mm_heapstart h) ?ks) - X - {?x} = set (frees (mm_heapstart h) ?ks) - insert ?x X"
    by auto
  with f have "mm_part (h\<lparr>flink := fl, blink := bl\<rparr>) ?ks (insert ?x X)"
    using assms(1) by (auto simp: mm_part_def region_ok_def)
  with un show ?thesis by blast
qed

lemma part_add:
  assumes "mm_part h (us @ (n, False) # vs) X" "mm_heapstart h + extent us \<in> X"
  shows "\<exists>fl bl. mm_addfreechunk (mm_heapstart h + extent us) h = Some (h\<lparr>flink := fl, blink := bl\<rparr>) \<and>
    mm_part (h\<lparr>flink := fl, blink := bl\<rparr>) (us @ (n, False) # vs) (X - {mm_heapstart h + extent us})"
proof -
  let ?x = "mm_heapstart h + extent us" and ?ks = "us @ (n, False) # vs"
  let ?F = "set (frees (mm_heapstart h) ?ks)"
  obtain bk where "freelist h bk (?F - X)"
    using assms(1) by (auto simp: mm_part_def)
  from mm_addfreechunk_freelist [OF this, of ?x] assms(2) mm_part_chunk [OF assms(1)]
  obtain fl bl bk' where un: "mm_addfreechunk ?x h = Some (h\<lparr>flink := fl, blink := bl\<rparr>)"
      and f: "freelist (h\<lparr>flink := fl, blink := bl\<rparr>) bk' (insert ?x (?F - X))"
    by auto
  have "insert ?x (?F - X) = ?F - (X - {?x})" using assms(2) by auto
  with f have "mm_part (h\<lparr>flink := fl, blink := bl\<rparr>) ?ks (X - {?x})"
    using assms(1) by (auto simp: mm_part_def region_ok_def)
  with un show ?thesis by blast
qed

lemma part_split:
  assumes p: "mm_part h (us @ (n, b) # (m, d) # vs) X" and s: "16 \<le> s" "16 dvd s" "s + 16 \<le> n"
    and us: "us \<noteq> []" and x: "x = mm_heapstart h + extent us" "b \<or> x \<in> X"
  shows "mm_part (h\<lparr>csize := (csize h)(x + s := n - s, x := s),
      preceding := (preceding h)(x + s := s, x + n := prec (n - s) d)\<rparr>)
    (us @ (s, b) # (n - s, False) # (m, d) # vs) (insert (x + s) X)"
    (is "mm_part ?h' ?ks' ?X'")
proof -
  let ?a = "mm_heapstart h" and ?ks = "us @ (n, b) # (m, d) # vs"
  have L: "layout (csize h) (preceding h) ?a 0 ?ks" and r: "region_ok h ?ks"
    using p by (auto simp: mm_part_def)
  have eq: "set (frees ?a ?ks') - ?X' = set (frees ?a ?ks) - X"
    using frees_not_mid [OF L, of s] s x(1) by (auto simp: add.assoc)
  obtain bk where bk: "freelist h bk (set (frees ?a ?ks) - X)"
    using p by (auto simp: mm_part_def)
  have "x + s \<notin> sents (mm_nodelist h)" "x \<notin> sents (mm_nodelist h)"
    using s x(1) inner_notin_sents [OF r, of "x + s"] inner_notin_sents [OF r, of x] by simp_all
  moreover have "x + s \<notin> set (frees ?a ?ks)" "x \<notin> set (frees ?a ?ks) - X"
    using frees_not_mid [OF L, of s] frees_at [OF L] s x by simp_all
  ultimately have "freelist ?h' bk (set (frees ?a ?ks) - X)"
    using bk by (subst freelist_cong [of _ h]) auto
  moreover have "region_ok ?h' ?ks'"
    using r s guarded_replace [of us "[(n, b)]" "(m, d) # vs" "[(s, b), (n - s, False)]"] us
    by (simp add: region_ok_def)
  ultimately show ?thesis
    using layout_split [OF L s] eq x(1) unfolding mm_part_def by auto
qed

lemma part_mark:
  assumes p: "mm_part h (us @ (n, b) # vs) X" and x: "x = mm_heapstart h + extent us" "b \<or> x \<in> X"
    and us: "us \<noteq> []" "vs \<noteq> []"
  shows "mm_part (h\<lparr>preceding := (preceding h)(x := prec (last (0 # map fst us)) d)\<rparr>)
    (us @ (n, d) # vs) (if d then X - {x} else insert x X)" (is "mm_part ?h' ?ks' ?X'")
proof -
  let ?a = "mm_heapstart h" and ?ks = "us @ (n, b) # vs"
  have L: "layout (csize h) (preceding h) ?a 0 ?ks" and r: "region_ok h ?ks"
    using p by (auto simp: mm_part_def)
  have n: "0 < n" using layout_at [OF L] by simp
  have "x \<notin> set (frees ?a us)" "x \<notin> set (frees (?a + extent us + n) vs)"
    using frees_others [OF L, of x] n x(1) by auto
  then have eq: "set (frees ?a ?ks') - ?X' = set (frees ?a ?ks) - X"
    using x by (auto simp: add.assoc split: if_splits)
  obtain bk where "freelist h bk (set (frees ?a ?ks) - X)"
    using p by (auto simp: mm_part_def)
  then have "freelist ?h' bk (set (frees ?a ?ks) - X)"
    by (subst freelist_cong [of _ h]) auto
  moreover have "region_ok ?h' ?ks'"
    using r guarded_replace [of us "[(n, b)]" vs "[(n, d)]"] us by (simp add: region_ok_def)
  ultimately show ?thesis
    using layout_mark [OF L] eq x(1) unfolding mm_part_def by auto
qed

lemma part_merge:
  assumes p: "mm_part h (us @ (n, b) # (m, c) # (k, d) # vs) X"
    and x: "x = mm_heapstart h + extent us" "b \<or> x \<in> X" "c \<or> x + n \<in> X" and us: "us \<noteq> []"
  shows "mm_part (h\<lparr>csize := (csize h)(x := n + m),
      preceding := (preceding h)(x + n + m := prec (n + m) d)\<rparr>)
    (us @ (n + m, b) # (k, d) # vs) X" (is "mm_part ?h' ?ks' X")
proof -
  let ?a = "mm_heapstart h" and ?ks = "us @ (n, b) # (m, c) # (k, d) # vs"
  have L: "layout (csize h) (preceding h) ?a 0 ?ks" and r: "region_ok h ?ks"
    using p by (auto simp: mm_part_def)
  have n: "0 < n" using layout_at [OF L] by simp
  have eq: "set (frees ?a ?ks') - X = set (frees ?a ?ks) - X"
    using x by (auto simp: add.assoc)
  obtain bk where "freelist h bk (set (frees ?a ?ks) - X)"
    using p by (auto simp: mm_part_def)
  moreover have "x \<notin> sents (mm_nodelist h)" using mm_part_chunk(2) [OF p] x(1) by simp
  moreover have "x \<notin> set (frees ?a ?ks) - X" using frees_at [OF L] x by blast
  ultimately have "freelist ?h' bk (set (frees ?a ?ks) - X)"
    by (subst freelist_cong [of _ h]) auto
  moreover have "region_ok ?h' ?ks'"
    using r guarded_replace [of us "[(n, b), (m, c)]" "(k, d) # vs" "[(n + m, b)]"] us
    by (simp add: region_ok_def add.assoc)
  ultimately show ?thesis
    using layout_merge [OF L] eq x(1) unfolding mm_part_def by auto
qed

end
