(* ===== verification/MM_Heap_Ops.thy ===== *)
theory MM_Heap_Ops
  imports MM_Heap_Inv
begin

unbundle bit_operations_syntax

text \<open>
  \<open>mm_malloc\<close> and \<open>mm_free\<close> on well-formed heaps: both return, keep \<open>mm_wf\<close>, and change the list of
  chunks exactly as \<open>taken\<close> (best fit, split) and \<open>release\<close> (join with free neighbours) say. The
  last part restates this on the set of allocated blocks.
\<close>

section \<open>Allocation\<close>

definition taken :: "nat \<Rightarrow> nat \<Rightarrow> chunk list" where
  "taken s n = (if n - s \<ge> 16 then [(s, True), (n - s, False)] else [(n, True)])"

lemma mm_wf_free_neighbours:
  assumes "mm_wf h (us @ (n, False) # vs)"
  obtains m vs' where "vs = (m, True) # vs'" "us \<noteq> []" "snd (last us)"
proof -
  have c: "coalesced (us @ (n, False) # vs)" and g: "guarded (us @ (n, False) # vs)"
    using assms by (auto simp: mm_wf_def mm_part_def region_ok_def)
  show ?thesis using c guarded_free [OF g] that
    by (cases vs) (auto simp: coalesced_append coalesced_Cons)
qed

lemma mm_malloc_split_part:
  assumes p: "mm_part h (us @ (n, False) # (m, True) # vs) {x}"
    and s: "16 \<le> s" "16 dvd s" "s \<le> n" and x: "x = mm_heapstart h + extent us" and us: "us \<noteq> []"
  shows "\<exists>h'. mm_malloc_split s x h = Some h' \<and> same_env h h' \<and>
    preceding h' x = prec (last (0 # map fst us)) False \<and>
    mm_part (set_preceding x (prec (last (0 # map fst us)) True) h') (us @ taken s n @ (m, True) # vs) {}"
proof -
  note at = mm_part_chunk [OF p] mm_part_next [OF p]
  show ?thesis
  proof (cases "n - s \<ge> 16")
    case True
    let ?h2 = "h\<lparr>csize := (csize h)(x + s := n - s, x := s),
        preceding := (preceding h)(x + s := s, x + n := prec (n - s) True)\<rparr>"
    have "mm_part ?h2 ((us @ [(s, False)]) @ (n - s, False) # (m, True) # vs) {x + s, x}"
      using part_split [OF p s(1,2) _ us x] s True by simp
    from part_add [OF this] x obtain fl bl
      where add: "mm_addfreechunk (x + s) ?h2 = Some (?h2\<lparr>flink := fl, blink := bl\<rparr>)"
        and p3: "mm_part (?h2\<lparr>flink := fl, blink := bl\<rparr>) (us @ (s, False) # (n - s, False) # (m, True) # vs) {x}"
      using s by (auto simp: add.assoc)
    have ne: "n \<noteq> s" using True by auto
    have "mm_malloc_split s x h = Some (?h2\<lparr>flink := fl, blink := bl\<rparr>)"
      using ne add at True s x by (simp add: mm_malloc_split_def mm_consts Let_def flag_simps)
    moreover have "preceding ?h2 x = prec (last (0 # map fst us)) False"
      using at True s x by simp
    ultimately show ?thesis
      using part_mark [OF p3, of x True] x us True by (simp add: taken_def same_env_def)
  next
    case False
    with part_mark [OF p, of x True] x us at show ?thesis
      by (simp add: taken_def mm_malloc_split_def mm_consts Let_def)
  qed
qed

lemma mm_malloc_take_wf:
  assumes wf: "mm_wf h (us @ (n, False) # vs)" and s: "16 \<le> s" "16 dvd s" "s \<le> n"
    and x: "x = mm_heapstart h + extent us"
  shows "\<exists>h'. mm_malloc_take c s x h = Some (x + 16, h') \<and>
    mm_wf h' (us @ taken s n @ vs) \<and> same_env h h'"
proof -
  obtain m vs' where vs: "vs = (m, True) # vs'" and us: "us \<noteq> []"
    using mm_wf_free_neighbours [OF wf] .
  have co: "coalesced (us @ (n, False) # vs)" and p0: "mm_part h (us @ (n, False) # vs) {}"
    using wf by (auto simp: mm_wf_def)
  from part_unlink [OF p0] x vs obtain fl bl
    where un: "mm_unlink x h = Some (h\<lparr>flink := fl, blink := bl\<rparr>)"
      and p1: "mm_part (h\<lparr>flink := fl, blink := bl\<rparr>) (us @ (n, False) # (m, True) # vs') {x}" by auto
  from mm_malloc_split_part [OF p1 s _ us] x obtain h'
    where h': "mm_malloc_split s x (h\<lparr>flink := fl, blink := bl\<rparr>) = Some h'" "same_env h h'"
      "preceding h' x = prec (last (0 # map fst us)) False"
      "mm_part (set_preceding x (prec (last (0 # map fst us)) True) h') (us @ taken s n @ vs) {}"
    by (auto simp: same_env_def vs)
  let ?h5 = "set_preceding x (prec (last (0 # map fst us)) True) h'"
  have "mm_malloc_take c s x h = Some (x + 16, heapinfo_charge c x ?h5)"
    using un h'(1,3) by (simp add: mm_malloc_take_def mm_consts flag_simps)
  moreover have "mm_part (heapinfo_charge c x ?h5) (us @ taken s n @ vs) {}"
    using h'(4) mm_part_cong [OF heapinfo_same_headers(1) [of ?h5 c x]] by simp
  moreover have "coalesced (us @ taken s n @ vs)"
    using co us vs by (auto simp: coalesced_append coalesced_Cons taken_def)
  moreover have "same_env h (heapinfo_charge c x ?h5)"
    using h'(2) heapinfo_same_headers(1) [of ?h5 c x]
    by (auto simp: same_headers_def same_env_def)
  ultimately show ?thesis by (auto simp: mm_wf_def)
qed

subsection \<open>The best-fit search\<close>

definition size_le :: "(addr \<Rightarrow> nat) \<Rightarrow> addr \<Rightarrow> addr \<Rightarrow> bool" where
  "size_le cs x y \<longleftrightarrow> cs x \<noteq> 0 \<longrightarrow> cs y \<noteq> 0 \<longrightarrow> cs x \<le> cs y"

lemma flat_range_sorted:
  assumes "sorted_wrt (<) js" "\<forall>i \<in> set js. bucket_ok cs i (bk i) \<and> cs (nl + 16 * i) = 0"
  shows "sorted_wrt (size_le cs) (flat_range nl bk js)"
  using assms
proof (induction js)
  case (Cons i js)
  have "cs c \<le> cs d" if "c \<in> set (bk i)" "j \<in> set js" "d \<in> set (bk j)" for c d j
  proof (rule ccontr)
    assume "\<not> cs c \<le> cs d"
    then have "mm_size2ndx (cs d) \<le> mm_size2ndx (cs c)"
      using that Cons.prems by (intro mm_size2ndx_mono) (auto simp: bucket_ok_def)
    moreover have "mm_size2ndx (cs c) = i" "mm_size2ndx (cs d) = j" "i < j"
      using that Cons.prems by (auto simp: bucket_ok_def)
    ultimately show False by simp
  qed
  moreover have "sorted_wrt (size_le cs) (bk i)"
    using Cons.prems by (auto simp: bucket_ok_def sorted_map size_le_def elim!: sorted_wrt_mono_rel [rotated])
  ultimately show ?case
    using Cons by (fastforce simp: flat_range_def sorted_wrt_append size_le_def [abs_def])
qed (simp add: flat_range_def)

lemma find_fit_dropWhile:
  "slist fl xs NULL \<Longrightarrow> find_fit cs fl s (hd (xs @ [NULL])) = Some (hd (dropWhile (\<lambda>x. cs x < s) xs @ [NULL]))"
proof (induction xs)
  case Nil
  then show ?case by (simp add: find_fit.simps)
next
  case (Cons a as)
  then show ?case by (simp add: find_fit.simps [of cs fl s a])
qed

lemma find_fit_best:
  assumes f: "freelist h bk F" and s: "16 \<le> s"
  shows "\<exists>x. find_fit (csize h) (flink h) s (flink h (nodelist h (mm_size2ndx s))) = Some x \<and>
    (x = NULL \<longrightarrow> (\<forall>y \<in> F. csize h y < s)) \<and>
    (x \<noteq> NULL \<longrightarrow> x \<in> F \<and> s \<le> csize h x \<and> (\<forall>y \<in> F. s \<le> csize h y \<longrightarrow> csize h x \<le> csize h y))"
proof -
  let ?i = "mm_size2ndx s" and ?nl = "mm_nodelist h" and ?cs = "csize h"
  let ?js = "[?i..<MM_NNODES]"
  define L where "L = bk ?i @ flat_range ?nl bk [Suc ?i..<MM_NNODES]"
  have i: "?i < MM_NNODES" using mm_size2ndx_less [OF s] .
  have js: "?js = ?i # [Suc ?i..<MM_NNODES]" using i by (simp add: upt_conv_Cons)
  have fr: "flat_range ?nl bk ?js = (?nl + 16 * ?i) # L" by (simp add: flat_range_def js L_def)
  have d: "slist (flink h) (flat_range ?nl bk [0..<?i] @ (?nl + 16 * ?i) # L) NULL"
    using f flat_split [OF i, of ?nl bk] dlist_slist by (auto simp: freelist_def L_def)
  have z: "\<forall>t \<in> sents ?nl. ?cs t = 0" and U: "(\<Union>j<MM_NNODES. set (bk j)) = F"
    and b: "\<forall>j<MM_NNODES. bucket_ok ?cs j (bk j)"
    using f by (auto simp: freelist_def)
  have "sorted_wrt (size_le ?cs) (flat_range ?nl bk ?js)"
    using z b by (intro flat_range_sorted) (auto simp: sents_def)
  then have sw: "sorted_wrt (size_le ?cs) L" by (simp add: fr)
  have inL: "y \<in> set L" if "y \<in> F" "s \<le> ?cs y" for y
  proof -
    from that(1) U obtain j where j: "j < MM_NNODES" "y \<in> set (bk j)" by auto
    then have "?i \<le> j" using that(2) b mm_size2ndx_mono [OF s, of "?cs y"] by (auto simp: bucket_ok_def)
    then show ?thesis using j by (cases "?i = j") (auto simp: L_def flat_range_def)
  qed
  have LF: "x \<in> F" if "x \<in> set L" "?cs x \<noteq> 0" for x
    using that z U i by (auto simp: L_def flat_range_def sents_def)
  have find: "find_fit ?cs (flink h) s (flink h (nodelist h ?i)) =
      Some (hd (dropWhile (\<lambda>x. ?cs x < s) L @ [NULL]))"
    using find_fit_dropWhile [of "flink h" L ?cs s] d by (simp add: nodelist_eq link_simps)
  show ?thesis
  proof (cases "dropWhile (\<lambda>x. ?cs x < s) L")
    case Nil
    then have "\<forall>y \<in> F. ?cs y < s" using inL by (fastforce simp: dropWhile_eq_Nil_conv)
    with find Nil show ?thesis by simp
  next
    case (Cons x xs)
    then have x: "x \<in> set L" "s \<le> ?cs x"
      using hd_dropWhile [of "\<lambda>x. ?cs x < s" L] set_dropWhileD [of x "\<lambda>x. ?cs x < s" L] by auto
    have "?cs x \<le> ?cs y" if "y \<in> F" "s \<le> ?cs y" for y
    proof -
      have L: "L = takeWhile (\<lambda>x. ?cs x < s) L @ x # xs" by (metis Cons takeWhile_dropWhile_id)
      have "y \<notin> set (takeWhile (\<lambda>x. ?cs x < s) L)" using that(2) by (auto dest: set_takeWhileD)
      then have "y \<in> set (x # xs)" using inL [OF that] L by (metis Un_iff set_append)
      moreover have "sorted_wrt (size_le ?cs) (x # xs)"
        using sw L by (metis sorted_wrt_append)
      ultimately show ?thesis using x that s by (auto simp: size_le_def)
    qed
    moreover have "x \<noteq> NULL" using x(1) slist_nonnull [OF d] by (metis Un_iff list.set_intros(2) set_append)
    ultimately show ?thesis using find Cons x LF s by auto
  qed
qed

subsection \<open>The heap semaphore\<close>

text \<open>The caller can take the heap semaphore: it is free and the caller is a task, or the caller holds it.\<close>

definition lock_ok :: "caller \<Rightarrow> mm_heap \<Rightarrow> bool" where
  "lock_ok c h \<longleftrightarrow> getpid c \<noteq> -1 \<and>
     (mm_holder h = -1 \<and> mm_semaphore h = 1 \<and> mm_counts_held h = 0 \<and> \<not> up_interrupt_context c \<or>
      mm_holder h = getpid c \<and> mm_counts_held h \<ge> 1)"

abbreviation with_lock :: "int \<Rightarrow> int \<Rightarrow> int \<Rightarrow> mm_heap \<Rightarrow> mm_heap" where
  "with_lock s w k h \<equiv> h\<lparr>mm_semaphore := s, mm_holder := w, mm_counts_held := k\<rparr>"

lemma mm_wf_lock [simp]: "mm_wf (with_lock s w k h) ks = mm_wf h ks"
proof -
  have "freelist (with_lock s w k h) bk F = freelist h bk F" for bk F
    by (rule freelist_cong) auto
  then show ?thesis by (simp add: mm_wf_def mm_part_def region_ok_def)
qed

lemma take_give_fields:
  assumes "lock_ok c h"
  obtains s k where "mm_takesemaphore c h = Some (with_lock s (getpid c) k h)"
    "\<And>h'. \<lbrakk>mm_holder h' = getpid c; mm_counts_held h' = k; mm_semaphore h' = s\<rbrakk> \<Longrightarrow>
      mm_givesemaphore (getpid c) h' =
        Some (with_lock (mm_semaphore h) (mm_holder h) (mm_counts_held h) h')"
proof (cases "mm_holder h = getpid c")
  case True
  with assms have g: "mm_counts_held h \<ge> 1" by (auto simp: lock_ok_def)
  show ?thesis
  proof (rule that [of "mm_counts_held h + 1" "mm_semaphore h"])
    fix h' :: mm_heap
    assume e: "mm_holder h' = getpid c" "mm_counts_held h' = mm_counts_held h + 1"
      "mm_semaphore h' = mm_semaphore h"
    then have "mm_givesemaphore (getpid c) h' = Some (h'\<lparr>mm_counts_held := mm_counts_held h\<rparr>)"
      using g by (simp add: mm_givesemaphore_def debugassert_def)
    also have "h'\<lparr>mm_counts_held := mm_counts_held h\<rparr>
        = with_lock (mm_semaphore h) (mm_holder h) (mm_counts_held h) h'"
      using e True by (intro mm_heap.equality) auto
    finally show "mm_givesemaphore (getpid c) h' =
        Some (with_lock (mm_semaphore h) (mm_holder h) (mm_counts_held h) h')" .
  qed (use True in \<open>simp add: mm_takesemaphore_def\<close>)
next
  case False
  then have f: "mm_holder h = -1" "mm_semaphore h = 1" "mm_counts_held h = 0" "getpid c \<noteq> -1" "\<not> up_interrupt_context c"
    using assms by (auto simp: lock_ok_def)
  show ?thesis
  proof (rule that [of 1 "mm_semaphore h - 1"])
    fix h' :: mm_heap
    assume "mm_holder h' = getpid c" "mm_counts_held h' = 1" "mm_semaphore h' = mm_semaphore h - 1"
    then show "mm_givesemaphore (getpid c) h' =
        Some (with_lock (mm_semaphore h) (mm_holder h) (mm_counts_held h) h')"
      using f by (simp add: mm_givesemaphore_def debugassert_def)
  qed (use f in \<open>simp add: mm_takesemaphore_def debugassert_def\<close>)
qed

lemma take_give:
  assumes "lock_ok c h"
  obtains s k where "mm_takesemaphore c h = Some (with_lock s (getpid c) k h)"
    "\<And>h'. same_env (with_lock s (getpid c) k h) h' \<Longrightarrow>
      mm_givesemaphore (getpid c) h' =
        Some (with_lock (mm_semaphore h) (mm_holder h) (mm_counts_held h) h')"
  by (rule take_give_fields [OF assms]) (simp add: same_env_def that)

subsection \<open>mm_malloc\<close>

definition chunk_size :: "nat \<Rightarrow> nat" where
  "chunk_size n = (n + 16 + 15) div 16 * 16"

lemma chunk_size_props: "16 dvd chunk_size n" "n + 16 \<le> chunk_size n" "chunk_size n < n + 32"
  unfolding chunk_size_def by auto

lemma align_up_dvd: "16 dvd unat (MM_ALIGN_UP w)"
  using unat_and_not_mask [of "w + 15" 4] by (simp add: MM_ALIGN_UP_def mm_consts mask_eq_exp_minus_1)

lemma unat_align_up:
  assumes "unat w + 15 < 2 ^ 32"
  shows "unat (MM_ALIGN_UP w) = (unat w + 15) div 16 * 16"
proof -
  have "unat (w + 15) = unat w + 15"
    using assms by (subst unat_add_lem [THEN iffD1]) auto
  then show ?thesis
    using unat_and_not_mask [of "w + 15" 4] by (simp add: MM_ALIGN_UP_def mm_consts mask_eq_exp_minus_1)
qed

lemma unat_request:
  assumes "unat req + 31 < 2 ^ 32"
  shows "unat (MM_ALIGN_UP (req + of_nat SIZEOF_MM_ALLOCNODE)) = chunk_size (unat req)"
proof -
  have "unat (req + 16) = unat req + 16"
    using assms by (subst unat_add_lem [THEN iffD1]) auto
  then show ?thesis
    using assms unat_align_up [of "req + 16"] by (simp add: SIZEOF_MM_ALLOCNODE_def chunk_size_def)
qed

text \<open>A request in the last 15 values of the range wraps to a chunk that is all header.\<close>

lemma wrapped_request:
  assumes "2 ^ 32 - 16 < unat req"
  shows "unat (MM_ALIGN_UP (req + of_nat SIZEOF_MM_ALLOCNODE)) = 16"
proof -
  have "unat (req + 16) = unat req + 16 - 2 ^ 32"
    using assms unsigned_less [of req, where ?'a = nat] by (simp add: unat_word_ariths mod_if)
  then have "unat (req + 16) \<le> 15" "1 \<le> unat (req + 16)"
    using assms unsigned_less [of req, where ?'a = nat] by simp_all
  then show ?thesis using unat_align_up [of "req + 16"] by (simp add: SIZEOF_MM_ALLOCNODE_def)
qed

text \<open>The 16 values below them wrap to size zero.\<close>

lemma zero_request:
  assumes "2 ^ 32 - 32 < unat req" "unat req \<le> 2 ^ 32 - 16"
  shows "MM_ALIGN_UP (req + of_nat SIZEOF_MM_ALLOCNODE) = 0"
proof -
  have "unat (req + 31) = unat req + 31 - 2 ^ 32"
    using assms by (simp add: unat_word_ariths mod_if)
  then have "unat (req + 31) < 2 ^ 4" using assms by simp
  then have "unat ((req + 31) AND NOT (mask 4)) = 0" using unat_and_not_mask [of "req + 31" 4] by simp
  then have "(req + 31) AND NOT (mask 4) = 0" by (simp only: unat_eq_zero)
  then show ?thesis by (simp add: MM_ALIGN_UP_def mm_consts mask_eq_exp_minus_1 add.assoc)
qed

lemma part_free_sizes:
  assumes "mm_part h ks X"
  shows "(m, False) \<in> set ks \<longleftrightarrow> (\<exists>y \<in> set (frees (mm_heapstart h) ks). csize h y = m)"
proof
  assume "(m, False) \<in> set ks"
  then obtain us vs where ks: "ks = us @ (m, False) # vs" by (auto dest: split_list)
  then have L: "layout (csize h) (preceding h) (mm_heapstart h) 0 (us @ (m, False) # vs)"
    using assms by (simp add: mm_part_def)
  then show "\<exists>y \<in> set (frees (mm_heapstart h) ks). csize h y = m"
    using frees_at [OF L] layout_at(1) [OF L] ks by (intro bexI) auto
next
  assume "\<exists>y \<in> set (frees (mm_heapstart h) ks). csize h y = m"
  then obtain y where y: "y \<in> set (frees (mm_heapstart h) ks)" "csize h y = m" by blast
  obtain us n vs where ks: "ks = us @ (n, False) # vs" "y = mm_heapstart h + extent us"
    using frees_split [OF y(1)] by blast
  then have "csize h y = n" using assms layout_at(1) by (auto simp: mm_part_def)
  with ks y show "(m, False) \<in> set ks" by simp
qed

lemma mm_malloc_cases_sz:
  assumes wf: "mm_wf h ks" and lock: "lock_ok c h" and req: "0 < req"
    and sz: "sz = unat (MM_ALIGN_UP (req + of_nat SIZEOF_MM_ALLOCNODE))" "16 \<le> sz"
  shows "\<exists>p h'. mm_malloc c req h = Some (p, h') \<and> same_env h h' \<and>
    (p = NULL \<longrightarrow> mm_wf h' ks \<and> (\<forall>m. (m, False) \<in> set ks \<longrightarrow> m < sz)) \<and>
    (p \<noteq> NULL \<longrightarrow> (\<exists>us n vs. ks = us @ (n, False) # vs \<and> p = mm_heapstart h + extent us + 16 \<and>
       sz \<le> n \<and>
       (\<forall>m. (m, False) \<in> set ks \<longrightarrow> sz \<le> m \<longrightarrow> n \<le> m) \<and>
       mm_wf h' (us @ taken (sz) n @ vs)))"
proof -
  have s: "16 \<le> sz" "16 dvd sz" using sz align_up_dvd by auto
  obtain ls k where lk: "mm_takesemaphore c h = Some (with_lock ls (getpid c) k h)"
    and gv: "\<And>h'. same_env (with_lock ls (getpid c) k h) h' \<Longrightarrow>
      mm_givesemaphore (getpid c) h' =
        Some (with_lock (mm_semaphore h) (mm_holder h) (mm_counts_held h) h')"
    using take_give [OF lock] by metis
  let ?h1 = "with_lock ls (getpid c) k h"
  have wf1: "mm_wf ?h1 ks" using wf by simp
  then have p1: "mm_part ?h1 ks {}" by (simp add: mm_wf_def)
  then obtain bk where bk: "freelist ?h1 bk (set (frees (mm_heapstart h) ks))"
    by (auto simp: mm_part_def)
  obtain x where x: "find_fit (csize h) (flink h) sz (flink h (nodelist ?h1 (mm_size2ndx sz))) = Some x"
    and x0: "x = NULL \<Longrightarrow> \<forall>y \<in> set (frees (mm_heapstart h) ks). csize h y < sz"
    and xc: "x \<noteq> NULL \<Longrightarrow> x \<in> set (frees (mm_heapstart h) ks) \<and> sz \<le> csize h x \<and>
       (\<forall>y \<in> set (frees (mm_heapstart h) ks). sz \<le> csize h y \<longrightarrow> csize h x \<le> csize h y)"
    using find_fit_best [OF bk s(1)] by auto
  have ndx: "(if sz \<ge> MM_MAX_CHUNK then MM_NNODES - 1 else mm_size2ndx sz) = mm_size2ndx sz"
    by (simp add: mm_size2ndx_def)
  have unf: "mm_malloc c req h = do {
      (ret, h) \<leftarrow> (if x \<noteq> NULL then mm_malloc_take c sz x ?h1 else Some (NULL, ?h1));
      h \<leftarrow> mm_givesemaphore (getpid c) h;
      Some (ret, h) }"
    using word_gt_0 [THEN iffD1, OF req] lk x ndx by (simp add: mm_malloc_def sz(1) [symmetric])
  have fs: "(m, False) \<in> set ks \<longleftrightarrow> (\<exists>y \<in> set (frees (mm_heapstart h) ks). csize h y = m)" for m
    using part_free_sizes [OF p1] by simp
  show ?thesis
  proof (cases "x = NULL")
    case True
    then show ?thesis
      using unf gv [of ?h1] x0 fs wf by (auto simp: same_env_def)
  next
    case False
    with xc obtain us n vs where ks: "ks = us @ (n, False) # vs" "x = mm_heapstart h + extent us"
      using frees_split by metis
    have n: "csize h x = n" using mm_part_chunk(7) [OF p1 [unfolded ks]] ks by simp
    obtain h2 where h2: "mm_malloc_take c sz x ?h1 = Some (x + 16, h2)"
      "mm_wf h2 (us @ taken sz n @ vs)" "same_env ?h1 h2"
      using mm_malloc_take_wf [OF wf1 [unfolded ks] s, of x c] xc False n ks by auto
    define h3 where "h3 = with_lock (mm_semaphore h) (mm_holder h) (mm_counts_held h) h2"
    have "mm_malloc c req h = Some (x + 16, h3)"
      using unf False h2(1) gv [OF h2(3)] by (simp add: h3_def)
    moreover have "same_env h h3" using h2(3) by (auto simp: same_env_def h3_def)
    moreover have "\<exists>us n vs. ks = us @ (n, False) # vs \<and> x + 16 = mm_heapstart h + extent us + 16 \<and>
       sz \<le> n \<and> (\<forall>m. (m, False) \<in> set ks \<longrightarrow> sz \<le> m \<longrightarrow> n \<le> m) \<and> mm_wf h3 (us @ taken sz n @ vs)"
    proof (intro exI conjI)
      show "ks = us @ (n, False) # vs" by fact
      show "x + 16 = mm_heapstart h + extent us + 16" using ks(2) by simp
      show "sz \<le> n" "\<forall>m. (m, False) \<in> set ks \<longrightarrow> sz \<le> m \<longrightarrow> n \<le> m" using fs xc False n by auto
      show "mm_wf h3 (us @ taken sz n @ vs)" using h2(2) by (simp add: h3_def)
    qed
    ultimately show ?thesis
      by (intro exI [of _ "x + 16"], intro exI [of _ h3]) simp
  qed
qed

lemma mm_malloc_cases:
  assumes wf: "mm_wf h ks" and lock: "lock_ok c h" and req: "0 < req" "unat req + 31 < 2 ^ 32"
  shows "\<exists>p h'. mm_malloc c req h = Some (p, h') \<and> same_env h h' \<and>
    (p = NULL \<longrightarrow> mm_wf h' ks \<and> (\<forall>m. (m, False) \<in> set ks \<longrightarrow> m < chunk_size (unat req))) \<and>
    (p \<noteq> NULL \<longrightarrow> (\<exists>us n vs. ks = us @ (n, False) # vs \<and> p = mm_heapstart h + extent us + 16 \<and>
       chunk_size (unat req) \<le> n \<and>
       (\<forall>m. (m, False) \<in> set ks \<longrightarrow> chunk_size (unat req) \<le> m \<longrightarrow> n \<le> m) \<and>
       mm_wf h' (us @ taken (chunk_size (unat req)) n @ vs)))"
  using mm_malloc_cases_sz [OF wf lock req(1) unat_request [OF req(2), symmetric]] chunk_size_props(2) [of "unat req"]
  by simp

section \<open>Release\<close>

text \<open>What releasing a chunk does to the list of chunks: it joins a free successor, then a free
  predecessor.\<close>

fun join_next :: "nat \<Rightarrow> chunk list \<Rightarrow> nat \<times> chunk list" where
  "join_next n ((m, False) # vs) = (n + m, vs)"
| "join_next n vs = (n, vs)"

definition join_prev :: "chunk list \<Rightarrow> nat \<Rightarrow> chunk list \<times> nat" where
  "join_prev us n =
     (if us \<noteq> [] \<and> \<not> snd (last us) then (butlast us, fst (last us) + n) else (us, n))"

definition release :: "chunk list \<Rightarrow> nat \<Rightarrow> chunk list \<Rightarrow> chunk list" where
  "release us n vs =
     (let (n, vs) = join_next n vs; (us, n) = join_prev us n in us @ (n, False) # vs)"

lemma part_drop:
  assumes "y \<notin> set (frees (mm_heapstart h) ks)"
  shows "mm_part h ks (insert y X) = mm_part h ks X"
proof -
  have "set (frees (mm_heapstart h) ks) - insert y X = set (frees (mm_heapstart h) ks) - X"
    using assms by auto
  then show ?thesis by (simp add: mm_part_def)
qed

lemma part_drop_mid:
  assumes "mm_part h (us @ (n, b) # vs) (insert (mm_heapstart h + extent us + k) X)" "0 < k" "k < n"
  shows "mm_part h (us @ (n, b) # vs) X"
proof -
  have L: "layout (csize h) (preceding h) (mm_heapstart h) 0 (us @ (n, b) # vs)"
    using assms(1) by (simp add: mm_part_def)
  from part_drop [OF frees_not_mid [OF L assms(2,3)]] assms(1) show ?thesis by blast
qed

lemma is_alloc_small [flag_simps]: "p < 2 ^ 31 \<Longrightarrow> \<not> is_alloc p"
  using is_alloc_prec [of p False] by (simp add: prec_False)

lemma mm_part_prev:
  assumes "mm_part h (us @ vs) X"
  shows "last (0 # map fst us) < 2 ^ 31"
proof (cases us rule: rev_cases)
  case (snoc us2 k)
  then show ?thesis using assms by (auto simp: mm_part_def region_ok_def)
qed simp

lemma merge_next_part:
  assumes p: "mm_part h (us @ (n, False) # vs) {x}" and x: "x = mm_heapstart h + extent us"
    and us: "us \<noteq> []"
    and j: "join_next n vs = (n', vs')"
  shows "\<exists>h'. mm_free_merge_next x h = Some (x + n', h') \<and> same_env h h' \<and>
    mm_part h' (us @ (n', False) # vs') {x}"
proof -
  have g: "guarded (us @ (n, False) # vs)" using p by (simp add: mm_part_def region_ok_def)
  obtain m d vs2 where vs: "vs = (m, d) # vs2"
    using guarded_free [OF g] by (cases vs) auto
  have at: "csize h x = n" "csize h (x + n) = m" "preceding h (x + n) = prec n d" "n < 2 ^ 31" "0 < n"
    using mm_part_chunk [OF p] mm_part_next [OF p [unfolded vs]] by (simp_all add: x)
  show ?thesis
  proof (cases d)
    case True
    then show ?thesis using p j at vs by (simp add: mm_free_merge_next_def flag_simps)
  next
    case False
    have g': "guarded ((us @ [(n, False)]) @ (m, False) # vs2)" using g vs False by simp
    obtain k e vs3 where vs2: "vs2 = (k, e) # vs3"
      using guarded_free [OF g'] by (cases vs2) auto
    have pa: "mm_part h ((us @ [(n, False)]) @ (m, False) # (k, e) # vs3) {x}"
      using p vs vs2 False by simp
    have xn: "mm_heapstart h + extent (us @ [(n, False)]) = x + n" by (simp add: x add.assoc)
    note at2 = mm_part_chunk(4,5) [OF pa] mm_part_next [OF pa, unfolded xn]
    obtain fl bl where un: "mm_unlink (x + n) h = Some (h\<lparr>flink := fl, blink := bl\<rparr>)"
      and p1: "mm_part (h\<lparr>flink := fl, blink := bl\<rparr>) (us @ (n, False) # (m, False) # (k, e) # vs3) {x + n, x}"
      using part_unlink [OF pa, unfolded xn] at(5) by auto
    define h1 where "h1 = h\<lparr>flink := fl, blink := bl\<rparr>"
    define h2 where "h2 = h1\<lparr>csize := (csize h1)(x := n + m),
      preceding := (preceding h1)(x + n + m := prec (n + m) e)\<rparr>"
    have "mm_part h2 (us @ (n + m, False) # (k, e) # vs3) {x + n, x}"
      unfolding h2_def by (rule part_merge [OF p1 [folded h1_def]]) (simp_all add: x us h1_def)
    then have "mm_part h2 (us @ (n + m, False) # (k, e) # vs3) {x}"
      using part_drop_mid [of h2 us "n + m" False "(k, e) # vs3" n "{x}"] at(5) at2(2)
      by (simp add: x h2_def h1_def)
    moreover have "mm_free_merge_next x h = Some (x + (n + m), h2)"
      using un at at2 False
      by (simp add: mm_free_merge_next_def flag_simps h2_def h1_def Let_def add.assoc)
    moreover have "same_env h h2" by (simp add: h2_def h1_def same_env_def)
    ultimately show ?thesis using j vs vs2 False by auto
  qed
qed

lemma merge_prev_part:
  assumes p: "mm_part h (us @ (n, False) # vs) {x}" and x: "x = mm_heapstart h + extent us"
    and us: "us \<noteq> []"
    and j: "join_prev us n = (us', n')"
  shows "\<exists>h'. mm_free_merge_prev x (x + n) h = Some (mm_heapstart h + extent us', h') \<and> same_env h h' \<and>
    mm_part h' (us' @ (n', False) # vs) {mm_heapstart h + extent us'}"
proof -
  have g: "guarded (us @ (n, False) # vs)" using p by (simp add: mm_part_def region_ok_def)
  obtain m d vs2 where vs: "vs = (m, d) # vs2"
    using guarded_free [OF g] by (cases vs) auto
  obtain us2 q b where us2: "us = us2 @ [(q, b)]" using us by (cases us rule: rev_cases) auto
  have pa: "mm_part h (us2 @ (q, b) # (n, False) # (m, d) # vs2) {x}" using p us2 vs by simp
  define y where "y = mm_heapstart h + extent us2"
  have y: "x = y + q" using x us2 by (simp add: y_def)
  have at: "csize h x = n" "preceding h x = q" "preceding h (x + n) = prec n d" "n < 2 ^ 31" "0 < n"
    using mm_part_chunk [OF p] mm_part_next [OF p [unfolded vs]] us2 by (simp_all add: x flag_simps)
  have aty: "csize h y = q" "preceding h y = prec (last (0 # map fst us2)) b" "q < 2 ^ 31" "0 < q"
    "last (0 # map fst us2) < 2 ^ 31"
    using mm_part_chunk [OF pa] mm_part_prev [OF pa] by (simp_all add: y_def)
  show ?thesis
  proof (cases b)
    case True
    then show ?thesis using p j at aty us2 y x by (auto simp: mm_free_merge_prev_def join_prev_def flag_simps)
  next
    case False
    have pb: "mm_part h (us2 @ (q, False) # (n, False) # (m, d) # vs2) {x}" using pa False by simp
    have us2ne: "us2 \<noteq> []" using g us2 vs False by (auto simp: guarded_def)
    obtain fl bl where un: "mm_unlink y h = Some (h\<lparr>flink := fl, blink := bl\<rparr>)"
      and p1: "mm_part (h\<lparr>flink := fl, blink := bl\<rparr>) (us2 @ (q, False) # (n, False) # (m, d) # vs2) {y, x}"
      using part_unlink [OF pb, folded y_def] aty(4) y by auto
    define h1 where "h1 = h\<lparr>flink := fl, blink := bl\<rparr>"
    define h2 where "h2 = h1\<lparr>csize := (csize h1)(y := q + n),
      preceding := (preceding h1)(y + q + n := prec (q + n) d)\<rparr>"
    have "mm_part h2 (us2 @ (q + n, False) # (m, d) # vs2) {y, x}"
      unfolding h2_def by (rule part_merge [OF p1 [folded h1_def]]) (simp_all add: y y_def us2ne h1_def)
    then have "mm_part h2 (us2 @ (q + n, False) # (m, d) # vs2) {y}"
      using part_drop_mid [of h2 us2 "q + n" False "(m, d) # vs2" q "{y}"] at(5) aty(4)
      by (simp add: y y_def h2_def h1_def insert_commute)
    moreover have "mm_free_merge_prev x (x + n) h = Some (y, h2)"
      using un at aty False y
      by (simp add: mm_free_merge_prev_def flag_simps h2_def h1_def Let_def)
    moreover have "same_env h h2" by (simp add: h2_def h1_def same_env_def)
    ultimately show ?thesis using j vs us2 False by (auto simp: join_prev_def y_def)
  qed
qed

lemma coalesced_release:
  assumes "coalesced (us @ (n, True) # vs)"
  shows "coalesced (release us n vs)"
proof -
  obtain n' vs' where j: "join_next n vs = (n', vs')" by fastforce
  have vs': "coalesced ((n', False) # vs')"
    using assms j by (cases "(n, vs)" rule: join_next.cases) (auto simp: coalesced_append coalesced_Cons)
  show ?thesis
  proof (cases us rule: rev_cases)
    case Nil
    with vs' j show ?thesis by (simp add: release_def join_prev_def)
  next
    case (snoc us2 k)
    with vs' j assms show ?thesis
      by (auto simp: release_def join_prev_def coalesced_append coalesced_Cons)
  qed
qed

lemma mm_free_release:
  assumes wf: "mm_wf h (us @ (n, True) # vs)" and lock: "lock_ok c h" and us: "us \<noteq> []" "vs \<noteq> []"
    and mem: "mem = mm_heapstart h + extent us + 16"
  shows "\<exists>h'. mm_free c mem h = Some h' \<and> same_env h h' \<and> mm_wf h' (release us n vs)"
proof -
  let ?x = "mm_heapstart h + extent us"
  obtain s k where take: "mm_takesemaphore c h = Some (with_lock s (getpid c) k h)"
    and give: "\<And>h'. same_env (with_lock s (getpid c) k h) h' \<Longrightarrow>
      mm_givesemaphore (getpid c) h' =
        Some (with_lock (mm_semaphore h) (mm_holder h) (mm_counts_held h) h')"
    using take_give [OF lock] by metis
  define h1 where "h1 = with_lock s (getpid c) k h"
  define h2 where "h2 = heapinfo_credit ?x h1"
  have st: "mm_heapstart h1 = mm_heapstart h" by (simp add: h1_def)
  have "mm_wf h1 (us @ (n, True) # vs)" using wf by (simp add: h1_def)
  then have p1: "mm_part h1 (us @ (n, True) # vs) {}" and co: "coalesced (us @ (n, True) # vs)"
    by (auto simp: mm_wf_def)
  have sh: "same_headers h1 h2" by (simp add: h2_def heapinfo_same_headers)
  then have p2: "mm_part h2 (us @ (n, True) # vs) {}" and e2: "same_env h1 h2"
    using p1 mm_part_cong by (auto simp: same_headers_def)
  have st2: "mm_heapstart h2 = mm_heapstart h" using e2 st by (simp add: same_env_def)
  note at = mm_part_chunk [OF p2, unfolded st2]
  have sz: "last (0 # map fst us) < 2 ^ 31" using mm_part_prev [OF p2] .
  define h3 where "h3 = h2\<lparr>preceding := (preceding h2)(?x := prec (last (0 # map fst us)) False)\<rparr>"
  have p3: "mm_part h3 (us @ (n, False) # vs) {?x}"
    using part_mark [OF p2, of ?x False] us by (simp add: h3_def st2)
  have st3: "mm_heapstart h3 = mm_heapstart h" by (simp add: h3_def st2)
  obtain n1 vs1 where j1: "join_next n vs = (n1, vs1)" by fastforce
  obtain us1 n2 where j2: "join_prev us n1 = (us1, n2)" by fastforce
  from merge_next_part [OF p3 _ us(1) j1] st3 obtain h4
    where m4: "mm_free_merge_next ?x h3 = Some (?x + n1, h4)" and e4: "same_env h3 h4"
      and p4: "mm_part h4 (us @ (n1, False) # vs1) {?x}" by auto
  have st4: "mm_heapstart h4 = mm_heapstart h" using e4 st3 by (simp add: same_env_def)
  from merge_prev_part [OF p4 _ us(1) j2] st4 obtain h5
    where m5: "mm_free_merge_prev ?x (?x + n1) h4 = Some (mm_heapstart h + extent us1, h5)"
      and e5: "same_env h4 h5"
      and p5: "mm_part h5 (us1 @ (n2, False) # vs1) {mm_heapstart h + extent us1}" by auto
  have st5: "mm_heapstart h5 = mm_heapstart h" using e5 st4 by (simp add: same_env_def)
  from part_add [OF p5] st5 obtain fl bl
    where m6: "mm_addfreechunk (mm_heapstart h + extent us1) h5 = Some (h5\<lparr>flink := fl, blink := bl\<rparr>)"
      and p6: "mm_part (h5\<lparr>flink := fl, blink := bl\<rparr>) (us1 @ (n2, False) # vs1) {}" by auto
  define h6 where "h6 = h5\<lparr>flink := fl, blink := bl\<rparr>"
  have e6: "same_env h1 h6" using e2 e4 e5 by (simp add: h3_def h6_def same_env_def)
  have al: "is_alloc (preceding h1 ?x)" "preceding h2 ?x = prec (last (0 # map fst us)) True"
    using at sh sz by (auto simp: same_headers_def flag_simps)
  then have h3: "set_preceding ?x (clear_alloc (preceding h2 ?x)) h2 = h3"
    using sz by (simp add: h3_def flag_simps)
  have "mm_free c mem h = mm_givesemaphore (getpid c) h6"
    using take al(1) h3 m4 m5 m6
    by (simp add: mm_free_def mem SIZEOF_MM_ALLOCNODE_def h1_def [symmetric] h2_def [symmetric] h6_def)
  moreover have "mm_wf h6 (release us n vs)"
    using p6 coalesced_release [OF co] j1 j2 by (simp add: h6_def mm_wf_def release_def)
  moreover have "same_env h (with_lock (mm_semaphore h) (mm_holder h) (mm_counts_held h) h6)"
    using e6 by (simp add: h1_def same_env_def)
  ultimately show ?thesis using give [of h6] e6 by (auto simp: h1_def)
qed

section \<open>The allocated blocks\<close>

text \<open>The abstract view of the heap: the set of allocated blocks, as pairs of header address and
  chunk size (the two guard chunks included).\<close>

fun blocks :: "addr \<Rightarrow> chunk list \<Rightarrow> (addr \<times> nat) set" where
  "blocks a [] = {}"
| "blocks a ((n, b) # ks) = (if b then {(a, n)} else {}) \<union> blocks (a + n) ks"

lemma blocks_append [simp]: "blocks a (us @ vs) = blocks a us \<union> blocks (a + extent us) vs"
  by (induction us arbitrary: a) (auto simp: add.assoc)

lemma blocks_range:
  "layout cs pr a p ks \<Longrightarrow> (x, n) \<in> blocks a ks \<Longrightarrow> a \<le> x \<and> x + n \<le> a + extent ks \<and> 16 \<le> n"
proof (induction ks arbitrary: a p)
  case (Cons k ks)
  obtain m b where k: "k = (m, b)" by fastforce
  have L: "layout cs pr (a + m) m ks" using Cons.prems k by simp
  show ?case using Cons.IH [OF L] Cons.prems k by (auto split: if_splits)
qed simp

lemma blocks_split:
  "(x, n) \<in> blocks a ks \<Longrightarrow> \<exists>us vs. ks = us @ (n, True) # vs \<and> x = a + extent us"
proof (induction ks arbitrary: a)
  case (Cons k ks)
  obtain m b where k: "k = (m, b)" by fastforce
  consider "b" "x = a" "n = m" | "(x, n) \<in> blocks (a + m) ks"
    using Cons.prems k by (auto split: if_splits)
  then show ?case
  proof cases
    case 1
    then show ?thesis using k by (intro exI [of _ "[]"] exI [of _ ks]) simp
  next
    case 2
    from Cons.IH [OF this] obtain us vs where "ks = us @ (n, True) # vs" "x = a + m + extent us" by blast
    then show ?thesis using k by (intro exI [of _ "k # us"] exI [of _ vs]) simp
  qed
qed simp

lemma blocks_disjoint:
  assumes L: "layout cs pr a p ks" and x: "(x, n) \<in> blocks a ks" and y: "(y, m) \<in> blocks a ks" and ne: "x \<noteq> y"
  shows "x + n \<le> y \<or> y + m \<le> x"
proof -
  obtain us vs where ks: "ks = us @ (n, True) # vs" "x = a + extent us"
    using blocks_split [OF x] by blast
  have l: "layout cs pr a p us" "layout cs pr (x + n) n vs"
    using L ks by (auto simp: layout_append)
  consider "(y, m) \<in> blocks a us" | "(y, m) \<in> blocks (x + n) vs"
    using y ne ks by (auto simp: add.assoc)
  then show ?thesis
    using blocks_range [OF l(1), of y m] blocks_range [OF l(2), of y m] ks by cases auto
qed

lemma blocks_remove:
  assumes "layout cs pr a p (us @ (n, True) # vs)"
  shows "blocks a (us @ (n, False) # vs) = blocks a (us @ (n, True) # vs) - {(a + extent us, n)}"
proof -
  have l: "layout cs pr a p us" "layout cs pr (a + extent us + n) n vs" "16 \<le> n"
    using assms by (auto simp: layout_append)
  have "(a + extent us, n) \<notin> blocks a us" "(a + extent us, n) \<notin> blocks (a + extent us + n) vs"
    using blocks_range [OF l(1), of "a + extent us" n] blocks_range [OF l(2), of "a + extent us" n] l(3)
    by auto
  then show ?thesis by (auto simp: add.assoc)
qed

lemma blocks_release: "blocks a (release us n vs) = blocks a (us @ (n, False) # vs)"
proof -
  have "blocks a (us @ (n, False) # vs) = blocks a (us @ (fst (join_next n vs), False) # snd (join_next n vs))"
    by (cases "(n, vs)" rule: join_next.cases) (auto simp: add.assoc)
  moreover have "blocks a (us @ (m, False) # ws) = blocks a (fst (join_prev us m) @ (snd (join_prev us m), False) # ws)" for m ws
    by (cases us rule: rev_cases) (auto simp: join_prev_def add.assoc split: if_splits)
  ultimately show ?thesis by (simp add: release_def split: prod.split)
qed

lemma taken_exact:
  assumes "16 dvd n" "16 dvd s" "s \<le> n"
  shows "taken s n = (s, True) # (if n = s then [] else [(n - s, False)])"
proof -
  have "16 dvd n - s" using assms by (intro dvd_diff_nat) auto
  then show ?thesis using assms dvd_imp_le [of 16 "n - s"] by (auto simp: taken_def)
qed

text \<open>The blocks of a well-formed heap: aligned, inside the region and pairwise disjoint.\<close>

lemma mm_wf_blocks:
  assumes wf: "mm_wf h ks"
  shows "(x, n) \<in> blocks (mm_heapstart h) ks \<Longrightarrow>
      16 dvd x \<and> x \<noteq> NULL \<and> mm_heapstart h \<le> x \<and> x + n \<le> mm_heapend h + 16 \<and> 16 \<le> n \<and> 16 dvd n"
    and "(x, n) \<in> blocks (mm_heapstart h) ks \<Longrightarrow> (y, m) \<in> blocks (mm_heapstart h) ks \<Longrightarrow>
      x \<noteq> y \<Longrightarrow> x + n \<le> y \<or> y + m \<le> x"
    and "(x, n) \<in> blocks (mm_heapstart h) ks \<Longrightarrow> csize h x = n"
proof -
  have L: "layout (csize h) (preceding h) (mm_heapstart h) 0 ks" and r: "region_ok h ks"
    and p: "mm_part h ks {}"
    using wf by (auto simp: mm_wf_def mm_part_def)
  show "(x, n) \<in> blocks (mm_heapstart h) ks \<Longrightarrow> (y, m) \<in> blocks (mm_heapstart h) ks \<Longrightarrow>
      x \<noteq> y \<Longrightarrow> x + n \<le> y \<or> y + m \<le> x"
    using blocks_disjoint [OF L] by blast
  assume x: "(x, n) \<in> blocks (mm_heapstart h) ks"
  then obtain us vs where ks: "ks = us @ (n, True) # vs" "x = mm_heapstart h + extent us"
    using blocks_split by blast
  show "csize h x = n" using mm_part_chunk(7) [OF p [unfolded ks]] ks by simp
  show "16 dvd x \<and> x \<noteq> NULL \<and> mm_heapstart h \<le> x \<and> x + n \<le> mm_heapend h + 16 \<and> 16 \<le> n \<and> 16 dvd n"
    using mm_part_chunk [OF p [unfolded ks(1)]] ks blocks_range [OF L x] r by (simp add: region_ok_def)
qed

text \<open>A block other than the guards: not at the ends of the region.\<close>

abbreviation user_block :: "mm_heap \<Rightarrow> chunk list \<Rightarrow> addr \<Rightarrow> nat \<Rightarrow> bool" where
  "user_block h ks x n \<equiv> (x, n) \<in> blocks (mm_heapstart h) ks \<and> x \<noteq> mm_heapstart h \<and> x \<noteq> mm_heapend h"

lemma user_block_split:
  assumes wf: "mm_wf h ks" and x: "user_block h ks x n"
  obtains us vs where "ks = us @ (n, True) # vs" "x = mm_heapstart h + extent us" "us \<noteq> []" "vs \<noteq> []"
proof -
  obtain us vs where ks: "ks = us @ (n, True) # vs" "x = mm_heapstart h + extent us"
    using blocks_split x by blast
  have r: "region_ok h ks" using wf by (simp add: mm_wf_def mm_part_def)
  have "us \<noteq> []" using x ks by auto
  moreover have "vs \<noteq> []"
  proof
    assume "vs = []"
    then have "n = 16" using r ks \<open>us \<noteq> []\<close> by (auto simp: region_ok_def guarded_def append_eq_Cons_conv)
    then show False using r ks x \<open>vs = []\<close> by (simp add: region_ok_def)
  qed
  ultimately show ?thesis using that ks by blast
qed

lemma mm_malloc_blocks_sz:
  assumes wf: "mm_wf h ks" and lock: "lock_ok c h" and req: "0 < req"
    and sz: "sz = unat (MM_ALIGN_UP (req + of_nat SIZEOF_MM_ALLOCNODE))" "16 \<le> sz"
  shows "\<exists>p h' ks'. mm_malloc c req h = Some (p, h') \<and> same_env h h' \<and> mm_wf h' ks' \<and>
    (p = NULL \<longrightarrow> ks' = ks \<and> (\<forall>m. (m, False) \<in> set ks \<longrightarrow> m < sz)) \<and>
    (p \<noteq> NULL \<longrightarrow> p \<ge> 16 \<and> p - 16 \<notin> fst ` blocks (mm_heapstart h) ks \<and> user_block h ks' (p - 16) (sz) \<and>
       blocks (mm_heapstart h) ks' = insert (p - 16, sz) (blocks (mm_heapstart h) ks))"
proof -
  let ?a = "mm_heapstart h"
  from mm_malloc_cases_sz [OF assms] obtain p h' where
    call: "mm_malloc c req h = Some (p, h')" "same_env h h'"
    and 0: "p = NULL \<longrightarrow> mm_wf h' ks \<and> (\<forall>m. (m, False) \<in> set ks \<longrightarrow> m < sz)"
    and 1: "p \<noteq> NULL \<longrightarrow> (\<exists>us n vs. ks = us @ (n, False) # vs \<and> p = ?a + extent us + 16 \<and>
       sz \<le> n \<and> (\<forall>m. (m, False) \<in> set ks \<longrightarrow> sz \<le> m \<longrightarrow> n \<le> m) \<and> mm_wf h' (us @ taken sz n @ vs))"
    by (elim exE conjE)
  show ?thesis
  proof (cases "p = NULL")
    case True
    then show ?thesis using call 0 by blast
  next
    case False
    then obtain us n vs where ks: "ks = us @ (n, False) # vs" and p: "p = ?a + extent us + 16"
      and n: "sz \<le> n" and wf': "mm_wf h' (us @ taken sz n @ vs)" using 1 by blast
    have pt: "mm_part h (us @ (n, False) # vs) {}" using wf ks by (simp add: mm_wf_def)
    then have L: "layout (csize h) (preceding h) ?a 0 (us @ (n, False) # vs)" by (simp add: mm_part_def)
    have t: "taken sz n = (sz, True) # (if n = sz then [] else [(n - sz, False)])"
      using taken_exact [OF mm_part_chunk(6) [OF pt] _ n] align_up_dvd sz(1) by simp
    have b: "blocks ?a (us @ taken sz n @ vs) = insert (p - 16, sz) (blocks ?a ks)"
      using n by (auto simp: t ks p add.assoc)
    have l: "layout (csize h) (preceding h) ?a 0 us" "layout (csize h) (preceding h) (?a + extent us + n) n vs" "16 \<le> n"
      using L by (auto simp: layout_append)
    have "p - 16 \<notin> fst ` blocks ?a ks"
      using blocks_range [OF l(1)] blocks_range [OF l(2)] l(3) by (force simp: ks p add.assoc)
    moreover have "p - 16 \<noteq> ?a" "p - 16 \<noteq> mm_heapend h"
    proof -
      obtain m vs' where nb: "vs = (m, True) # vs'" "us \<noteq> []"
        using mm_wf_free_neighbours [OF wf [unfolded ks]] by metis
      obtain k b us' where "us = (k, b) # us'" using nb by (cases us) auto
      then show "p - 16 \<noteq> ?a" using p l(1) by simp
      have "16 \<le> m" using nb l(2) by simp
      then show "p - 16 \<noteq> mm_heapend h"
        using pt l(3) nb by (simp add: mm_part_def region_ok_def p)
    qed
    ultimately show ?thesis
      using call wf' b False p by (intro exI [of _ p], intro exI [of _ h'], intro exI [of _ "us @ taken sz n @ vs"]) auto
  qed
qed

lemma mm_malloc_blocks:
  assumes wf: "mm_wf h ks" and lock: "lock_ok c h" and req: "0 < req" "unat req + 31 < 2 ^ 32"
  shows "\<exists>p h' ks'. mm_malloc c req h = Some (p, h') \<and> same_env h h' \<and> mm_wf h' ks' \<and>
    (p = NULL \<longrightarrow> ks' = ks \<and> (\<forall>m. (m, False) \<in> set ks \<longrightarrow> m < chunk_size (unat req))) \<and>
    (p \<noteq> NULL \<longrightarrow> p \<ge> 16 \<and> p - 16 \<notin> fst ` blocks (mm_heapstart h) ks \<and> user_block h ks' (p - 16) (chunk_size (unat req)) \<and>
       blocks (mm_heapstart h) ks' = insert (p - 16, chunk_size (unat req)) (blocks (mm_heapstart h) ks))"
  using mm_malloc_blocks_sz [OF wf lock req(1) unat_request [OF req(2), symmetric]] chunk_size_props(2) [of "unat req"]
  by simp

lemma mm_free_blocks:
  assumes wf: "mm_wf h ks" and lock: "lock_ok c h" and x: "user_block h ks (mem - 16) n" and mem: "16 \<le> mem"
  shows "\<exists>h' ks'. mm_free c mem h = Some h' \<and> same_env h h' \<and> mm_wf h' ks' \<and>
    blocks (mm_heapstart h) ks' = blocks (mm_heapstart h) ks - {(mem - 16, n)}"
proof -
  obtain us vs where ks: "ks = us @ (n, True) # vs" and m: "mem - 16 = mm_heapstart h + extent us"
    and ne: "us \<noteq> []" "vs \<noteq> []" using user_block_split [OF wf x] .
  have L: "layout (csize h) (preceding h) (mm_heapstart h) 0 (us @ (n, True) # vs)"
    using wf ks by (simp add: mm_wf_def mm_part_def)
  have "mem = mm_heapstart h + extent us + 16" using m mem by simp
  from mm_free_release [OF wf [unfolded ks] lock ne this] obtain h'
    where "mm_free c mem h = Some h'" "same_env h h'" "mm_wf h' (release us n vs)" by blast
  then show ?thesis
    using blocks_remove [OF L] blocks_release ks m by (intro exI [of _ h'] exI [of _ "release us n vs"]) simp
qed

end
