(* ===== verification/MM_Heap_Resize.thy ===== *)
theory MM_Heap_Resize
  imports MM_Heap_Ops
begin

unbundle bit_operations_syntax

text \<open>
  The operations that move chunk boundaries: \<open>mm_shrinkchunk\<close>, \<open>mm_realloc\<close> on its three paths
  (shrink in place, grow into free neighbours, move), \<open>mm_memalign\<close>; and \<open>mm_mallinfo\<close>,
  \<open>mm_extend\<close> and \<open>mm_initialize\<close>. Each is shown to return and to keep \<open>mm_wf\<close>, with its effect on
  the set of allocated blocks and on the data bytes.
\<close>

lemma small_and_alloc [flag_simps]: "p < 2 ^ 31 \<Longrightarrow> p AND MM_ALLOC_BIT = 0"
  using prec_and_alloc [of p False] by (simp add: prec_False)

lemma part_free_next:
  assumes "mm_part h (us @ (m, False) # vs) X"
  obtains k e vs' where "vs = (k, e) # vs'" "us \<noteq> []"
proof -
  have "guarded (us @ (m, False) # vs)" using assms by (simp add: mm_part_def region_ok_def)
  from guarded_free [OF this] that show ?thesis by (cases vs) auto
qed

section \<open>Moving the boundary to a free neighbour\<close>

text \<open>Taking a free successor off the list and joining it to the allocated chunk before it.\<close>

lemma absorb_next:
  assumes p: "mm_part h (us @ (n, True) # (m, False) # (k, e) # vs) {}" and us: "us \<noteq> []"
    and x: "x = mm_heapstart h + extent us"
  shows "\<exists>fl bl. mm_unlink (x + n) h = Some (h\<lparr>flink := fl, blink := bl\<rparr>) \<and>
    mm_part (h\<lparr>flink := fl, blink := bl, csize := (csize h)(x := n + m),
      preceding := (preceding h)(x + n + m := prec (n + m) e)\<rparr>) (us @ (n + m, True) # (k, e) # vs) {}"
proof -
  have pa: "mm_part h ((us @ [(n, True)]) @ (m, False) # (k, e) # vs) {}" using p by simp
  have xn: "mm_heapstart h + extent (us @ [(n, True)]) = x + n" by (simp add: x add.assoc)
  have sz: "0 < n" "0 < m" using mm_part_chunk(5) [OF p] mm_part_chunk(5) [OF pa] by simp_all
  obtain fl bl where un: "mm_unlink (x + n) h = Some (h\<lparr>flink := fl, blink := bl\<rparr>)"
    and p1: "mm_part (h\<lparr>flink := fl, blink := bl\<rparr>) (us @ (n, True) # (m, False) # (k, e) # vs) {x + n}"
    using part_unlink [OF pa, unfolded xn] by auto
  let ?h2 = "h\<lparr>flink := fl, blink := bl, csize := (csize h)(x := n + m),
      preceding := (preceding h)(x + n + m := prec (n + m) e)\<rparr>"
  have "mm_part ?h2 (us @ (n + m, True) # (k, e) # vs) {x + n}"
    using part_merge [OF p1, of x] us x by simp
  then have "mm_part ?h2 (us @ (n + m, True) # (k, e) # vs) {}"
    using part_drop_mid [of ?h2 us "n + m" True "(k, e) # vs" n "{}"] sz x by simp
  with un show ?thesis by blast
qed

text \<open>Giving the end of an allocated chunk back.\<close>

lemma give_tail:
  assumes p: "mm_part h (us @ (n, True) # (k, e) # vs) {}" and us: "us \<noteq> []"
    and x: "x = mm_heapstart h + extent us" and s: "16 \<le> s" "16 dvd s" "s + 16 \<le> n"
    and h2: "h2 = h\<lparr>csize := (csize h)(x + s := n - s, x := s),
      preceding := (preceding h)(x + s := s, x + n := prec (n - s) e)\<rparr>"
  shows "\<exists>fl bl. mm_addfreechunk (x + s) h2 = Some (h2\<lparr>flink := fl, blink := bl\<rparr>) \<and>
    mm_part (h2\<lparr>flink := fl, blink := bl\<rparr>) (us @ (s, True) # (n - s, False) # (k, e) # vs) {}"
proof -
  have p2: "mm_part h2 ((us @ [(s, True)]) @ (n - s, False) # (k, e) # vs) {x + s}"
    using part_split [OF p s us x] by (simp add: h2)
  show ?thesis
    using part_add [OF p2] x by (simp add: h2 add.assoc)
qed

lemma resize_next:
  assumes p: "mm_part h (us @ (n, True) # (m, False) # (k, e) # vs) {}" and us: "us \<noteq> []"
    and x: "x = mm_heapstart h + extent us" and s: "16 \<le> s" "16 dvd s" "s + 16 \<le> n + m"
  shows "\<exists>fl bl fl' bl' h2. mm_unlink (x + n) h = Some (h\<lparr>flink := fl, blink := bl\<rparr>) \<and>
    h2 = h\<lparr>flink := fl, blink := bl, csize := (csize h)(x + s := n + m - s, x := s),
      preceding := (preceding h)(x + s := s, x + n + m := prec (n + m - s) e)\<rparr> \<and>
    mm_addfreechunk (x + s) h2 = Some (h2\<lparr>flink := fl', blink := bl'\<rparr>) \<and>
    mm_part (h2\<lparr>flink := fl', blink := bl'\<rparr>) (us @ (s, True) # (n + m - s, False) # (k, e) # vs) {}"
proof -
  obtain fl bl where un: "mm_unlink (x + n) h = Some (h\<lparr>flink := fl, blink := bl\<rparr>)"
    and p1: "mm_part (h\<lparr>flink := fl, blink := bl, csize := (csize h)(x := n + m),
      preceding := (preceding h)(x + n + m := prec (n + m) e)\<rparr>) (us @ (n + m, True) # (k, e) # vs) {}"
    using absorb_next [OF p us x] by blast
  define h1 where "h1 = h\<lparr>flink := fl, blink := bl, csize := (csize h)(x := n + m),
      preceding := (preceding h)(x + n + m := prec (n + m) e)\<rparr>"
  let ?h2 = "h\<lparr>flink := fl, blink := bl, csize := (csize h)(x + s := n + m - s, x := s),
      preceding := (preceding h)(x + s := s, x + n + m := prec (n + m - s) e)\<rparr>"
  have eq: "?h2 = h1\<lparr>csize := (csize h1)(x + s := n + m - s, x := s),
      preceding := (preceding h1)(x + s := s, x + (n + m) := prec (n + m - s) e)\<rparr>"
    using s by (simp add: h1_def fun_upd_twist add.assoc)
  have p1': "mm_part h1 (us @ (n + m, True) # (k, e) # vs) {}" using p1 by (simp add: h1_def)
  have x1: "x = mm_heapstart h1 + extent us" by (simp add: h1_def x)
  from give_tail [OF p1' us x1 s eq] un show ?thesis by blast
qed

subsection \<open>mm_shrinkchunk\<close>

fun shrunk :: "nat \<Rightarrow> nat \<Rightarrow> chunk list \<Rightarrow> chunk list" where
  "shrunk s n ((m, False) # vs) = (s, True) # (n - s + m, False) # vs"
| "shrunk s n vs = (if n \<ge> s + 16 then (s, True) # (n - s, False) # vs else (n, True) # vs)"

lemma mm_shrinkchunk_part:
  assumes p: "mm_part h (us @ (n, True) # vs) {}" and ne: "us \<noteq> []" "vs \<noteq> []"
    and x: "x = mm_heapstart h + extent us" and s: "16 \<le> s" "16 dvd s" "s \<le> n"
  shows "\<exists>h'. mm_shrinkchunk x s h = Some h' \<and> same_env h h' \<and> mm_part h' (us @ shrunk s n vs) {}"
proof -
  obtain m d vs2 where vs: "vs = (m, d) # vs2" using ne(2) by (cases vs) auto
  have at: "csize h x = n" "csize h (x + n) = m" "preceding h (x + n) = prec n d" "n < 2 ^ 31"
    using mm_part_chunk [OF p] mm_part_next [OF p [unfolded vs]] by (simp_all add: x)
  show ?thesis
  proof (cases d)
    case False
    have pa: "mm_part h ((us @ [(n, True)]) @ (m, False) # vs2) {}" using p vs False by simp
    obtain k e vs3 where vs2: "vs2 = (k, e) # vs3" using part_free_next [OF pa] .
    have xn: "mm_heapstart h + extent (us @ [(n, True)]) = x + n" by (simp add: x add.assoc)
    note at2 = mm_part_chunk(4,5) [OF pa] mm_part_next [OF pa [unfolded vs2], unfolded xn]
    have pb: "mm_part h (us @ (n, True) # (m, False) # (k, e) # vs3) {}" using pa vs2 by simp
    from resize_next [OF pb ne(1) x s(1,2)] s(3) at2(2)
    obtain fl bl fl' bl' h2 where un: "mm_unlink (x + n) h = Some (h\<lparr>flink := fl, blink := bl\<rparr>)"
      and h2: "h2 = h\<lparr>flink := fl, blink := bl, csize := (csize h)(x + s := n + m - s, x := s),
        preceding := (preceding h)(x + s := s, x + n + m := prec (n + m - s) e)\<rparr>"
      and ad: "mm_addfreechunk (x + s) h2 = Some (h2\<lparr>flink := fl', blink := bl'\<rparr>)"
      and p2: "mm_part (h2\<lparr>flink := fl', blink := bl'\<rparr>) (us @ (s, True) # (n + m - s, False) # (k, e) # vs3) {}"
      by auto
    have "mm_shrinkchunk x s h = Some (h2\<lparr>flink := fl', blink := bl'\<rparr>)"
      using un ad s at at2 False
      by (cases e) (simp_all add: mm_shrinkchunk_def flag_simps h2 Let_def add.commute add.left_commute)
    moreover have "same_env h (h2\<lparr>flink := fl', blink := bl'\<rparr>)" by (simp add: h2 same_env_def)
    ultimately show ?thesis using p2 vs vs2 False s by auto
  next
    case d: True
    show ?thesis
    proof (cases "n \<ge> s + 16")
      case True
      have n: "n \<noteq> s" "0 < s" using s True by auto
      from give_tail [OF p [unfolded vs] ne(1) x s(1,2) True refl] obtain fl bl h2
        where h2: "h2 = h\<lparr>csize := (csize h)(x + s := n - s, x := s),
            preceding := (preceding h)(x + s := s, x + n := prec (n - s) d)\<rparr>"
          and ad: "mm_addfreechunk (x + s) h2 = Some (h2\<lparr>flink := fl, blink := bl\<rparr>)"
          and p2: "mm_part (h2\<lparr>flink := fl, blink := bl\<rparr>) (us @ (s, True) # (n - s, False) # (m, d) # vs2) {}"
        by blast
      have "mm_shrinkchunk x s h = Some (h2\<lparr>flink := fl, blink := bl\<rparr>)"
        using ad at d True n by (simp add: mm_shrinkchunk_def mm_consts flag_simps Let_def h2)
      then show ?thesis using p2 d True vs by (simp add: h2 same_env_def)
    next
      case False
      then show ?thesis using at d vs p by (simp add: mm_shrinkchunk_def mm_consts flag_simps)
    qed
  qed
qed

section \<open>mm_realloc\<close>

definition opt_free :: "nat \<Rightarrow> chunk list" where
  "opt_free n = (if n = 0 then [] else [(n, False)])"

lemma opt_free_simps [simp]: "opt_free 0 = []" "0 < n \<Longrightarrow> opt_free n = [(n, False)]"
  "extent (opt_free n) = n" "blocks a (opt_free n) = {}"
  by (simp_all add: opt_free_def)

subsection \<open>memcpy\<close>

lemma memcpy_loop_at:
  assumes "dst \<le> src \<or> src + n \<le> dst"
  shows "memcpy_loop dst src n m a = (if dst \<le> a \<and> a < dst + n then m (src + (a - dst)) else m a)"
  using assms
proof (induction n arbitrary: dst src m)
  case (Suc n)
  have "Suc dst \<le> Suc src \<or> Suc src + n \<le> Suc dst" using Suc.prems by auto
  from Suc.IH [OF this, of "m(dst := m src)"] have "memcpy_loop dst src (Suc n) m a =
    (if Suc dst \<le> a \<and> a < Suc dst + n then (m(dst := m src)) (Suc src + (a - Suc dst)) else (m(dst := m src)) a)"
    by (simp del: fun_upd_apply)
  also have "\<dots> = (if dst \<le> a \<and> a < dst + Suc n then m (src + (a - dst)) else m a)"
  proof (cases "Suc dst \<le> a \<and> a < Suc dst + n")
    case True
    then have "Suc src + (a - Suc dst) = src + (a - dst)" "src + (a - dst) \<noteq> dst"
      using Suc.prems by auto
    then show ?thesis using True by simp
  qed auto
  finally show ?case .
qed auto

lemma memcpy_payload_at:
  assumes "dst \<le> src \<or> src + n \<le> dst"
  shows "payload (memcpy_payload dst src n h) a =
    (if dst \<le> a \<and> a < dst + n then payload h (src + (a - dst)) else payload h a)"
  using memcpy_loop_at [OF assms] by (simp add: memcpy_payload_def)

lemma mm_part_payload [simp]: "mm_part (h\<lparr>payload := f\<rparr>) ks X = mm_part h ks X"
proof -
  have "freelist (h\<lparr>payload := f\<rparr>) bk F = freelist h bk F" for bk F
    by (rule freelist_cong) auto
  then show ?thesis by (simp add: mm_part_def region_ok_def)
qed

subsection \<open>Growing into a neighbour\<close>

lemma realloc_next_part:
  assumes p: "mm_part h (us @ (n, True) # opt_free m @ (k, e) # vs) {}" and us: "us \<noteq> []"
    and x: "x = mm_heapstart h + extent us" and t: "0 < t" "t \<le> m" "16 dvd t"
  shows "\<exists>h'. realloc_next x (x + n) n m t h = Some h' \<and> same_env h h' \<and>
    mm_part h' (us @ (n + t, True) # opt_free (m - t) @ (k, e) # vs) {}"
proof -
  have p0: "mm_part h (us @ (n, True) # (m, False) # (k, e) # vs) {}" using p t by simp
  have pa: "mm_part h ((us @ [(n, True)]) @ (m, False) # (k, e) # vs) {}" using p0 by simp
  have xn: "mm_heapstart h + extent (us @ [(n, True)]) = x + n" by (simp add: x add.assoc)
  have at: "csize h x = n" "16 \<le> n" "16 dvd n" "n < 2 ^ 31" using mm_part_chunk [OF p0] by (simp_all add: x)
  note at2 = mm_part_chunk(4,5,6) [OF pa] mm_part_next [OF pa, unfolded xn]
  have dv: "16 dvd m - t" using at2(3) t by (intro dvd_diff_nat) auto
  show ?thesis
  proof (cases "16 \<le> m - t")
    case True
    have s: "16 \<le> n + t" "16 dvd n + t" "n + t + 16 \<le> n + m" using at t True by auto
    from resize_next [OF p0 us x s] obtain fl bl fl' bl' h2
      where un: "mm_unlink (x + n) h = Some (h\<lparr>flink := fl, blink := bl\<rparr>)"
      and h2: "h2 = h\<lparr>flink := fl, blink := bl, csize := (csize h)(x + (n + t) := n + m - (n + t), x := n + t),
        preceding := (preceding h)(x + (n + t) := n + t, x + n + m := prec (n + m - (n + t)) e)\<rparr>"
      and ad: "mm_addfreechunk (x + (n + t)) h2 = Some (h2\<lparr>flink := fl', blink := bl'\<rparr>)"
      and p2: "mm_part (h2\<lparr>flink := fl', blink := bl'\<rparr>)
        (us @ (n + t, True) # (n + m - (n + t), False) # (k, e) # vs) {}" by blast
    have mt: "m \<noteq> t" using True by auto
    have tw: "(csize h)(x := n + t, x + (n + t) := m - t) = (csize h)(x + (n + t) := m - t, x := n + t)"
      using at by (intro fun_upd_twist) simp
    have "realloc_next x (x + n) n m t h = Some (h2\<lparr>flink := fl', blink := bl'\<rparr>)"
      using un ad at at2 True tw mt
      by (cases e) (simp_all add: realloc_next_def mm_consts flag_simps h2 Let_def add.assoc)
    then show ?thesis using p2 True by (simp add: h2 same_env_def)
  next
    case False
    then have mt: "m = t" using dv t dvd_imp_le [of 16 "m - t"] by fastforce
    from absorb_next [OF p0 us x] obtain fl bl
      where un: "mm_unlink (x + n) h = Some (h\<lparr>flink := fl, blink := bl\<rparr>)"
        and p2: "mm_part (h\<lparr>flink := fl, blink := bl, csize := (csize h)(x := n + m),
          preceding := (preceding h)(x + n + m := prec (n + m) e)\<rparr>) (us @ (n + m, True) # (k, e) # vs) {}"
      by blast
    have "realloc_next x (x + n) n m t h = Some (h\<lparr>flink := fl, blink := bl, csize := (csize h)(x := n + m),
          preceding := (preceding h)(x + n + m := prec (n + m) e)\<rparr>)"
      using un at at2 mt
      by (cases e) (simp_all add: realloc_next_def mm_consts flag_simps Let_def add.assoc)
    then show ?thesis using p2 mt by (simp add: same_env_def)
  qed
qed

text \<open>Joining an allocated chunk to the free one before it, keeping the front of that one.\<close>

lemma absorb_prev:
  assumes p: "mm_part h (us @ (q, False) # (n, True) # (m, d) # vs) {}"
    and y: "y = mm_heapstart h + extent us"
  shows "\<exists>fl bl. mm_unlink y h = Some (h\<lparr>flink := fl, blink := bl\<rparr>) \<and>
    mm_part (h\<lparr>flink := fl, blink := bl, csize := (csize h)(y := q + n),
      preceding := (preceding h)(y + q + n := prec (q + n) d)\<rparr>) (us @ (q + n, False) # (m, d) # vs) {y}"
proof -
  have us: "us \<noteq> []" using part_free_next [OF p] .
  obtain fl bl where un: "mm_unlink y h = Some (h\<lparr>flink := fl, blink := bl\<rparr>)"
    and p1: "mm_part (h\<lparr>flink := fl, blink := bl\<rparr>) (us @ (q, False) # (n, True) # (m, d) # vs) {y}"
    using part_unlink [OF p] y by auto
  with part_merge [OF p1, of y] us y show ?thesis by auto
qed

lemma give_head:
  assumes p: "mm_part h (us @ (n, False) # (m, d) # vs) {y}" and us: "us \<noteq> []"
    and y: "y = mm_heapstart h + extent us" and s: "16 \<le> s" "16 dvd s" "s + 16 \<le> n"
    and h2: "h2 = h\<lparr>csize := (csize h)(y + s := n - s, y := s),
      preceding := (preceding h)(y + s := prec s True, y + n := prec (n - s) d)\<rparr>"
  shows "\<exists>fl bl. mm_addfreechunk y h2 = Some (h2\<lparr>flink := fl, blink := bl\<rparr>) \<and>
    mm_part (h2\<lparr>flink := fl, blink := bl\<rparr>) (us @ (s, False) # (n - s, True) # (m, d) # vs) {}"
proof -
  let ?h1 = "h\<lparr>csize := (csize h)(y + s := n - s, y := s),
      preceding := (preceding h)(y + s := s, y + n := prec (n - s) d)\<rparr>"
  have "mm_part ?h1 ((us @ [(s, False)]) @ (n - s, False) # (m, d) # vs) {y + s, y}"
    using part_split [OF p s us y] by simp
  from part_mark [OF this, of "y + s" True] have
    "mm_part (?h1\<lparr>preceding := (preceding ?h1)(y + s := prec s True)\<rparr>)
      ((us @ [(s, False)]) @ (n - s, True) # (m, d) # vs) ({y + s, y} - {y + s})"
    using y by (simp add: add.assoc)
  moreover have "?h1\<lparr>preceding := (preceding ?h1)(y + s := prec s True)\<rparr> = h2"
    using s by (simp add: h2 fun_upd_twist)
  moreover have "{y + s, y} - {y + s} = {y}" using s by auto
  ultimately have p2: "mm_part h2 (us @ (s, False) # (n - s, True) # (m, d) # vs) {y}" by simp
  show ?thesis using part_add [OF p2] y by (simp add: h2)
qed

lemma realloc_prev_part:
  assumes p: "mm_part h (us @ opt_free q @ (n, True) # ws) {}" and ws: "ws \<noteq> []"
    and x: "x = mm_heapstart h + extent us + q" and t: "0 < t" "t \<le> q" "16 dvd t"
  shows "\<exists>h'. realloc_prev mem x (x - q) (x + n) n q t h = Some (x - t + 16, x - t, h') \<and>
    same_env (memcpy_payload (x - t + 16) mem (n + t - 16) h) h' \<and>
    mm_part h' (us @ opt_free (q - t) @ (n + t, True) # ws) {}"
proof -
  obtain m d vs where ws': "ws = (m, d) # vs" using ws by (cases ws) auto
  define y where "y = mm_heapstart h + extent us"
  have p0: "mm_part h (us @ (q, False) # (n, True) # (m, d) # vs) {}" using p t ws' by simp
  have pa: "mm_part h ((us @ [(q, False)]) @ (n, True) # (m, d) # vs) {}" using p0 by simp
  have us: "us \<noteq> []" using part_free_next [OF p0] .
  have xn: "mm_heapstart h + extent (us @ [(q, False)]) = x" by (simp add: x add.assoc)
  have at: "csize h y = q" "16 \<le> q" "16 dvd q" "preceding h y = prec (last (0 # map fst us)) False"
    "last (0 # map fst us) < 2 ^ 31"
    using mm_part_chunk [OF p0] mm_part_prev [OF p0] by (simp_all add: y_def)
  note at2 = mm_part_chunk(4,5) [OF pa] mm_part_next [OF pa, unfolded xn]
  have xy: "x = y + q" by (simp add: x y_def)
  have dv: "16 dvd q - t" using at t by (intro dvd_diff_nat) auto
  obtain fl bl where un: "mm_unlink y h = Some (h\<lparr>flink := fl, blink := bl\<rparr>)"
    and p1: "mm_part (h\<lparr>flink := fl, blink := bl, csize := (csize h)(y := q + n),
      preceding := (preceding h)(y + q + n := prec (q + n) d)\<rparr>) (us @ (q + n, False) # (m, d) # vs) {y}"
    using absorb_prev [OF p0 y_def] by blast
  define h1 where "h1 = h\<lparr>flink := fl, blink := bl, csize := (csize h)(y := q + n),
      preceding := (preceding h)(y + q + n := prec (q + n) d)\<rparr>"
  have p1': "mm_part h1 (us @ (q + n, False) # (m, d) # vs) {y}" using p1 by (simp add: h1_def)
  show ?thesis
  proof (cases "16 \<le> q - t")
    case True
    define s z where "s = q - t" and "z = x + n"
    have s: "16 \<le> s" "16 dvd s" "s + 16 \<le> q + n" "q + n - s = n + t"
      using dv True at2(2) t by (auto simp: s_def)
    have e: "q - t = s" "x - t = y + s" "x - q = y" "x + n = z" "y + (q + n) = z" "y + q + n = z"
      "z \<noteq> y + s" "preceding h z = prec n d"
      using xy t s at2(2,4) by (auto simp: s_def z_def)
    define h2 where "h2 = h\<lparr>flink := fl, blink := bl, csize := (csize h)(y := s, y + s := n + t),
      preceding := (preceding h)(y + s := prec s True, z := prec (n + t) d)\<rparr>"
    have "h2 = h1\<lparr>csize := (csize h1)(y + s := q + n - s, y := s),
      preceding := (preceding h1)(y + s := prec s True, y + (q + n) := prec (q + n - s) d)\<rparr>"
      unfolding s(4) e(5) h1_def e(6) using s(1) e(7) by (simp add: h2_def fun_upd_twist)
    from give_head [OF p1' us _ s(1-3) this] obtain fl' bl'
      where ad: "mm_addfreechunk y h2 = Some (h2\<lparr>flink := fl', blink := bl'\<rparr>)"
        and p2: "mm_part (h2\<lparr>flink := fl', blink := bl'\<rparr>) (us @ (s, False) # (n + t, True) # (m, d) # vs) {}"
      unfolding s(4) by (auto simp: h1_def y_def)
    have "realloc_prev mem x (x - q) (x + n) n q t h = Some (x - t + 16, x - t,
        memcpy_payload (x - t + 16) mem (n + t - 16) (h2\<lparr>flink := fl', blink := bl'\<rparr>))"
      unfolding realloc_prev_def e using un ad at(1) at2(1) s(1) e(7,8)
      by (cases d) (simp_all add: mm_consts flag_simps h2_def Let_def memcpy_payload_def e)
    then show ?thesis
      using p2 s(1) ws' by (simp add: h2_def same_env_def memcpy_payload_def e)
  next
    case False
    then have qt: "q = t" using dv t dvd_imp_le [of 16 "q - t"] by fastforce
    define h2 where "h2 = h1\<lparr>preceding := (preceding h1)(y := prec (last (0 # map fst us)) True)\<rparr>"
    have p2: "mm_part h2 (us @ (q + n, True) # (m, d) # vs) {}"
      using part_mark [OF p1', of y True] us by (simp add: h2_def h1_def y_def)
    have h2': "h2 = h\<lparr>flink := fl, blink := bl, csize := (csize h)(y := q + n),
      preceding := (preceding h)(y := prec (last (0 # map fst us)) True, y + q + n := prec (q + n) d)\<rparr>"
      using at by (simp add: h2_def h1_def fun_upd_twist)
    have "realloc_prev mem x (x - q) (x + n) n q t h = Some (x - t + 16, x - t,
        memcpy_payload (x - t + 16) mem (n + t - 16) h2)"
      using un at at2 qt xy
      by (cases d) (simp_all add: realloc_prev_def mm_consts flag_simps h2' Let_def memcpy_payload_def add.commute [of n t])
    then show ?thesis
      using p2 qt ws' by (simp add: h2_def h1_def same_env_def memcpy_payload_def add.commute)
  qed
qed

lemma realloc_takes_ok:
  assumes "realloc_takes needed q m = (tp, tn)" "0 < needed" "needed \<le> q + m"
    "16 dvd needed" "16 dvd q" "16 dvd m"
  shows "tp \<le> q" "tn \<le> m" "tp + tn = needed" "16 dvd tp" "16 dvd tn"
  using assms by (auto simp: realloc_takes_def Let_def split: if_splits intro: dvd_diff_nat)

lemma mm_wf_payload [simp]: "mm_wf (h\<lparr>payload := f\<rparr>) ks = mm_wf h ks"
  by (simp add: mm_wf_def)

lemma coalesced_resize:
  assumes "coalesced (us @ opt_free q @ (n, True) # opt_free m @ (k, e) # vs)" "q' \<le> q" "m' \<le> m"
  shows "coalesced (us @ opt_free q' @ (n', True) # opt_free m' @ (k, e) # vs)"
  using assms by (auto simp: coalesced_append coalesced_Cons opt_free_def split: if_splits)

text \<open>The optional steps of \<open>realloc_grow\<close>, as functions of the amounts taken. After the first the
  data has moved down by the amount taken.\<close>

definition moved_down :: "addr \<Rightarrow> nat \<Rightarrow> nat \<Rightarrow> (addr \<Rightarrow> u8) \<Rightarrow> (addr \<Rightarrow> u8)" where
  "moved_down x n t f = (\<lambda>a. if t \<noteq> 0 \<and> x - t + 16 \<le> a \<and> a < x + n then f (a + t) else f a)"

lemma grow_prev:
  assumes p: "mm_part h (us @ opt_free q @ (n, True) # ws) {}" and ws: "ws \<noteq> []"
    and x: "x = mm_heapstart h + extent us + q" and pv: "q \<noteq> 0 \<Longrightarrow> prev = x - q"
    and t: "t \<le> q" "16 dvd t" and n: "16 \<le> n"
  shows "\<exists>h'. (if t \<noteq> 0 then do {
          (newmem, newnode, h) \<leftarrow> realloc_prev (x + 16) x prev (x + n) n q t h;
          Some (newmem, newnode, csize h newnode, h)
        } else Some (x + 16, x, n, h)) = Some (x - t + 16, x - t, n + t, h') \<and>
      same_env (h\<lparr>payload := moved_down x n t (payload h)\<rparr>) h' \<and>
      mm_part h' (us @ opt_free (q - t) @ (n + t, True) # ws) {}"
proof (cases "t = 0")
  case True
  then show ?thesis using p by (auto simp: same_env_def moved_down_def)
next
  case False
  obtain h' where r: "realloc_prev (x + 16) x (x - q) (x + n) n q t h = Some (x - t + 16, x - t, h')"
    and e: "same_env (memcpy_payload (x - t + 16) (x + 16) (n + t - 16) h) h'"
    and p': "mm_part h' ((us @ opt_free (q - t)) @ (n + t, True) # ws) {}"
    using realloc_prev_part [OF p ws x _ t, of "x + 16"] False by auto
  have qx: "q \<le> x" and xt: "mm_heapstart h + extent (us @ opt_free (q - t)) = x - t"
    using x t by auto
  have len: "x - t + 16 + (n + t - 16) = x + n" using qx t n by auto
  have "payload (memcpy_payload (x - t + 16) (x + 16) (n + t - 16) h) = moved_down x n t (payload h)"
  proof
    fix a
    have "x + 16 + (a - (x - t + 16)) = a + t" if "x - t + 16 \<le> a" using that qx t by auto
    then show "payload (memcpy_payload (x - t + 16) (x + 16) (n + t - 16) h) a = moved_down x n t (payload h) a"
      using len False by (subst memcpy_payload_at) (auto simp: moved_down_def)
  qed
  then have "same_env (h\<lparr>payload := moved_down x n t (payload h)\<rparr>) h'"
    using e by (simp add: same_env_def memcpy_payload_def)
  moreover from this have "csize h' (x - t) = n + t"
    using mm_part_chunk(7) [OF p'] by (simp add: same_env_def xt [symmetric])
  ultimately show ?thesis using r p' False pv t by simp
qed

lemma grow_next:
  assumes p: "mm_part h (us @ (n, True) # opt_free m @ (k, e) # vs) {}" and us: "us \<noteq> []"
    and x: "x = mm_heapstart h + extent us" and t: "t \<le> m" "16 dvd t"
  shows "\<exists>h'. (if t \<noteq> 0 then realloc_next x (x + n) n m t h else Some h) = Some h' \<and>
      same_env h h' \<and> mm_part h' (us @ (n + t, True) # opt_free (m - t) @ (k, e) # vs) {}"
  using realloc_next_part [OF p us x _ t] p by (cases "t = 0") auto

lemma realloc_grow_wf:
  assumes wf: "mm_wf h (us @ opt_free q @ (n, True) # opt_free m @ (k, e) # vs)" and us: "us \<noteq> []"
    and x: "x = mm_heapstart h + extent us + q" and pv: "q \<noteq> 0 \<Longrightarrow> prev = x - q" and dv: "16 dvd sz" "16 dvd q" "16 dvd m"
    and sz: "n < sz" "sz \<le> m + q + n"
  shows "\<exists>t m' h'. realloc_grow c (x + 16) x prev (x + n) sz n q m h =
      do { h' \<leftarrow> mm_givesemaphore (getpid c) h'; Some (x - t + 16, h') } \<and>
    t \<le> q \<and> n + t \<le> sz \<and> sz + m' = n + t + m \<and>
    mm_wf h' (us @ opt_free (q - t) @ (sz, True) # opt_free m' @ (k, e) # vs) \<and>
    same_env (h\<lparr>payload := moved_down x n t (payload h)\<rparr>) h'"
proof -
  define h1 where "h1 = heapinfo_credit x h"
  have sh: "same_headers h h1" by (simp add: h1_def heapinfo_same_headers)
  then have e1: "same_env h h1" by (simp add: same_headers_def)
  have p0: "mm_part h (us @ opt_free q @ (n, True) # opt_free m @ (k, e) # vs) {}"
    and co: "coalesced (us @ opt_free q @ (n, True) # opt_free m @ (k, e) # vs)"
    using wf by (auto simp: mm_wf_def)
  have p1: "mm_part h1 (us @ opt_free q @ (n, True) # opt_free m @ (k, e) # vs) {}"
    using p0 mm_part_cong [OF sh] by simp
  have x1: "x = mm_heapstart h1 + extent us + q" using x e1 by (simp add: same_env_def)
  have "mm_part h ((us @ opt_free q) @ (n, True) # opt_free m @ (k, e) # vs) {}" using p0 by simp
  from mm_part_chunk(5,6) [OF this] have n: "16 \<le> n" "16 dvd n" by auto
  obtain tp tn where tk: "realloc_takes (sz - n) q m = (tp, tn)" by fastforce
  have dn: "16 dvd sz - n" using dv n sz by (intro dvd_diff_nat) auto
  have t: "tp \<le> q" "tn \<le> m" "tp + tn = sz - n" "16 dvd tp" "16 dvd tn"
    using realloc_takes_ok [OF tk _ _ dn dv(2,3)] sz by auto
  obtain h2 where r2: "(if tp \<noteq> 0 then do {
          (newmem, newnode, h) \<leftarrow> realloc_prev (x + 16) x prev (x + n) n q tp h1;
          Some (newmem, newnode, csize h newnode, h)
        } else Some (x + 16, x, n, h1)) = Some (x - tp + 16, x - tp, n + tp, h2)"
    and e2: "same_env (h1\<lparr>payload := moved_down x n tp (payload h1)\<rparr>) h2"
    and p2: "mm_part h2 ((us @ opt_free (q - tp)) @ (n + tp, True) # opt_free m @ (k, e) # vs) {}"
    using grow_prev [OF p1 _ x1 pv t(1,4) n(1)] by auto
  have x2: "x - tp = mm_heapstart h2 + extent (us @ opt_free (q - tp))" "x - tp + (n + tp) = x + n"
    using e2 x1 t by (auto simp: same_env_def)
  obtain h3 where r3: "(if tn \<noteq> 0 then realloc_next (x - tp) (x + n) (n + tp) m tn h2 else Some h2) = Some h3"
    and e3: "same_env h2 h3"
    and p3: "mm_part h3 (us @ opt_free (q - tp) @ (sz, True) # opt_free (m - tn) @ (k, e) # vs) {}"
    using grow_next [OF p2 _ x2(1) t(2,5)] us t sz unfolding x2(2) by (auto simp: add.assoc)
  define h4 where "h4 = heapinfo_charge c (x - tp) h3"
  have sh4: "same_headers h3 h4" by (simp add: h4_def heapinfo_same_headers)
  have "mm_wf h4 (us @ opt_free (q - tp) @ (sz, True) # opt_free (m - tn) @ (k, e) # vs)"
    using p3 mm_part_cong [OF sh4] coalesced_resize [OF co, of "q - tp" "m - tn" sz] by (simp add: mm_wf_def)
  moreover have "realloc_grow c (x + 16) x prev (x + n) sz n q m h =
      do { h' \<leftarrow> mm_givesemaphore (getpid c) h4; Some (x - tp + 16, h') }"
    unfolding realloc_grow_def tk h1_def [symmetric] using r2 r3 by (simp add: h4_def)
  moreover have "same_env (h\<lparr>payload := moved_down x n tp (payload h)\<rparr>) h4"
    using e1 e2 e3 sh4 by (simp add: same_env_def same_headers_def)
  moreover have "n + tp \<le> sz" "sz + (m - tn) = n + tp + m" using t sz by simp_all
  ultimately show ?thesis using t(1) by blast
qed


subsection \<open>The whole operation\<close>

text \<open>What \<open>mm_realloc\<close> promises when it succeeds: the old block is replaced by one of size \<open>n'\<close>
  at \<open>p\<close>, the data is kept up to the smaller size, and no other byte changes.\<close>

definition moved_to :: "mm_heap \<Rightarrow> chunk list \<Rightarrow> addr \<Rightarrow> nat \<Rightarrow> addr \<Rightarrow> nat \<Rightarrow> mm_heap \<Rightarrow> chunk list \<Rightarrow> bool" where
  "moved_to h ks mem n p n' h' ks' \<longleftrightarrow>
     16 \<le> p \<and> user_block h' ks' (p - 16) n' \<and>
     blocks (mm_heapstart h) ks' = insert (p - 16, n') (blocks (mm_heapstart h) ks - {(mem - 16, n)}) \<and>
     (\<forall>i. i < min n n' - 16 \<longrightarrow> payload h' (p + i) = payload h (mem + i)) \<and>
     (\<forall>a. \<not> (p \<le> a \<and> a < p + (n' - 16)) \<longrightarrow> payload h' a = payload h a)"

text \<open>A chunk with its possible free neighbours.\<close>

lemma neighbours:
  assumes wf: "mm_wf h (us @ (n, True) # vs)" and ne: "us \<noteq> []" "vs \<noteq> []"
  obtains us' q m k e vs' where "us = us' @ opt_free q" "vs = opt_free m @ (k, e) # vs'" "us' \<noteq> []"
    "16 dvd q" "16 dvd m" "q = 0 \<longrightarrow> snd (last us')" "m = 0 \<longrightarrow> e"
proof -
  have p: "mm_part h (us @ (n, True) # vs) {}" using wf by (simp add: mm_wf_def)
  have L: "layout (csize h) (preceding h) (mm_heapstart h) 0 (us @ (n, True) # vs)"
    using p by (simp add: mm_part_def)
  have "\<exists>us' q. us = us' @ opt_free q \<and> us' \<noteq> [] \<and> 16 dvd q \<and> (q = 0 \<longrightarrow> snd (last us'))"
  proof (cases "snd (last us)")
    case True
    then show ?thesis using ne by (intro exI [of _ us] exI [of _ 0]) simp
  next
    case False
    obtain us' q where us: "us = us' @ [(q, False)]"
      using ne(1) False by (cases us rule: rev_cases) force+
    have "mm_part h (us' @ (q, False) # (n, True) # vs) {}" using p us by simp
    from part_free_next [OF this] mm_part_chunk(5,6) [OF this] us show ?thesis
      by (intro exI [of _ us'] exI [of _ q]) auto
  qed
  moreover have "\<exists>m k e vs'. vs = opt_free m @ (k, e) # vs' \<and> 16 dvd m \<and> (m = 0 \<longrightarrow> e)"
  proof -
    obtain m d vs2 where vs: "vs = (m, d) # vs2" using ne(2) by (cases vs) auto
    show ?thesis
    proof (cases d)
      case True
      then have "vs = opt_free 0 @ (m, True) # vs2" using vs by simp
      then show ?thesis by blast
    next
      case False
      have pa: "mm_part h ((us @ [(n, True)]) @ (m, False) # vs2) {}" using p vs False by simp
      from part_free_next [OF pa] obtain k e vs3 where "vs2 = (k, e) # vs3" .
      then have "vs = opt_free m @ (k, e) # vs3" "m \<noteq> 0" using mm_part_chunk(5) [OF pa] vs False by auto
      then show ?thesis using mm_part_chunk(6) [OF pa] by blast
    qed
  qed
  ultimately show ?thesis using that by metis
qed

lemma blocks_replace:
  assumes "layout cs pr a p (us @ (n, True) # vs)"
  shows "blocks a us \<union> {b} \<union> blocks (a + extent us + n) vs =
    insert b (blocks a (us @ (n, True) # vs) - {(a + extent us, n)})"
  using blocks_remove [OF assms] by auto

lemma blocks_shrunk: "s + 16 \<le> n \<Longrightarrow> blocks a (shrunk s n vs) = insert (a, s) (blocks (a + n) vs)"
  by (cases "(s, n, vs)" rule: shrunk.cases) (auto simp: add.assoc)

lemma coalesced_shrunk: "coalesced (us @ (n, True) # vs) \<Longrightarrow> coalesced (us @ shrunk s n vs)"
  by (cases "(s, n, vs)" rule: shrunk.cases) (auto simp: coalesced_append coalesced_Cons)

lemma realloc_shrink_path:
  assumes wf: "mm_wf h (us @ (n, True) # vs)" and ne: "us \<noteq> []" "vs \<noteq> []"
    and x: "x = mm_heapstart h + extent us" and s: "16 \<le> s" "16 dvd s" "s \<le> n"
  shows "\<exists>h' ks'. (if s < n then do {
            let h = heapinfo_credit x h;
            h \<leftarrow> mm_shrinkchunk x s h;
            Some (heapinfo_charge c x h)
          } else Some h) = Some h' \<and> same_env h h' \<and> mm_wf h' ks' \<and>
    blocks (mm_heapstart h) ks' =
      insert (x, s) (blocks (mm_heapstart h) (us @ (n, True) # vs) - {(x, n)})"
proof -
  have p: "mm_part h (us @ (n, True) # vs) {}" and co: "coalesced (us @ (n, True) # vs)"
    using wf by (auto simp: mm_wf_def)
  have L: "layout (csize h) (preceding h) (mm_heapstart h) 0 (us @ (n, True) # vs)"
    using p by (simp add: mm_part_def)
  show ?thesis
  proof (cases "s < n")
    case False
    then have "s = n" using s by simp
    moreover have "(x, n) \<in> blocks (mm_heapstart h) (us @ (n, True) # vs)" using x by simp
    ultimately show ?thesis using wf by (intro exI [of _ h] exI [of _ "us @ (n, True) # vs"]) auto
  next
    case True
    have sn: "s + 16 \<le> n"
    proof -
      have "16 dvd n - s" using s mm_part_chunk(6) [OF p] by (intro dvd_diff_nat) auto
      then show ?thesis using True dvd_imp_le [of 16 "n - s"] by auto
    qed
    define h1 where "h1 = heapinfo_credit x h"
    have sh: "same_headers h h1" by (simp add: h1_def heapinfo_same_headers)
    then have p1: "mm_part h1 (us @ (n, True) # vs) {}" "x = mm_heapstart h1 + extent us"
      using p x mm_part_cong [OF sh] sh by (simp_all add: same_headers_def same_env_def)
    from mm_shrinkchunk_part [OF p1(1) ne p1(2) s] obtain h2
      where r: "mm_shrinkchunk x s h1 = Some h2" and e2: "same_env h1 h2"
        and p2: "mm_part h2 (us @ shrunk s n vs) {}" by blast
    define h3 where "h3 = heapinfo_charge c x h2"
    have sh3: "same_headers h2 h3" by (simp add: h3_def heapinfo_same_headers)
    have "coalesced (us @ shrunk s n vs)" using co by (rule coalesced_shrunk)
    then have "mm_wf h3 (us @ shrunk s n vs)"
      using p2 mm_part_cong [OF sh3] by (simp add: mm_wf_def)
    moreover have "same_env h h3" using sh e2 sh3 by (simp add: same_headers_def same_env_def)
    moreover have "blocks (mm_heapstart h) (us @ shrunk s n vs) =
        insert (x, s) (blocks (mm_heapstart h) (us @ (n, True) # vs) - {(x, n)})"
      using blocks_replace [OF L, of "(x, s)"] blocks_shrunk [OF sn] x by simp
    ultimately show ?thesis
      using r True by (intro exI [of _ h3] exI [of _ "us @ shrunk s n vs"]) (simp add: h1_def h3_def)
  qed
qed

lemma realloc_move_path:
  assumes wf: "mm_wf h ks" and lock: "lock_ok c h" and x: "user_block h ks (mem - 16) n" and mem: "16 \<le> mem"
    and req: "0 < req" "unat req + 31 < 2 ^ 32" "n \<le> unat req"
  shows "\<exists>p h' ks'. do {
            (newmem, h) \<leftarrow> mm_malloc c req h;
            if newmem \<noteq> NULL then do {
              let h = memcpy_payload newmem mem n h;
              h \<leftarrow> mm_free c mem h;
              Some (newmem, h)
            } else Some (newmem, h)
          } = Some (p, h') \<and> mm_wf h' ks' \<and> same_env (h\<lparr>payload := payload h'\<rparr>) h' \<and>
    (p = NULL \<longrightarrow> ks' = ks \<and> payload h' = payload h) \<and>
    (p \<noteq> NULL \<longrightarrow> moved_to h ks mem n p (chunk_size (unat req)) h' ks')"
proof -
  let ?s = "chunk_size (unat req)" and ?a = "mm_heapstart h"
  from mm_malloc_blocks [OF wf lock req(1,2)] obtain p h1 ks1 where
    m1: "mm_malloc c req h = Some (p, h1)" and e1: "same_env h h1" and wf1: "mm_wf h1 ks1"
    and z: "p = NULL \<longrightarrow> ks1 = ks \<and> (\<forall>m. (m, False) \<in> set ks \<longrightarrow> m < ?s)"
    and nz: "p \<noteq> NULL \<longrightarrow> p \<ge> 16 \<and> p - 16 \<notin> fst ` blocks ?a ks \<and> user_block h ks1 (p - 16) ?s \<and>
       blocks ?a ks1 = insert (p - 16, ?s) (blocks ?a ks)"
    by (elim exE conjE)
  show ?thesis
  proof (cases "p = NULL")
    case True
    then show ?thesis using m1 e1 wf1 z
      by (intro exI [of _ p], intro exI [of _ h1], intro exI [of _ ks]) (simp add: same_env_def)
  next
    case False
    with nz have p: "p \<ge> 16" "p - 16 \<notin> fst ` blocks ?a ks" "user_block h ks1 (p - 16) ?s"
      "blocks ?a ks1 = insert (p - 16, ?s) (blocks ?a ks)" by auto
    have a1: "mm_heapstart h1 = ?a" "mm_heapend h1 = mm_heapend h" "payload h1 = payload h"
      using e1 by (auto simp: same_env_def)
    have ne: "p - 16 \<noteq> mem - 16" using p(2) x by (metis fst_conv image_eqI)
    have x1: "user_block h1 ks1 (mem - 16) n" using x p(4) a1 by auto
    have n: "16 \<le> n" using mm_wf_blocks(1) [OF wf] x by blast
    have s: "n < ?s" "unat req + 16 \<le> ?s" using chunk_size_props(2) [of "unat req"] req(3) by auto
    have dj: "mem - 16 + n \<le> p - 16 \<or> p - 16 + ?s \<le> mem - 16"
      using mm_wf_blocks(2) [OF wf1] x1 p(3) ne a1 by metis
    define h2 where "h2 = memcpy_payload p mem n h1"
    have wf2: "mm_wf h2 ks1" and l2: "lock_ok c h2" and x2: "user_block h2 ks1 (mem - 16) n"
      using wf1 lock x1 e1 by (auto simp: h2_def memcpy_payload_def lock_ok_def same_env_def)
    from mm_free_blocks [OF wf2 l2 x2 mem] obtain h3 ks3
      where f3: "mm_free c mem h2 = Some h3" and e3: "same_env h2 h3" and wf3: "mm_wf h3 ks3"
        and b3: "blocks (mm_heapstart h2) ks3 = blocks (mm_heapstart h2) ks1 - {(mem - 16, n)}" by blast
    have e: "same_env (h\<lparr>payload := payload h3\<rparr>) h3"
      using e1 e3 by (simp add: h2_def memcpy_payload_def same_env_def)
    have b: "blocks ?a ks3 = insert (p - 16, ?s) (blocks ?a ks - {(mem - 16, n)})"
      using b3 p(4) ne a1 by (auto simp: h2_def memcpy_payload_def)
    have "p \<le> mem \<or> mem + n \<le> p" using dj mem p(1) by auto
    from memcpy_payload_at [OF this] have pl: "payload h3 a =
        (if p \<le> a \<and> a < p + n then payload h (mem + (a - p)) else payload h a)" for a
      using e3 a1 by (simp add: same_env_def h2_def)
    have "moved_to h ks mem n p ?s h3 ks3"
      unfolding moved_to_def using p(1,3) b pl s n e req(3) by (auto simp: same_env_def)
    then show ?thesis
      using m1 False f3 wf3 e by (intro exI [of _ p], intro exI [of _ h3], intro exI [of _ ks3]) (simp add: h2_def)
  qed
qed

lemma user_blockI:
  assumes wf: "mm_wf h (us @ (n, True) # vs)" and ne: "us \<noteq> []" "vs \<noteq> []"
  shows "user_block h (us @ (n, True) # vs) (mm_heapstart h + extent us) n"
proof -
  have L: "layout (csize h) (preceding h) (mm_heapstart h) 0 (us @ (n, True) # vs)"
    and r: "region_ok h (us @ (n, True) # vs)" using wf by (auto simp: mm_wf_def mm_part_def)
  obtain k b us' where us: "us = (k, b) # us'" using ne by (cases us) auto
  obtain m d vs' where vs: "vs = (m, d) # vs'" using ne by (cases vs) auto
  have "16 \<le> k" "16 \<le> n" "16 \<le> m" using layout_sizes [OF L] us vs by auto
  then show ?thesis using r us vs by (auto simp: region_ok_def)
qed

lemma realloc_grow_path:
  assumes wf: "mm_wf h (us @ opt_free q @ (n, True) # opt_free m @ (k, e) # vs)" and us: "us \<noteq> []"
    and x: "x = mm_heapstart h + extent us + q" and pv: "q \<noteq> 0 \<Longrightarrow> prev = x - q"
    and dv: "16 dvd sz" "16 dvd q" "16 dvd m" and sz: "n < sz" "sz \<le> m + q + n"
  shows "\<exists>p h' ks'. realloc_grow c (x + 16) x prev (x + n) sz n q m h =
      do { h' \<leftarrow> mm_givesemaphore (getpid c) h'; Some (p, h') } \<and> p \<noteq> NULL \<and>
    mm_wf h' ks' \<and> same_env (h\<lparr>payload := payload h'\<rparr>) h' \<and>
    moved_to h (us @ opt_free q @ (n, True) # opt_free m @ (k, e) # vs) (x + 16) n p sz h' ks'"
proof -
  let ?ks = "us @ opt_free q @ (n, True) # opt_free m @ (k, e) # vs" and ?a = "mm_heapstart h"
  obtain t m' h' where call: "realloc_grow c (x + 16) x prev (x + n) sz n q m h =
      do { h' \<leftarrow> mm_givesemaphore (getpid c) h'; Some (x - t + 16, h') }"
    and t: "t \<le> q" "n + t \<le> sz" "sz + m' = n + t + m"
    and wf': "mm_wf h' (us @ opt_free (q - t) @ (sz, True) # opt_free m' @ (k, e) # vs)"
    and e': "same_env (h\<lparr>payload := moved_down x n t (payload h)\<rparr>) h'"
    using realloc_grow_wf [OF wf us x pv dv sz] by blast
  let ?ks' = "us @ opt_free (q - t) @ (sz, True) # opt_free m' @ (k, e) # vs"
  have L: "layout (csize h) (preceding h) ?a 0 ((us @ opt_free q) @ (n, True) # opt_free m @ (k, e) # vs)"
    using wf by (simp add: mm_wf_def mm_part_def)
  have xt: "?a + extent us + (q - t) = x - t" "?a + extent us + (q - t) + sz + m' = x + n + m" "t \<le> x"
    using x t by auto
  have b: "blocks ?a ?ks' = insert (x - t, sz) (blocks ?a ?ks - {(x, n)})"
    using blocks_replace [OF L, of "(x - t, sz)"] xt x by (simp add: add.assoc)
  have a': "mm_heapstart h' = ?a" "mm_heapend h' = mm_heapend h" "payload h' = moved_down x n t (payload h)"
    using e' by (auto simp: same_env_def)
  have ub: "user_block h' ?ks' (x - t) sz"
    using user_blockI [of h' "us @ opt_free (q - t)" sz "opt_free m' @ (k, e) # vs"] wf' us
    unfolding a'(1) by (simp add: xt(1) add.assoc [symmetric])
  have n: "16 \<le> n" using L by (auto simp: layout_append)
  have m': "moved_to h ?ks (x + 16) n (x - t + 16) sz h' ?ks'"
    unfolding moved_to_def
  proof (intro conjI allI impI)
    show "payload h' (x - t + 16 + i) = payload h (x + 16 + i)" if "i < min n sz - 16" for i
      using that xt(3) sz(1) by (auto simp: a' moved_down_def add.commute add.left_commute)
    show "payload h' a = payload h a" if "\<not> (x - t + 16 \<le> a \<and> a < x - t + 16 + (sz - 16))" for a
      using that xt(3) t n by (auto simp: a' moved_down_def)
  qed (use b ub in simp_all)
  have "same_env (h\<lparr>payload := payload h'\<rparr>) h'" using e' by (simp add: same_env_def)
  then show ?thesis using call wf' m' by (metis add_gr_0 neq0_conv zero_less_numeral)
qed

text \<open>What \<open>mm_realloc\<close> reads of the neighbours.\<close>

lemma realloc_reads:
  assumes wf: "mm_wf h (us @ opt_free q @ (n, True) # opt_free m @ (k, e) # vs)"
    and x: "x = mm_heapstart h + extent us + q" and us: "us \<noteq> []"
    and al: "q = 0 \<longrightarrow> snd (last us)" "m = 0 \<longrightarrow> e"
  shows "csize h x = n"
    "(if \<not> is_alloc (preceding h (x + n)) then csize h (x + n) else 0) = m"
    "(let prev = x - clear_alloc (preceding h x)
      in if \<not> is_alloc (preceding h prev) then csize h prev else 0) = q"
    "q \<noteq> 0 \<Longrightarrow> x - clear_alloc (preceding h x) = x - q"
proof -
  let ?us = "us @ opt_free q" and ?vs = "opt_free m @ (k, e) # vs"
  have p: "mm_part h (?us @ (n, True) # ?vs) {}" using wf by (simp add: mm_wf_def)
  have xs: "mm_heapstart h + extent ?us = x" by (simp add: x)
  have at: "csize h x = n" "preceding h x = prec (last (0 # map fst ?us)) True" "n < 2 ^ 31"
    using mm_part_chunk [OF p] unfolding xs by auto
  then show "csize h x = n" by simp
  have last: "last (0 # map fst ?us) < 2 ^ 31" using mm_part_prev [OF p] .
  have cl: "clear_alloc (preceding h x) = last (0 # map fst ?us)"
    using at last by (simp add: flag_simps)
  show "q \<noteq> 0 \<Longrightarrow> x - clear_alloc (preceding h x) = x - q" using cl by simp
  show "(if \<not> is_alloc (preceding h (x + n)) then csize h (x + n) else 0) = m"
  proof (cases "m = 0")
    case True
    then show ?thesis using mm_part_next [of h ?us n True k e vs "{}"] p al xs at by (simp add: flag_simps)
  next
    case False
    then show ?thesis
      using mm_part_next [of h ?us n True m False "(k, e) # vs" "{}"] p xs at by (simp add: flag_simps)
  qed
  show "(let prev = x - clear_alloc (preceding h x)
      in if \<not> is_alloc (preceding h prev) then csize h prev else 0) = q"
  proof (cases "q = 0")
    case True
    obtain us2 w where w: "us = us2 @ [(w, True)]" using us al(1) True by (cases us rule: rev_cases) force+
    have p2: "mm_part h (us2 @ (w, True) # (n, True) # ?vs) {}" using p w True by simp
    have "x - clear_alloc (preceding h x) = mm_heapstart h + extent us2" using cl w True x by simp
    then show ?thesis
      using mm_part_chunk(8) [OF p2] mm_part_prev [OF p2] True by (simp add: flag_simps)
  next
    case False
    have p2: "mm_part h (us @ (q, False) # (n, True) # ?vs) {}" using p False by simp
    have "x - clear_alloc (preceding h x) = mm_heapstart h + extent us" using cl False x by simp
    then show ?thesis
      using mm_part_chunk(7,8) [OF p2] mm_part_prev [OF p2] by (simp add: flag_simps)
  qed
qed

text \<open>\<open>mm_realloc\<close> of a well-formed heap, with what it reads filled in.\<close>

lemma mm_realloc_unfold:
  assumes take: "mm_takesemaphore c h = Some h1" and mem: "mem \<noteq> NULL" "mem - SIZEOF_MM_ALLOCNODE = x"
    and req: "0 < req" and sz: "sz = unat (MM_ALIGN_UP (req + of_nat SIZEOF_MM_ALLOCNODE))"
    and wf: "mm_wf h1 (us @ opt_free q @ (n, True) # opt_free m @ (k, e) # vs)"
    and x: "x = mm_heapstart h1 + extent us + q" and us: "us \<noteq> []"
    and al: "q = 0 \<longrightarrow> snd (last us)" "m = 0 \<longrightarrow> e"
  shows "mm_realloc c mem req h =
     (if sz \<le> n then do {
        h \<leftarrow> (if sz < n then do {
                let h = heapinfo_credit x h1;
                h \<leftarrow> mm_shrinkchunk x sz h;
                Some (heapinfo_charge c x h)
              } else Some h1);
        h \<leftarrow> mm_givesemaphore (getpid c) h;
        Some (mem, h)
      } else if m + q + n \<ge> sz
        then realloc_grow c mem x (x - clear_alloc (preceding h1 x)) (x + n) sz n q m h1
      else do {
        h \<leftarrow> mm_givesemaphore (getpid c) h1;
        (newmem, h) \<leftarrow> mm_malloc c (MM_ALIGN_UP (req + of_nat SIZEOF_MM_ALLOCNODE)) h;
        if newmem \<noteq> NULL then do {
          let h = memcpy_payload newmem mem n h;
          h \<leftarrow> mm_free c mem h;
          Some (newmem, h)
        } else Some (newmem, h)
      })"
  using take req word_gt_0 [of req] mem(1) realloc_reads(1-3) [OF wf x us al]
  by (simp add: mm_realloc_def mem(2) sz [symmetric] Let_def cong: if_cong)

lemma mm_realloc_blocks:
  assumes wf: "mm_wf h ks" and lock: "lock_ok c h" and ub: "user_block h ks (mem - 16) n" and mem: "16 \<le> mem"
    and req: "0 < req" "unat req + 47 < 2 ^ 32"
  shows "\<exists>p h' ks'. mm_realloc c mem req h = Some (p, h') \<and> mm_wf h' ks' \<and>
    same_env (h\<lparr>payload := payload h'\<rparr>) h' \<and>
    (p = NULL \<longrightarrow> ks' = ks \<and> payload h' = payload h) \<and>
    (p \<noteq> NULL \<longrightarrow> (\<exists>n'. chunk_size (unat req) \<le> n' \<and> moved_to h ks mem n p n' h' ks'))"
    (is "\<exists>p h' ks'. ?R p h' ks'")
proof -
  define sz x where "sz = chunk_size (unat req)" and "x = mem - 16"
  have sz: "16 \<le> sz" "16 dvd sz" "unat req + 16 \<le> sz" "sz < unat req + 32"
    using chunk_size_props [of "unat req"] by (auto simp: sz_def)
  have mx: "mem = x + 16" "mem \<noteq> NULL" "mem - SIZEOF_MM_ALLOCNODE = x"
    using mem by (simp_all add: x_def SIZEOF_MM_ALLOCNODE_def)
  obtain us0 vs0 where ks0: "ks = us0 @ (n, True) # vs0" and x0: "x = mm_heapstart h + extent us0"
    and ne: "us0 \<noteq> []" "vs0 \<noteq> []" using user_block_split [OF wf ub] by (auto simp: x_def)
  obtain us q m k e vs where us0: "us0 = us @ opt_free q" and vs0: "vs0 = opt_free m @ (k, e) # vs"
    and us: "us \<noteq> []" and dv: "16 dvd q" "16 dvd m" and al: "q = 0 \<longrightarrow> snd (last us)" "m = 0 \<longrightarrow> e"
    using neighbours [OF wf [unfolded ks0] ne] .
  have ks: "ks = us @ opt_free q @ (n, True) # opt_free m @ (k, e) # vs" using ks0 us0 vs0 by simp
  obtain s w where take: "mm_takesemaphore c h = Some (with_lock s (getpid c) w h)"
    and give: "\<And>h'. \<lbrakk>mm_holder h' = getpid c; mm_counts_held h' = w; mm_semaphore h' = s\<rbrakk> \<Longrightarrow>
      mm_givesemaphore (getpid c) h' =
        Some (with_lock (mm_semaphore h) (mm_holder h) (mm_counts_held h) h')"
    using take_give_fields [OF lock] by metis
  define h1 where "h1 = with_lock s (getpid c) w h"
  have wf1: "mm_wf h1 ks" using wf by (simp add: h1_def)
  have x1: "x = mm_heapstart h1 + extent us0" "x = mm_heapstart h1 + extent us + q"
    using x0 us0 by (simp_all add: h1_def)
  have r31: "unat req + 31 < 2 ^ 32" using req by simp
  have "sz = unat (MM_ALIGN_UP (req + of_nat SIZEOF_MM_ALLOCNODE))" using unat_request [OF r31] by (simp add: sz_def)
  note unf = mm_realloc_unfold [OF take [folded h1_def] mx(2,3) req(1) this wf1 [unfolded ks] x1(2) us al]
  consider "sz \<le> n" | "n < sz" "sz \<le> m + q + n" | "m + q + n < sz" by linarith
  then show ?thesis
  proof cases
    case 1
    from realloc_shrink_path [OF wf1 [unfolded ks0] ne x1(1) sz(1,2) 1, of c]
    obtain h2 ks2 where r: "(if sz < n then do {
            let h = heapinfo_credit x h1;
            h \<leftarrow> mm_shrinkchunk x sz h;
            Some (heapinfo_charge c x h)
          } else Some h1) = Some h2" and e2: "same_env h1 h2" and wf2: "mm_wf h2 ks2"
      and b2: "blocks (mm_heapstart h1) ks2 = insert (x, sz) (blocks (mm_heapstart h1) ks - {(x, n)})"
      unfolding ks0 by blast
    define h3 where "h3 = with_lock (mm_semaphore h) (mm_holder h) (mm_counts_held h) h2"
    have "mm_realloc c mem req h = Some (mem, h3)"
      using unf r 1 give [of h2] e2 by (simp add: h1_def h3_def same_env_def)
    moreover have "moved_to h ks mem n mem sz h3 ks2"
      using b2 ub mem e2 by (auto simp: moved_to_def h1_def h3_def same_env_def x_def)
    moreover have "same_env (h\<lparr>payload := payload h3\<rparr>) h3" using e2 by (simp add: h1_def h3_def same_env_def)
    ultimately have "?R mem h3 ks2" using wf2 mx(2) by (auto simp: h3_def sz_def)
    then show ?thesis by blast
  next
    case 2
    from realloc_grow_path [OF wf1 [unfolded ks] us x1(2) _ sz(2) dv 2, of "x - clear_alloc (preceding h1 x)" c]
      realloc_reads(4) [OF wf1 [unfolded ks] x1(2) us al]
    obtain p h2 ks2 where r: "realloc_grow c mem x (x - clear_alloc (preceding h1 x)) (x + n) sz n q m h1 =
        do { h' \<leftarrow> mm_givesemaphore (getpid c) h2; Some (p, h') }" and p: "p \<noteq> NULL"
      and wf2: "mm_wf h2 ks2" and e2: "same_env (h1\<lparr>payload := payload h2\<rparr>) h2"
      and mv: "moved_to h1 ks mem n p sz h2 ks2"
      unfolding ks mx(1) by blast
    define h3 where "h3 = with_lock (mm_semaphore h) (mm_holder h) (mm_counts_held h) h2"
    have "mm_givesemaphore (getpid c) h2 = Some h3"
      using give [of h2] e2 by (simp add: h1_def h3_def same_env_def)
    then have "mm_realloc c mem req h = Some (p, h3)"
      using unf r 2 by simp
    moreover have "moved_to h ks mem n p sz h3 ks2"
      using mv by (simp add: moved_to_def h1_def h3_def)
    moreover have "same_env (h\<lparr>payload := payload h3\<rparr>) h3" using e2 by (simp add: h1_def h3_def same_env_def)
    ultimately have "?R p h3 ks2" using wf2 p by (auto simp: h3_def sz_def)
    then show ?thesis by blast
  next
    case 3
    let ?r = "MM_ALIGN_UP (req + of_nat SIZEOF_MM_ALLOCNODE)"
    have ur: "unat ?r = sz" using unat_request [OF r31] by (simp add: sz_def)
    have "sz < 2 ^ 32 - 16" using req(2) by (simp add: sz_def chunk_size_def)
    then have "sz + 31 < 2 ^ 32" using sz(2) by (auto elim!: dvdE)
    then have r: "0 < ?r" "unat ?r + 31 < 2 ^ 32" "n \<le> unat ?r"
      using ur sz req 3 by (auto simp: word_less_nat_alt)
    have eq: "with_lock (mm_semaphore h) (mm_holder h) (mm_counts_held h) h1 = h"
      by (rule mm_heap.equality) (simp_all add: h1_def)
    have g: "mm_givesemaphore (getpid c) h1 = Some h"
      using give [of h1] unfolding eq by (simp add: h1_def)
    obtain p h' ks' where "mm_realloc c mem req h = Some (p, h')" "mm_wf h' ks'"
      "same_env (h\<lparr>payload := payload h'\<rparr>) h'" "p = NULL \<longrightarrow> ks' = ks \<and> payload h' = payload h"
      "p \<noteq> NULL \<longrightarrow> moved_to h ks mem n p (chunk_size sz) h' ks'"
      using realloc_move_path [OF wf lock ub mem r] unf 3 unfolding ur by (auto simp: g)
    moreover have "chunk_size (unat req) \<le> chunk_size sz" using chunk_size_props(2) [of sz] by (simp add: sz_def)
    ultimately show ?thesis by blast
  qed
qed

section \<open>mm_memalign\<close>

lemma memalign_lead_part:
  assumes p: "mm_part h (us @ (n, True) # vs) {}" and ne: "us \<noteq> []" "vs \<noteq> []"
    and x: "x = mm_heapstart h + extent us" and d: "16 \<le> d" "16 dvd d" "d + 16 \<le> n"
  shows "\<exists>h'. mm_memalign_lead al (x + 16) (x + 16 + d) x h = Some (x + 16 + d, x + d, n - d - 16, h') \<and>
    same_env h h' \<and> mm_part h' (us @ (d, False) # (n - d, True) # vs) {}"
proof -
  obtain m e vs2 where vs: "vs = (m, e) # vs2" using ne(2) by (cases vs) auto
  define l where "l = last (0 # map fst us)"
  have at: "csize h x = n" "preceding h x = prec l True" "n < 2 ^ 31" "preceding h (x + n) = prec n e"
    and l: "l < 2 ^ 31"
    using mm_part_chunk [OF p] mm_part_next [OF p [unfolded vs]] mm_part_prev [OF p]
    by (simp_all add: x l_def)
  define h1 where "h1 = h\<lparr>preceding := (preceding h)(x := prec l False)\<rparr>"
  have p1: "mm_part h1 (us @ (n, False) # (m, e) # vs2) {x}"
    using part_mark [OF p, of x False] x ne vs by (simp add: h1_def l_def)
  define h2 where "h2 = h1\<lparr>csize := (csize h1)(x + d := n - d, x := d),
      preceding := (preceding h1)(x + d := prec d True, x + n := prec (n - d) e)\<rparr>"
  have x1: "x = mm_heapstart h1 + extent us" using x by (simp add: h1_def)
  obtain fl bl where ad: "mm_addfreechunk x h2 = Some (h2\<lparr>flink := fl, blink := bl\<rparr>)"
    and p2: "mm_part (h2\<lparr>flink := fl, blink := bl\<rparr>) (us @ (d, False) # (n - d, True) # (m, e) # vs2) {}"
    using give_head [OF p1 ne(1) x1 d h2_def] by blast
  have h2': "h2 = h\<lparr>csize := (csize h)(x + d := n - d, x := d),
      preceding := (preceding h)(x + d := prec d True, x := prec l False, x + n := prec (n - d) e)\<rparr>"
    using d by (simp add: h2_def h1_def fun_upd_twist)
  have "mm_memalign_lead al (x + 16) (x + 16 + d) x h = Some (x + 16 + d, x + d, n - d - 16, h2\<lparr>flink := fl, blink := bl\<rparr>)"
    using d at l ad by (cases e) (simp_all add: mm_memalign_lead_def mm_consts debugassert_def flag_simps h2' Let_def)
  then show ?thesis using p2 vs by (simp add: h2' same_env_def)
qed

text \<open>The aligned part of a fresh chunk: what precedes it and what follows the request go back to
  the free list.\<close>

lemma memalign_trim:
  assumes p: "mm_part h (us @ (n, True) # vs) {}" and ne: "us \<noteq> []" "vs \<noteq> []"
    and x: "x = mm_heapstart h + extent us" and d: "16 dvd d" "d + (s + 16) < n"
    and s: "16 dvd s" and sa: "s < as" and ls: "snd (last us)" and co: "coalesced (us @ (n, True) # vs)"
  shows "\<exists>as' h1 h' ks'.
    (if x + 16 + d \<noteq> x + 16 then mm_memalign_lead al (x + 16) (x + 16 + d) x h
     else Some (x + 16 + d, x, as, h)) = Some (x + 16 + d, x + d, as', h1) \<and> s < as' \<and>
    mm_shrinkchunk (x + d) (s + SIZEOF_MM_ALLOCNODE) h1 = Some h' \<and>
    same_env h h' \<and> mm_part h' ks' {} \<and> coalesced ks' \<and>
    blocks (mm_heapstart h) ks' = blocks (mm_heapstart h) us \<union> {(x + d, s + 16)} \<union> blocks (x + n) vs"
proof -
  have "\<exists>as' h1. (if x + 16 + d \<noteq> x + 16 then mm_memalign_lead al (x + 16) (x + 16 + d) x h
      else Some (x + 16 + d, x, as, h)) = Some (x + 16 + d, x + d, as', h1) \<and> s < as' \<and> same_env h h1 \<and>
      mm_part h1 ((us @ opt_free d) @ (n - d, True) # vs) {}"
  proof (cases "d = 0")
    case True
    then show ?thesis using p sa by simp
  next
    case False
    then have "16 \<le> d" using d(1) dvd_imp_le by auto
    then show ?thesis
      using memalign_lead_part [OF p ne x _ d(1), of al] d(2) False by auto
  qed
  then obtain as' h1 where r1: "(if x + 16 + d \<noteq> x + 16 then mm_memalign_lead al (x + 16) (x + 16 + d) x h
      else Some (x + 16 + d, x, as, h)) = Some (x + 16 + d, x + d, as', h1)" and sa': "s < as'"
    and e1: "same_env h h1" and p1: "mm_part h1 ((us @ opt_free d) @ (n - d, True) # vs) {}" by blast
  have x1: "x + d = mm_heapstart h1 + extent (us @ opt_free d)" using e1 x by (simp add: same_env_def)
  have n16: "16 dvd n - d" using mm_part_chunk(6) [OF p1] .
  have sn: "s + 16 + 16 \<le> n - d"
  proof -
    have "16 dvd n - d - (s + 16)" by (rule dvd_diff_nat [OF n16]) (use s in simp)
    then show ?thesis using d(2) dvd_imp_le [of 16 "n - d - (s + 16)"] by auto
  qed
  obtain h2 where r2: "mm_shrinkchunk (x + d) (s + 16) h1 = Some h2" and e2: "same_env h1 h2"
    and p2: "mm_part h2 ((us @ opt_free d) @ shrunk (s + 16) (n - d) vs) {}"
    using mm_shrinkchunk_part [OF p1 _ ne(2) x1, of "s + 16"] ne(1) s sn by auto
  have "coalesced ((us @ opt_free d) @ (n - d, True) # vs)"
    using co ls ne by (auto simp: coalesced_append coalesced_Cons opt_free_def)
  then have "coalesced ((us @ opt_free d) @ shrunk (s + 16) (n - d) vs)" by (rule coalesced_shrunk)
  moreover have "blocks (mm_heapstart h) ((us @ opt_free d) @ shrunk (s + 16) (n - d) vs) =
      blocks (mm_heapstart h) us \<union> {(x + d, s + 16)} \<union> blocks (x + n) vs"
    using blocks_shrunk [OF sn] x d(2) by (simp add: add.assoc)
  ultimately show ?thesis
    unfolding SIZEOF_MM_ALLOCNODE_def using r1 r2 sa' p2 same_env_trans [OF e1 e2] by blast
qed

text \<open>The first multiple of a power of two at or above the raw address.\<close>

lemma aligned_up:
  assumes "k < 32" "raw + 2 ^ k < 2 ^ 32" "16 dvd raw" "4 \<le> k"
  shows "\<exists>d. unat ((of_nat raw + (2 ^ k - 1)) AND NOT (2 ^ k - 1 :: u32)) = raw + d \<and>
    16 dvd d \<and> d < 2 ^ k \<and> 2 ^ k dvd raw + d"
proof -
  let ?r = "(raw + (2 ^ k - 1)) div 2 ^ k * 2 ^ k"
  have "unat (of_nat raw + (2 ^ k - 1) :: u32) = raw + (2 ^ k - 1)"
  proof -
    have "(of_nat (raw + (2 ^ k - 1)) :: u32) = of_nat raw + of_nat (2 ^ k - 1)" by (rule of_nat_add)
    also have "(of_nat (2 ^ k - 1) :: u32) = 2 ^ k - 1" by (subst of_nat_diff) simp_all
    finally have "(of_nat raw + (2 ^ k - 1) :: u32) = of_nat (raw + (2 ^ k - 1))" by (rule sym)
    then show ?thesis using assms(2) by (simp add: unat_of_nat)
  qed
  then have u: "unat ((of_nat raw + (2 ^ k - 1)) AND NOT (2 ^ k - 1 :: u32)) = ?r"
    using unat_and_not_mask [of "of_nat raw + (2 ^ k - 1) :: u32" k] by (simp add: mask_eq_exp_minus_1)
  have r: "raw \<le> ?r" "?r < raw + 2 ^ k"
  proof -
    have "(raw + (2 ^ k - 1)) mod 2 ^ k < 2 ^ k" by simp
    then show "raw \<le> ?r" "?r < raw + 2 ^ k"
      using div_mult_mod_eq [of "raw + (2 ^ k - 1)" "2 ^ k"] by linarith+
  qed
  have "16 dvd (2::nat) ^ k" using le_imp_power_dvd [OF assms(4), of "2::nat"] by simp
  then have "16 dvd ?r" by (rule dvd_mult)
  with assms(3) r have "16 dvd ?r - raw" by (intro dvd_diff_nat) auto
  then show ?thesis using u r by (intro exI [of _ "?r - raw"]) auto
qed


lemma chunk_size_dvd: "16 dvd n \<Longrightarrow> chunk_size n = n + 16"
  by (auto simp: chunk_size_def elim!: dvdE)

text \<open>The part of \<open>mm_memalign\<close> after the raw allocation.\<close>

lemma memalign_tail:
  assumes wf: "mm_wf h (us @ (N + 16, True) # vs)" and lock: "lock_ok c h" and ne: "us \<noteq> []" "vs \<noteq> []"
    and ls: "snd (last us)" and x: "x = mm_heapstart h + extent us" and d: "16 dvd d" "d + s < N" and s: "16 dvd s"
    and malloc: "mm_malloc c (MM_ALIGN_UP req + 2 * al) h0 = Some (x + 16, h)" "16 < unat al"
      "unat (MM_ALIGN_UP req) = s" "unat (MM_ALIGN_UP req + 2 * al) = N"
      "unat ((of_nat (x + 16) + (al - 1)) AND NOT (al - 1)) = x + 16 + d"
  shows "\<exists>h' ks'. mm_memalign c al req h0 = Some (x + 16 + d, h') \<and> same_env h h' \<and> mm_wf h' ks' \<and>
    blocks (mm_heapstart h) ks' =
      blocks (mm_heapstart h) us \<union> {(x + d, s + 16)} \<union> blocks (x + (N + 16)) vs"
proof -
  obtain v w where take: "mm_takesemaphore c h = Some (with_lock v (getpid c) w h)"
    and give: "\<And>h'. same_env (with_lock v (getpid c) w h) h' \<Longrightarrow>
      mm_givesemaphore (getpid c) h' =
        Some (with_lock (mm_semaphore h) (mm_holder h) (mm_counts_held h) h')"
    using take_give [OF lock] by metis
  define h1 where "h1 = heapinfo_credit x (with_lock v (getpid c) w h)"
  have sh1: "same_headers (with_lock v (getpid c) w h) h1" by (simp add: h1_def heapinfo_same_headers)
  have "mm_wf (with_lock v (getpid c) w h) (us @ (N + 16, True) # vs)" using wf by simp
  then have p1: "mm_part h1 (us @ (N + 16, True) # vs) {}" and co: "coalesced (us @ (N + 16, True) # vs)"
    using mm_part_cong [OF sh1] by (auto simp: mm_wf_def)
  have e1: "same_env (with_lock v (getpid c) w h) h1" using sh1 by (simp add: same_headers_def)
  have x1: "x = mm_heapstart h1 + extent us" using x e1 by (simp add: same_env_def)
  have "d + (s + 16) < N + 16" "s < N" using d by simp_all
  from memalign_trim [OF p1 ne x1 d(1) this(1) s this(2) ls co, of al] obtain as' h1' h2 ks2
    where r1: "(if x + 16 + d \<noteq> x + 16 then mm_memalign_lead al (x + 16) (x + 16 + d) x h1
         else Some (x + 16 + d, x, N, h1)) = Some (x + 16 + d, x + d, as', h1')" "s < as'"
      and r2: "mm_shrinkchunk (x + d) (s + SIZEOF_MM_ALLOCNODE) h1' = Some h2"
      and e2: "same_env h1 h2" and p2: "mm_part h2 ks2 {}" "coalesced ks2"
      and b2: "blocks (mm_heapstart h1) ks2 =
        blocks (mm_heapstart h1) us \<union> {(x + d, s + 16)} \<union> blocks (x + (N + 16)) vs" by blast
  define h3 where "h3 = heapinfo_charge c (x + d) h2"
  have sh3: "same_headers h2 h3" by (simp add: h3_def heapinfo_same_headers)
  have e3: "same_env (with_lock v (getpid c) w h) h3"
    using e1 e2 sh3 by (auto simp: same_headers_def intro: same_env_trans)
  define h4 where "h4 = with_lock (mm_semaphore h) (mm_holder h) (mm_counts_held h) h3"
  have "mm_memalign c al req h0 = Some (x + 16 + d, h4)"
    unfolding mm_memalign_def mm_consts
    apply (simp only: malloc Let_def Option.bind.bind_lunit case_prod_conv take h1_def [symmetric] r1(1) add_diff_cancel_right')
    using malloc(2) r1 r2 give [OF e3] by (simp add: h3_def [symmetric] h4_def mm_consts)
  moreover have "mm_wf h4 ks2" using p2 mm_part_cong [OF sh3] by (simp add: h4_def mm_wf_def [of h3])
  moreover have "same_env h h4" using e3 by (simp add: h4_def same_env_def)
  moreover have "mm_heapstart h1 = mm_heapstart h" using e1 by (simp add: same_env_def)
  ultimately show ?thesis using b2 by metis
qed

lemma mm_memalign_blocks:
  assumes wf: "mm_wf h ks" and lock: "lock_ok c h" and k4: "4 < k"
    and sz: "sz = (unat req + 15) div 16 * 16" and req: "sz + 2 * 2 ^ k + 31 < 2 ^ 32"
  shows "\<exists>p h' ks'. mm_memalign c (2 ^ k) req h = Some (p, h') \<and> same_env h h' \<and> mm_wf h' ks' \<and>
    (p = NULL \<longrightarrow> ks' = ks) \<and>
    (p \<noteq> NULL \<longrightarrow> 16 \<le> p \<and> 2 ^ k dvd p \<and>
       blocks (mm_heapstart h) ks' = insert (p - 16, sz + 16) (blocks (mm_heapstart h) ks))"
proof -
  let ?a = "mm_heapstart h" and ?sz = "MM_ALIGN_UP req" and ?al = "2 ^ k :: u32"
  have "(2::nat) ^ k < 2 ^ 31" using req by simp
  then have k: "4 < k" "k < 31" using k4 power_strict_increasing_iff [of "2::nat" k 31] by simp_all
  have k16: "16 dvd (2::nat) ^ k" "32 \<le> (2::nat) ^ k"
    using le_imp_power_dvd [of 4 k "2::nat"] power_increasing [of 5 k "2::nat"] k by simp_all
  have ua: "unat ?al = 2 ^ k" using k by (simp add: unat_pow2)
  have usz: "unat ?sz = sz" "16 dvd sz" "sz \<le> unat req + 15"
    using unat_align_up [of req] req by (simp_all add: sz)
  define N where "N = sz + 2 * 2 ^ k"
  have uN: "unat (?sz + 2 * ?al) = N"
  proof -
    have "unat (2 * ?al) = 2 * 2 ^ k" using k ua req by (simp add: unat_word_ariths)
    then show ?thesis using usz req unat_add_lem [of ?sz "2 * ?al"] by (simp add: N_def)
  qed
  have N: "16 dvd N" "chunk_size N = N + 16" using usz(2) k16 by (simp_all add: N_def chunk_size_dvd)
  have rN: "0 < ?sz + 2 * ?al" "unat (?sz + 2 * ?al) + 31 < 2 ^ 32"
    using uN usz(3) req k16 by (simp_all add: word_less_nat_alt N_def)
  from mm_malloc_cases [OF wf lock rN, unfolded uN N(2)] obtain raw h1 where
    m1: "mm_malloc c (?sz + 2 * ?al) h = Some (raw, h1)" and e1: "same_env h h1"
    and z: "raw = NULL \<longrightarrow> mm_wf h1 ks \<and> (\<forall>m. (m, False) \<in> set ks \<longrightarrow> m < N + 16)"
    and nz: "raw \<noteq> NULL \<longrightarrow> (\<exists>us n vs. ks = us @ (n, False) # vs \<and> raw = ?a + extent us + 16 \<and>
       N + 16 \<le> n \<and> (\<forall>m. (m, False) \<in> set ks \<longrightarrow> N + 16 \<le> m \<longrightarrow> n \<le> m) \<and> mm_wf h1 (us @ taken (N + 16) n @ vs))"
    by (elim exE conjE)
  show ?thesis
  proof (cases "raw = NULL")
    case True
    then have "mm_memalign c ?al req h = Some (NULL, h1)"
      using m1 ua k16 by (simp add: mm_memalign_def mm_consts)
    then show ?thesis using e1 z True by blast
  next
    case False
    then obtain us n vs where ks: "ks = us @ (n, False) # vs" and raw: "raw = ?a + extent us + 16"
      and n: "N + 16 \<le> n" and wf1: "mm_wf h1 (us @ taken (N + 16) n @ vs)" using nz by blast
    obtain m vs' where vs1: "vs = (m, True) # vs'" and us1: "us \<noteq> []" "snd (last us)"
      using mm_wf_free_neighbours [OF wf [unfolded ks]] by metis
    have "mm_part h (us @ (n, False) # vs) {}" using wf ks by (simp add: mm_wf_def)
    then have n16: "16 dvd n" by (rule mm_part_chunk(6))
    have tk: "taken (N + 16) n = (N + 16, True) # opt_free (n - (N + 16))"
      using taken_exact [OF n16, of "N + 16"] N(1) n by (auto simp: opt_free_def)
    define x ws where "x = ?a + extent us" and "ws = opt_free (n - (N + 16)) @ vs"
    have wf1': "mm_wf h1 (us @ (N + 16, True) # ws)" using wf1 tk by (simp add: ws_def)
    have lock1: "lock_ok c h1" using lock e1 by (simp add: lock_ok_def same_env_def)
    have x1: "x = mm_heapstart h1 + extent us" using e1 by (simp add: x_def same_env_def)
    have rx: "raw = x + 16" by (simp add: raw x_def)
    have p1: "mm_part h1 (us @ (N + 16, True) # ws) {}" using wf1' by (simp add: mm_wf_def)
    have "16 dvd raw" "raw + 2 ^ k < 2 ^ 32"
      using mm_part_chunk(3) [OF p1] p1 by (simp_all add: rx x1 mm_part_def region_ok_def N_def)
    from aligned_up [OF _ this(2,1)] k obtain d where
      d: "unat ((of_nat raw + (?al - 1)) AND NOT (?al - 1)) = raw + d" "16 dvd d" "d < 2 ^ k" "2 ^ k dvd raw + d"
      by auto
    have "d + sz < N" "ws \<noteq> []" using d(3) vs1 by (simp_all add: N_def ws_def)
    from memalign_tail [OF wf1' lock1 us1(1) this(2) us1(2) x1 d(2) this(1) usz(2), of req ?al h]
    obtain h2 ks2 where r: "mm_memalign c ?al req h = Some (raw + d, h2)" and e2: "same_env h1 h2"
      and wf2: "mm_wf h2 ks2"
      and b2: "blocks (mm_heapstart h1) ks2 =
        blocks (mm_heapstart h1) us \<union> {(x + d, sz + 16)} \<union> blocks (x + (N + 16)) ws"
      using m1 ua k16 d(1) usz(1) uN unfolding rx by auto
    have "blocks ?a ks2 = insert (raw + d - 16, sz + 16) (blocks ?a ks)"
      using b2 e1 n by (simp add: same_env_def ks rx x_def ws_def add.assoc)
    then show ?thesis
      using r e1 e2 wf2 d(4) rx same_env_trans by (intro exI [of _ "raw + d"], intro exI [of _ h2], intro exI [of _ ks2]) auto
  qed
qed

text \<open>A request that wraps to the size of a header: \<open>mm_realloc\<close> takes it for a request to shrink the
  block, and releases all of its data.\<close>

lemma mm_realloc_wraps:
  assumes wf: "mm_wf h ks" and lock: "lock_ok c h" and ub: "user_block h ks (mem - 16) n" and mem: "16 \<le> mem"
    and req: "2 ^ 32 - 16 < unat req"
  shows "\<exists>h' ks'. mm_realloc c mem req h = Some (mem, h') \<and> mm_wf h' ks' \<and>
    blocks (mm_heapstart h) ks' = insert (mem - 16, 16) (blocks (mm_heapstart h) ks - {(mem - 16, n)})"
proof -
  define x where "x = mem - 16"
  have mx: "mem \<noteq> NULL" "mem - SIZEOF_MM_ALLOCNODE = x" using mem by (simp_all add: x_def SIZEOF_MM_ALLOCNODE_def)
  obtain us0 vs0 where ks0: "ks = us0 @ (n, True) # vs0" and x0: "x = mm_heapstart h + extent us0"
    and ne: "us0 \<noteq> []" "vs0 \<noteq> []" using user_block_split [OF wf ub] by (auto simp: x_def)
  obtain us q m k e vs where us0: "us0 = us @ opt_free q" and vs0: "vs0 = opt_free m @ (k, e) # vs"
    and us: "us \<noteq> []" and dv: "16 dvd q" "16 dvd m" and al: "q = 0 \<longrightarrow> snd (last us)" "m = 0 \<longrightarrow> e"
    using neighbours [OF wf [unfolded ks0] ne] .
  have ks: "ks = us @ opt_free q @ (n, True) # opt_free m @ (k, e) # vs" using ks0 us0 vs0 by simp
  obtain s w where take: "mm_takesemaphore c h = Some (with_lock s (getpid c) w h)"
    and give: "\<And>h'. same_env (with_lock s (getpid c) w h) h' \<Longrightarrow>
      mm_givesemaphore (getpid c) h' = Some (with_lock (mm_semaphore h) (mm_holder h) (mm_counts_held h) h')"
    using take_give [OF lock] by metis
  define h1 where "h1 = with_lock s (getpid c) w h"
  have wf1: "mm_wf h1 ks" and st1: "mm_heapstart h1 = mm_heapstart h" using wf by (simp_all add: h1_def)
  have x1: "x = mm_heapstart h1 + extent us0" "x = mm_heapstart h1 + extent us + q" using x0 us0 st1 by simp_all
  have n: "16 \<le> n" using mm_wf_blocks(1) [OF wf] ub by blast
  have "0 < req" using req by (simp add: word_less_nat_alt)
  note unf = mm_realloc_unfold [OF take [folded h1_def] mx this wrapped_request [OF req, symmetric] wf1 [unfolded ks] x1(2) us al]
  from realloc_shrink_path [OF wf1 [unfolded ks0] ne x1(1) order_refl dvd_refl n, of c]
  obtain h2 ks2 where r: "(if 16 < n then do {
          let h = heapinfo_credit x h1;
          h \<leftarrow> mm_shrinkchunk x 16 h;
          Some (heapinfo_charge c x h)
        } else Some h1) = Some h2" and e2: "same_env h1 h2" and wf2: "mm_wf h2 ks2"
    and b2: "blocks (mm_heapstart h1) ks2 = insert (x, 16) (blocks (mm_heapstart h1) ks - {(x, n)})"
    unfolding ks0 by blast
  define h3 where "h3 = with_lock (mm_semaphore h) (mm_holder h) (mm_counts_held h) h2"
  have "mm_realloc c mem req h = Some (mem, h3)" using unf r n give [OF e2 [unfolded h1_def]] by (simp add: h3_def)
  moreover have "mm_wf h3 ks2" using wf2 by (simp add: h3_def)
  ultimately show ?thesis using b2 by (auto simp: st1 x_def)
qed

section \<open>mm_mallinfo\<close>

fun tally :: "chunk list \<Rightarrow> mallinfo \<Rightarrow> mallinfo" where
  "tally [] mi = mi"
| "tally ((n, True) # ks) mi = tally ks (mi\<lparr>uordblks := uordblks mi + n\<rparr>)"
| "tally ((n, False) # ks) mi =
     tally ks (mi\<lparr>ordblks := ordblks mi + 1, fordblks := fordblks mi + n, mxordblk := max (mxordblk mi) n\<rparr>)"

definition used :: "chunk list \<Rightarrow> nat" where
  "used ks = sum_list (map fst (filter snd ks))"

definition unused :: "chunk list \<Rightarrow> nat list" where
  "unused ks = map fst (filter (\<lambda>k. \<not> snd k) ks)"

lemma tally_eq:
  "tally ks mi = mi\<lparr>ordblks := ordblks mi + length (unused ks), mxordblk := fold max (unused ks) (mxordblk mi),
     uordblks := uordblks mi + used ks, fordblks := fordblks mi + sum_list (unused ks)\<rparr>"
  by (induction ks mi rule: tally.induct) (simp_all add: used_def unused_def max.commute)

lemma used_unused: "used ks + sum_list (unused ks) = extent ks"
  by (induction ks) (auto simp: used_def unused_def)

lemma mallinfo_walk_layout:
  assumes "layout cs pr a p (ks @ vs)" "p < 2 ^ 31" "extent ks < 2 ^ 31" "e = a + extent ks"
  shows "mallinfo_walk cs pr e a mi = Some (e, tally ks mi)"
  using assms
proof (induction ks arbitrary: a p mi)
  case Nil
  then show ?case by (simp add: mallinfo_walk.simps)
next
  case (Cons k ks)
  obtain n b where k: "k = (n, b)" by fastforce
  have h: "cs a = n" "pr a = prec p b" "16 \<le> n" "layout cs pr (a + n) n (ks @ vs)" using Cons.prems k by auto
  have IH: "mallinfo_walk cs pr e (a + n) mi' = Some (e, tally ks mi')" for mi'
    using Cons.IH [OF h(4)] Cons.prems k by simp
  have e: "a < e" and p: "p < 2 ^ 31" using Cons.prems k h by simp_all
  have mx: "(if j < n then n else j) = max j n" for j by (simp add: max_def)
  show ?case
    unfolding k by (subst mallinfo_walk.simps, cases b) (use h(1,2) e p in \<open>simp_all add: IH flag_simps mx\<close>)
qed

lemma mm_mallinfo_eq:
  assumes wf: "mm_wf h ks" and lock: "lock_ok c h"
  shows "mm_mallinfo c h =
    (if mm_heapsize h = extent ks
     then Some (\<lparr>arena = extent ks, ordblks = length (unused ks), mxordblk = fold max (unused ks) 0,
       uordblks = used ks, fordblks = sum_list (unused ks)\<rparr>, h)
     else None)"
proof -
  obtain mid where ks: "ks = ((16, True) # mid) @ [(16, True)]"
    and L: "layout (csize h) (preceding h) (mm_heapstart h) 0 ks"
    and e: "mm_heapend h = mm_heapstart h + extent ((16, True) # mid)" "extent ks < 2 ^ 31"
    using wf by (auto simp: mm_wf_def mm_part_def region_ok_def guarded_def)
  define ms where "ms = (16, True) # mid"
  have un: "unused ks = unused ms" "used ks = used ms + 16" by (simp_all add: ks ms_def used_def unused_def)
  have w: "mallinfo_walk (csize h) (preceding h) (mm_heapend h) (mm_heapstart h) mi =
      Some (mm_heapend h, tally ms mi)" for mi
    using mallinfo_walk_layout [of "csize h" "preceding h" "mm_heapstart h" 0 ms "[(16, True)]" "mm_heapend h" mi]
      L e ks by (simp add: ms_def)
  obtain s k where take: "mm_takesemaphore c h = Some (with_lock s (getpid c) k h)"
    and give: "mm_givesemaphore (getpid c) (with_lock s (getpid c) k h) =
        Some (with_lock (mm_semaphore h) (mm_holder h) (mm_counts_held h) (with_lock s (getpid c) k h))"
    using take_give [OF lock] same_env_refl by metis
  have eq: "with_lock (mm_semaphore h) (mm_holder h) (mm_counts_held h) (with_lock s (getpid c) k h) = h"
    by (rule mm_heap.equality) simp_all
  have ex: "extent ks = used ks + sum_list (unused ks)" using used_unused [of ks] by simp
  show ?thesis
    unfolding mm_mallinfo_def take give [unfolded eq]
    using w un ex by (auto simp: give [unfolded eq] debugassert_def tally_eq SIZEOF_MM_ALLOCNODE_def)
qed

section \<open>mm_extend\<close>

lemma align_down_id: "16 dvd unat w \<Longrightarrow> MM_ALIGN_DOWN w = w"
  using unat_and_not_mask [of w 4]
  by (simp add: MM_ALIGN_DOWN_def mm_consts mask_eq_exp_minus_1 word_unat_eq_iff)

lemma align_up_id: "16 dvd unat w \<Longrightarrow> unat w + 15 < 2 ^ 32 \<Longrightarrow> MM_ALIGN_UP w = w"
  using unat_align_up [of w] by (auto simp: word_unat_eq_iff elim!: dvdE)

text \<open>The heap with its tail guard turned into an allocated block over the new memory.\<close>

definition extended :: "nat \<Rightarrow> mm_heap \<Rightarrow> mm_heap" where
  "extended n h = (let x = mm_heapend h; y = x + n
     in h\<lparr>csize := (csize h)(x := n, y := 16), preceding := (preceding h)(y := prec n True),
       mm_heapend := y\<rparr>)"

lemma extended_wf:
  assumes wf: "mm_wf h (us @ [(16, True)])" and us: "us \<noteq> []" and n: "32 \<le> n" "16 dvd n"
    and fit: "mm_heapend h + 16 + n < 2 ^ 32" "extent us + n + 16 < 2 ^ 31"
    and out: "\<forall>s \<in> sents (mm_nodelist h). s < mm_heapend h + 16 \<or> mm_heapend h + 16 + n \<le> s"
  shows "mm_wf (extended n h) (us @ (n, True) # [(16, True)])"
proof -
  define x y where "x = mm_heapend h" and "y = mm_heapend h + n"
  have h2: "extended n h = h\<lparr>csize := (csize h)(x := n, y := 16), preceding := (preceding h)(y := prec n True),
     mm_heapend := y\<rparr>" by (simp add: extended_def x_def y_def Let_def)
  have r: "region_ok h (us @ [(16, True)])"
    and L: "layout (csize h) (preceding h) (mm_heapstart h) 0 (us @ [(16, True)])"
    and co: "coalesced (us @ [(16, True)])"
    using wf by (auto simp: mm_wf_def mm_part_def)
  obtain bk where bk: "freelist h bk (set (frees (mm_heapstart h) us))"
    using wf by (auto simp: mm_wf_def mm_part_def)
  have x: "x = mm_heapstart h + extent us" "y = x + n" using r by (simp_all add: region_ok_def x_def y_def)
  have g: "guarded (us @ [(n, True), (16, True)])"
    using r us guarded_replace [of us "[]" "[(16, True)]" "[(n, True)]"] by (simp add: region_ok_def)
  have L2: "layout (csize (extended n h)) (preceding (extended n h)) (mm_heapstart h) 0 (us @ [(n, True), (16, True)])"
    using L n by (auto simp: layout_append layout_frame_cs layout_frame_pr h2 x)
  have so: "s < mm_heapstart h \<or> y + 16 \<le> s" if "s \<in> sents (mm_nodelist h)" for s
  proof -
    have "s < mm_heapstart h \<or> x + 16 \<le> s" using r that x by (auto simp: region_ok_def add.assoc)
    moreover have "s < x + 16 \<or> x + 16 + n \<le> s" using out that by (simp add: x_def)
    ultimately show ?thesis using x by auto
  qed
  have "x \<notin> set (frees (mm_heapstart h) us)" "y \<notin> set (frees (mm_heapstart h) us)"
    using frees_others(1) [OF L] x by fastforce+
  moreover have "x \<notin> sents (mm_nodelist h)" "y \<notin> sents (mm_nodelist h)"
    using so [of x] so [of y] x n by auto
  ultimately have "freelist (extended n h) bk (set (frees (mm_heapstart h) us))"
    using bk by (subst freelist_cong [of _ h]) (auto simp: h2)
  moreover have "region_ok (extended n h) (us @ [(n, True), (16, True)])"
    using r g x so fit by (simp add: region_ok_def h2 add.assoc x_def [symmetric]) 
  ultimately show ?thesis
    using L2 co us by (auto simp: mm_wf_def mm_part_def h2 coalesced_append)
qed

lemma mm_extend_eq:
  assumes wf: "mm_wf h (us @ [(16, True)])" and lock: "lock_ok c h"
    and mem: "unat mem = mm_heapend h + 16" and sz: "32 \<le> unat sz" "16 dvd unat sz"
    and fit: "unat mem + unat sz < 2 ^ 32"
  shows "mm_extend c mem sz 0 h = mm_free c (unat mem) (extended (unat sz) h)"
proof -
  let ?n = "unat sz" and ?x = "mm_heapend h"
  have p: "mm_part h (us @ (16, True) # []) {}" using wf by (simp add: mm_wf_def)
  have x: "?x = mm_heapstart h + extent us" using p by (simp add: mm_part_def region_ok_def)
  have at: "16 dvd ?x" "preceding h ?x = prec (last (0 # map fst us)) True" "last (0 # map fst us) < 2 ^ 31"
    using mm_part_chunk [OF p] mm_part_prev [OF p] x by simp_all
  have um: "unat (mem + sz) = unat mem + unat sz" using fit unat_add_lem [of mem sz] by simp
  have al: "MM_ALIGN_UP mem = mem" "MM_ALIGN_DOWN (mem + sz) = mem + sz"
    using at(1) mem sz fit um by (simp_all add: align_up_id align_down_id)
  obtain s k where take: "mm_takesemaphore c h = Some (with_lock s (getpid c) k h)"
    and give: "\<And>h'. \<lbrakk>mm_holder h' = getpid c; mm_counts_held h' = k; mm_semaphore h' = s\<rbrakk> \<Longrightarrow>
      mm_givesemaphore (getpid c) h' =
        Some (with_lock (mm_semaphore h) (mm_holder h) (mm_counts_held h) h')"
    using take_give_fields [OF lock] by metis
  have eq: "with_lock (mm_semaphore h) (mm_holder h) (mm_counts_held h)
      (extended ?n (with_lock s (getpid c) k h)) = extended ?n h"
    by (rule mm_heap.equality) (simp_all add: extended_def Let_def)
  have "mm_givesemaphore (getpid c) (extended ?n (with_lock s (getpid c) k h)) = Some (extended ?n h)"
    using give [of "extended ?n (with_lock s (getpid c) k h)"] unfolding eq by (simp add: extended_def Let_def)
  moreover have "mem \<noteq> 0" using mem by auto
  ultimately show ?thesis
    using take al mem sz at um
    by (simp add: mm_extend_def debugassert_def MIN_EXTEND_def SIZEOF_MM_ALLOCNODE_def extended_def Let_def flag_simps)
qed

lemma mm_extend_release:
  assumes wf: "mm_wf h (us @ [(16, True)])" and lock: "lock_ok c h" and us: "us \<noteq> []"
    and mem: "unat mem = mm_heapend h + 16" and sz: "32 \<le> unat sz" "16 dvd unat sz"
    and fit: "unat mem + unat sz < 2 ^ 32" "extent us + unat sz + 16 < 2 ^ 31"
    and out: "\<forall>s \<in> sents (mm_nodelist h). s < unat mem \<or> unat mem + unat sz \<le> s"
  shows "\<exists>h'. mm_extend c mem sz 0 h = Some h' \<and> mm_wf h' (release us (unat sz) [(16, True)]) \<and>
    same_env (extended (unat sz) h) h'"
proof -
  let ?n = "unat sz"
  have wf2: "mm_wf (extended ?n h) (us @ (?n, True) # [(16, True)])"
    using extended_wf [OF wf us sz] fit out mem by simp
  have lock2: "lock_ok c (extended ?n h)" using lock by (simp add: lock_ok_def extended_def Let_def)
  have "mm_heapend h = mm_heapstart h + extent us" using wf by (simp add: mm_wf_def mm_part_def region_ok_def)
  then have memx: "unat mem = mm_heapstart (extended ?n h) + extent us + 16"
    using mem by (simp add: extended_def Let_def)
  show ?thesis
    using mm_free_release [OF wf2 lock2 us _ memx] mm_extend_eq [OF wf lock mem sz fit(1)] by auto
qed

section \<open>mm_initialize\<close>

definition sent_upto :: "addr \<Rightarrow> nat \<Rightarrow> nat \<Rightarrow> addr set" where
  "sent_upto nl i k = (\<lambda>j. nl + 16 * j) ` {i..<k}"

lemma sent_upto_Suc: "i \<le> k \<Longrightarrow> sent_upto nl i (Suc k) = insert (nl + 16 * k) (sent_upto nl i k)"
  by (auto simp: sent_upto_def atLeastLessThanSuc)

lemma nodelist_clear:
  "fold (\<lambda>i h. set_csize (nodelist h i) 0 (set_preceding (nodelist h i) 0
      (set_flink (nodelist h i) NULL (set_blink (nodelist h i) NULL h)))) [0..<k] h =
   h\<lparr>flink := (\<lambda>a. if a \<in> sent_upto (mm_nodelist h) 0 k then 0 else flink h a),
     blink := (\<lambda>a. if a \<in> sent_upto (mm_nodelist h) 0 k then 0 else blink h a),
     csize := (\<lambda>a. if a \<in> sent_upto (mm_nodelist h) 0 k then 0 else csize h a),
     preceding := (\<lambda>a. if a \<in> sent_upto (mm_nodelist h) 0 k then 0 else preceding h a)\<rparr>"
proof (induction k)
  case 0
  show ?case by (simp add: sent_upto_def)
next
  case (Suc k)
  show ?case
    unfolding upt_Suc_append [OF le0] fold_append comp_apply Suc.IH
    by (rule mm_heap.equality) (auto simp: nodelist_eq sent_upto_Suc fun_eq_iff)
qed

lemma nodelist_chain:
  "fold (\<lambda>i h. set_blink (nodelist h i) (nodelist h (i - 1))
      (set_flink (nodelist h (i - 1)) (nodelist h i) h)) [1..<Suc k] h =
   h\<lparr>flink := (\<lambda>a. if a \<in> sent_upto (mm_nodelist h) 0 k then a + 16 else flink h a),
     blink := (\<lambda>a. if a \<in> sent_upto (mm_nodelist h) 1 (Suc k) then a - 16 else blink h a)\<rparr>"
proof (induction k)
  case 0
  show ?case by (simp add: sent_upto_def)
next
  case (Suc k)
  have u: "[1..<Suc (Suc k)] = [1..<Suc k] @ [Suc k]" by simp
  show ?case
    unfolding u fold_append comp_apply Suc.IH
    by (rule mm_heap.equality) (auto simp: nodelist_eq sent_upto_Suc fun_eq_iff)
qed

lemma dlist_upt:
  assumes "\<And>j. i \<le> j \<Longrightarrow> j < k \<Longrightarrow> f j \<noteq> NULL \<and>
    bl (f j) = (if j = i then p else f (j - 1)) \<and> fl (f j) = (if Suc j = k then y else f (Suc j))"
  shows "dlist fl bl p (map f [i..<k]) y"
  using assms
proof (induction "k - i" arbitrary: i p)
  case (Suc d)
  then have ik: "i < k" by simp
  have "dlist fl bl (f i) (map f [Suc i..<k]) y"
  proof (rule Suc.hyps(1))
    show "d = k - Suc i" using Suc.hyps(2) by simp
    show "f j \<noteq> NULL \<and> bl (f j) = (if j = Suc i then f i else f (j - 1)) \<and>
        fl (f j) = (if Suc j = k then y else f (Suc j))" if "Suc i \<le> j" "j < k" for j
      using Suc.prems [of j] that by auto
  qed
  then show ?case using Suc.prems [of i] ik by (cases "Suc i = k") (auto simp: upt_conv_Cons)
qed simp

lemma nodelist_init_freelist:
  assumes "mm_nodelist h \<noteq> NULL"
  shows "freelist (nodelist_init h) (\<lambda>_. []) {}" "mm_nodelist (nodelist_init h) = mm_nodelist h"
    "mm_heapsize (nodelist_init h) = mm_heapsize h"
    "total_alloc_size (nodelist_init h) = total_alloc_size h"
proof -
  let ?nl = "mm_nodelist h"
  have 19: "MM_NNODES = Suc 18" by (simp add: mm_consts)
  have eq: "nodelist_init h = h\<lparr>flink := (\<lambda>a. if a \<in> sent_upto ?nl 0 18 then a + 16
        else if a \<in> sent_upto ?nl 0 19 then 0 else flink h a),
     blink := (\<lambda>a. if a \<in> sent_upto ?nl 1 19 then a - 16 else if a \<in> sent_upto ?nl 0 19 then 0 else blink h a),
     csize := (\<lambda>a. if a \<in> sent_upto ?nl 0 19 then 0 else csize h a),
     preceding := (\<lambda>a. if a \<in> sent_upto ?nl 0 19 then 0 else preceding h a)\<rparr>"
    unfolding nodelist_init_def Let_def nodelist_clear 19 nodelist_chain by (simp cong: if_cong)
  have fl: "flat ?nl (\<lambda>_. []) = map (\<lambda>i. ?nl + 16 * i) [0..<19]"
    by (simp add: flat_range_def 19 concat_map_singleton)
  have mem: "?nl + 16 * j \<in> sent_upto ?nl i k \<longleftrightarrow> i \<le> j \<and> j < k" for i j k
    by (auto simp: sent_upto_def)
  have "dlist (flink (nodelist_init h)) (blink (nodelist_init h)) NULL (map (\<lambda>i. ?nl + 16 * i) [0..<19]) NULL"
    by (rule dlist_upt) (use assms mem [of 0] mem [of 18] in \<open>auto simp: eq mem\<close>)
  then show "freelist (nodelist_init h) (\<lambda>_. []) {}"
    by (simp add: freelist_def fl eq distinct_map inj_on_def sents_def bucket_ok_def)
      (simp add: mem 19)
  show "mm_nodelist (nodelist_init h) = mm_nodelist h" "mm_heapsize (nodelist_init h) = mm_heapsize h"
    "total_alloc_size (nodelist_init h) = total_alloc_size h"
    by (simp_all add: eq)
qed

lemma heapinfo_update_node_eq: "heapinfo_update_node c r x h =
    h\<lparr>alloc_call_addr := (alloc_call_addr h)(x := r),
      node_pid := (node_pid h)(x := if up_interrupt_context c then -1 else getpid c)\<rparr>"
  by (simp add: heapinfo_update_node_def Let_def)

lemma mm_addregion_wf:
  assumes fr: "freelist h (\<lambda>_. []) {}" and z: "mm_heapsize h = 0"
    and b: "b = (unat st + 15) div 16 * 16" and e: "e = (unat st + unat sz) div 16 * 16"
    and fit: "unat st + unat sz < 2 ^ 32" "b + 48 \<le> e" "e - b < 2 ^ 31" "st \<noteq> 0"
    and out: "\<forall>s \<in> sents (mm_nodelist h). s < b \<or> e \<le> s"
  shows "\<exists>h'. mm_addregion c st sz h = Some h' \<and>
    mm_wf h' [(16, True), (e - b - 32, False), (16, True)] \<and> mm_heapstart h' = b \<and> mm_heapsize h' = e - b \<and>
    mm_nodelist h' = mm_nodelist h \<and> total_alloc_size h' = total_alloc_size h \<and> mm_semaphore h' = mm_semaphore h \<and> mm_holder h' = mm_holder h \<and> mm_counts_held h' = mm_counts_held h"
proof -
  define n y where "n = e - b - 32" and "y = e - 16"
  have dv: "16 dvd b" "16 dvd e" using b e by auto
  have "0 < unat st" using fit(4) by (simp add: unat_gt_0)
  then have b0: "b \<noteq> 0" unfolding b by linarith
  have "unat st + 15 < 2 ^ 32" using fit(1,2) b e by linarith
  then have ub: "unat (MM_ALIGN_UP st) = b" using unat_align_up b by simp
  have ue: "unat (MM_ALIGN_DOWN (st + sz)) = e"
    using unat_and_not_mask [of "st + sz" 4] unat_add_lem [of st sz] fit(1) e
    by (simp add: MM_ALIGN_DOWN_def mm_consts mask_eq_exp_minus_1)
  have us: "unat (MM_ALIGN_DOWN (st + sz) - MM_ALIGN_UP st) = e - b"
    using ub ue fit(2) by (simp add: unat_sub word_le_nat_alt)
  then have un: "unat (MM_ALIGN_DOWN (st + sz) - MM_ALIGN_UP st - of_nat (2 * SIZEOF_MM_ALLOCNODE)) = n"
    using fit(2) unfolding n_def by (subst unat_sub) (simp_all add: word_le_nat_alt SIZEOF_MM_ALLOCNODE_def)
  define h1 where "h1 = h\<lparr>mm_heapsize := e - b, mm_heapstart := b, mm_heapend := y,
     csize := (csize h)(b := 16, b + 16 := n, y := 16),
     preceding := (preceding h)(b := MM_ALLOC_BIT, b + 16 := 16, y := prec n True)\<rparr>"
  have ne: "y = b + 16 + n" "16 \<le> n" "e = y + 16" using fit(2) by (auto simp: n_def y_def)
  have yne: "b + 16 \<noteq> y" using ne by simp
  obtain h2 where h2: "same_headers h1 h2" "mm_region_headers c st sz h = (b + 16, h2)"
    "total_alloc_size h2 = total_alloc_size h"
  proof
    show "total_alloc_size (snd (mm_region_headers c st sz h)) = total_alloc_size h"
      by (simp add: mm_region_headers_def Let_def heapinfo_update_node_eq)
    show "same_headers h1 (snd (mm_region_headers c st sz h))"
      using ub ue us un z yne
      by (simp add: mm_region_headers_def Let_def heapinfo_update_node_eq same_headers_def same_env_def h1_def
          SIZEOF_MM_ALLOCNODE_def flag_simps y_def [symmetric])
    show "mm_region_headers c st sz h = (b + 16, snd (mm_region_headers c st sz h))"
      using ub by (simp add: mm_region_headers_def Let_def SIZEOF_MM_ALLOCNODE_def)
  qed
  have n16: "16 dvd n" unfolding n_def using dv by (intro dvd_diff_nat) auto
  have ab: "prec 0 True = MM_ALLOC_BIT" by (simp add: prec_def)
  have L: "layout (csize h1) (preceding h1) b 0 [(16, True), (n, False), (16, True)]"
    using ne n16 ab by (simp add: h1_def prec_False add.assoc)
  have "b \<notin> sents (mm_nodelist h)" "b + 16 \<notin> sents (mm_nodelist h)" "y \<notin> sents (mm_nodelist h)"
    using out ne by fastforce+
  then have "freelist h1 (\<lambda>_. []) {}"
    using fr by (subst freelist_cong [of _ h]) (auto simp: h1_def)
  moreover have "region_ok h1 [(16, True), (n, False), (16, True)]"
    using fit(1,3) dv b0 out e ne by (auto simp: region_ok_def h1_def guarded_def)
  ultimately have "mm_part h1 [(16, True), (n, False), (16, True)] {b + 16}"
    using L by (auto simp: mm_part_def h1_def)
  then have p2: "mm_part h2 ([(16, True)] @ (n, False) # [(16, True)]) {b + 16}"
    using mm_part_cong [OF h2(1)] by simp
  have st2: "mm_heapstart h2 = b" using h2(1) by (simp add: same_headers_def same_env_def h1_def)
  from part_add [OF p2] obtain fl bl where "mm_addregion c st sz h = Some (h2\<lparr>flink := fl, blink := bl\<rparr>)"
    "mm_part (h2\<lparr>flink := fl, blink := bl\<rparr>) [(16, True), (n, False), (16, True)] {}"
    using h2(2) st2 by (auto simp: mm_addregion_def)
  then show ?thesis
    using h2(1,3) by (auto simp: mm_wf_def same_headers_def same_env_def h1_def n_def)
qed


lemma mm_initialize_wf:
  assumes nl: "mm_nodelist h \<noteq> NULL"
    and b: "b = (unat st + 15) div 16 * 16" and e: "e = (unat st + unat sz) div 16 * 16"
    and fit: "unat st + unat sz < 2 ^ 32" "b + 48 \<le> e" "e - b < 2 ^ 31" "st \<noteq> 0"
    and out: "\<forall>s \<in> sents (mm_nodelist h). s < b \<or> e \<le> s"
  shows "\<exists>h'. mm_initialize c st sz h = Some h' \<and>
    mm_wf h' [(16, True), (e - b - 32, False), (16, True)] \<and> mm_heapstart h' = b \<and> mm_heapsize h' = e - b \<and>
    mm_nodelist h' = mm_nodelist h \<and> total_alloc_size h' = total_alloc_size h \<and>
    (\<forall>c'. getpid c' \<noteq> -1 \<and> \<not> up_interrupt_context c' \<longrightarrow> lock_ok c' h')"
proof -
  define h1 where "h1 = mm_seminitialize (nodelist_init (h\<lparr>mm_heapsize := 0\<rparr>))"
  have f: "freelist (nodelist_init (h\<lparr>mm_heapsize := 0\<rparr>)) (\<lambda>_. []) {}"
    "mm_nodelist (nodelist_init (h\<lparr>mm_heapsize := 0\<rparr>)) = mm_nodelist h"
    "mm_heapsize (nodelist_init (h\<lparr>mm_heapsize := 0\<rparr>)) = 0"
    "total_alloc_size (nodelist_init (h\<lparr>mm_heapsize := 0\<rparr>)) = total_alloc_size h"
    using nodelist_init_freelist [of "h\<lparr>mm_heapsize := 0\<rparr>"] nl by simp_all
  have "freelist h1 (\<lambda>_. []) {}"
    using f(1) by (subst freelist_cong [of _ "nodelist_init (h\<lparr>mm_heapsize := 0\<rparr>)"])
      (auto simp: h1_def mm_seminitialize_def)
  moreover have e1: "mm_heapsize h1 = 0" "mm_nodelist h1 = mm_nodelist h" "total_alloc_size h1 = total_alloc_size h"
    using f by (simp_all add: h1_def mm_seminitialize_def)
  ultimately obtain h' where "mm_addregion c st sz h1 = Some h'"
    "mm_wf h' [(16, True), (e - b - 32, False), (16, True)]" "mm_heapstart h' = b" "mm_heapsize h' = e - b"
    "mm_nodelist h' = mm_nodelist h1" "total_alloc_size h' = total_alloc_size h1"
    "mm_semaphore h' = mm_semaphore h1" "mm_holder h' = mm_holder h1" "mm_counts_held h' = mm_counts_held h1"
    using mm_addregion_wf [OF _ _ b e fit, of h1 c] out by auto
  moreover from this have "mm_initialize c st sz h = Some h'" by (simp add: mm_initialize_def h1_def)
  moreover have "mm_semaphore h1 = 1" "mm_holder h1 = -1" "mm_counts_held h1 = 0"
    by (simp_all add: h1_def mm_seminitialize_def)
  ultimately show ?thesis using e1 by (auto simp: lock_ok_def)
qed

end
