(* ===== verification/Alloc_Spec.thy ===== *)
theory Alloc_Spec
  imports Prelude
begin

text \<open>
  What a client relies on in a memory allocator, as a locale. \<open>repr s B\<close> relates an allocator state
  to the blocks the client holds, as pairs of data address and requested size. The heap
  (\<open>mm_malloc\<close>, \<open>mm_free\<close>) and the granule allocator (\<open>gran_alloc\<close>, \<open>gran_free\<close>) interpret it.
  The client is any sequence of requests and releases.
\<close>

datatype alloc_req = Alloc nat | Free nat

text \<open>A client that issues the requests in order and keeps the blocks it got; \<open>Free i\<close> returns the
  \<open>i\<close>-th one.\<close>

fun run_client ::
  "(nat \<Rightarrow> 's \<Rightarrow> (addr \<times> 's) option) \<Rightarrow> (addr \<Rightarrow> nat \<Rightarrow> 's \<Rightarrow> 's option) \<Rightarrow> alloc_req list \<Rightarrow> 's
     \<Rightarrow> (addr \<times> nat) list \<Rightarrow> ('s \<times> (addr \<times> nat) list) option" where
  "run_client al fr [] s held = Some (s, held)"
| "run_client al fr (Alloc r # reqs) s held = do {
     (p, s) \<leftarrow> al r s;
     run_client al fr reqs s (if p = NULL then held else (p, r) # held)
   }"
| "run_client al fr (Free i # reqs) s held =
     (if i < length held then do {
        s \<leftarrow> fr (fst (held ! i)) (snd (held ! i)) s;
        run_client al fr reqs s (take i held @ drop (Suc i) held)
      } else run_client al fr reqs s held)"

definition apart :: "addr \<times> nat \<Rightarrow> addr \<times> nat \<Rightarrow> bool" where
  "apart x y \<longleftrightarrow> fst x + snd x \<le> fst y \<or> fst y + snd y \<le> fst x"

locale block_allocator =
  fixes repr :: "'s \<Rightarrow> (addr \<times> nat) set \<Rightarrow> bool"
    and al :: "nat \<Rightarrow> 's \<Rightarrow> (addr \<times> 's) option"
    and fr :: "addr \<Rightarrow> nat \<Rightarrow> 's \<Rightarrow> 's option"
    and acceptable :: "nat \<Rightarrow> bool"
  assumes held_apart: "repr s B \<Longrightarrow> x \<in> B \<Longrightarrow> y \<in> B \<Longrightarrow> x \<noteq> y \<Longrightarrow> apart x y"
    and alloc_law: "repr s B \<Longrightarrow> acceptable r \<Longrightarrow>
      \<exists>p s'. al r s = Some (p, s') \<and> (p = NULL \<and> repr s' B \<or> p \<noteq> NULL \<and> (p, r) \<notin> B \<and> repr s' (insert (p, r) B))"
    and free_law: "repr s B \<Longrightarrow> (p, r) \<in> B \<Longrightarrow> \<exists>s'. fr p r s = Some s' \<and> repr s' (B - {(p, r)})"
begin

lemma client_safe:
  assumes "repr s (set held)" "distinct held" "\<forall>r. Alloc r \<in> set reqs \<longrightarrow> acceptable r"
  shows "\<exists>s' held'. run_client al fr reqs s held = Some (s', held') \<and> repr s' (set held') \<and>
    distinct held' \<and> (\<forall>x \<in> set held'. \<forall>y \<in> set held'. x \<noteq> y \<longrightarrow> apart x y)"
  using assms
proof (induction reqs arbitrary: s held)
  case Nil
  then show ?case using held_apart by auto
next
  case (Cons q reqs)
  show ?case
  proof (cases q)
    case (Alloc r)
    with Cons.prems obtain p s' where a: "al r s = Some (p, s')"
      "p = NULL \<and> repr s' (set held) \<or> p \<noteq> NULL \<and> (p, r) \<notin> set held \<and> repr s' (insert (p, r) (set held))"
      using alloc_law [of s "set held" r] by auto
    let ?held = "if p = NULL then held else (p, r) # held"
    have "repr s' (set ?held)" "distinct ?held" using a(2) Cons.prems(2) by auto
    with Cons.IH [of s' ?held] Cons.prems(3) show ?thesis by (simp add: Alloc a(1))
  next
    case (Free i)
    show ?thesis
    proof (cases "i < length held")
      case True
      let ?held = "take i held @ drop (Suc i) held"
      have sp: "held = take i held @ held ! i # drop (Suc i) held" using True by (rule id_take_nth_drop)
      have "distinct (take i held @ held ! i # drop (Suc i) held)" using Cons.prems(2) sp by metis
      moreover have "set held = insert (held ! i) (set ?held)" by (subst sp) auto
      ultimately have st: "set ?held = set held - {held ! i}" "distinct ?held" by auto
      obtain s' where f: "fr (fst (held ! i)) (snd (held ! i)) s = Some s'" "repr s' (set ?held)"
        using free_law [OF Cons.prems(1), of "fst (held ! i)" "snd (held ! i)"] True st(1) by auto
      with Cons.IH [OF f(2) st(2)] Cons.prems(3) True show ?thesis by (simp add: Free)
    next
      case False
      with Cons.IH [OF Cons.prems(1,2)] Cons.prems(3) show ?thesis by (simp add: Free)
    qed
  qed
qed

end

end
