(* ===== verification/MM_Heap_Props.thy ===== *)
theory MM_Heap_Props
  imports MM_Heap_Resize Alloc_Spec
begin

unbundle bit_operations_syntax

text \<open>
  The properties of the heap allocator. The heap is an instance of the allocator contract
  \<open>block_allocator\<close>; its accounting fields are tied to the chunk list; a small concrete heap
  instantiates every property.
\<close>

section \<open>The heap as a block allocator\<close>

text \<open>The blocks a client holds: each lies in an allocated chunk of its own that is large enough.\<close>

definition mm_repr :: "caller \<Rightarrow> mm_heap \<Rightarrow> (addr \<times> nat) set \<Rightarrow> bool" where
  "mm_repr c h B \<longleftrightarrow> lock_ok c h \<and> (\<exists>ks. mm_wf h ks \<and> inj_on fst B \<and>
     (\<forall>p r. (p, r) \<in> B \<longrightarrow> 16 \<le> p \<and> (\<exists>n. user_block h ks (p - 16) n \<and> r + 16 \<le> n)))"

lemma lock_ok_same_env: "same_env h h' \<Longrightarrow> lock_ok c h \<Longrightarrow> lock_ok c h'"
  by (simp add: lock_ok_def same_env_def)

lemma mm_repr_apart:
  assumes "mm_repr c h B" "x \<in> B" "y \<in> B" "x \<noteq> y"
  shows "apart x y"
proof -
  obtain ks where wf: "mm_wf h ks" and i: "inj_on fst B"
    and B: "\<forall>p r. (p, r) \<in> B \<longrightarrow> 16 \<le> p \<and> (\<exists>n. user_block h ks (p - 16) n \<and> r + 16 \<le> n)"
    using assms(1) unfolding mm_repr_def by blast
  obtain p r q t where xy: "x = (p, r)" "y = (q, t)" by fastforce
  obtain n m where n: "16 \<le> p" "(p - 16, n) \<in> blocks (mm_heapstart h) ks" "r + 16 \<le> n"
    "16 \<le> q" "(q - 16, m) \<in> blocks (mm_heapstart h) ks" "t + 16 \<le> m"
    using B assms xy by blast
  have "p \<noteq> q" using inj_onD [OF i, of x y] assms(2-4) xy by auto
  then have "p - 16 \<noteq> q - 16" using n(1,4) by auto
  from mm_wf_blocks(2) [OF wf n(2,5) this] n(1,3,4,6) have "p + r \<le> q \<or> q + t \<le> p" by arith
  then show ?thesis by (simp add: apart_def xy)
qed

lemma mm_repr_alloc:
  assumes a: "mm_repr c h B" and r: "r + 31 < 2 ^ 32"
  shows "\<exists>p h'. mm_malloc c (of_nat r) h = Some (p, h') \<and>
      (p = NULL \<and> mm_repr c h' B \<or> p \<noteq> NULL \<and> (p, r) \<notin> B \<and> mm_repr c h' (insert (p, r) B))"
proof (cases "r = 0")
  case True
  then show ?thesis using a by (simp add: mm_malloc_def)
next
  case r0: False
  obtain ks where wf: "mm_wf h ks" and lock: "lock_ok c h" and i: "inj_on fst B"
    and B: "\<forall>p r. (p, r) \<in> B \<longrightarrow> 16 \<le> p \<and> (\<exists>n. user_block h ks (p - 16) n \<and> r + 16 \<le> n)"
    using a unfolding mm_repr_def by blast
  have ur: "unat (of_nat r :: u32) = r" using r by (simp add: unat_of_nat)
  have rw: "(0::u32) < of_nat r" "unat (of_nat r :: u32) + 31 < 2 ^ 32"
    using r r0 ur by (simp_all add: word_less_nat_alt)
  from mm_malloc_blocks [OF wf lock rw, unfolded ur] obtain p h' ks' where
    m: "mm_malloc c (of_nat r) h = Some (p, h')" "same_env h h'" "mm_wf h' ks'"
    and z: "p = NULL \<longrightarrow> ks' = ks \<and> (\<forall>m. (m, False) \<in> set ks \<longrightarrow> m < chunk_size r)"
    and nz: "p \<noteq> NULL \<longrightarrow> p \<ge> 16 \<and> p - 16 \<notin> fst ` blocks (mm_heapstart h) ks \<and> user_block h ks' (p - 16) (chunk_size r) \<and>
       blocks (mm_heapstart h) ks' = insert (p - 16, chunk_size r) (blocks (mm_heapstart h) ks)"
    by (elim exE conjE)
  have l': "lock_ok c h'" using lock_ok_same_env [OF m(2) lock] .
  have st: "mm_heapstart h' = mm_heapstart h" "mm_heapend h' = mm_heapend h" using m(2) by (auto simp: same_env_def)
  show ?thesis
  proof (cases "p = NULL")
    case True
    then have "mm_repr c h' B" using m(3) l' i B z st True by (auto simp: mm_repr_def)
    then show ?thesis using m(1) True by blast
  next
    case False
    with nz have p: "p \<ge> 16" "p - 16 \<notin> fst ` blocks (mm_heapstart h) ks" "user_block h ks' (p - 16) (chunk_size r)"
       "blocks (mm_heapstart h) ks' = insert (p - 16, chunk_size r) (blocks (mm_heapstart h) ks)" by blast+
    have fresh: "(p, t) \<notin> B" for t using B p(2) by (metis fst_conv image_eqI)
    have "16 \<le> q \<and> (\<exists>n. user_block h' ks' (q - 16) n \<and> t + 16 \<le> n)" if "(q, t) \<in> insert (p, r) B" for q t
    proof (cases "(q, t) \<in> B")
      case True
      then obtain n where "16 \<le> q" "user_block h ks (q - 16) n" "t + 16 \<le> n" using B by blast
      then show ?thesis using p(4) st by auto
    next
      case False
      then have "q = p" "t = r" using that by auto
      then show ?thesis using p(1,3) st chunk_size_props(2) [of r] by auto
    qed
    moreover have "inj_on fst (insert (p, r) B)" using i fresh by (auto simp: image_iff)
    ultimately have "mm_repr c h' (insert (p, r) B)" using m(3) l' unfolding mm_repr_def by blast
    then show ?thesis using m(1) False fresh by blast
  qed
qed

lemma mm_repr_free:
  assumes a: "mm_repr c h B" and p: "(p, r) \<in> B"
  shows "\<exists>h'. mm_free c p h = Some h' \<and> mm_repr c h' (B - {(p, r)})"
proof -
  obtain ks where wf: "mm_wf h ks" and lock: "lock_ok c h" and i: "inj_on fst B"
    and B: "\<forall>p r. (p, r) \<in> B \<longrightarrow> 16 \<le> p \<and> (\<exists>n. user_block h ks (p - 16) n \<and> r + 16 \<le> n)"
    using a unfolding mm_repr_def by blast
  from B p obtain n where n: "16 \<le> p" "user_block h ks (p - 16) n" by blast
  from mm_free_blocks [OF wf lock n(2,1)] obtain h' ks' where f: "mm_free c p h = Some h'" "same_env h h'" "mm_wf h' ks'"
    "blocks (mm_heapstart h) ks' = blocks (mm_heapstart h) ks - {(p - 16, n)}" by blast
  have st: "mm_heapstart h' = mm_heapstart h" "mm_heapend h' = mm_heapend h" using f(2) by (auto simp: same_env_def)
  have "16 \<le> q \<and> (\<exists>m. user_block h' ks' (q - 16) m \<and> t + 16 \<le> m)" if q: "(q, t) \<in> B - {(p, r)}" for q t
  proof -
    have ne: "q \<noteq> p" using inj_onD [OF i, of "(q, t)" "(p, r)"] q p by auto
    obtain m where m: "16 \<le> q" "user_block h ks (q - 16) m" "t + 16 \<le> m" using B q by blast
    then have "q - 16 \<noteq> p - 16" using ne n(1) by simp
    then show ?thesis using m f(4) st by auto
  qed
  then have "mm_repr c h' (B - {(p, r)})"
    using f(3) lock_ok_same_env [OF f(2) lock] i inj_on_diff unfolding mm_repr_def by blast
  then show ?thesis using f(1) by blast
qed

interpretation mm: block_allocator "mm_repr c" "\<lambda>r. mm_malloc c (of_nat r)" "\<lambda>p _. mm_free c p"
  "\<lambda>r. r + 31 < 2 ^ 32" for c
  by unfold_locales (blast intro: mm_repr_apart mm_repr_alloc mm_repr_free)+


section \<open>Accounting\<close>

text \<open>\<open>total_alloc_size\<close> counts the allocated chunks other than the two guards.\<close>

definition heapinfo_ok :: "mm_heap \<Rightarrow> chunk list \<Rightarrow> bool" where
  "heapinfo_ok h ks \<longleftrightarrow> total_alloc_size h = int (used ks) - 32"

lemma total_unchanged [simp]:
  "total_alloc_size (heapinfo_add_size i n h) = total_alloc_size h"
  "total_alloc_size (heapinfo_subtract_size i n h) = total_alloc_size h"
  "total_alloc_size (heapinfo_update_node c r x h) = total_alloc_size h"
  by (simp_all add: heapinfo_add_size_def heapinfo_subtract_size_def heapinfo_update_node_def Let_def split: option.split)

lemma csize_unchanged [simp]:
  "csize (heapinfo_add_size i n h) = csize h"
  "csize (heapinfo_subtract_size i n h) = csize h"
  "csize (heapinfo_update_node c r x h) = csize h"
  "csize (heapinfo_update_total_size v h) = csize h"
  "csize (heapinfo_charge c x h) = csize h"
  by (simp_all add: heapinfo_charge_def heapinfo_add_size_def heapinfo_subtract_size_def heapinfo_update_node_def
      heapinfo_update_total_size_def Let_def split: option.split)

lemma total_charge [simp]:
  "total_alloc_size (heapinfo_charge c x h) = total_alloc_size h + int (csize h x)"
  "total_alloc_size (heapinfo_credit x h) = total_alloc_size h - int (csize h x)"
  by (simp_all add: heapinfo_charge_def heapinfo_credit_def heapinfo_update_total_size_def Let_def)

lemma total_steps:
  "mm_unlink x h = Some h' \<Longrightarrow> total_alloc_size h' = total_alloc_size h"
  "mm_addfreechunk x h = Some h' \<Longrightarrow> total_alloc_size h' = total_alloc_size h"
  "mm_malloc_split s x h = Some h' \<Longrightarrow> total_alloc_size h' = total_alloc_size h"
  "mm_takesemaphore c h = Some h' \<Longrightarrow> total_alloc_size h' = total_alloc_size h"
  "mm_givesemaphore i h = Some h' \<Longrightarrow> total_alloc_size h' = total_alloc_size h \<and> csize h' = csize h"
proof -
  show u: "mm_unlink x h = Some h' \<Longrightarrow> total_alloc_size h' = total_alloc_size h" for x h h'
    by (auto simp: mm_unlink_def debugassert_def Let_def split: bind_splits if_splits)
  show a: "mm_addfreechunk x h = Some h' \<Longrightarrow> total_alloc_size h' = total_alloc_size h" for x h h'
    by (auto simp: mm_addfreechunk_def Let_def split: bind_splits if_splits)
  show "mm_malloc_split s x h = Some h' \<Longrightarrow> total_alloc_size h' = total_alloc_size h"
    by (auto simp: mm_malloc_split_def Let_def dest!: a split: if_splits)
  show "mm_takesemaphore c h = Some h' \<Longrightarrow> total_alloc_size h' = total_alloc_size h"
    by (auto simp: mm_takesemaphore_def debugassert_def Let_def split: if_splits bind_splits)
  show "mm_givesemaphore i h = Some h' \<Longrightarrow> total_alloc_size h' = total_alloc_size h \<and> csize h' = csize h"
    by (auto simp: mm_givesemaphore_def debugassert_def split: bind_splits if_splits)
qed

lemma mm_malloc_total:
  assumes "mm_malloc c req h = Some (p, h')"
  shows "total_alloc_size h' = total_alloc_size h + (if p = NULL then 0 else int (csize h' (p - 16)))"
  using assms
  by (auto simp: mm_malloc_def mm_malloc_take_def SIZEOF_MM_ALLOCNODE_def Let_def
      split: bind_splits if_splits dest!: total_steps)

lemma merge_total:
  "mm_free_merge_next x h = Some (y, h') \<Longrightarrow> total_alloc_size h' = total_alloc_size h"
  "mm_free_merge_prev x y h = Some (z, h') \<Longrightarrow> total_alloc_size h' = total_alloc_size h"
  by (auto simp: mm_free_merge_next_def mm_free_merge_prev_def Let_def split: bind_splits if_splits dest!: total_steps(1))

lemma mm_free_total:
  assumes "mm_free c p h = Some h'" "p \<noteq> NULL" "is_alloc (preceding h (p - 16))"
  shows "total_alloc_size h' = total_alloc_size h - int (csize h (p - 16))"
proof -
  obtain h1 where t: "mm_takesemaphore c h = Some h1" using assms(1,2)
    by (auto simp: mm_free_def split: bind_splits)
  have e: "preceding h1 = preceding h" "csize h1 = csize h" "total_alloc_size h1 = total_alloc_size h"
    using t by (auto simp: mm_takesemaphore_def debugassert_def Let_def split: if_splits bind_splits)
  show ?thesis
    using assms t e
    by (auto simp: mm_free_def SIZEOF_MM_ALLOCNODE_def Let_def split: bind_splits
        dest!: total_steps(2,5) merge_total)
qed

lemma used_append [simp]: "used (us @ vs) = used us + used vs"
  by (simp add: used_def)

lemma used_Cons [simp]: "used ((n, b) # ks) = (if b then n else 0) + used ks" "used [] = 0"
  by (simp_all add: used_def)

lemma used_release: "used (release us n vs) = used us + used vs"
proof -
  have "used (snd (join_next n vs)) = used vs" by (cases "(n, vs)" rule: join_next.cases) auto
  moreover have "used (fst (join_prev us m)) = used us" for m
    by (cases us rule: rev_cases) (auto simp: join_prev_def split: if_splits)
  ultimately show ?thesis by (simp add: release_def case_prod_unfold Let_def)
qed

section \<open>A small heap\<close>

text \<open>A heap of 4096 bytes at \<open>0x1000\<close>, used to instantiate the properties below: \<open>demo0\<close> right
  after \<open>mm_initialize\<close>, \<open>demo1\<close> after one \<open>mm_malloc\<close> of 100 bytes.\<close>

definition demo_caller :: caller where
  "demo_caller = \<lparr>getpid = 3, up_interrupt_context = False, caller_retaddr = 0\<rparr>"

definition demo_blank :: mm_heap where
  "demo_blank = \<lparr>flink = (\<lambda>_. 0), blink = (\<lambda>_. 0), csize = (\<lambda>_. 0), preceding = (\<lambda>_. 0),
     alloc_call_addr = (\<lambda>_. 0), node_pid = (\<lambda>_. 0), payload = (\<lambda>_. 0), mm_heapsize = 0, mm_heapstart = 0,
     mm_heapend = 0, mm_nodelist = 16, mm_semaphore = 0, mm_holder = 0, mm_counts_held = 0,
     total_alloc_size = 0, peak_alloc_size = 0, tcb_info = Map.empty\<rparr>"

definition demo0 :: mm_heap where
  "demo0 = the (mm_initialize demo_caller 0x1000 0x1000 demo_blank)"

definition demo_ks0 :: "chunk list" where
  "demo_ks0 = [(16, True), (4064, False), (16, True)]"

definition demo1 :: mm_heap where
  "demo1 = snd (the (mm_malloc demo_caller 100 demo0))"

definition demo_ks1 :: "chunk list" where
  "demo_ks1 = [(16, True), (128, True), (3936, False), (16, True)]"

lemma demo0:
  "mm_initialize demo_caller 0x1000 0x1000 demo_blank = Some demo0" "mm_wf demo0 demo_ks0"
  "mm_heapstart demo0 = 4096" "mm_heapsize demo0 = 4096" "mm_heapend demo0 = 8176" "lock_ok demo_caller demo0"
  "mm_nodelist demo0 = 16" "total_alloc_size demo0 = 0"
proof -
  have "\<forall>s \<in> sents (mm_nodelist demo_blank). s < 4096 \<or> 8192 \<le> s"
    by (auto simp: sents_def demo_blank_def mm_consts)
  then have "\<exists>h'. mm_initialize demo_caller 0x1000 0x1000 demo_blank = Some h' \<and>
    mm_wf h' demo_ks0 \<and> mm_heapstart h' = 4096 \<and> mm_heapsize h' = 4096 \<and>
    mm_nodelist h' = 16 \<and> total_alloc_size h' = 0 \<and> (\<forall>c'. getpid c' \<noteq> -1 \<and> \<not> up_interrupt_context c' \<longrightarrow> lock_ok c' h')"
    using mm_initialize_wf [of demo_blank 4096 "0x1000" 8192 "0x1000" demo_caller]
    by (simp add: demo_ks0_def demo_blank_def)
  then show i: "mm_initialize demo_caller 0x1000 0x1000 demo_blank = Some demo0" "mm_wf demo0 demo_ks0"
    "mm_heapstart demo0 = 4096" "mm_heapsize demo0 = 4096" and "lock_ok demo_caller demo0"
    "mm_nodelist demo0 = 16" "total_alloc_size demo0 = 0"
    by (auto simp: demo0_def demo_caller_def)
  show "mm_heapend demo0 = 8176" using i(2,3) by (simp add: mm_wf_def mm_part_def region_ok_def demo_ks0_def)
qed

lemma demo1:
  "mm_malloc demo_caller 100 demo0 = Some (4128, demo1)" "mm_wf demo1 demo_ks1" "same_env demo0 demo1"
proof -
  obtain p h' where m: "mm_malloc demo_caller 100 demo0 = Some (p, h')" "same_env demo0 h'"
    and z: "p = NULL \<longrightarrow> mm_wf h' demo_ks0 \<and> (\<forall>m. (m, False) \<in> set demo_ks0 \<longrightarrow> m < 128)"
    and nz: "p \<noteq> NULL \<longrightarrow> (\<exists>us n vs. demo_ks0 = us @ (n, False) # vs \<and> p = 4096 + extent us + 16 \<and>
       128 \<le> n \<and> (\<forall>m. (m, False) \<in> set demo_ks0 \<longrightarrow> 128 \<le> m \<longrightarrow> n \<le> m) \<and> mm_wf h' (us @ taken 128 n @ vs))"
  proof -
    have "chunk_size (unat (100::u32)) = 128" by (simp add: chunk_size_def)
    with mm_malloc_cases [OF demo0(2,6), of 100, unfolded demo0(3)] that show ?thesis by (simp, elim exE conjE)
  qed
  have "p \<noteq> NULL" using z by (auto simp: demo_ks0_def)
  with nz obtain us n vs where u: "demo_ks0 = us @ (n, False) # vs" "p = 4096 + extent us + 16"
    "mm_wf h' (us @ taken 128 n @ vs)" by blast
  then have "us = [(16, True)] \<and> n = 4064 \<and> vs = [(16, True)]"
    by (auto simp: demo_ks0_def Cons_eq_append_conv)
  then show "mm_malloc demo_caller 100 demo0 = Some (4128, demo1)" "mm_wf demo1 demo_ks1" "same_env demo0 demo1"
    using u m by (auto simp: demo1_def demo_ks1_def taken_def)
qed

lemma demo1_more: "mm_heapstart demo1 = 4096" "mm_heapend demo1 = 8176" "mm_heapsize demo1 = 4096"
  "lock_ok demo_caller demo1" "user_block demo1 demo_ks1 4112 128"
  using demo1(3) demo0 lock_ok_same_env by (auto simp: same_env_def demo_ks1_def)

section \<open>Properties\<close>

text \<open>(C14) \<open>mm_malloc\<close> of a non-zero request that does not wrap returns on a well-formed heap and keeps
  it well-formed. It returns NULL only when no free chunk is large enough; otherwise the best-fitting
  free chunk is split and the rest stays free.\<close>

theorem mm_malloc_correct:
  assumes "mm_wf h ks" "lock_ok c h" "0 < req" "unat req + 31 < 2 ^ 32"
  shows "\<exists>p h'. mm_malloc c req h = Some (p, h') \<and> same_env h h' \<and>
    (p = NULL \<longrightarrow> mm_wf h' ks \<and> (\<forall>m. (m, False) \<in> set ks \<longrightarrow> m < chunk_size (unat req))) \<and>
    (p \<noteq> NULL \<longrightarrow> (\<exists>us n vs. ks = us @ (n, False) # vs \<and> p = mm_heapstart h + extent us + 16 \<and>
       chunk_size (unat req) \<le> n \<and>
       (\<forall>m. (m, False) \<in> set ks \<longrightarrow> chunk_size (unat req) \<le> m \<longrightarrow> n \<le> m) \<and>
       mm_wf h' (us @ taken (chunk_size (unat req)) n @ vs)))"
  using assms by (rule mm_malloc_cases)

theorem mm_malloc_correct_witness:
  "\<exists>p h'. mm_malloc demo_caller 100 demo0 = Some (p, h') \<and> same_env demo0 h'"
  using mm_malloc_correct [OF demo0(2,6), of 100] by auto

text \<open>(C15) \<open>mm_free\<close> of an allocated block returns, keeps the heap well-formed, and joins the released
  chunk with a free successor and a free predecessor, so that no two free chunks are adjacent. The
  data bytes and the other blocks stay.\<close>

theorem mm_free_correct:
  assumes "mm_wf h (us @ (n, True) # vs)" "lock_ok c h" "us \<noteq> []" "vs \<noteq> []"
    "mem = mm_heapstart h + extent us + 16"
  shows "\<exists>h'. mm_free c mem h = Some h' \<and> same_env h h' \<and> mm_wf h' (release us n vs) \<and>
    blocks (mm_heapstart h) (release us n vs) =
      blocks (mm_heapstart h) (us @ (n, True) # vs) - {(mem - 16, n)}"
proof -
  have "layout (csize h) (preceding h) (mm_heapstart h) 0 (us @ (n, True) # vs)"
    using assms(1) by (simp add: mm_wf_def mm_part_def)
  then show ?thesis
    using mm_free_release [OF assms] blocks_release blocks_remove assms(5) by simp
qed

theorem mm_free_correct_witness:
  "\<exists>h'. mm_free demo_caller 4128 demo1 = Some h' \<and> mm_wf h' demo_ks0"
proof -
  have "mm_wf demo1 ([(16, True)] @ (128, True) # [(3936, False), (16, True)])"
    using demo1(2) by (simp add: demo_ks1_def)
  from mm_free_correct [OF this demo1_more(4), of 4128] demo1_more(1) show ?thesis
    by (auto simp: release_def join_prev_def demo_ks0_def)
qed

text \<open>(C1) A client that issues any sequence of \<open>mm_malloc\<close> and \<open>mm_free\<close> calls on a well-formed heap is
  never stuck, and the blocks it holds never overlap. The requests are the sizes that, with the header and rounded
  up to the granule, fit in 32 bits: at most \<open>2 ^ 32 - 32\<close> bytes. Larger requests wrap (\<open>mm_malloc_wraps\<close>).\<close>

theorem mm_client_safe:
  assumes "mm_wf h ks" "lock_ok c h" "\<forall>r. Alloc r \<in> set reqs \<longrightarrow> r \<le> 2 ^ 32 - 32"
  shows "\<exists>h' held. run_client (\<lambda>r. mm_malloc c (of_nat r)) (\<lambda>p _. mm_free c p) reqs h [] = Some (h', held) \<and>
    mm_repr c h' (set held) \<and> distinct held \<and>
    (\<forall>x \<in> set held. \<forall>y \<in> set held. x \<noteq> y \<longrightarrow> apart x y)"
proof -
  have "mm_repr c h (set [])" using assms(1,2) by (auto simp: mm_repr_def)
  moreover have "\<forall>r. Alloc r \<in> set reqs \<longrightarrow> r + 31 < 2 ^ 32" using assms(3) by fastforce
  ultimately show ?thesis using mm.client_safe [of c h "[]" reqs] by simp
qed

theorem mm_client_safe_witness:
  "\<exists>h' held. run_client (\<lambda>r. mm_malloc demo_caller (of_nat r)) (\<lambda>p _. mm_free demo_caller p)
     [Alloc 100, Alloc 40, Free 1, Alloc 2000, Free 0] demo0 [] = Some (h', held) \<and> distinct held"
  using mm_client_safe [OF demo0(2,6), of "[Alloc 100, Alloc 40, Free 1, Alloc 2000, Free 0]"] by auto

text \<open>(C16) \<open>mm_realloc\<close> of an allocated block to a non-zero size returns on every path: shrinking, growing into the
  free neighbours, and moving. The size is at most \<open>2 ^ 32 - 48\<close> bytes, so that neither the size with the header nor
  the size that the moving path passes on to \<open>mm_malloc\<close>, which adds the header again, wraps in 32 bits; \<open>mm_realloc_wraps\<close>
  shows what happens above. When it fails the heap is as before;
  when it succeeds the old block is replaced by one that holds the request, the data is kept up to the
  smaller of the two sizes, and no byte outside the new block changes.\<close>

theorem mm_realloc_correct:
  assumes "mm_wf h ks" "lock_ok c h" "user_block h ks (mem - 16) n" "16 \<le> mem"
    "0 < req" "unat req + 47 < 2 ^ 32"
  shows "\<exists>p h' ks'. mm_realloc c mem req h = Some (p, h') \<and> mm_wf h' ks' \<and>
    same_env (h\<lparr>payload := payload h'\<rparr>) h' \<and>
    (p = NULL \<longrightarrow> ks' = ks \<and> payload h' = payload h) \<and>
    (p \<noteq> NULL \<longrightarrow> (\<exists>n'. chunk_size (unat req) \<le> n' \<and> moved_to h ks mem n p n' h' ks'))"
  using assms by (rule mm_realloc_blocks)

theorem mm_realloc_correct_witness:
  "\<exists>p h' ks'. mm_realloc demo_caller 4128 300 demo1 = Some (p, h') \<and> mm_wf h' ks'"
  using mm_realloc_correct [OF demo1(2) demo1_more(4), of 4128 128 300] demo1_more(5) by auto

text \<open>(C24) \<open>mm_memalign\<close> with a power-of-two alignment above 16 returns NULL or an address
  with that alignment; the block has exactly the rounded size, and the space before and after it is
  free again. The request is such that the rounded size, twice the alignment and the header together fit in 32 bits;
  the code does not check this sum.\<close>

theorem mm_memalign_correct:
  assumes "mm_wf h ks" "lock_ok c h" "4 < k" "sz = (unat req + 15) div 16 * 16" "sz + 2 * 2 ^ k + 31 < 2 ^ 32"
  shows "\<exists>p h' ks'. mm_memalign c (2 ^ k) req h = Some (p, h') \<and> same_env h h' \<and> mm_wf h' ks' \<and>
    (p = NULL \<longrightarrow> ks' = ks) \<and>
    (p \<noteq> NULL \<longrightarrow> 16 \<le> p \<and> 2 ^ k dvd p \<and>
       blocks (mm_heapstart h) ks' = insert (p - 16, sz + 16) (blocks (mm_heapstart h) ks))"
  using assms by (rule mm_memalign_blocks)

theorem mm_memalign_correct_witness:
  "\<exists>p h' ks'. mm_memalign demo_caller (2 ^ 6) 100 demo0 = Some (p, h') \<and> mm_wf h' ks'"
  using mm_memalign_correct [OF demo0(2,6), of 6 112 100] by auto

text \<open>(C34) \<open>mm_initialize\<close> sets up a well-formed heap of one free chunk between two guards, whatever the
  memory held before, with the semaphore free.\<close>

theorem mm_initialize_correct:
  assumes "mm_nodelist h \<noteq> NULL" "b = (unat st + 15) div 16 * 16" "e = (unat st + unat sz) div 16 * 16"
    "unat st + unat sz < 2 ^ 32" "b + 48 \<le> e" "e - b < 2 ^ 31" "st \<noteq> 0"
    "\<forall>s \<in> sents (mm_nodelist h). s < b \<or> e \<le> s"
  shows "\<exists>h'. mm_initialize c st sz h = Some h' \<and>
    mm_wf h' [(16, True), (e - b - 32, False), (16, True)] \<and> mm_heapstart h' = b \<and> mm_heapsize h' = e - b \<and>
    (\<forall>c'. getpid c' \<noteq> -1 \<and> \<not> up_interrupt_context c' \<longrightarrow> lock_ok c' h')"
  using mm_initialize_wf [OF assms] by blast

theorem mm_initialize_correct_witness:
  "\<exists>h'. mm_initialize demo_caller 0x1004 0x1000 demo_blank = Some h' \<and>
    mm_wf h' [(16, True), (4048, False), (16, True)]"
proof -
  have "\<forall>s \<in> sents (mm_nodelist demo_blank). s < 4112 \<or> 8192 \<le> s"
    by (auto simp: sents_def demo_blank_def mm_consts)
  then show ?thesis
    using mm_initialize_correct [of demo_blank 4112 "0x1004" 8192 "0x1000" demo_caller]
    by (auto simp: demo_blank_def)
qed

text \<open>\<open>mm_mallinfo\<close> reports the chunks of the heap: their total, the number, sum and maximum of the
  free ones and the sum of the allocated ones, and leaves the heap unchanged.\<close>

lemma mm_mallinfo_correct:
  assumes "mm_wf h ks" "lock_ok c h" "mm_heapsize h = extent ks"
  shows "mm_mallinfo c h =
    Some (\<lparr>arena = extent ks, ordblks = length (unused ks), mxordblk = fold max (unused ks) 0,
       uordblks = used ks, fordblks = sum_list (unused ks)\<rparr>, h)"
  using mm_mallinfo_eq [OF assms(1,2)] assms(3) by simp

lemma mm_mallinfo_correct_witness:
  "mm_mallinfo demo_caller demo1 =
    Some (\<lparr>arena = 4096, ordblks = 1, mxordblk = 3936, uordblks = 160, fordblks = 3936\<rparr>, demo1)"
  using mm_mallinfo_correct [OF demo1(2) demo1_more(4)] demo1_more(3)
  by (simp add: demo_ks1_def unused_def)

text \<open>(C35) \<open>mm_extend\<close> with adjacent memory keeps the heap well-formed and turns the old tail guard and
  the new memory into free space.\<close>

theorem mm_extend_correct:
  assumes "mm_wf h (us @ [(16, True)])" "lock_ok c h" "us \<noteq> []"
    "unat mem = mm_heapend h + 16" "32 \<le> unat sz" "16 dvd unat sz"
    "unat mem + unat sz < 2 ^ 32" "extent us + unat sz + 16 < 2 ^ 31"
    "\<forall>s \<in> sents (mm_nodelist h). s < unat mem \<or> unat mem + unat sz \<le> s"
  shows "\<exists>h'. mm_extend c mem sz 0 h = Some h' \<and> mm_wf h' (release us (unat sz) [(16, True)])"
  using mm_extend_release [OF assms] by blast

lemma demo0_outside: "\<forall>s \<in> sents (mm_nodelist demo0). s < 8192 \<or> 8192 + 64 \<le> s"
  by (auto simp: sents_def demo0 mm_consts)

theorem mm_extend_correct_witness:
  "\<exists>h'. mm_extend demo_caller 8192 64 0 demo0 = Some h' \<and> mm_wf h' [(16, True), (4128, False), (16, True)]"
proof -
  have "mm_wf demo0 ([(16, True), (4064, False)] @ [(16, True)])" using demo0(2) by (simp add: demo_ks0_def)
  from mm_extend_correct [OF this demo0(6), of 8192 64] demo0_outside show ?thesis
    by (simp add: demo0 release_def join_prev_def)
qed

text \<open>After \<open>mm_extend\<close> the recorded heap size is stale: a following \<open>mm_mallinfo\<close> does not return,
  because its assertion that used and free space add up to \<open>mm_heapsize\<close> fails.\<close>

lemma mm_extend_mallinfo_stuck:
  assumes "mm_wf h (us @ [(16, True)])" "lock_ok c h" "us \<noteq> []" "mm_heapsize h = extent us + 16"
    "unat mem = mm_heapend h + 16" "32 \<le> unat sz" "16 dvd unat sz"
    "unat mem + unat sz < 2 ^ 32" "extent us + unat sz + 16 < 2 ^ 31"
    "\<forall>s \<in> sents (mm_nodelist h). s < unat mem \<or> unat mem + unat sz \<le> s"
  shows "\<exists>h'. mm_extend c mem sz 0 h = Some h' \<and> mm_mallinfo c h' = None"
proof -
  obtain h' where x: "mm_extend c mem sz 0 h = Some h'" "mm_wf h' (release us (unat sz) [(16, True)])"
    "same_env (extended (unat sz) h) h'"
    using mm_extend_release [OF assms(1-3,5-10)] by blast
  have l: "lock_ok c h'" using assms(2) x(3) by (simp add: lock_ok_def same_env_def extended_def Let_def)
  have "mm_heapsize h' = mm_heapsize h" using x(3) by (simp add: same_env_def extended_def Let_def)
  moreover have "mm_heapstart h' = mm_heapstart h" "mm_heapend h' = mm_heapend h + unat sz"
    using x(3) by (simp_all add: same_env_def extended_def Let_def)
  then have "extent (release us (unat sz) [(16, True)]) = extent us + 16 + unat sz"
    using x(2) assms(1) by (simp add: mm_wf_def mm_part_def region_ok_def)
  ultimately have "mm_mallinfo c h' = None"
    using mm_mallinfo_eq [OF x(2) l] assms(4,6) by simp
  with x(1) show ?thesis by blast
qed

lemma mm_extend_mallinfo_stuck_witness:
  "\<exists>h'. mm_extend demo_caller 8192 64 0 demo0 = Some h' \<and> mm_mallinfo demo_caller h' = None"
proof -
  have "mm_wf demo0 ([(16, True), (4064, False)] @ [(16, True)])" using demo0(2) by (simp add: demo_ks0_def)
  from mm_extend_mallinfo_stuck [OF this demo0(6), of 8192 64] demo0_outside show ?thesis by (simp add: demo0)
qed

text \<open>(C36) \<open>mm_malloc\<close> does not refuse a request in the last 15 values of the 32-bit range: as long as any chunk is
  free, it hands out a block for it whose chunk is all header, with no room for a single byte.\<close>

theorem mm_malloc_wraps:
  assumes "mm_wf h ks" "lock_ok c h" "2 ^ 32 - 16 < unat req" "(m, False) \<in> set ks"
  shows "\<exists>p h' ks'. mm_malloc c req h = Some (p, h') \<and> p \<noteq> NULL \<and> mm_wf h' ks' \<and> user_block h ks' (p - 16) 16"
proof -
  have "0 < req" using assms(3) by (simp add: word_less_nat_alt)
  from mm_malloc_blocks_sz [OF assms(1,2) this wrapped_request [OF assms(3), symmetric]] obtain p h' ks' where
    p: "mm_malloc c req h = Some (p, h')" "mm_wf h' ks'" "p = NULL \<longrightarrow> (\<forall>m. (m, False) \<in> set ks \<longrightarrow> m < 16)"
    "p \<noteq> NULL \<longrightarrow> user_block h ks' (p - 16) 16" by auto
  obtain us vs where "ks = us @ (m, False) # vs" using assms(4) by (meson split_list)
  then have "16 \<le> m" using assms(1) mm_part_chunk(5) [of h us m False vs "{}"] by (simp add: mm_wf_def)
  then have "p \<noteq> NULL" using p(3) assms(4) by force
  then show ?thesis using p by blast
qed

theorem mm_malloc_wraps_witness:
  "\<exists>p h' ks'. mm_malloc demo_caller 0xFFFFFFF5 demo0 = Some (p, h') \<and> p \<noteq> NULL \<and> user_block demo0 ks' (p - 16) 16"
  using mm_malloc_wraps [OF demo0(2,6), of "0xFFFFFFF5" 4064] by (auto simp: demo_ks0_def)

text \<open>A request in the 16 values below those wraps to size zero. Then the search stops at its first node, and without a
  free chunk of 16 bytes that is the second sentinel of the free list: \<open>mm_malloc\<close> takes it out of the list and returns
  an address within \<open>mm_nodelist\<close>.\<close>

lemma mm_malloc_sentinel:
  assumes wf: "mm_wf h ks" and lock: "lock_ok c h" and req: "2 ^ 32 - 32 < unat req" "unat req \<le> 2 ^ 32 - 16"
    and free: "(16, False) \<notin> set ks"
  shows "\<exists>h'. mm_malloc c req h = Some (nodelist h 2, h')"
proof -
  obtain s k where take: "mm_takesemaphore c h = Some (with_lock s (getpid c) k h)"
    and give: "\<And>h'. \<lbrakk>mm_holder h' = getpid c; mm_counts_held h' = k; mm_semaphore h' = s\<rbrakk> \<Longrightarrow>
      mm_givesemaphore (getpid c) h' = Some (with_lock (mm_semaphore h) (mm_holder h) (mm_counts_held h) h')"
    using take_give_fields [OF lock] by metis
  obtain bk where bk: "freelist h bk (set (frees (mm_heapstart h) ks))" and p: "mm_part h ks {}"
    using wf by (auto simp: mm_wf_def mm_part_def)
  have "bk 0 = []"
  proof (rule ccontr)
    assume "bk 0 \<noteq> []"
    then obtain x where x: "x \<in> set (bk 0)" using last_in_set by blast
    have b: "bucket_ok (csize h) 0 (bk 0)" "x \<in> set (frees (mm_heapstart h) ks)"
      using bk x by (auto simp: freelist_def mm_consts)
    have "16 \<le> csize h x" and "mm_size2ndx (csize h x) = 0" using b(1) x by (auto simp: bucket_ok_def)
    moreover have "0 < csize h x div 16" using \<open>16 \<le> csize h x\<close> by simp
    ultimately have "csize h x < 32" using size2ndx_loop_floor [of "csize h x div 16"]
      by (auto simp: mm_size2ndx_def mm_consts drop_bit_eq_div split: if_splits)
    moreover obtain us n vs where k: "ks = us @ (n, False) # vs" "x = mm_heapstart h + extent us" using frees_split [OF b(2)] by blast
    moreover have "csize h x = n" "16 dvd n" using mm_part_chunk(6,7) [OF p [unfolded k(1)]] k(2) by simp_all
    ultimately have "n = 16" using \<open>16 \<le> csize h x\<close> by (auto elim!: dvdE)
    then show False using free k(1) by simp
  qed
  moreover have "flat_range nl bk [Suc 0..<MM_NNODES] = (nl + 16) # bk 1 @ flat_range nl bk [2..<MM_NNODES]" for nl
    by (simp add: flat_range_def upt_conv_Cons mm_consts numeral_2_eq_2)
  ultimately have "flat (mm_nodelist h) bk = nodelist h 0 # nodelist h 1 # bk 1 @ flat_range (mm_nodelist h) bk [2..<MM_NNODES]"
    using flat_split [of 0 "mm_nodelist h" bk] by (simp add: nodelist_eq mm_consts flat_range_def)
  moreover have "nodelist h 1 \<in> sents (mm_nodelist h)" by (auto simp: sents_def nodelist_eq mm_consts intro: image_eqI [of _ _ 1])
  ultimately have l: "flink h (nodelist h 0) = nodelist h 1" "blink h (nodelist h 1) = nodelist h 0" "nodelist h 0 \<noteq> NULL" "nodelist h 1 \<noteq> NULL"
    "csize h (nodelist h 1) = 0"
    using bk by (auto simp: freelist_def)
  have "mm_size2ndx 0 = 0" by (simp add: mm_size2ndx_def mm_consts size2ndx_loop.simps)
  moreover have "find_fit (csize h) (flink h) 0 (nodelist h 1) = Some (nodelist h 1)" by (simp add: find_fit.simps)
  moreover have "\<not> req < 1" using req(1) by (simp add: word_less_nat_alt)
  moreover have "mm_holder (heapinfo_charge c x h') = mm_holder h'" "mm_counts_held (heapinfo_charge c x h') = mm_counts_held h'"
    "mm_semaphore (heapinfo_charge c x h') = mm_semaphore h'" for x h'
    using heapinfo_same_headers(1) [of h' c x] by (simp_all add: same_headers_def same_env_def)
  moreover have "MM_ALIGN_UP (req + 16) = 0" using zero_request [OF req] by (simp add: SIZEOF_MM_ALLOCNODE_def)
  ultimately show ?thesis
    using l take give by (simp add: mm_malloc_def Let_def mm_malloc_take_def mm_unlink_def mm_malloc_split_def
        debugassert_def nodelist_def mm_consts)
qed

text \<open>\<open>mm_calloc\<close> whose product does not wrap returns NULL or a block of that many zero bytes.\<close>

lemma mm_calloc_zeroes:
  assumes "mm_wf h ks" "lock_ok c h" "0 < n" "0 < esz" "unat n * unat esz + 31 < 2 ^ 32"
  shows "\<exists>p h' ks'. mm_calloc c n esz h = Some (p, h') \<and> mm_wf h' ks' \<and>
    (p \<noteq> NULL \<longrightarrow> (\<forall>i < unat n * unat esz. payload h' (p + i) = 0) \<and>
       (p - 16, chunk_size (unat n * unat esz)) \<in> blocks (mm_heapstart h') ks')"
proof -
  have u: "unat (n * esz) = unat n * unat esz" using assms(5) by (simp add: unat_word_ariths)
  have r: "0 < n * esz" "unat (n * esz) + 31 < 2 ^ 32"
    using assms(3-5) u by (simp_all add: word_less_nat_alt)
  from mm_malloc_blocks [OF assms(1,2) r] obtain p h' ks' where
    m: "mm_malloc c (n * esz) h = Some (p, h')" "same_env h h'" "mm_wf h' ks'"
    and b: "p \<noteq> NULL \<longrightarrow> (p - 16, chunk_size (unat n * unat esz)) \<in> blocks (mm_heapstart h) ks'"
    unfolding u by blast
  show ?thesis
  proof (cases "p = NULL")
    case True
    then show ?thesis using m assms(3,4) by (auto simp: mm_calloc_def mm_zalloc_def)
  next
    case False
    then show ?thesis using m b assms(3,4) u
      by (auto simp: mm_calloc_def mm_zalloc_def memset_payload_def same_env_def)
  qed
qed

lemma mm_calloc_zeroes_witness:
  "\<exists>p h' ks'. mm_calloc demo_caller 10 8 demo0 = Some (p, h') \<and> mm_wf h' ks' \<and>
    (p \<noteq> NULL \<longrightarrow> (\<forall>i < 80. payload h' (p + i) = 0))"
  using mm_calloc_zeroes [OF demo0(2,6), of 10 8] by auto

text \<open>\<open>mm_malloc\<close> keeps the heap accounting right: \<open>total_alloc_size\<close> stays the sum of the
  allocated chunks.\<close>

lemma mm_malloc_accounts:
  assumes "mm_wf h ks" "lock_ok c h" "heapinfo_ok h ks" "0 < req" "unat req + 31 < 2 ^ 32"
  shows "\<exists>p h' ks'. mm_malloc c req h = Some (p, h') \<and> mm_wf h' ks' \<and> heapinfo_ok h' ks'"
proof -
  let ?s = "chunk_size (unat req)"
  from mm_malloc_cases [OF assms(1,2,4,5)] obtain p h' where
    m: "mm_malloc c req h = Some (p, h')" "same_env h h'"
    and z: "p = NULL \<longrightarrow> mm_wf h' ks \<and> (\<forall>m. (m, False) \<in> set ks \<longrightarrow> m < ?s)"
    and nz: "p \<noteq> NULL \<longrightarrow> (\<exists>us n vs. ks = us @ (n, False) # vs \<and> p = mm_heapstart h + extent us + 16 \<and>
       ?s \<le> n \<and> (\<forall>m. (m, False) \<in> set ks \<longrightarrow> ?s \<le> m \<longrightarrow> n \<le> m) \<and> mm_wf h' (us @ taken ?s n @ vs))"
    by (elim exE conjE)
  note tot = mm_malloc_total [OF m(1)]
  show ?thesis
  proof (cases "p = NULL")
    case True
    then show ?thesis using m(1) z tot assms(3) by (auto simp: heapinfo_ok_def)
  next
    case False
    then obtain us n vs where k: "ks = us @ (n, False) # vs" "p = mm_heapstart h + extent us + 16" "?s \<le> n"
      "mm_wf h' (us @ taken ?s n @ vs)" using nz by blast
    have n16: "16 dvd n" using assms(1) k(1) mm_part_chunk(6) [of h us n False vs "{}"] by (simp add: mm_wf_def)
    have t: "taken ?s n = (?s, True) # (if n = ?s then [] else [(n - ?s, False)])"
      using taken_exact [OF n16 chunk_size_props(1) k(3)] .
    have "csize h' (p - 16) = ?s"
      using mm_wf_blocks(3) [OF k(4)] m(2) k(2) by (simp add: t same_env_def)
    then have "heapinfo_ok h' (us @ taken ?s n @ vs)"
      using tot assms(3) k(1) False by (simp add: heapinfo_ok_def t)
    then show ?thesis using m(1) k(4) by blast
  qed
qed

lemma mm_malloc_accounts_witness:
  "\<exists>p h' ks'. mm_malloc demo_caller 100 demo0 = Some (p, h') \<and> mm_wf h' ks' \<and> heapinfo_ok h' ks'"
  using mm_malloc_accounts [OF demo0(2,6), of 100] by (simp add: heapinfo_ok_def demo0 demo_ks0_def)

text \<open>\<open>mm_free\<close> of an allocated block keeps the heap accounting right.\<close>

lemma mm_free_accounts:
  assumes "mm_wf h ks" "lock_ok c h" "heapinfo_ok h ks" "user_block h ks (mem - 16) n" "16 \<le> mem"
  shows "\<exists>h' ks'. mm_free c mem h = Some h' \<and> mm_wf h' ks' \<and> heapinfo_ok h' ks'"
proof -
  obtain us vs where ks: "ks = us @ (n, True) # vs" and m: "mem - 16 = mm_heapstart h + extent us"
    and ne: "us \<noteq> []" "vs \<noteq> []" using user_block_split [OF assms(1,4)] .
  have p: "mm_part h (us @ (n, True) # vs) {}" using assms(1) ks by (simp add: mm_wf_def)
  have mem: "mem = mm_heapstart h + extent us + 16" using m assms(5) by simp
  obtain h' where f: "mm_free c mem h = Some h'" "mm_wf h' (release us n vs)"
    using mm_free_release [OF assms(1) [unfolded ks] assms(2) ne mem] by blast
  have "is_alloc (preceding h (mem - 16))" "csize h (mem - 16) = n"
    using mm_part_chunk(7,8) [OF p] mm_part_prev [OF p] m by (simp_all add: flag_simps)
  then have "total_alloc_size h' = total_alloc_size h - int n"
    using mm_free_total [OF f(1)] assms(5) by auto
  then show ?thesis using f assms(3) ks by (auto simp: heapinfo_ok_def used_release)
qed

lemma mm_free_accounts_witness:
  "\<exists>h' ks'. mm_free demo_caller 4128 demo1 = Some h' \<and> mm_wf h' ks' \<and> heapinfo_ok h' ks'"
proof -
  have "total_alloc_size demo1 = int (csize demo1 4112)"
    using mm_malloc_total [OF demo1(1)] by (simp add: demo0)
  moreover have "csize demo1 4112 = 128" using mm_wf_blocks(3) [OF demo1(2)] demo1_more(5) by simp
  ultimately have "heapinfo_ok demo1 demo_ks1" by (simp add: heapinfo_ok_def demo_ks1_def)
  from mm_free_accounts [OF demo1(2) demo1_more(4) this, of 4128 128] demo1_more(5) show ?thesis by simp
qed

text \<open>\<open>mm_extend\<close> breaks the heap accounting: it releases the old tail guard, which was never
  charged, so \<open>total_alloc_size\<close> falls below the sum of the allocated chunks by the added size.\<close>

lemma mm_extend_miscounts:
  assumes "mm_wf h (us @ [(16, True)])" "lock_ok c h" "us \<noteq> []" "heapinfo_ok h (us @ [(16, True)])"
    "unat mem = mm_heapend h + 16" "32 \<le> unat sz" "16 dvd unat sz"
    "unat mem + unat sz < 2 ^ 32" "extent us + unat sz + 16 < 2 ^ 31"
    "\<forall>s \<in> sents (mm_nodelist h). s < unat mem \<or> unat mem + unat sz \<le> s"
  shows "\<exists>h' ks'. mm_extend c mem sz 0 h = Some h' \<and> mm_wf h' ks' \<and>
    total_alloc_size h' = int (used ks') - 32 - int (unat sz)"
proof -
  obtain h' where x: "mm_extend c mem sz 0 h = Some h'" "mm_wf h' (release us (unat sz) [(16, True)])"
    using mm_extend_release [OF assms(1-3,5-10)] by blast
  have p: "mm_part h (us @ (16, True) # []) {}" using assms(1) by (simp add: mm_wf_def)
  have e: "mm_heapend h = mm_heapstart h + extent us" using p by (simp add: mm_part_def region_ok_def)
  have "preceding (extended (unat sz) h) (unat mem - 16) = preceding h (mm_heapend h)"
    "csize (extended (unat sz) h) (unat mem - 16) = unat sz"
    "total_alloc_size (extended (unat sz) h) = total_alloc_size h"
    using assms(5,6) by (auto simp: extended_def Let_def)
  moreover have "is_alloc (preceding h (mm_heapend h))"
    using mm_part_chunk(8) [OF p] mm_part_prev [OF p] e by (simp add: flag_simps)
  ultimately have "total_alloc_size h' = total_alloc_size h - int (unat sz)"
    using mm_free_total [of c "unat mem" "extended (unat sz) h" h'] x(1) assms(5)
      mm_extend_eq [OF assms(1,2,5-8)] by simp
  then show ?thesis using x assms(4) by (auto simp: heapinfo_ok_def used_release)
qed

lemma mm_extend_miscounts_witness:
  "\<exists>h' ks'. mm_extend demo_caller 8192 64 0 demo0 = Some h' \<and> mm_wf h' ks' \<and>
    total_alloc_size h' = int (used ks') - 32 - 64"
proof -
  have "mm_wf demo0 ([(16, True), (4064, False)] @ [(16, True)])" using demo0(2) by (simp add: demo_ks0_def)
  from mm_extend_miscounts [OF this demo0(6), of 8192 64] demo0_outside show ?thesis
    by (simp add: demo0 heapinfo_ok_def)
qed

end
