(* ===== verification/MM_Gran.thy ===== *)
theory MM_Gran
  imports Alloc_Spec
begin

unbundle bit_operations_syntax

text \<open>
  The granule allocator of \<open>os/mm/mm_gran\<close> (\<open>CONFIG_GRAN\<close>, without \<open>CONFIG_GRAN_INTR\<close>) and the page
  allocator on top of it. The granule allocation table \<open>gat\<close> is a list of 32-bit words; its meaning is
  the set \<open>granules\<close> of granules in use. An operation returns \<open>None\<close> when it does not return or its
  behaviour is undefined: a failed \<open>DEBUGASSERT\<close>, a wait on the semaphore, a shift by 32 or more, an
  access outside the table. The one access outside the table that the search always makes, the read
  of the word after the last one, yields an arbitrary word \<open>over\<close> instead.
\<close>

lemma unat_drop_bit_div: "unat (drop_bit k w) = unat w div 2 ^ k" for w :: "'a::len word"
  unfolding unat_drop_bit_eq by (simp add: drop_bit_eq_div)

section \<open>State\<close>

record gran_s =
  log2gran :: nat
  ngranules :: nat
  exclsem :: int
  heapstart :: u32
  gat :: "u32 list"

definition SIZEOF_GAT :: "u32 \<Rightarrow> u32" where
  "SIZEOF_GAT n = drop_bit 5 (n + 31)"

text \<open>\<open>0xffffffff >> (32 - n)\<close> is undefined in C unless the shift count is below 32.\<close>

definition gran_bits :: "nat \<Rightarrow> u32 option" where
  "gran_bits n = (if 1 \<le> n \<and> n \<le> 32 then Some (drop_bit (32 - n) 0xffffffff) else None)"

definition gat_at :: "gran_s \<Rightarrow> nat \<Rightarrow> u32 option" where
  "gat_at priv i = (if i < length (gat priv) then Some (gat priv ! i) else None)"

section \<open>Critical section, initialisation and release\<close>

definition gran_enter_critical :: "gran_s \<Rightarrow> gran_s option" where
  "gran_enter_critical priv =
     (if exclsem priv > 0 then Some (priv\<lparr>exclsem := exclsem priv - 1\<rparr>) else None)"

definition gran_leave_critical :: "gran_s \<Rightarrow> gran_s" where
  "gran_leave_critical priv = priv\<lparr>exclsem := exclsem priv + 1\<rparr>"

text \<open>\<open>zalloc_ok\<close> says whether \<open>kmm_zalloc\<close> finds memory for the structure; \<open>Some None\<close> is the NULL
  handle. The \<open>ngranules\<close> field has 16 bits.\<close>

definition gran_common_initialize :: "bool \<Rightarrow> u32 \<Rightarrow> u32 \<Rightarrow> nat \<Rightarrow> nat \<Rightarrow> gran_s option option" where
  "gran_common_initialize zalloc_ok start heapsize log2gr log2align = do {
     debugassert (start \<noteq> 0 \<and> heapsize > 0 \<and> log2gr > 0 \<and> log2gr < 32 \<and> log2gr \<ge> log2align);
     let msk = push_bit log2align 1 - 1;
     let alignedstart = (start + msk) AND NOT msk;
     let msk = push_bit log2gr 1 - 1;
     let heapend = start + heapsize;
     let alignedsize = (heapend - alignedstart) AND NOT msk;
     let ngran = drop_bit log2gr alignedsize;
     if zalloc_ok
     then Some (Some \<lparr>log2gran = log2gr, ngranules = unat ngran mod 2 ^ 16, exclsem = 1,
       heapstart = alignedstart, gat = replicate (unat (SIZEOF_GAT ngran)) 0\<rparr>)
     else Some None
   }"

section \<open>Marking and freeing granules\<close>

definition gran_mark_allocated :: "gran_s \<Rightarrow> u32 \<Rightarrow> nat \<Rightarrow> gran_s option" where
  "gran_mark_allocated priv alloc n = do {
     let granno = unat (drop_bit (log2gran priv) (alloc - heapstart priv));
     let gatidx = granno div 32;
     let gatbit = granno mod 32;
     let avail = 32 - gatbit;
     if n > avail then do {
       let gatmask = push_bit gatbit 0xffffffff;
       w \<leftarrow> gat_at priv gatidx;
       debugassert (w AND gatmask = 0);
       let priv = priv\<lparr>gat := (gat priv)[gatidx := w OR gatmask]\<rparr>;
       gatmask \<leftarrow> gran_bits (n - avail);
       w \<leftarrow> gat_at priv (gatidx + 1);
       debugassert (w AND gatmask = 0);
       Some (priv\<lparr>gat := (gat priv)[gatidx + 1 := w OR gatmask]\<rparr>)
     } else do {
       gatmask \<leftarrow> gran_bits n;
       let gatmask = push_bit gatbit gatmask;
       w \<leftarrow> gat_at priv gatidx;
       debugassert (w AND gatmask = 0);
       Some (priv\<lparr>gat := (gat priv)[gatidx := w OR gatmask]\<rparr>)
     }
   }"

definition gran_clear :: "gran_s \<Rightarrow> nat \<Rightarrow> nat \<Rightarrow> gran_s option" where
  "gran_clear priv granno n = do {
     let gatidx = granno div 32;
     let gatbit = granno mod 32;
     let avail = 32 - gatbit;
     if n > avail then do {
       let gatmask = push_bit gatbit 0xffffffff;
       w \<leftarrow> gat_at priv gatidx;
       debugassert (w AND gatmask = gatmask);
       let priv = priv\<lparr>gat := (gat priv)[gatidx := w AND NOT gatmask]\<rparr>;
       gatmask \<leftarrow> gran_bits (n - avail);
       w \<leftarrow> gat_at priv (gatidx + 1);
       debugassert (w AND gatmask = gatmask);
       Some (priv\<lparr>gat := (gat priv)[gatidx + 1 := w AND NOT gatmask]\<rparr>)
     } else do {
       gatmask \<leftarrow> gran_bits n;
       let gatmask = push_bit gatbit gatmask;
       w \<leftarrow> gat_at priv gatidx;
       debugassert (w AND gatmask = gatmask);
       Some (priv\<lparr>gat := (gat priv)[gatidx := w AND NOT gatmask]\<rparr>)
     }
   }"

text \<open>\<open>(size + granmask) >> log2gran\<close>, in 32 bits.\<close>

definition gran_count :: "gran_s \<Rightarrow> u32 \<Rightarrow> nat" where
  "gran_count priv sz = unat (drop_bit (log2gran priv) (sz + (push_bit (log2gran priv) 1 - 1)))"

definition gran_common_free :: "gran_s \<Rightarrow> u32 \<Rightarrow> u32 \<Rightarrow> gran_s option" where
  "gran_common_free priv memory sz = do {
     debugassert (memory \<noteq> 0 \<and> sz \<le> 32 * push_bit (log2gran priv) 1);
     priv \<leftarrow> gran_enter_critical priv;
     let granno = unat (drop_bit (log2gran priv) (memory - heapstart priv));
     priv \<leftarrow> gran_clear priv granno (gran_count priv sz);
     Some (gran_leave_critical priv)
   }"

definition gran_common_reserve :: "gran_s \<Rightarrow> u32 \<Rightarrow> u32 \<Rightarrow> gran_s option" where
  "gran_common_reserve priv start sz =
     (if sz > 0 then
        (let msk = push_bit (log2gran priv) 1 - 1;
             end = start + sz - 1;
             start = start AND NOT msk;
             end = (end + msk) AND NOT msk;
             n = unat (drop_bit (log2gran priv) (end - start) + 1)
         in gran_mark_allocated priv start n)
      else Some priv)"

section \<open>Allocation\<close>

text \<open>One iteration of the inner loop of \<open>gran_common_alloc\<close>: how far to move on, or \<open>None\<close> when the
  run of free granules starts at the current bit.\<close>

definition gran_shift :: "u32 \<Rightarrow> u32 \<Rightarrow> nat option" where
  "gran_shift cur msk =
     (if cur AND 0x0000ffff = 0x0000ffff then Some 16
      else if cur AND 0x0000ff = 0x000000ff then Some 8
      else if cur AND 0x00000f = 0x0000000f then Some 4
      else if cur AND 0x000003 = 0x00000003 then Some 2
      else if cur AND msk = 0 then None
      else Some 1)"

lemma gran_shift_pos: "gran_shift cur msk = Some s \<Longrightarrow> 0 < s"
  by (auto simp: gran_shift_def split: if_splits)

text \<open>The inner loop: the address where a run starts, or the address reached without finding one.\<close>

function gran_scan :: "gran_s \<Rightarrow> nat \<Rightarrow> u32 \<Rightarrow> nat \<Rightarrow> nat \<Rightarrow> u32 \<Rightarrow> u32 \<Rightarrow> u32 \<Rightarrow> u32 + u32" where
  "gran_scan priv n msk granidx bitidx alloc cur nxt =
     (if bitidx < 32 \<and> granidx + bitidx + n \<le> ngranules priv then
        if cur = 0xffffffff then Inr alloc
        else case gran_shift cur msk of
          None \<Rightarrow> Inl alloc
        | Some s \<Rightarrow> gran_scan priv n msk granidx (bitidx + s)
            (alloc + push_bit (log2gran priv) (of_nat s))
            (drop_bit s cur OR push_bit (32 - s) nxt) (drop_bit s nxt)
      else Inr alloc)"
  by pat_completeness auto
termination
  by (relation "measure (\<lambda>(_, _, _, _, bitidx, _). 32 - bitidx)") (auto dest: gran_shift_pos)

declare gran_scan.simps [simp del]

text \<open>The outer loop, over the words of the table. \<open>over\<close> is the word in memory after the table,
  which the loop reads when it is at the last word.\<close>

function gran_search :: "u32 \<Rightarrow> gran_s \<Rightarrow> nat \<Rightarrow> u32 \<Rightarrow> nat \<Rightarrow> u32 \<Rightarrow> u32 option option" where
  "gran_search over priv n msk granidx alloc =
     (if granidx < ngranules priv then do {
        let gatidx = granidx div 32;
        cur \<leftarrow> gat_at priv gatidx;
        if cur = 0xffffffff
        then gran_search over priv n msk (granidx + 32) (alloc + push_bit (log2gran priv) 32)
        else do {
          let nxt = (if granidx < ngranules priv
            then case gat_at priv (gatidx + 1) of None \<Rightarrow> over | Some w \<Rightarrow> w else 0xffffffff);
          case gran_scan priv n msk granidx 0 alloc cur nxt of
            Inl a \<Rightarrow> Some (Some a)
          | Inr a \<Rightarrow> gran_search over priv n msk (granidx + 32) a
        }
      } else Some None)"
  by pat_completeness auto
termination
  by (relation "measure (\<lambda>(_, priv, _, _, granidx, _). ngranules priv - granidx)") auto

declare gran_search.simps [simp del]

definition gran_common_alloc :: "u32 \<Rightarrow> gran_s \<Rightarrow> u32 \<Rightarrow> (u32 \<times> gran_s) option" where
  "gran_common_alloc over priv sz = do {
     debugassert (sz \<le> 32 * push_bit (log2gran priv) 1);
     if sz > 0 then do {
       priv \<leftarrow> gran_enter_critical priv;
       let n = gran_count priv sz;
       debugassert (n \<le> 32);
       msk \<leftarrow> gran_bits n;
       found \<leftarrow> gran_search over priv n msk 0 (heapstart priv);
       case found of
         Some alloc \<Rightarrow> do {
           priv \<leftarrow> gran_mark_allocated priv alloc n;
           Some (alloc, gran_leave_critical priv)
         }
       | None \<Rightarrow> Some (0, gran_leave_critical priv)
     } else Some (0, priv)
   }"

section \<open>The page allocator\<close>

definition MM_PGSHIFT :: nat where "MM_PGSHIFT = 12"

definition mm_pginitialize :: "bool \<Rightarrow> u32 \<Rightarrow> u32 \<Rightarrow> gran_s option" where
  "mm_pginitialize zalloc_ok start heapsize = do {
     g \<leftarrow> gran_common_initialize zalloc_ok start heapsize MM_PGSHIFT MM_PGSHIFT;
     debugassert (g \<noteq> None);
     g
   }"

definition mm_pgreserve :: "gran_s \<Rightarrow> u32 \<Rightarrow> u32 \<Rightarrow> gran_s option" where
  "mm_pgreserve g start sz = gran_common_reserve g start sz"

definition mm_pgalloc :: "u32 \<Rightarrow> gran_s \<Rightarrow> u32 \<Rightarrow> (u32 \<times> gran_s) option" where
  "mm_pgalloc over g npages = gran_common_alloc over g (push_bit MM_PGSHIFT 1)"

definition mm_pgfree :: "gran_s \<Rightarrow> u32 \<Rightarrow> u32 \<Rightarrow> gran_s option" where
  "mm_pgfree g paddr npages = gran_common_free g paddr (push_bit MM_PGSHIFT npages)"

section \<open>The granules in use\<close>

definition granules :: "gran_s \<Rightarrow> nat set" where
  "granules priv = {i. i < 32 * length (gat priv) \<and> bit (gat priv ! (i div 32)) (i mod 32)}"

lemma granules_inject:
  assumes "length (gat p) = length (gat q)" "granules p = granules q"
  shows "gat p = gat q"
proof (rule nth_equalityI [OF assms(1)])
  fix i assume i: "i < length (gat p)"
  show "gat p ! i = gat q ! i"
  proof (rule bit_word_eqI)
    fix j :: nat assume j: "j < LENGTH(32)"
    have "32 * i + j \<in> granules p \<longleftrightarrow> 32 * i + j \<in> granules q" using assms(2) by simp
    then show "bit (gat p ! i) j \<longleftrightarrow> bit (gat q ! i) j" using i j assms(1) by (simp add: granules_def)
  qed
qed

definition cell :: "nat \<Rightarrow> u32 \<Rightarrow> nat set" where
  "cell k m = {i. i div 32 = k \<and> bit m (i mod 32)}"

lemma granules_word:
  assumes "k < length (gat priv)"
  shows "granules (priv\<lparr>gat := (gat priv)[k := gat priv ! k OR m]\<rparr>) = granules priv \<union> cell k m"
    and "granules (priv\<lparr>gat := (gat priv)[k := gat priv ! k AND NOT m]\<rparr>) = granules priv - cell k m"
    and "gat priv ! k AND m = 0 \<longleftrightarrow> granules priv \<inter> cell k m = {}"
    and "gat priv ! k AND m = m \<longleftrightarrow> cell k m \<subseteq> granules priv"
proof -
  have l: "i < 32 * length (gat priv)" if "i div 32 = k" for i
    using assms that by (metis div_less_iff_less_mult mult.commute zero_less_numeral)
  show "granules (priv\<lparr>gat := (gat priv)[k := gat priv ! k OR m]\<rparr>) = granules priv \<union> cell k m"
    using assms l by (auto simp: granules_def cell_def nth_list_update bit_simps)
  show "granules (priv\<lparr>gat := (gat priv)[k := gat priv ! k AND NOT m]\<rparr>) = granules priv - cell k m"
    using assms l by (auto simp: granules_def cell_def nth_list_update bit_simps)
  have j: "j < 32 \<Longrightarrow> bit m j \<longleftrightarrow> 32 * k + j \<in> cell k m"
    "j < 32 \<Longrightarrow> bit (gat priv ! k) j \<longleftrightarrow> 32 * k + j \<in> granules priv" for j
    using assms by (auto simp: cell_def granules_def)
  have c: "\<exists>j < 32. i = 32 * k + j" if "i \<in> cell k m" for i
    using that by (intro exI [of _ "i mod 32"]) (auto simp: cell_def)
  have "gat priv ! k AND m = 0 \<longleftrightarrow> (\<forall>j < 32. \<not> (bit (gat priv ! k) j \<and> bit m j))"
    by (auto simp: bit_eq_iff bit_simps)
  also have "\<dots> \<longleftrightarrow> granules priv \<inter> cell k m = {}" using j c by blast
  finally show "gat priv ! k AND m = 0 \<longleftrightarrow> granules priv \<inter> cell k m = {}" .
  have "gat priv ! k AND m = m \<longleftrightarrow> (\<forall>j < 32. bit m j \<longrightarrow> bit (gat priv ! k) j)"
    by (auto simp: bit_eq_iff bit_simps)
  also have "\<dots> \<longleftrightarrow> cell k m \<subseteq> granules priv" using j c by blast
  finally show "gat priv ! k AND m = m \<longleftrightarrow> cell k m \<subseteq> granules priv" .
qed

lemma all_ones: "(0xffffffff :: u32) = - 1"
  by simp

lemma gran_bits_mask: "1 \<le> n \<Longrightarrow> n \<le> 32 \<Longrightarrow> gran_bits n = Some (mask n)"
  unfolding gran_bits_def all_ones by (auto simp: bit_eq_iff bit_simps)

text \<open>A run of granules lies in one word of the table or in two.\<close>

lemma mem_cell: "j < 32 \<Longrightarrow> 32 * l + j \<in> cell k m \<longleftrightarrow> l = k \<and> bit m j"
  by (simp add: cell_def)

lemma by_words: "(\<And>l j. j < 32 \<Longrightarrow> 32 * l + j \<in> A \<longleftrightarrow> 32 * l + j \<in> B) \<Longrightarrow> A = (B :: nat set)"
  by (metis mod_less_divisor mult_div_mod_eq set_eqI zero_less_numeral)

lemma run_one:
  assumes "n \<le> 32 - b" "b < 32"
  shows "cell k (push_bit b (mask n)) = {32 * k + b ..< 32 * k + b + n}"
proof (rule by_words)
  fix l j :: nat assume j: "j < 32"
  have "l = k \<and> b \<le> j \<and> j < b + n \<longleftrightarrow> 32 * k + b \<le> 32 * l + j \<and> 32 * l + j < 32 * k + b + n"
    using assms j by (cases "l < k"; cases "k + 1 < l"; cases "l = k"; simp; linarith?)
  then show "32 * l + j \<in> cell k (push_bit b (mask n)) \<longleftrightarrow> 32 * l + j \<in> {32 * k + b ..< 32 * k + b + n}"
    using j by (auto simp: mem_cell bit_simps)
qed

lemma run_two:
  assumes "32 - b < n" "n \<le> 32" "b < 32"
  shows "cell k (push_bit b (- 1)) \<union> cell (k + 1) (mask (n - (32 - b))) = {32 * k + b ..< 32 * k + b + n}"
proof (rule by_words)
  fix l j :: nat assume j: "j < 32"
  have "l = k \<and> b \<le> j \<or> l = k + 1 \<and> j < n - (32 - b) \<longleftrightarrow>
      32 * k + b \<le> 32 * l + j \<and> 32 * l + j < 32 * k + b + n"
    using assms j by (cases "l < k"; cases "k + 1 < l"; cases "l = k"; simp; linarith?)
  then show "32 * l + j \<in> cell k (push_bit b (- 1)) \<union> cell (k + 1) (mask (n - (32 - b))) \<longleftrightarrow>
      32 * l + j \<in> {32 * k + b ..< 32 * k + b + n}"
    using j assms by (auto simp: mem_cell bit_simps)
qed

definition granno :: "gran_s \<Rightarrow> u32 \<Rightarrow> nat" where
  "granno priv a = unat (drop_bit (log2gran priv) (a - heapstart priv))"

lemma gran_mark_spec:
  assumes "1 \<le> n" "n \<le> 32" "g + n \<le> 32 * length (gat priv)" "granno priv a = g"
  shows "granules priv \<inter> {g ..< g + n} = {} \<Longrightarrow> \<exists>priv'. gran_mark_allocated priv a n = Some priv' \<and>
      priv' = priv\<lparr>gat := gat priv'\<rparr> \<and> length (gat priv') = length (gat priv) \<and> granules priv' = granules priv \<union> {g ..< g + n}"
    and "\<not> (granules priv \<inter> {g ..< g + n} = {}) \<Longrightarrow> gran_mark_allocated priv a n = None"
proof -
  let ?k = "g div 32" and ?b = "g mod 32"
  have k: "?k < length (gat priv)" using assms(1,3) by linarith
  have "(granules priv \<inter> {g ..< g + n} = {} \<longrightarrow> (\<exists>priv'. gran_mark_allocated priv a n = Some priv' \<and>
      priv' = priv\<lparr>gat := gat priv'\<rparr> \<and> length (gat priv') = length (gat priv) \<and> granules priv' = granules priv \<union> {g ..< g + n})) \<and>
    (\<not> (granules priv \<inter> {g ..< g + n} = {}) \<longrightarrow> gran_mark_allocated priv a n = None)"
  proof (cases "n > 32 - ?b")
    case False
    define p where "p = priv\<lparr>gat := (gat priv)[?k := gat priv ! ?k OR push_bit ?b (mask n)]\<rparr>"
    have e: "gran_mark_allocated priv a n = do { debugassert (gat priv ! ?k AND push_bit ?b (mask n) = 0); Some p}"
      using k assms False by (simp add: gran_mark_allocated_def gat_at_def Let_def granno_def gran_bits_mask p_def)
    have "granules p = granules priv \<union> {g ..< g + n}" "p = priv\<lparr>gat := gat p\<rparr>" "length (gat p) = length (gat priv)"
      "gat priv ! ?k AND push_bit ?b (mask n) = 0 \<longleftrightarrow> granules priv \<inter> {g ..< g + n} = {}"
      using granules_word [OF k, of "push_bit ?b (mask n)"] run_one [of n ?b ?k] False by (simp_all add: p_def)
    then show ?thesis unfolding e by (auto simp: debugassert_def)
  next
    case True
    define m1 :: u32 where "m1 = push_bit ?b (- 1)"
    define m2 :: u32 where "m2 = mask (n - (32 - ?b))"
    define p where "p = priv\<lparr>gat := (gat priv)[?k := gat priv ! ?k OR m1]\<rparr>"
    define q where "q = p\<lparr>gat := (gat p)[?k + 1 := gat p ! (?k + 1) OR m2]\<rparr>"
    have k1: "?k + 1 < length (gat priv)" 
    proof -
      have "g = 32 * ?k + ?b" "?b < 32" by simp_all
      then show ?thesis using assms(2,3) True by linarith
    qed
    then have kp: "?k + 1 < length (gat p)" by (simp add: p_def)
    have e: "gran_mark_allocated priv a n = do {
       debugassert (gat priv ! ?k AND m1 = 0); debugassert (gat p ! (?k + 1) AND m2 = 0); Some q}"
      using k k1 True assms unfolding gran_mark_allocated_def all_ones
      by (simp add: gat_at_def Let_def granno_def gran_bits_mask p_def q_def m1_def m2_def)
    have d: "cell ?k m1 \<inter> cell (?k + 1) m2 = {}" by (auto simp: cell_def)
    have r: "cell ?k m1 \<union> cell (?k + 1) m2 = {g ..< g + n}"
      using run_two [OF True assms(2), of ?k] by (simp add: m1_def m2_def)
    have f: "q = priv\<lparr>gat := gat q\<rparr>" "length (gat q) = length (gat priv)" by (simp_all add: p_def q_def)
    have c1: "gat priv ! ?k AND m1 = 0 \<longleftrightarrow> granules priv \<inter> cell ?k m1 = {}" "granules p = granules priv \<union> cell ?k m1"
      using granules_word [OF k, of m1] by (simp_all add: p_def)
    have c2: "gat p ! (?k + 1) AND m2 = 0 \<longleftrightarrow> granules p \<inter> cell (?k + 1) m2 = {}" "granules q = granules p \<union> cell (?k + 1) m2"
      using granules_word [OF kp, of m2] by (simp_all add: q_def)
    have "(gat priv ! ?k AND m1 = 0 \<and> gat p ! (?k + 1) AND m2 = 0) \<longleftrightarrow> granules priv \<inter> {g ..< g + n} = {}"
      unfolding c1 c2(1) r [symmetric] using d by blast
    moreover have "granules q = granules priv \<union> {g ..< g + n}" unfolding c2 c1 r [symmetric] by blast
    ultimately show ?thesis unfolding e using f by (auto simp: debugassert_def)
  qed
  then show "granules priv \<inter> {g ..< g + n} = {} \<Longrightarrow> \<exists>priv'. gran_mark_allocated priv a n = Some priv' \<and>
      priv' = priv\<lparr>gat := gat priv'\<rparr> \<and> length (gat priv') = length (gat priv) \<and> granules priv' = granules priv \<union> {g ..< g + n}"
    and "\<not> (granules priv \<inter> {g ..< g + n} = {}) \<Longrightarrow> gran_mark_allocated priv a n = None" by blast+
qed

lemma gran_clear_spec:
  assumes "1 \<le> n" "n \<le> 32" "g + n \<le> 32 * length (gat priv)"
  shows "{g ..< g + n} \<subseteq> granules priv \<Longrightarrow> \<exists>priv'. gran_clear priv g n = Some priv' \<and>
      priv' = priv\<lparr>gat := gat priv'\<rparr> \<and> length (gat priv') = length (gat priv) \<and> granules priv' = granules priv - {g ..< g + n}"
    and "\<not> ({g ..< g + n} \<subseteq> granules priv) \<Longrightarrow> gran_clear priv g n = None"
proof -
  let ?k = "g div 32" and ?b = "g mod 32"
  have k: "?k < length (gat priv)" using assms(1,3) by linarith
  have "({g ..< g + n} \<subseteq> granules priv \<longrightarrow> (\<exists>priv'. gran_clear priv g n = Some priv' \<and>
      priv' = priv\<lparr>gat := gat priv'\<rparr> \<and> length (gat priv') = length (gat priv) \<and> granules priv' = granules priv - {g ..< g + n})) \<and>
    (\<not> ({g ..< g + n} \<subseteq> granules priv) \<longrightarrow> gran_clear priv g n = None)"
  proof (cases "n > 32 - ?b")
    case False
    define p where "p = priv\<lparr>gat := (gat priv)[?k := gat priv ! ?k AND NOT (push_bit ?b (mask n))]\<rparr>"
    have e: "gran_clear priv g n = do { debugassert (gat priv ! ?k AND push_bit ?b (mask n) = push_bit ?b (mask n)); Some p}"
      using k assms False by (simp add: gran_clear_def gat_at_def Let_def granno_def gran_bits_mask p_def)
    have "granules p = granules priv - {g ..< g + n}" "p = priv\<lparr>gat := gat p\<rparr>" "length (gat p) = length (gat priv)"
      "gat priv ! ?k AND push_bit ?b (mask n) = push_bit ?b (mask n) \<longleftrightarrow> {g ..< g + n} \<subseteq> granules priv"
      using granules_word [OF k, of "push_bit ?b (mask n)"] run_one [of n ?b ?k] False by (simp_all add: p_def)
    then show ?thesis unfolding e by (auto simp: debugassert_def)
  next
    case True
    define m1 :: u32 where "m1 = push_bit ?b (- 1)"
    define m2 :: u32 where "m2 = mask (n - (32 - ?b))"
    define p where "p = priv\<lparr>gat := (gat priv)[?k := gat priv ! ?k AND NOT m1]\<rparr>"
    define q where "q = p\<lparr>gat := (gat p)[?k + 1 := gat p ! (?k + 1) AND NOT m2]\<rparr>"
    have k1: "?k + 1 < length (gat priv)" 
    proof -
      have "g = 32 * ?k + ?b" "?b < 32" by simp_all
      then show ?thesis using assms(2,3) True by linarith
    qed
    then have kp: "?k + 1 < length (gat p)" by (simp add: p_def)
    have e: "gran_clear priv g n = do {
       debugassert (gat priv ! ?k AND m1 = m1); debugassert (gat p ! (?k + 1) AND m2 = m2); Some q}"
      using k k1 True assms unfolding gran_clear_def all_ones
      by (simp add: gat_at_def Let_def granno_def gran_bits_mask p_def q_def m1_def m2_def)
    have d: "cell ?k m1 \<inter> cell (?k + 1) m2 = {}" by (auto simp: cell_def)
    have r: "cell ?k m1 \<union> cell (?k + 1) m2 = {g ..< g + n}"
      using run_two [OF True assms(2), of ?k] by (simp add: m1_def m2_def)
    have f: "q = priv\<lparr>gat := gat q\<rparr>" "length (gat q) = length (gat priv)" by (simp_all add: p_def q_def)
    have c1: "gat priv ! ?k AND m1 = m1 \<longleftrightarrow> cell ?k m1 \<subseteq> granules priv" "granules p = granules priv - cell ?k m1"
      using granules_word [OF k, of m1] by (simp_all add: p_def)
    have c2: "gat p ! (?k + 1) AND m2 = m2 \<longleftrightarrow> cell (?k + 1) m2 \<subseteq> granules p" "granules q = granules p - cell (?k + 1) m2"
      using granules_word [OF kp, of m2] by (simp_all add: q_def)
    have "(gat priv ! ?k AND m1 = m1 \<and> gat p ! (?k + 1) AND m2 = m2) \<longleftrightarrow> {g ..< g + n} \<subseteq> granules priv"
      unfolding c1 c2(1) r [symmetric] using d by blast
    moreover have "granules q = granules priv - {g ..< g + n}" unfolding c2 c1 r [symmetric] by blast
    ultimately show ?thesis unfolding e using f by (auto simp: debugassert_def)
  qed
  then show "{g ..< g + n} \<subseteq> granules priv \<Longrightarrow> \<exists>priv'. gran_clear priv g n = Some priv' \<and>
      priv' = priv\<lparr>gat := gat priv'\<rparr> \<and> length (gat priv') = length (gat priv) \<and> granules priv' = granules priv - {g ..< g + n}"
    and "\<not> ({g ..< g + n} \<subseteq> granules priv) \<Longrightarrow> gran_clear priv g n = None" by blast+
qed

section \<open>Addresses and sizes\<close>

text \<open>A usable allocator: the granules lie in memory, the table covers them, nobody is inside the
  critical section.\<close>

definition gran_ok :: "gran_s \<Rightarrow> bool" where
  "gran_ok priv \<longleftrightarrow> 1 \<le> log2gran priv \<and> log2gran priv \<le> 25 \<and> heapstart priv \<noteq> 0 \<and> exclsem priv = 1 \<and>
     ngranules priv \<le> 32 * length (gat priv) \<and>
     unat (heapstart priv) + ngranules priv * 2 ^ log2gran priv \<le> 2 ^ 32"

abbreviation gran_addr :: "gran_s \<Rightarrow> nat \<Rightarrow> u32" where
  "gran_addr priv g \<equiv> heapstart priv + of_nat (g * 2 ^ log2gran priv)"

lemma gran_addr:
  assumes "gran_ok priv" "g < ngranules priv"
  shows "unat (gran_addr priv g) = unat (heapstart priv) + g * 2 ^ log2gran priv"
    "granno priv (gran_addr priv g) = g" "gran_addr priv g \<noteq> 0"
proof -
  have "g * 2 ^ log2gran priv < ngranules priv * 2 ^ log2gran priv" using assms(2) by simp
  then have l: "unat (heapstart priv) + g * 2 ^ log2gran priv < 2 ^ 32"
    using assms(1) unfolding gran_ok_def by linarith
  then have u: "unat (of_nat (g * 2 ^ log2gran priv) :: u32) = g * 2 ^ log2gran priv"
    by (simp only: unat_of_nat) (simp add: take_bit_eq_mod)
  then show e: "unat (gran_addr priv g) = unat (heapstart priv) + g * 2 ^ log2gran priv"
    using l by (subst unat_add_nowrap) simp_all
  show "granno priv (gran_addr priv g) = g"
    unfolding granno_def unat_drop_bit_eq add_diff_cancel_left' u by (simp add: drop_bit_eq_div)
  have "0 < unat (heapstart priv)" using assms(1) by (simp add: gran_ok_def unat_gt_0)
  then have "0 < unat (gran_addr priv g)" using e by simp
  then show "gran_addr priv g \<noteq> 0" by (simp add: unat_gt_0)
qed

definition granules_for :: "gran_s \<Rightarrow> nat \<Rightarrow> nat" where
  "granules_for priv r = (r + 2 ^ log2gran priv - 1) div 2 ^ log2gran priv"

lemma gran_count:
  assumes "gran_ok priv" "0 < unat sz" "unat sz \<le> 32 * 2 ^ log2gran priv"
  shows "gran_count priv sz = granules_for priv (unat sz)" "1 \<le> granules_for priv (unat sz)" "granules_for priv (unat sz) \<le> 32"
    "sz \<le> 32 * push_bit (log2gran priv) 1" "unat sz \<le> granules_for priv (unat sz) * 2 ^ log2gran priv"
proof -
  let ?p = "2 ^ log2gran priv :: nat"
  have p: "?p \<le> 2 ^ 25" using assms(1) power_increasing [of "log2gran priv" 25 "2 :: nat"] by (simp add: gran_ok_def)
  have u: "unat (push_bit (log2gran priv) 1 :: u32) = ?p"
    using assms(1) by (simp add: gran_ok_def push_bit_eq_mult unat_pow2)
  have u1: "unat (push_bit (log2gran priv) 1 - 1 :: u32) = ?p - 1"
    using u by (subst unat_sub) (simp_all add: word_le_nat_alt)
  have "unat sz + (?p - 1) < 2 ^ 32" using assms(3) p by simp
  then have s: "unat (sz + (push_bit (log2gran priv) 1 - 1)) = unat sz + (?p - 1)"
    using u1 by (subst unat_add_nowrap) simp_all
  show "gran_count priv sz = granules_for priv (unat sz)"
    unfolding gran_count_def granules_for_def unat_drop_bit_eq s by (simp add: drop_bit_eq_div)
  have "?p \<le> unat sz + ?p - 1" using assms(2) by simp
  then show "1 \<le> granules_for priv (unat sz)" by (simp add: granules_for_def Suc_le_eq div_greater_zero_iff)
  have "(unat sz + ?p - 1) div ?p < 33"
  proof -
    have "0 < ?p" by simp
    then show ?thesis using assms(2,3) by (subst div_less_iff_less_mult) linarith+
  qed
  then show "granules_for priv (unat sz) \<le> 32" by (simp add: granules_for_def)
  have "unat (32 * push_bit (log2gran priv) 1 :: u32) = 32 * ?p"
    using u p by (subst unat_mult_lem [THEN iffD1]) simp_all
  then show "sz \<le> 32 * push_bit (log2gran priv) 1" using assms(3) by (simp add: word_le_nat_alt)
  let ?x = "unat sz + ?p - 1"
  have "0 < ?p" "?x mod ?p < ?p" by simp_all
  moreover have "?x div ?p * ?p + ?x mod ?p = ?x" by (rule div_mult_mod_eq)
  ultimately show "unat sz \<le> granules_for priv (unat sz) * ?p" unfolding granules_for_def by linarith
qed

section \<open>The search\<close>

lemma and_mask_all: "w AND mask n = mask n \<longleftrightarrow> (\<forall>j < n. j < LENGTH('a) \<longrightarrow> bit (w :: 'a::len word) j)"
  by (auto simp: bit_eq_iff bit_simps)

lemma and_mask_none: "w AND mask n = 0 \<longleftrightarrow> (\<forall>j < n. \<not> bit (w :: 'a::len word) j)"
  by (auto simp: bit_eq_iff bit_simps dest: bit_imp_le_length)

lemma gran_shift_spec:
  assumes "n \<le> 32" "1 \<le> n"
  shows "gran_shift cur (mask n) = None \<Longrightarrow> \<forall>j < n. \<not> bit cur j"
    and "gran_shift cur (mask n) = Some s \<Longrightarrow> s < 32 \<and> 0 < s \<and> (\<forall>k < s. \<exists>j < n. bit cur (k + j))"
proof -
  have m: "(0xffff :: u32) = mask 16" "(0xff :: u32) = mask 8" "(0xf :: u32) = mask 4" "(3 :: u32) = mask 2"
    by (simp_all add: mask_numeral)
  show "gran_shift cur (mask n) = None \<Longrightarrow> \<forall>j < n. \<not> bit cur j"
    unfolding gran_shift_def m and_mask_none by (simp split: if_splits)
  assume s: "gran_shift cur (mask n) = Some s"
  have "s < 32 \<and> 0 < s \<and> ((\<forall>k < s. bit cur k) \<or> s = 1 \<and> (\<exists>j < n. bit cur j))"
    using s unfolding gran_shift_def m and_mask_none and_mask_all by (simp split: if_splits)
  then show "s < 32 \<and> 0 < s \<and> (\<forall>k < s. \<exists>j < n. bit cur (k + j))"
    using assms by (metis Suc_le_eq add.right_neutral add_0 less_one One_nat_def)
qed

text \<open>\<open>seen c nx\<close> is the 64-bit window that the loop shifts through.\<close>

definition seen :: "u32 \<Rightarrow> u32 \<Rightarrow> nat \<Rightarrow> bool" where
  "seen c nx i \<longleftrightarrow> (if i < 32 then bit c i else bit nx (i - 32))"

lemma seen_shift:
  assumes "s < 32" "0 < s"
  shows "seen (drop_bit s c OR push_bit (32 - s) nx) (drop_bit s nx) i = seen c nx (i + s)"
  using assms by (auto simp: seen_def bit_simps not_less ac_simps dest: bit_imp_le_length)

definition free_run :: "u32 \<Rightarrow> u32 \<Rightarrow> nat \<Rightarrow> nat \<Rightarrow> bool" where
  "free_run c nx n k \<longleftrightarrow> (\<forall>j < n. \<not> seen c nx (k + j))"

lemma free_run_step:
  assumes "n \<le> 32" "1 \<le> n" "gran_shift c (mask n) = Some s"
  shows "0 < s" "k < s \<Longrightarrow> \<not> free_run c nx n k"
    "free_run (drop_bit s c OR push_bit (32 - s) nx) (drop_bit s nx) n k = free_run c nx n (k + s)"
proof -
  have s: "s < 32" "0 < s" "\<forall>k < s. \<exists>j < n. bit c (k + j)"
    using gran_shift_spec(2) [OF assms] by auto
  show "0 < s" by (rule s(2))
  show "k < s \<Longrightarrow> \<not> free_run c nx n k"
    using s(3) bit_imp_le_length [of c] by (auto simp: free_run_def seen_def)
  show "free_run (drop_bit s c OR push_bit (32 - s) nx) (drop_bit s nx) n k = free_run c nx n (k + s)"
    by (simp add: free_run_def seen_shift [OF s(1,2)] ac_simps)
qed

lemma free_run_here: "n \<le> 32 \<Longrightarrow> 1 \<le> n \<Longrightarrow> gran_shift c (mask n) = None \<Longrightarrow> free_run c nx n 0"
  using gran_shift_spec(1) [of n c] by (auto simp: free_run_def seen_def)

text \<open>The inner loop finds the first run that starts in the word.\<close>

lemma gran_scan_found:
  assumes n: "n \<le> 32" "1 \<le> n"
  shows "gran_scan priv n (mask n) g b alloc c nx = Inl a \<Longrightarrow>
    \<exists>k. b + k < 32 \<and> g + b + k + n \<le> ngranules priv \<and> a = alloc + of_nat (k * 2 ^ log2gran priv) \<and>
      free_run c nx n k \<and> (\<forall>k' < k. \<not> free_run c nx n k')"
proof (induction "32 - b" arbitrary: b alloc c nx rule: less_induct)
  case less
  have run: "b < 32 \<and> g + b + n \<le> ngranules priv" and ne: "c \<noteq> 0xffffffff"
    using less.prems by (auto simp: gran_scan.simps [of priv n "mask n" g b] split: if_splits)
  show ?case
  proof (cases "gran_shift c (mask n)")
    case None
    then have "a = alloc" using less.prems run ne by (simp add: gran_scan.simps [of priv n "mask n" g b])
    then show ?thesis using run free_run_here [OF n None] by (intro exI [of _ 0]) simp
  next
    case (Some s)
    note st = free_run_step [OF n Some]
    from less.prems run ne Some
    have r: "gran_scan priv n (mask n) g (b + s) (alloc + push_bit (log2gran priv) (of_nat s))
      (drop_bit s c OR push_bit (32 - s) nx) (drop_bit s nx) = Inl a"
      by (simp add: gran_scan.simps [of priv n "mask n" g b])
    have "32 - (b + s) < 32 - b" using st(1) run by arith
    from less.hyps [OF this r, unfolded st(3)] obtain k where k: "b + s + k < 32" "g + (b + s) + k + n \<le> ngranules priv"
      "a = alloc + push_bit (log2gran priv) (of_nat s) + of_nat (k * 2 ^ log2gran priv)"
      "free_run c nx n (k + s)" "\<forall>k' < k. \<not> free_run c nx n (k' + s)"
      by (elim exE conjE)
    have "\<not> free_run c nx n k'" if "k' < k + s" for k'
      using that st(2) [of k'] k(5) [rule_format, of "k' - s"] by (cases "k' < s") auto
    then show ?thesis using k(1-4)
      by (intro exI [of _ "k + s"]) (simp add: push_bit_eq_mult algebra_simps)
  qed
qed

lemma gran_scan_none:
  assumes n: "n \<le> 32" "1 \<le> n"
  shows "gran_scan priv n (mask n) g b alloc c nx = Inr a \<Longrightarrow>
    b + k < 32 \<Longrightarrow> g + b + k + n \<le> ngranules priv \<Longrightarrow> \<not> free_run c nx n k"
proof (induction "32 - b" arbitrary: b alloc c nx k rule: less_induct)
  case less
  show ?case
  proof (cases "c = 0xffffffff")
    case True
    then have "seen c nx k" using less.prems(2) unfolding all_ones by (simp add: seen_def)
    then show ?thesis using n by (auto simp: free_run_def Suc_le_eq dest: spec [of _ 0])
  next
    case False
    have run: "b < 32 \<and> g + b + n \<le> ngranules priv" using less.prems(2,3) by simp
    from less.prems(1) run False obtain s where Some: "gran_shift c (mask n) = Some s"
      by (auto simp: gran_scan.simps [of priv n "mask n" g b] split: option.splits)
    note st = free_run_step [OF n Some]
    from less.prems(1) run False Some
    have r: "gran_scan priv n (mask n) g (b + s) (alloc + push_bit (log2gran priv) (of_nat s))
      (drop_bit s c OR push_bit (32 - s) nx) (drop_bit s nx) = Inr a"
      by (simp add: gran_scan.simps [of priv n "mask n" g b])
    show ?thesis
    proof (cases "k < s")
      case False
      then show ?thesis
        using less.hyps [OF _ r, of "k - s"] st(1) run less.prems(2,3) unfolding st(3) by simp
    qed (rule st(2))
  qed
qed

section \<open>First fit on a table of one word\<close>

definition free_at :: "gran_s \<Rightarrow> nat \<Rightarrow> nat \<Rightarrow> bool" where
  "free_at priv n g \<longleftrightarrow> g + n \<le> ngranules priv \<and> granules priv \<inter> {g ..< g + n} = {}"

lemma free_run_free_at:
  assumes "gran_ok priv" "ngranules priv \<le> 32" "g + n \<le> ngranules priv" "1 \<le> n"
  shows "free_run (gat priv ! 0) nx n g = free_at priv n g"
proof -
  have l: "0 < length (gat priv)" using assms(1,3,4) by (auto simp: gran_ok_def)
  have "seen (gat priv ! 0) nx i = (i \<in> granules priv)" if "i < g + n" for i
  proof -
    have "i < 32" using that assms(2,3) by simp
    then have "i < 32 * length (gat priv)" using l by (simp add: Suc_le_eq less_le_trans)
    with \<open>i < 32\<close> show ?thesis by (simp add: seen_def granules_def)
  qed
  then show ?thesis using assms(3) by (auto simp: free_run_def free_at_def) (metis le_add_diff_inverse nat_add_left_cancel_less)
qed

lemma gran_search_first_fit:
  assumes ok: "gran_ok priv" and small: "ngranules priv \<le> 32" and n: "n \<le> 32" "1 \<le> n"
  obtains "gran_search over priv n (mask n) 0 (heapstart priv) = Some None" "\<forall>g. \<not> free_at priv n g"
  | g where "gran_search over priv n (mask n) 0 (heapstart priv) = Some (Some (gran_addr priv g))"
      "free_at priv n g" "\<forall>g' < g. \<not> free_at priv n g'"
proof (cases "ngranules priv = 0")
  case True
  then show ?thesis using that(1) n by (simp add: gran_search.simps free_at_def)
next
  case False
  let ?c = "gat priv ! 0"
  have l: "0 < length (gat priv)" using ok False by (auto simp: gran_ok_def)
  obtain nx where e: "gran_search over priv n (mask n) 0 (heapstart priv) =
      (if ?c = 0xffffffff then Some None
       else case gran_scan priv n (mask n) 0 0 (heapstart priv) ?c nx of Inl a \<Rightarrow> Some (Some a) | Inr a \<Rightarrow> Some None)"
  proof
    show "gran_search over priv n (mask n) 0 (heapstart priv) =
      (if ?c = 0xffffffff then Some None
       else case gran_scan priv n (mask n) 0 0 (heapstart priv) ?c (case gat_at priv 1 of None \<Rightarrow> over | Some w \<Rightarrow> w) of
         Inl a \<Rightarrow> Some (Some a) | Inr a \<Rightarrow> Some None)"
      using small False l
      by (simp add: gran_search.simps [of over priv n "mask n" 0] gran_search.simps [of over priv n "mask n" 32]
          gat_at_def Let_def split: sum.split)
  qed
  have at: "g + n \<le> ngranules priv \<and> free_run ?c nx n g \<longleftrightarrow> free_at priv n g" for g
    using free_run_free_at [OF ok small _ n(2), of g nx] by (auto simp: free_at_def)
  show ?thesis
  proof (cases "gran_scan priv n (mask n) 0 0 (heapstart priv) ?c nx")
    case (Inl a)
    from gran_scan_found [OF n Inl] obtain k where k: "k < 32" "k + n \<le> ngranules priv"
      "a = gran_addr priv k" "free_run ?c nx n k" "\<forall>k' < k. \<not> free_run ?c nx n k'" by auto
    have "?c \<noteq> 0xffffffff"
    proof
      assume "?c = 0xffffffff"
      then have "seen ?c nx k" using k(1) unfolding all_ones by (simp add: seen_def)
      then show False using k(4) n(2) by (auto simp: free_run_def dest: spec [of _ 0])
    qed
    then show ?thesis using that(2) [of k] e Inl k at by auto
  next
    case (Inr a)
    have "\<not> free_at priv n g" for g
      using gran_scan_none [OF n Inr, of g] at [of g] small n(2) by auto
    then show ?thesis using that(1) e Inr by auto
  qed
qed

section \<open>Allocation and release\<close>

lemma gran_critical [simp]:
  "gran_ok priv \<Longrightarrow> gran_enter_critical priv = Some (priv\<lparr>exclsem := 0\<rparr>)"
  "granules (priv\<lparr>exclsem := v\<rparr>) = granules priv" "granno (priv\<lparr>exclsem := v\<rparr>) = granno priv"
  by (simp_all add: gran_ok_def gran_enter_critical_def granules_def granno_def fun_eq_iff)

lemma gran_critical_free_at: "free_at (priv\<lparr>exclsem := v\<rparr>) = free_at priv"
  by (simp add: free_at_def fun_eq_iff)

text \<open>Neither the search nor the marking depends on the semaphore.\<close>

lemma gran_scan_sem: "gran_scan (priv\<lparr>exclsem := v\<rparr>) n m g b a c x = gran_scan priv n m g b a c x"
  by (induction priv n m g b a c x rule: gran_scan.induct)
    (subst (1 2) gran_scan.simps, simp split: option.split)

lemma gran_search_sem: "gran_search ov (priv\<lparr>exclsem := v\<rparr>) n m g a = gran_search ov priv n m g a"
proof (induction ov priv n m g a rule: gran_search.induct)
  case (1 ov priv n m g a)
  then show ?case
    by (subst (1 2) gran_search.simps)
      (simp add: gran_scan_sem gat_at_def Let_def split: option.split sum.split)
qed

lemma gran_mark_sem:
  "gran_mark_allocated (priv\<lparr>exclsem := v\<rparr>) a n = map_option (exclsem_update (\<lambda>_. v)) (gran_mark_allocated priv a n)"
  by (auto simp: gran_mark_allocated_def gat_at_def Let_def debugassert_def split: bind_splits)

lemma gran_clear_sem:
  "gran_clear (priv\<lparr>exclsem := v\<rparr>) g n = map_option (exclsem_update (\<lambda>_. v)) (gran_clear priv g n)"
  by (auto simp: gran_clear_def gat_at_def Let_def debugassert_def split: bind_splits)

lemma gran_count_sem [simp]: "gran_count (priv\<lparr>exclsem := v\<rparr>) = gran_count priv"
  by (simp add: gran_count_def fun_eq_iff)

lemma gran_alloc_steps:
  assumes ok: "gran_ok priv" and sz: "0 < unat sz" "unat sz \<le> 32 * 2 ^ log2gran priv"
    and n: "n = granules_for priv (unat sz)"
  shows "gran_common_alloc over priv sz = do {
      found \<leftarrow> gran_search over priv n (mask n) 0 (heapstart priv);
      case found of None \<Rightarrow> Some (0, priv)
      | Some a \<Rightarrow> map_option (\<lambda>p. (a, exclsem_update (\<lambda>_. 1) p)) (gran_mark_allocated priv a n)}"
proof -
  note c = gran_count [OF ok sz, folded n]
  have "sz > 0" using sz(1) by (simp add: word_less_nat_alt)
  moreover have "priv\<lparr>exclsem := 1\<rparr> = priv" using ok by (simp add: gran_ok_def)
  ultimately show ?thesis
    using ok c
    by (auto simp: gran_common_alloc_def debugassert_def gran_bits_mask gran_search_sem gran_mark_sem
        gran_leave_critical_def Let_def option.map_comp comp_def
        cong: option.case_cong split: bind_split option.split)
qed

lemma gran_free_steps:
  assumes ok: "gran_ok priv" and sz: "0 < unat sz" "unat sz \<le> 32 * 2 ^ log2gran priv" and a: "a \<noteq> 0"
  shows "gran_common_free priv a sz =
    map_option (exclsem_update (\<lambda>_. 1)) (gran_clear priv (granno priv a) (granules_for priv (unat sz)))"
  using ok a gran_count [OF ok sz]
  by (auto simp: gran_common_free_def debugassert_def gran_clear_sem gran_leave_critical_def granno_def [symmetric]
      Let_def split: bind_split)

lemma gran_same:
  assumes "gran_ok priv" "priv' = priv\<lparr>gat := gat priv'\<rparr>" "length (gat priv') = length (gat priv)"
  shows "gran_ok priv'" "priv'\<lparr>exclsem := 1\<rparr> = priv'" "log2gran priv' = log2gran priv" "ngranules priv' = ngranules priv"
    "heapstart priv' = heapstart priv" "granno priv' = granno priv" "granules_for priv' = granules_for priv"
proof -
  obtain ts where p: "priv' = priv\<lparr>gat := ts\<rparr>" using assms(2) by blast
  show "gran_ok priv'" "priv'\<lparr>exclsem := 1\<rparr> = priv'" "log2gran priv' = log2gran priv" "ngranules priv' = ngranules priv"
    "heapstart priv' = heapstart priv" "granno priv' = granno priv" "granules_for priv' = granules_for priv"
    using assms(1,3) by (simp_all add: p gran_ok_def granno_def granules_for_def fun_eq_iff)
qed

lemma gran_alloc_first:
  assumes ok: "gran_ok priv" and small: "ngranules priv \<le> 32" and sz: "0 < unat sz" "unat sz \<le> 32 * 2 ^ log2gran priv"
    and n: "n = granules_for priv (unat sz)"
  shows "\<exists>a priv'. gran_common_alloc over priv sz = Some (a, priv') \<and>
    priv' = priv\<lparr>gat := gat priv'\<rparr> \<and> length (gat priv') = length (gat priv) \<and>
    (a = 0 \<longrightarrow> priv' = priv \<and> (\<forall>g. \<not> free_at priv n g)) \<and>
    (a \<noteq> 0 \<longrightarrow> (\<exists>g. a = gran_addr priv g \<and> free_at priv n g \<and> (\<forall>g' < g. \<not> free_at priv n g') \<and>
       granules priv' = granules priv \<union> {g ..< g + n}))"
proof -
  note c = gran_count(2,3) [OF ok sz, folded n]
  note st = gran_alloc_steps [OF ok sz n, of over]
  show ?thesis
  proof (cases rule: gran_search_first_fit [OF ok small c(2,1), of over])
    case 1
    then show ?thesis using st by simp
  next
    case (2 g)
    have g: "g + n \<le> ngranules priv" "g + n \<le> 32 * length (gat priv)" "g < ngranules priv"
      using 2(2) ok c(1) by (auto simp: free_at_def gran_ok_def)
    from gran_mark_spec(1) [OF c g(2) gran_addr(2) [OF ok g(3)]] 2(2) obtain priv' where
      m: "gran_mark_allocated priv (gran_addr priv g) n = Some priv'" "priv' = priv\<lparr>gat := gat priv'\<rparr>"
      "length (gat priv') = length (gat priv)" "granules priv' = granules priv \<union> {g ..< g + n}"
      by (auto simp: free_at_def)
    have "gran_common_alloc over priv sz = Some (gran_addr priv g, priv')"
      using st 2(1) m(1) gran_same(2) [OF ok m(2,3)] by simp
    then show ?thesis using 2(2,3) m(2-4) gran_addr(3) [OF ok g(3)] by blast
  qed
qed

lemma gran_free_run:
  assumes ok: "gran_ok priv" and sz: "0 < unat sz" "unat sz \<le> 32 * 2 ^ log2gran priv"
    and n: "n = granules_for priv (unat sz)" and g: "g + n \<le> ngranules priv" "{g ..< g + n} \<subseteq> granules priv"
  shows "\<exists>priv'. gran_common_free priv (gran_addr priv g) sz = Some priv' \<and>
    priv' = priv\<lparr>gat := gat priv'\<rparr> \<and> length (gat priv') = length (gat priv) \<and> granules priv' = granules priv - {g ..< g + n}"
proof -
  note c = gran_count(2,3) [OF ok sz, folded n]
  have g': "g + n \<le> 32 * length (gat priv)" "g < ngranules priv" using g(1) ok c(1) by (auto simp: gran_ok_def)
  from gran_clear_spec(1) [OF c g'(1) g(2)] obtain priv' where
    m: "gran_clear priv g n = Some priv'" "priv' = priv\<lparr>gat := gat priv'\<rparr>"
    "length (gat priv') = length (gat priv)" "granules priv' = granules priv - {g ..< g + n}" by blast
  then show ?thesis
    using gran_free_steps [OF ok sz gran_addr(3) [OF ok g'(2)]] gran_addr(2) [OF ok g'(2)] n gran_same(2) [OF ok m(2,3)]
    by simp
qed

text \<open>A successful marking stayed inside the table.\<close>

lemma gran_mark_inside:
  assumes "gran_mark_allocated priv a n = Some priv'" "1 \<le> n" "n \<le> 32"
  shows "granno priv a + n \<le> 32 * length (gat priv)"
proof -
  define k b where "k = granno priv a div 32" and "b = granno priv a mod 32"
  have g: "granno priv a = 32 * k + b" "b < 32" by (simp_all add: k_def b_def)
  have "if n > 32 - b then k + 1 < length (gat priv) else k < length (gat priv)"
    using assms(1)
    by (auto simp: gran_mark_allocated_def gat_at_def granno_def [symmetric] k_def [symmetric] b_def [symmetric] Let_def
        split: if_splits bind_splits)
  then show ?thesis using g assms(3) by (simp split: if_splits)
qed

text \<open>The start of the run of a block held by a client.\<close>

definition gran_of :: "gran_s \<Rightarrow> addr \<Rightarrow> nat" where
  "gran_of priv p = (p - unat (heapstart priv)) div 2 ^ log2gran priv"

definition gran_held :: "gran_s \<Rightarrow> addr \<times> nat \<Rightarrow> bool" where
  "gran_held priv x \<longleftrightarrow> 0 < snd x \<and> snd x \<le> 32 * 2 ^ log2gran priv \<and>
     fst x = unat (heapstart priv) + gran_of priv (fst x) * 2 ^ log2gran priv \<and>
     gran_of priv (fst x) + granules_for priv (snd x) \<le> ngranules priv"

definition gran_run :: "gran_s \<Rightarrow> addr \<times> nat \<Rightarrow> nat set" where
  "gran_run priv x = {gran_of priv (fst x) ..< gran_of priv (fst x) + granules_for priv (snd x)}"

definition gran_repr :: "nat \<Rightarrow> gran_s \<Rightarrow> (addr \<times> nat) set \<Rightarrow> bool" where
  "gran_repr k priv B \<longleftrightarrow> gran_ok priv \<and> log2gran priv = k \<and> ngranules priv \<le> 32 \<and>
     (\<forall>x \<in> B. gran_held priv x \<and> gran_run priv x \<subseteq> granules priv \<and>
        (\<forall>y \<in> B. x \<noteq> y \<longrightarrow> gran_run priv x \<inter> gran_run priv y = {}))"

lemma gran_size:
  assumes "gran_ok priv" "0 < r" "r \<le> 32 * 2 ^ log2gran priv"
  shows "unat (of_nat r :: u32) = r"
proof -
  have "log2gran priv \<le> 25" using assms(1) by (simp add: gran_ok_def)
  then have "(2::nat) ^ log2gran priv \<le> 2 ^ 25" by (rule power_increasing) simp
  then have "r < 2 ^ 32" using assms(3) by simp
  then show ?thesis by (simp only: unat_of_nat) (simp add: take_bit_eq_mod)
qed

lemma gran_apart:
  assumes "gran_repr k priv B" "x \<in> B" "y \<in> B" "x \<noteq> y"
  shows "apart x y"
proof -
  let ?s = "2 ^ log2gran priv :: nat"
  have ok: "gran_ok priv" and h: "gran_held priv x" "gran_held priv y"
    and d: "gran_run priv x \<inter> gran_run priv y = {}" using assms by (auto simp: gran_repr_def)
  note d = d [unfolded gran_run_def]
  have sz: "snd z \<le> granules_for priv (snd z) * ?s" "1 \<le> granules_for priv (snd z)" if "gran_held priv z" for z
    using that gran_count(2,5) [OF ok, of "of_nat (snd z)"] gran_size [OF ok, of "snd z"] by (simp_all add: gran_held_def)
  have r: "gran_of priv (fst x) + granules_for priv (snd x) \<le> gran_of priv (fst y) \<or>
        gran_of priv (fst y) + granules_for priv (snd y) \<le> gran_of priv (fst x)"
    using d sz(2) [OF h(1)] sz(2) [OF h(2)] by auto
  have m: "a * ?s + r \<le> b * ?s" if "a + n \<le> b" "r \<le> n * ?s" for a b n r
  proof -
    have "(a + n) * ?s \<le> b * ?s" using that(1) by simp
    then show ?thesis using that(2) by (simp add: add_mult_distrib)
  qed
  have "fst x = unat (heapstart priv) + gran_of priv (fst x) * ?s"
    "fst y = unat (heapstart priv) + gran_of priv (fst y) * ?s" using h unfolding gran_held_def by blast+
  then have "fst x + snd x \<le> fst y \<or> fst y + snd y \<le> fst x"
    using r m [OF _ sz(1) [OF h(1)], of "gran_of priv (fst x)" "gran_of priv (fst y)"]
      m [OF _ sz(1) [OF h(2)], of "gran_of priv (fst y)" "gran_of priv (fst x)"] by linarith
  then show ?thesis by (simp add: apart_def)
qed

end
