(* ===== verification/MM_Gran_Props.thy ===== *)
theory MM_Gran_Props
  imports MM_Gran
begin

unbundle bit_operations_syntax

text \<open>
  The granule allocator as an instance of the allocator contract \<open>block_allocator\<close>, and the properties
  of the granule and page allocators.
\<close>

text \<open>The granule allocator keeps the allocator contract, on heaps of at most 32 granules.\<close>

abbreviation gran_malloc :: "u32 \<Rightarrow> nat \<Rightarrow> gran_s \<Rightarrow> (addr \<times> gran_s) option" where
  "gran_malloc over r priv \<equiv> map_option (apfst unat) (gran_common_alloc over priv (of_nat r))"

abbreviation gran_give :: "addr \<Rightarrow> nat \<Rightarrow> gran_s \<Rightarrow> gran_s option" where
  "gran_give p r priv \<equiv> gran_common_free priv (of_nat p) (of_nat r)"

lemma gran_held_same:
  assumes "gran_ok priv" "priv' = priv\<lparr>gat := gat priv'\<rparr>" "length (gat priv') = length (gat priv)"
  shows "gran_held priv' x = gran_held priv x" "gran_run priv' x = gran_run priv x"
  using gran_same [OF assms] by (simp_all add: gran_held_def gran_run_def gran_of_def)

lemma gran_repr_same:
  assumes "gran_repr k priv B" "priv' = priv\<lparr>gat := gat priv'\<rparr>" "length (gat priv') = length (gat priv)"
    "\<And>x. x \<in> C \<Longrightarrow> gran_held priv x \<and> gran_run priv x \<subseteq> granules priv'"
    "\<And>x y. x \<in> C \<Longrightarrow> y \<in> C \<Longrightarrow> x \<noteq> y \<Longrightarrow> gran_run priv x \<inter> gran_run priv y = {}"
  shows "gran_repr k priv' C"
proof -
  have ok: "gran_ok priv" "ngranules priv \<le> 32" "log2gran priv = k" using assms(1) unfolding gran_repr_def by blast+
  show ?thesis using ok(2,3) assms(4,5) unfolding gran_repr_def gran_same(3,4) [OF ok(1) assms(2,3)]
      gran_held_same [OF ok(1) assms(2,3)] by (simp add: gran_same(1) [OF ok(1) assms(2,3)])
qed

lemma gran_repr_runs:
  assumes "gran_repr k priv B" "x \<in> B"
  shows "gran_held priv x" "gran_run priv x \<subseteq> granules priv"
    "y \<in> B \<Longrightarrow> x \<noteq> y \<Longrightarrow> gran_run priv x \<inter> gran_run priv y = {}"
  using assms by (auto simp: gran_repr_def)

lemma gran_held_addr:
  assumes "gran_ok priv" "g < ngranules priv"
  shows "gran_of priv (unat (gran_addr priv g)) = g"
  using gran_addr(1) [OF assms] by (simp add: gran_of_def)

lemma gran_repr_alloc:
  assumes B: "gran_repr k priv B" and r: "0 < r \<and> r \<le> 32 * 2 ^ k"
  shows "\<exists>p priv'. gran_malloc over r priv = Some (p, priv') \<and>
    (p = NULL \<and> gran_repr k priv' B \<or> p \<noteq> NULL \<and> (p, r) \<notin> B \<and> gran_repr k priv' (insert (p, r) B))"
proof -
  have ok: "gran_ok priv" and small: "ngranules priv \<le> 32" and k: "log2gran priv = k"
    using B by (auto simp: gran_repr_def)
  have u: "unat (of_nat r :: u32) = r" using gran_size [OF ok, of r] r k by simp
  have s: "0 < unat (of_nat r :: u32)" "unat (of_nat r :: u32) \<le> 32 * 2 ^ log2gran priv" using r k u by auto
  note c = gran_count(2) [OF ok s, unfolded u]
  from gran_alloc_first [OF ok small s refl, of over, unfolded u] obtain a priv' where
    al: "gran_common_alloc over priv (of_nat r) = Some (a, priv')" "priv' = priv\<lparr>gat := gat priv'\<rparr>"
    "length (gat priv') = length (gat priv)"
    and z: "a = 0 \<longrightarrow> priv' = priv"
    and nz: "a \<noteq> 0 \<longrightarrow> (\<exists>g. a = gran_addr priv g \<and> free_at priv (granules_for priv r) g \<and>
       granules priv' = granules priv \<union> {g ..< g + granules_for priv r})" by blast
  show ?thesis
  proof (cases "a = 0")
    case True
    then show ?thesis using al(1) z B by auto
  next
    case False
    with nz obtain g where g: "a = gran_addr priv g" "free_at priv (granules_for priv r) g"
       "granules priv' = granules priv \<union> {g ..< g + granules_for priv r}" by blast
    have lt: "g < ngranules priv" using g(2) c by (simp add: free_at_def)
    have run: "gran_run priv (unat a, r) = {g ..< g + granules_for priv r}"
      using gran_held_addr [OF ok lt] by (simp add: g(1) gran_run_def)
    have held: "gran_held priv (unat a, r)"
      using gran_held_addr [OF ok lt] gran_addr(1) [OF ok lt] g(2) r k by (simp add: gran_held_def g(1) free_at_def)
    have new: "gran_run priv x \<inter> {g ..< g + granules_for priv r} = {}" if "x \<in> B" for x
      using B that g(2) unfolding gran_repr_def free_at_def by blast
    have "(unat a, r) \<notin> B" using new [of "(unat a, r)"] run c by auto
    moreover have "gran_repr k priv' (insert (unat a, r) B)"
    proof (rule gran_repr_same [OF B al(2,3)])
      show "gran_held priv x \<and> gran_run priv x \<subseteq> granules priv'" if "x \<in> insert (unat a, r) B" for x
        using that held run g(3) gran_repr_runs(1,2) [OF B, of x] by blast
      show "gran_run priv x \<inter> gran_run priv y = {}" if "x \<in> insert (unat a, r) B" "y \<in> insert (unat a, r) B" "x \<noteq> y" for x y
        using that run new [of x] new [of y] gran_repr_runs(3) [OF B, of x y] by blast
    qed
    moreover have "unat a \<noteq> 0" using False by (simp add: unat_eq_0)
    ultimately show ?thesis using al(1) by auto
  qed
qed

lemma gran_repr_free:
  assumes B: "gran_repr k priv B" and x: "(p, r) \<in> B"
  shows "\<exists>priv'. gran_give p r priv = Some priv' \<and> gran_repr k priv' (B - {(p, r)})"
proof -
  have ok: "gran_ok priv" and h: "gran_held priv (p, r)" and run: "gran_run priv (p, r) \<subseteq> granules priv"
    using B x unfolding gran_repr_def by blast+
  define g where "g = gran_of priv p"
  have h': "0 < r" "r \<le> 32 * 2 ^ log2gran priv" "p = unat (heapstart priv) + g * 2 ^ log2gran priv"
    "g + granules_for priv r \<le> ngranules priv" using h by (simp_all add: gran_held_def g_def)
  have u: "unat (of_nat r :: u32) = r" using gran_size [OF ok h'(1,2)] .
  have s: "0 < unat (of_nat r :: u32)" "unat (of_nat r :: u32) \<le> 32 * 2 ^ log2gran priv" using h' u by auto
  have a: "of_nat p = gran_addr priv g" using h'(3) by simp
  from gran_free_run [OF ok s refl, unfolded u, OF h'(4)] run obtain priv' where
    f: "gran_common_free priv (of_nat p) (of_nat r) = Some priv'" "priv' = priv\<lparr>gat := gat priv'\<rparr>"
    "length (gat priv') = length (gat priv)" "granules priv' = granules priv - gran_run priv (p, r)"
    unfolding a by (auto simp: g_def gran_run_def)
  have "gran_repr k priv' (B - {(p, r)})"
  proof (rule gran_repr_same [OF B f(2,3)])
    show "gran_held priv y \<and> gran_run priv y \<subseteq> granules priv'" if "y \<in> B - {(p, r)}" for y
      using that f(4) gran_repr_runs [OF B, of y] x by blast
    show "gran_run priv y \<inter> gran_run priv z = {}" if "y \<in> B - {(p, r)}" "z \<in> B - {(p, r)}" "y \<noteq> z" for y z
      using that gran_repr_runs(3) [OF B, of y z] by blast
  qed
  then show ?thesis using f(1) by blast
qed

interpretation gran: block_allocator "gran_repr k" "gran_malloc over" gran_give "\<lambda>r. 0 < r \<and> r \<le> 32 * 2 ^ k" for k over
  by unfold_locales (fact gran_apart gran_repr_alloc gran_repr_free)+

section \<open>Initialisation\<close>

lemma drop_bit_and_not_mask: "drop_bit k (w AND NOT (mask k)) = drop_bit k w" for w :: "'a::len word"
  by (rule bit_word_eqI) (auto simp: bit_simps dest: bit_imp_le_length)

lemma push_bit_mask: "push_bit k 1 - 1 = (mask k :: 'a::len word)"
  by (simp add: mask_eq_exp_minus_1)

lemma granules_init: "granules \<lparr>log2gran = l, ngranules = n, exclsem = e, heapstart = s, gat = replicate m 0\<rparr> = {}"
proof -
  have "i div 32 < m" if "i < 32 * m" for i using that by (simp add: div_less_iff_less_mult mult.commute)
  then show ?thesis by (auto simp: granules_def)
qed

section \<open>Properties\<close>

definition gran_demo :: gran_s where
  "gran_demo = \<lparr>log2gran = 4, ngranules = 20, exclsem = 1, heapstart = 0x1000, gat = [0x1b]\<rparr>"

lemma gran_demo: "gran_ok gran_demo" "ngranules gran_demo \<le> 32" "log2gran gran_demo = 4"
  by (simp_all add: gran_demo_def gran_ok_def)

text \<open>(C19) On a heap of at most 32 granules \<open>gran_alloc\<close> is first fit: it returns, it takes the lowest run
  of free granules that is long enough, marks exactly that run, and returns NULL only when there is
  none, whatever the word in memory after the table.\<close>

theorem gran_alloc_first_fit:
  assumes "gran_ok priv" "ngranules priv \<le> 32" "0 < unat sz" "unat sz \<le> 32 * 2 ^ log2gran priv"
    "n = granules_for priv (unat sz)"
  shows "\<exists>a priv'. gran_common_alloc over priv sz = Some (a, priv') \<and> gran_ok priv' \<and>
    (a = 0 \<longrightarrow> priv' = priv \<and> (\<forall>g. \<not> free_at priv n g)) \<and>
    (a \<noteq> 0 \<longrightarrow> (\<exists>g. unat a = unat (heapstart priv) + g * 2 ^ log2gran priv \<and> free_at priv n g \<and>
       (\<forall>g' < g. \<not> free_at priv n g') \<and> granules priv' = granules priv \<union> {g ..< g + n}))"
proof -
  obtain a priv' where al: "gran_common_alloc over priv sz = Some (a, priv')" "priv' = priv\<lparr>gat := gat priv'\<rparr>"
    "length (gat priv') = length (gat priv)" "a = 0 \<longrightarrow> priv' = priv \<and> (\<forall>g. \<not> free_at priv n g)"
    "a \<noteq> 0 \<longrightarrow> (\<exists>g. a = gran_addr priv g \<and> free_at priv n g \<and> (\<forall>g' < g. \<not> free_at priv n g') \<and>
       granules priv' = granules priv \<union> {g ..< g + n})"
    using gran_alloc_first [OF assms, of over] by blast
  have "g < ngranules priv" if "free_at priv n g" for g
    using that gran_count(2) [OF assms(1,3,4)] assms(5) by (simp add: free_at_def)
  then have "\<exists>g. unat a = unat (heapstart priv) + g * 2 ^ log2gran priv \<and> free_at priv n g \<and>
       (\<forall>g' < g. \<not> free_at priv n g') \<and> granules priv' = granules priv \<union> {g ..< g + n}" if "a \<noteq> 0"
    using al(5) that gran_addr(1) [OF assms(1)] by blast
  then show ?thesis using al(1,4) gran_same(1) [OF assms(1) al(2,3)] by blast
qed

theorem gran_alloc_first_fit_witness:
  "\<exists>a priv'. gran_common_alloc 0 gran_demo 40 = Some (a, priv') \<and> gran_ok priv'"
  using gran_alloc_first_fit [OF gran_demo(1,2), of 40 _ 0] by (auto simp: gran_demo_def)

text \<open>(C27) \<open>gran_free\<close> undoes \<open>gran_alloc\<close>, on a heap of any size: freeing the block that was just
  allocated gives back the same table.\<close>

theorem gran_alloc_free:
  assumes ok: "gran_ok priv" and sz: "0 < unat sz" "unat sz \<le> 32 * 2 ^ log2gran priv"
    and al: "gran_common_alloc over priv sz = Some (a, priv')" "a \<noteq> 0"
  shows "gran_common_free priv' a sz = Some priv"
proof -
  define n where "n = granules_for priv (unat sz)"
  note c = gran_count(2,3) [OF ok sz, folded n_def]
  from al gran_alloc_steps [OF ok sz n_def, of over] obtain q where
    q: "gran_mark_allocated priv a n = Some q" "priv' = exclsem_update (\<lambda>_. 1) q"
    by (auto split: bind_splits option.splits)
  note inside = gran_mark_inside [OF q(1) c]
  let ?run = "{granno priv a ..< granno priv a + n}"
  have d: "granules priv \<inter> ?run = {}" using gran_mark_spec(2) [OF c inside refl] q(1) by auto
  with gran_mark_spec(1) [OF c inside refl] q(1)
  have q': "q = priv\<lparr>gat := gat q\<rparr>" "length (gat q) = length (gat priv)" "granules q = granules priv \<union> ?run" by auto
  note same = gran_same [OF ok q'(1,2)]
  have p': "priv' = q" using q(2) same(2) by simp
  have "?run \<subseteq> granules q" using q'(3) by blast
  moreover have "granno priv a + n \<le> 32 * length (gat q)" using inside q'(2) by simp
  ultimately obtain p where p: "gran_clear q (granno priv a) n = Some p" "p = q\<lparr>gat := gat p\<rparr>"
    "length (gat p) = length (gat q)" "granules p = granules q - ?run" using gran_clear_spec(1) [OF c, of "granno priv a" q] by blast
  have "granules p = granules priv" using p(4) q'(3) d by blast
  then have "gat p = gat priv" using granules_inject [of p priv] p(3) q'(2) by simp
  then have "p = priv" using p(2) q'(1) by (metis gran_s.surjective gran_s.update_convs(5))
  then show ?thesis
    using p(1) gran_free_steps [OF same(1), of sz a] sz al(2) same(3,6,7) ok by (simp add: p' n_def gran_ok_def)
qed

theorem gran_alloc_free_witness:
  "\<exists>a priv'. gran_common_alloc 0 gran_demo 40 = Some (a, priv') \<and> gran_common_free priv' a 40 = Some gran_demo"
proof -
  have f: "free_at gran_demo (granules_for gran_demo 40) 5"
    by (auto simp: free_at_def granules_for_def gran_demo_def granules_def bit_numeral_rec bit_1_iff split: nat.splits)
  obtain a priv' where a: "gran_common_alloc 0 gran_demo 40 = Some (a, priv')" "a = 0 \<longrightarrow> (\<forall>g. \<not> free_at gran_demo (granules_for gran_demo 40) g)"
    using gran_alloc_first [OF gran_demo(1,2), of 40 _ 0] gran_demo(3) by auto
  then have "a \<noteq> 0" using f by blast
  then show ?thesis using gran_alloc_free [OF gran_demo(1) _ _ a(1)] gran_demo(3) a(1) by simp
qed

text \<open>(C20) A client that issues any sequence of \<open>gran_alloc\<close> and \<open>gran_free\<close> calls on a heap of at most
  32 granules is never stuck, and the blocks it holds never overlap. A request is for at most 32 granules, the limit that
  \<open>gran.h\<close> states.\<close>

theorem gran_client_safe:
  assumes "gran_ok priv" "ngranules priv \<le> 32" "\<forall>r. Alloc r \<in> set reqs \<longrightarrow> 0 < r \<and> r \<le> 32 * 2 ^ log2gran priv"
  shows "\<exists>priv' held. run_client (gran_malloc over) gran_give reqs priv [] = Some (priv', held) \<and> gran_ok priv' \<and>
    distinct held \<and> (\<forall>x \<in> set held. \<forall>y \<in> set held. x \<noteq> y \<longrightarrow> apart x y)"
proof -
  have "gran_repr (log2gran priv) priv (set [])" using assms(1,2) by (simp add: gran_repr_def)
  from gran.client_safe [OF this _ assms(3), of over] show ?thesis by (auto simp: gran_repr_def)
qed

theorem gran_client_safe_witness:
  "\<exists>priv' held. run_client (gran_malloc 0) gran_give [Alloc 40, Alloc 16, Free 1, Alloc 100] gran_demo [] =
     Some (priv', held) \<and> distinct held"
  using gran_client_safe [OF gran_demo(1,2), of "[Alloc 40, Alloc 16, Free 1, Alloc 100]" 0] gran_demo(3) by auto

text \<open>In a table of several words the search loses track of the address. The inner loop breaks as
  soon as its window of 32 granules is all in use, and leaves \<open>alloc\<close> where it is then; the outer loop
  continues at the next word from there.\<close>

lemma gran_shift_used:
  assumes "gran_shift cur (mask n) = Some s"
  shows "s = 1 \<or> s < 32 \<and> 0 < s \<and> (\<forall>k < s. bit cur k)"
proof -
  have m: "(0xffff :: u32) = mask 16" "(0xff :: u32) = mask 8" "(0xf :: u32) = mask 4" "(3 :: u32) = mask 2"
    by (simp_all add: mask_numeral)
  show ?thesis
    using assms unfolding gran_shift_def m and_mask_all by (simp split: if_splits)
qed

lemma gran_scan_break:
  assumes n: "n \<le> 32" "1 \<le> n" and nb: "b < 32" "g + b + n \<le> ngranules priv"
  shows "b0 \<le> b \<Longrightarrow> b0 < b \<longrightarrow> \<not> seen c nx (b - 1 - b0) \<Longrightarrow> \<forall>i < 32. seen c nx (b - b0 + i) \<Longrightarrow>
    \<forall>k < b - b0. \<not> free_run c nx n k \<Longrightarrow>
    gran_scan priv n (mask n) g b0 alloc c nx = Inr (alloc + of_nat ((b - b0) * 2 ^ log2gran priv))"
proof (induction "32 - b0" arbitrary: b0 alloc c nx rule: less_induct)
  case less
  have run: "b0 < 32 \<and> g + b0 + n \<le> ngranules priv" using less.prems(1) nb by simp
  show ?case
  proof (cases "b0 = b")
    case True
    have "bit c i" if "i < 32" for i using less.prems(3) True that by (auto simp: seen_def)
    then have "c = 0xffffffff" unfolding all_ones by (intro bit_word_eqI) simp
    then show ?thesis using run True by (simp add: gran_scan.simps [of priv n "mask n" g b])
  next
    case False
    then have lt: "b0 < b" using less.prems(1) by simp
    have clr: "\<not> bit c (b - 1 - b0)" using less.prems(2) lt nb(1) by (auto simp: seen_def split: if_splits)
    then have ne: "c \<noteq> 0xffffffff" using nb(1) unfolding all_ones by auto
    obtain s where Some: "gran_shift c (mask n) = Some s"
      using free_run_here [OF n, of c nx] less.prems(4) [rule_format, of 0] lt by (cases "gran_shift c (mask n)") auto
    note st = free_run_step [OF n Some]
    have s: "s < 32" "0 < s" using gran_shift_spec(2) [OF n Some] by auto
    have le: "s \<le> b - b0" "s = b - b0 \<or> s \<le> b - 1 - b0"
      using gran_shift_used [OF Some] clr lt by (auto simp: not_less [symmetric])
    let ?c = "drop_bit s c OR push_bit (32 - s) nx" and ?nx = "drop_bit s nx"
    have "gran_scan priv n (mask n) g (b0 + s) (alloc + push_bit (log2gran priv) (of_nat s)) ?c ?nx =
      Inr (alloc + push_bit (log2gran priv) (of_nat s) + of_nat ((b - (b0 + s)) * 2 ^ log2gran priv))"
    proof (rule less.hyps)
      show "32 - (b0 + s) < 32 - b0" using s run by arith
      show "b0 + s \<le> b" using le lt by simp
      show "b0 + s < b \<longrightarrow> \<not> seen ?c ?nx (b - 1 - (b0 + s))"
        using le less.prems(2) lt by (auto simp: seen_shift [OF s])
      show "\<forall>i < 32. seen ?c ?nx (b - (b0 + s) + i)"
      proof (intro allI impI)
        fix i :: nat assume "i < 32"
        then have "seen c nx (b - b0 + i)" using less.prems(3) by simp
        moreover have "b - b0 + i = b - (b0 + s) + i + s" using le lt by simp
        ultimately show "seen ?c ?nx (b - (b0 + s) + i)" by (simp only: seen_shift [OF s])
      qed
      show "\<forall>k < b - (b0 + s). \<not> free_run ?c ?nx n k" using less.prems(4) unfolding st(3) by simp
    qed
    moreover have "s + (b - (b0 + s)) = b - b0" using le lt by simp
    then have "of_nat s * 2 ^ log2gran priv + of_nat (b - (b0 + s)) * 2 ^ log2gran priv =
      (of_nat (b - b0) * 2 ^ log2gran priv :: u32)"
      by (metis distrib_right of_nat_add)
    ultimately show ?thesis using run ne Some
      by (simp add: gran_scan.simps [of priv n "mask n" g b0] push_bit_eq_mult add.assoc mult.commute)
  qed
qed

lemma seen_granules:
  assumes "i < 64" "32 * k + i < 32 * length (gat priv)"
  shows "seen (gat priv ! k) (case gat_at priv (Suc k) of None \<Rightarrow> over | Some w \<Rightarrow> w) i = (32 * k + i \<in> granules priv)"
proof (cases "i < 32")
  case True
  then show ?thesis using assms by (simp add: seen_def granules_def)
next
  case False
  then have "Suc k < length (gat priv)" "(32 * k + i) div 32 = Suc k" "(32 * k + i) mod 32 = i - 32"
    using assms by (auto simp: le_mod_geq)
  then show ?thesis using assms False by (simp add: seen_def granules_def gat_at_def)
qed

lemma free_run_free_at_word:
  assumes "gran_ok priv" "n \<le> 32" "i < 32" "32 * k + i + n \<le> ngranules priv"
  shows "free_run (gat priv ! k) (case gat_at priv (Suc k) of None \<Rightarrow> over | Some w \<Rightarrow> w) n i = free_at priv n (32 * k + i)"
proof -
  have "seen (gat priv ! k) (case gat_at priv (Suc k) of None \<Rightarrow> over | Some w \<Rightarrow> w) (i + j) = (32 * k + i + j \<in> granules priv)"
    if "j < n" for j
    using that assms seen_granules [of "i + j" k priv over] by (auto simp: gran_ok_def add.assoc)
  then have "free_run (gat priv ! k) (case gat_at priv (Suc k) of None \<Rightarrow> over | Some w \<Rightarrow> w) n i =
    (\<forall>j < n. 32 * k + i + j \<notin> granules priv)" by (simp add: free_run_def)
  also have "\<dots> = free_at priv n (32 * k + i)"
    using assms(4) by (auto simp: free_at_def) (metis le_add_diff_inverse nat_add_left_cancel_less)
  finally show ?thesis .
qed

text \<open>The search of a table whose first word has its last free granule just below \<open>b\<close>, with the 32
  granules from \<open>b\<close> on in use, and whose first run of \<open>n\<close> free granules is \<open>g\<close>, in the second word.\<close>

lemma gran_search_astray:
  assumes ok: "gran_ok priv" and n: "1 \<le> n" "n \<le> 32"
    and b: "1 \<le> b" "b < 32" "b - 1 \<notin> granules priv" "{b ..< b + 32} \<subseteq> granules priv"
    and g: "free_at priv n g" "\<forall>g' < g. \<not> free_at priv n g'" "32 \<le> g" "g < 64"
  shows "b + 32 \<le> g" "gran_search over priv n (mask n) 0 (heapstart priv) = Some (Some (gran_addr priv (g - 32 + b)))"
proof -
  have gn: "g + n \<le> ngranules priv" and gf: "g \<notin> granules priv" using g(1) n by (auto simp: free_at_def)
  have len: "ngranules priv \<le> 32 * length (gat priv)" using ok by (simp add: gran_ok_def)
  then have at: "gat_at priv 0 = Some (gat priv ! 0)" "gat_at priv (Suc 0) = Some (gat priv ! 1)"
    using gn g(3) n by (auto simp: gat_at_def)
  let ?nx = "\<lambda>k. case gat_at priv (Suc k) of None \<Rightarrow> over | Some w \<Rightarrow> w"
  show bg: "b + 32 \<le> g"
    using gf b(2,4) g(3) by (meson atLeastLessThan_iff less_imp_le_nat not_le_imp_less order_less_le_trans subsetD)
  have w: "seen (gat priv ! k) (?nx k) i = (32 * k + i \<in> granules priv)" if "i < 64" "32 * k + i < ngranules priv" for k i
    using that len by (intro seen_granules) simp_all
  have f: "free_run (gat priv ! k) (?nx k) n i = free_at priv n (32 * k + i)" if "i < 32" "32 * k + i + n \<le> ngranules priv" for k i
    using that ok n by (intro free_run_free_at_word) simp_all
  have "gran_scan priv n (mask n) 0 0 (heapstart priv) (gat priv ! 0) (?nx 0) = Inr (heapstart priv + of_nat ((b - 0) * 2 ^ log2gran priv))"
  proof (rule gran_scan_break [OF n(2,1) b(2)])
    show "0 + b + n \<le> ngranules priv" using bg gn by simp
    show "0 < b \<longrightarrow> \<not> seen (gat priv ! 0) (?nx 0) (b - 1 - 0)" using w [of "b - 1" 0] b bg gn by simp
    show "\<forall>i < 32. seen (gat priv ! 0) (?nx 0) (b - 0 + i)"
    proof (intro allI impI)
      fix i :: nat assume i: "i < 32"
      then have "b + i \<in> granules priv" using b(4) by auto
      then show "seen (gat priv ! 0) (?nx 0) (b - 0 + i)" using w [of "b + i" 0] i b(2) bg gn n by simp
    qed
    show "\<forall>k < b - 0. \<not> free_run (gat priv ! 0) (?nx 0) n k" using f [of _ 0] g(2) b(2) bg gn by simp
  qed simp
  then have s0: "gran_scan priv n (mask n) 0 0 (heapstart priv) (gat priv ! 0) (gat priv ! 1) = Inr (gran_addr priv b)"
    using at(2) by simp
  have b0: "\<not> bit (gat priv ! 0) (b - 1)" using w [of "b - 1" 0] b(1-3) bg gn by (simp add: seen_def less_imp_diff_less)
  then have n0: "gat priv ! 0 \<noteq> 0xffffffff" using b(2) unfolding all_ones by auto
  have "g - 32 < 32" "32 * 1 + (g - 32) < ngranules priv" using g(3,4) gn n by simp_all
  then have b1: "\<not> bit (gat priv ! 1) (g - 32)" using w [of "g - 32" 1] gf g(3) by (simp add: seen_def)
  then have n1: "gat priv ! 1 \<noteq> 0xffffffff" using g(3,4) unfolding all_ones by auto
  let ?r = "gran_scan priv n (mask n) 32 0 (gran_addr priv b) (gat priv ! 1) (?nx 1)"
  have "?r = Inl (gran_addr priv (g - 32 + b))"
  proof (cases ?r)
    case (Inl a)
    from gran_scan_found [OF n(2,1) Inl] obtain k where k: "k < 32" "32 + k + n \<le> ngranules priv"
      "a = gran_addr priv b + of_nat (k * 2 ^ log2gran priv)" "free_run (gat priv ! 1) (?nx 1) n k"
      "\<forall>k' < k. \<not> free_run (gat priv ! 1) (?nx 1) n k'" by auto
    have "free_at priv n (32 + k)" using f [of k 1] k by simp
    then have "\<not> 32 + k < g" using g(2) by blast
    moreover have "\<not> g - 32 < k"
      using k(5) \<open>g - 32 < 32\<close> f [of "g - 32" 1] g(1,3) gn by auto
    ultimately have "k = g - 32" using g(3) by simp
    then show ?thesis using Inl k(3) by (simp add: algebra_simps)
  next
    case (Inr a)
    have "free_run (gat priv ! 1) (?nx 1) n (g - 32)" using \<open>g - 32 < 32\<close> f [of "g - 32" 1] g(1,3) gn by simp
    then show ?thesis using gran_scan_none [OF n(2,1) Inr, of "g - 32"] \<open>g - 32 < 32\<close> g(3) gn by simp
  qed
  then have "gran_search over priv n (mask n) 32 (gran_addr priv b) = Some (Some (gran_addr priv (g - 32 + b)))"
    using at n1 gn g(3) n by (subst gran_search.simps) (simp add: Let_def numeral_2_eq_2)
  then show "gran_search over priv n (mask n) 0 (heapstart priv) = Some (Some (gran_addr priv (g - 32 + b)))"
    using at n0 s0 gn g(3) n by (subst gran_search.simps) (simp add: Let_def)
qed

definition gran_two :: gran_s where
  "gran_two = \<lparr>log2gran = 4, ngranules = 64, exclsem = 1, heapstart = 0x1000, gat = [0xfffffffe, 0x0000ffff]\<rparr>"

text \<open>(C37) With a table of several words the search loses track of the address. Take any table in which
  granule \<open>b - 1\<close> of the first word is free and the 32 granules from \<open>b\<close> on are in use, and in which the
  first run of \<open>n\<close> free granules, as many as the request takes, starts at granule \<open>g\<close> of the second word.
  The search then returns the address of granule \<open>g - 32 + b\<close>, \<open>32 - b\<close> granules too low: that granule is
  in use, and the request ends in the failing assertion of \<open>gran_mark_allocated\<close> although \<open>n\<close> free
  granules exist.\<close>

theorem gran_alloc_two_words:
  assumes "gran_ok priv" "0 < unat sz" "unat sz \<le> 32 * 2 ^ log2gran priv" "n = granules_for priv (unat sz)"
    "1 \<le> b" "b < 32" "b - 1 \<notin> granules priv" "{b ..< b + 32} \<subseteq> granules priv"
    "free_at priv n g" "\<forall>g' < g. \<not> free_at priv n g'" "32 \<le> g" "g < 64"
  shows "gran_search over priv n (mask n) 0 (heapstart priv) = Some (Some (gran_addr priv (g - 32 + b))) \<and>
    g - 32 + b \<in> granules priv \<and> gran_common_alloc over priv sz = None"
proof -
  note c = gran_count [OF assms(1-3)]
  have n: "1 \<le> n" "n \<le> 32" using c(2,3) assms(4) by simp_all
  note s = gran_search_astray [OF assms(1) n assms(5-12)]
  let ?x = "g - 32 + b"
  have gn: "g + n \<le> ngranules priv" "ngranules priv \<le> 32 * length (gat priv)"
    using assms(1,9) by (simp_all add: free_at_def gran_ok_def)
  have "?x \<in> {b ..< b + 32}" using assms(11,12) by auto
  then have x: "?x \<in> granules priv" using assms(8) by blast
  moreover have "?x < ngranules priv" "?x + n \<le> 32 * length (gat priv)" using gn assms(6,11) n by auto
  ultimately have "gran_mark_allocated priv (gran_addr priv ?x) n = None"
    using gran_addr(2) [OF assms(1), of ?x] n by (intro gran_mark_spec(2)) auto
  with gran_alloc_steps [OF assms(1-4), of over] s(2) [of over] x show ?thesis by simp
qed

lemma gran_two:
  "gran_ok gran_two" "granules_for gran_two 32 = 2" "0 \<notin> granules gran_two" "{1 ..< 33} \<subseteq> granules gran_two"
  "free_at gran_two 2 48" "\<forall>g < 48. \<not> free_at gran_two 2 g"
proof -
  have b0: "bit (0xfffffffe :: u32) i = (0 < i \<and> i < 32)" for i
  proof -
    have "(0xfffffffe :: u32) = NOT 1" by simp
    then show ?thesis by (simp only: bit_not_iff) (auto simp: bit_simps)
  qed
  have b1: "bit (0xffff :: u32) i = (i < 16)" for i
  proof -
    have "(0xffff :: u32) = mask 16" by (simp add: mask_numeral)
    then show ?thesis by (simp only: bit_mask_iff) auto
  qed
  have gs: "granules gran_two = {1 ..< 48}"
  proof (rule set_eqI)
    fix i :: nat
    have "i < 64 \<Longrightarrow> i div 32 = (if i < 32 then 0 else 1)" "i < 64 \<Longrightarrow> i mod 32 = (if i < 32 then i else i - 32)"
      by (auto simp: div_nat_eqI le_mod_geq)
    then show "i \<in> granules gran_two \<longleftrightarrow> i \<in> {1 ..< 48}"
      by (cases "i < 64") (auto simp: granules_def gran_two_def b0 b1 simp del: bit_numeral_word_iff)
  qed
  show "gran_ok gran_two" by (simp add: gran_two_def gran_ok_def)
  show "granules_for gran_two 32 = 2" by (simp add: granules_for_def gran_two_def)
  show "0 \<notin> granules gran_two" "{1 ..< 33} \<subseteq> granules gran_two" by (auto simp: gs)
  have n: "ngranules gran_two = 64" by (simp add: gran_two_def)
  show "free_at gran_two 2 48" by (auto simp: free_at_def gs n)
  show "\<forall>g < 48. \<not> free_at gran_two 2 g"
  proof (intro allI impI notI)
    fix g :: nat assume "g < 48" "free_at gran_two 2 g"
    moreover have "Suc g \<in> {g ..< g + 2}" "g \<in> {g ..< g + 2}" by simp_all
    ultimately have "g \<notin> {1 ..< 48}" "Suc g \<notin> {1 ..< 48}" unfolding free_at_def gs by blast+
    with \<open>g < 48\<close> show False by auto
  qed
qed

theorem gran_alloc_two_words_witness:
  "gran_search 0 gran_two 2 (mask 2) 0 (heapstart gran_two) = Some (Some 0x1110) \<and> 17 \<in> granules gran_two \<and>
   free_at gran_two 2 48 \<and> gran_common_alloc 0 gran_two 32 = None"
proof -
  have "0 < unat (32 :: u32)" "unat (32 :: u32) \<le> 32 * 2 ^ log2gran gran_two" "2 = granules_for gran_two (unat (32 :: u32))"
    "1 - 1 \<notin> granules gran_two" "{1 ..< 1 + 32} \<subseteq> granules gran_two"
    using gran_two by (simp_all add: gran_two_def [THEN arg_cong, of log2gran])
  from gran_alloc_two_words [OF gran_two(1) this(1-3) _ _ this(4,5) gran_two(5,6), of 0]
  have "gran_search 0 gran_two 2 (mask 2) 0 (heapstart gran_two) = Some (Some (gran_addr gran_two 17)) \<and>
    17 \<in> granules gran_two \<and> gran_common_alloc 0 gran_two 32 = None" by simp
  moreover have "gran_addr gran_two 17 = 0x1110" by (simp add: gran_two_def)
  ultimately show ?thesis using gran_two(5) by simp
qed

text \<open>\<open>gran_initialize\<close> sets up an allocator whose granules are all free, aligned, and as many as fit
  in the memory it was given.\<close>

lemma gran_initialize_correct:
  assumes "start \<noteq> 0" "2 ^ l2a \<le> unat heapsize" "unat start + unat heapsize < 2 ^ 32"
    "unat heapsize < 2 ^ 16 * 2 ^ l2g" "0 < l2g" "l2g \<le> 25" "l2a \<le> l2g"
  shows "\<exists>priv. gran_common_initialize True start heapsize l2g l2a = Some (Some priv) \<and> gran_ok priv \<and>
    granules priv = {} \<and> log2gran priv = l2g \<and> 2 ^ l2a dvd unat (heapstart priv) \<and> unat start \<le> unat (heapstart priv) \<and>
    unat (heapstart priv) + ngranules priv * 2 ^ l2g \<le> unat start + unat heapsize \<and>
    unat start + unat heapsize < unat (heapstart priv) + (ngranules priv + 1) * 2 ^ l2g"
proof -
  define s h a g where "s = unat start" and "h = unat heapsize" and "a = (2 ^ l2a :: nat)" and "g = (2 ^ l2g :: nat)"
  define as where "as = (start + mask l2a) AND NOT (mask l2a)"
  define ng where "ng = drop_bit l2g (start + heapsize - as)"
  have pos: "0 < a" "0 < g" "0 < s" using assms(1) by (simp_all add: a_def g_def s_def unat_gt_0)
  have le: "a \<le> h" "s + h < 2 ^ 32" "h < 2 ^ 16 * g" using assms by (simp_all add: s_def h_def a_def g_def)
  have "unat (mask l2a :: u32) = a - 1"
    using assms(6,7) by (simp add: mask_eq_exp_minus_1 unat_sub word_le_nat_alt unat_pow2 a_def)
  then have "unat (start + mask l2a) = s + (a - 1)" using le pos by (subst unat_add_nowrap) (simp_all add: s_def)
  then have as: "unat as = (s + (a - 1)) div a * a" by (simp add: as_def unat_and_not_mask a_def)
  have as': "unat as \<le> s + (a - 1)" "s + (a - 1) < unat as + a"
    unfolding as using pos(1) by (simp, metis add.commute dividend_less_div_times)
  have "unat (start + heapsize) = s + h" using le by (subst unat_add_nowrap) (simp_all add: s_def h_def)
  moreover have "unat as \<le> s + h" using as'(1) le(1) by linarith
  ultimately have "unat (start + heapsize - as) = s + h - unat as" by (subst unat_sub) (simp_all add: word_le_nat_alt)
  then have ng: "unat ng = (s + h - unat as) div g" by (simp add: ng_def unat_drop_bit_div g_def del: drop_bit_eq_div)
  have ng': "unat ng * g \<le> s + h - unat as" "s + h - unat as < (unat ng + 1) * g"
    unfolding ng using pos(2) by (simp, metis Suc_eq_plus1 div_less_iff_less_mult lessI)
  have "unat ng * g < 2 ^ 16 * g" using ng'(1) as'(2) le(3) pos by linarith
  then have small: "unat ng < 2 ^ 16" by simp
  have "unat (ng + 31) = unat ng + 31" using small by (subst unat_add_nowrap) simp_all
  then have gat: "unat (SIZEOF_GAT ng) = (unat ng + 31) div 32"
    by (simp add: SIZEOF_GAT_def unat_drop_bit_div)
  let ?p = "\<lparr>log2gran = l2g, ngranules = unat ng, exclsem = 1, heapstart = as, gat = replicate (unat (SIZEOF_GAT ng)) 0\<rparr>"
  have "0 < heapsize" using pos(1) le(1) by (simp add: h_def word_less_nat_alt)
  then have "gran_common_initialize True start heapsize l2g l2a = Some (Some ?p)"
    using assms(1,5-7) small
    unfolding gran_common_initialize_def Let_def push_bit_mask drop_bit_and_not_mask as_def [symmetric] ng_def [symmetric]
    by (simp add: debugassert_def)
  moreover have "gran_ok ?p"
  proof -
    have "unat ng \<le> 32 * ((unat ng + 31) div 32)" by linarith
    moreover have "as \<noteq> 0" using as'(2) pos(1,3) by (auto simp: unat_eq_0 [symmetric])
    moreover have "unat as + unat ng * g \<le> 2 ^ 32" using ng'(1) le(2) \<open>unat as \<le> s + h\<close> by linarith
    ultimately show ?thesis using assms(5,6) by (simp add: gran_ok_def gat g_def)
  qed
  moreover have "s \<le> unat as" "a dvd unat as" using as'(2) as pos(1) by simp_all
  moreover have "unat as + unat ng * g \<le> s + h" "s + h < unat as + (unat ng + 1) * g"
    using ng' \<open>unat as \<le> s + h\<close> by linarith+
  ultimately show ?thesis using granules_init by (auto simp: s_def h_def a_def g_def)
qed

lemma gran_initialize_correct_witness:
  "\<exists>priv. gran_common_initialize True 0x1004 0x400 6 4 = Some (Some priv) \<and> gran_ok priv \<and> granules priv = {}"
  using gran_initialize_correct [of "0x1004" 4 "0x400" 6] by auto

text \<open>\<open>mm_pgalloc\<close> ignores the number of pages: on a fresh page heap a request of two or more pages
  takes one page only, and releasing them with \<open>mm_pgfree\<close> fails its assertion.\<close>

lemma mm_pgalloc_one_page:
  assumes ok: "gran_ok pg" and pg: "log2gran pg = MM_PGSHIFT" "granules pg = {}" "ngranules pg \<le> 32"
    and n: "2 \<le> unat npages" "unat npages \<le> ngranules pg"
  shows "\<exists>a pg'. mm_pgalloc over pg npages = Some (a, pg') \<and> a = heapstart pg \<and> granules pg' = {0} \<and>
    mm_pgfree pg' a npages = None"
proof -
  have one: "push_bit MM_PGSHIFT 1 = (0x1000 :: u32)" by (simp add: MM_PGSHIFT_def)
  have g1: "granules_for pg (unat (0x1000 :: u32)) = 1" "0 < unat (0x1000 :: u32)" "unat (0x1000 :: u32) \<le> 32 * 2 ^ log2gran pg"
    by (simp_all add: granules_for_def pg MM_PGSHIFT_def)
  have f: "free_at pg 1 g \<longleftrightarrow> g < ngranules pg" for g by (auto simp: free_at_def pg)
  obtain a pg' where al: "gran_common_alloc over pg 0x1000 = Some (a, pg')" "pg' = pg\<lparr>gat := gat pg'\<rparr>" "length (gat pg') = length (gat pg)"
    "a = 0 \<longrightarrow> (\<forall>g. \<not> free_at pg 1 g)"
    "a \<noteq> 0 \<longrightarrow> (\<exists>g. a = gran_addr pg g \<and> (\<forall>g' < g. \<not> free_at pg 1 g') \<and> granules pg' = granules pg \<union> {g ..< g + 1})"
    using gran_alloc_first [OF ok pg(3) g1(2,3) refl, of over, unfolded g1(1)] by blast
  have f0: "free_at pg 1 0" using n f by simp
  then have "a \<noteq> 0" using al(4) by blast
  with al(5) obtain g where g: "a = gran_addr pg g" "\<forall>g' < g. \<not> free_at pg 1 g'" "granules pg' = granules pg \<union> {g ..< g + 1}"
    by blast
  have "g = 0" using g(2) f0 by blast
  then have a: "a = heapstart pg" "granules pg' = {0}" using g pg(2) by auto
  note same = gran_same [OF ok al(2,3)]
  note twelve = MM_PGSHIFT_def
  let ?sz = "push_bit 12 npages"
  have np: "unat npages \<le> 32" using n(2) pg(3) by simp
  have sz: "unat ?sz = unat npages * 2 ^ 12"
    using np by (simp add: push_bit_eq_mult unat_word_ariths)
  have cnt: "granules_for pg' (unat ?sz) = unat npages" by (simp add: sz granules_for_def same pg twelve)
  have "granno pg' a = 0" by (simp add: granno_def a same)
  moreover have "1 \<in> {0 ..< 0 + unat npages}" "1 \<notin> granules pg'" using n(1) by (simp_all add: a(2))
  then have "\<not> {0 ..< 0 + unat npages} \<subseteq> granules pg'" by blast
  moreover have "0 + unat npages \<le> 32 * length (gat pg')" using n(2) ok al(3) by (simp add: gran_ok_def)
  ultimately have "gran_clear pg' (granno pg' a) (unat npages) = None"
    using gran_clear_spec(2) [where n = "unat npages" and g = 0 and priv = pg'] n np by simp
  then have "gran_common_free pg' a ?sz = None"
    using gran_free_steps [OF same(1), of ?sz a] n np \<open>a \<noteq> 0\<close> sz cnt same(3) pg(1) by (simp add: MM_PGSHIFT_def)
  then show ?thesis using al(1) a unfolding mm_pgalloc_def mm_pgfree_def one by (simp add: twelve)
qed

definition pg_demo :: gran_s where
  "pg_demo = \<lparr>log2gran = 12, ngranules = 8, exclsem = 1, heapstart = 0x10000, gat = [0]\<rparr>"

lemma mm_pgalloc_one_page_witness:
  "\<exists>a pg'. mm_pgalloc 0 pg_demo 2 = Some (a, pg') \<and> mm_pgfree pg' a 2 = None"
proof -
  have "granules pg_demo = {}" by (auto simp: granules_def pg_demo_def)
  then show ?thesis
    using mm_pgalloc_one_page [of pg_demo 2 0] by (auto simp: pg_demo_def gran_ok_def MM_PGSHIFT_def)
qed

text \<open>\<open>gran_reserve\<close> of \<open>k\<close> whole granules takes \<open>k + 1\<close>: the granule after the region is lost.\<close>

lemma gran_reserve_one_more:
  assumes ok: "gran_ok priv" and al: "2 ^ log2gran priv dvd unat (heapstart priv)"
    and k: "1 \<le> k" "k < 32" "g + k < ngranules priv" and f: "granules priv \<inter> {g ..< g + k + 1} = {}"
  shows "\<exists>priv'. gran_common_reserve priv (gran_addr priv g) (of_nat (k * 2 ^ log2gran priv)) = Some priv' \<and>
    granules priv' = granules priv \<union> {g ..< g + k + 1}"
proof -
  define l where "l = log2gran priv"
  have l: "l \<le> 25" "1 \<le> l" using ok by (simp_all add: gran_ok_def l_def)
  have gk: "g < ngranules priv" "g + k < ngranules priv" using k by auto
  have dv: "2 ^ l dvd unat (gran_addr priv x)" if "x < ngranules priv" for x
    using al unfolding gran_addr(1) [OF ok that] by (simp add: l_def)
  have p: "2 \<le> (2 :: nat) ^ l" using l(2) self_le_power [of 2 l] by simp
  have "unat (mask l :: u32) = 2 ^ l - 1"
    using l(1) by (simp add: mask_eq_exp_minus_1 unat_sub word_le_nat_alt unat_pow2)
  then have m: "unat (mask l - 1 :: u32) = 2 ^ l - 2"
    using p by (subst unat_sub) (simp_all add: word_le_nat_alt)
  have start: "gran_addr priv g AND NOT (mask l) = gran_addr priv g"
    using dv [OF gk(1)] by (simp only: word_unat_eq_iff unat_and_not_mask dvd_div_mult_self)
  have "unat (gran_addr priv (g + k)) + 2 ^ l \<le> 2 ^ 32"
  proof -
    have "(g + k + 1) * 2 ^ l \<le> ngranules priv * 2 ^ l" using gk(2) by (intro mult_le_mono1) simp
    then show ?thesis using ok unfolding gran_addr(1) [OF ok gk(2)] by (simp add: gran_ok_def l_def algebra_simps)
  qed
  then have "unat (gran_addr priv (g + k) + (mask l - 1)) = unat (gran_addr priv (g + k)) + (2 ^ l - 2)"
    using p m unat_add_nowrap [of "gran_addr priv (g + k)" "mask l - 1"] by (simp del: of_nat_mult of_nat_add)
  moreover have "(x + r) div 2 ^ l * 2 ^ l = x" if "2 ^ l dvd x" "r < 2 ^ l" for x r :: nat
    using that by (auto elim!: dvdE)
  ultimately have last: "(gran_addr priv (g + k) + (mask l - 1)) AND NOT (mask l) = gran_addr priv (g + k)"
    using dv [OF gk(2)] p by (simp only: word_unat_eq_iff unat_and_not_mask)
  have kl: "k * 2 ^ l < 2 ^ 32"
  proof -
    have "(2 :: nat) ^ l \<le> 2 ^ 25" using l(1) by (intro power_increasing) auto
    then have "k * 2 ^ l \<le> 31 * 2 ^ 25" using k(2) by (intro mult_le_mono) auto
    then show ?thesis by simp
  qed
  then have ukl: "unat (of_nat (k * 2 ^ l) :: u32) = k * 2 ^ l"
    by (simp only: unat_of_nat) (simp add: take_bit_eq_mod)
  have "gran_addr priv (g + k) - gran_addr priv g = of_nat (k * 2 ^ l)" by (simp add: l_def algebra_simps)
  then have "unat (drop_bit l (gran_addr priv (g + k) - gran_addr priv g)) = k"
    using ukl by (simp add: unat_drop_bit_div del: of_nat_mult)
  then have cnt: "unat (drop_bit l (gran_addr priv (g + k) - gran_addr priv g) + 1) = k + 1"
    using k(2) by (subst unat_add_nowrap) simp_all
  have e: "gran_addr priv g + of_nat (k * 2 ^ l) - 1 + mask l = gran_addr priv (g + k) + (mask l - 1)"
    by (simp add: l_def algebra_simps)
  have "0 < (of_nat (k * 2 ^ l) :: u32)" using ukl k(1) by (simp only: word_less_nat_alt) simp
  then have "gran_common_reserve priv (gran_addr priv g) (of_nat (k * 2 ^ l)) =
      gran_mark_allocated priv (gran_addr priv g) (k + 1)"
    unfolding gran_common_reserve_def Let_def push_bit_mask l_def e [unfolded l_def] start [unfolded l_def]
      last [unfolded l_def] cnt [unfolded l_def] by simp
  moreover have "g + (k + 1) \<le> 32 * length (gat priv)" using k(3) ok by (simp add: gran_ok_def)
  then have "\<exists>priv'. gran_mark_allocated priv (gran_addr priv g) (k + 1) = Some priv' \<and> granules priv' = granules priv \<union> {g ..< g + (k + 1)}"
    using gran_mark_spec(1) [of "k + 1" g priv "gran_addr priv g"] k(2) f gran_addr(2) [OF ok gk(1)] by auto
  ultimately show ?thesis by (simp add: l_def)
qed

lemma gran_reserve_one_more_witness:
  "\<exists>pg. gran_common_reserve pg_demo 0x11000 0x1000 = Some pg \<and> granules pg = {1, 2}"
proof -
  have z: "granules pg_demo = {}" by (auto simp: granules_def pg_demo_def)
  have e: "{1 ..< 1 + 1 + 1} = {1, 2 :: nat}" by auto
  show ?thesis
    using gran_reserve_one_more [of pg_demo 1 1] unfolding z e by (simp add: pg_demo_def gran_ok_def)
qed

end
