(* ===== verification/Wdog.thy ===== *)
theory Wdog
  imports Queue
begin

unbundle bit_operations_syntax

text \<open>
  The watchdog timers of \<open>os/kernel/wdog\<close> (without \<open>CONFIG_SCHED_TICKLESS\<close>). The active list and the
  free list are sequences of watchdog addresses, as the queue operations keep them (theory \<open>Queue\<close>);
  the fields of a watchdog are functions of its address. The active list stores each delay as the
  difference to the one before; \<open>timers\<close> gives the absolute expiry times, and every operation is shown
  to implement its counterpart on that sorted list. Watchdog functions are client code: a parameter
  \<open>call\<close> of the timer. \<open>False\<close> is the return value \<open>ERROR\<close>, \<open>None\<close> a failed assertion.
\<close>

section \<open>State\<close>

definition CONFIG_PREALLOC_WDOGS :: nat where "CONFIG_PREALLOC_WDOGS = 32"
definition CONFIG_WDOG_INTRESERVE :: nat where "CONFIG_WDOG_INTRESERVE = 4"
definition CONFIG_MAX_WDOGPARMS :: nat where "CONFIG_MAX_WDOGPARMS = 4"
definition WDOGF_ACTIVE :: u8 where "WDOGF_ACTIVE = 1"
definition WDOGF_ALLOCED :: u8 where "WDOGF_ALLOCED = 2"
definition WDOGF_STATIC :: u8 where "WDOGF_STATIC = 4"

record wd_state =
  wfunc :: "addr \<Rightarrow> addr"
  lag :: "addr \<Rightarrow> int"
  wflags :: "addr \<Rightarrow> u8"
  wargc :: "addr \<Rightarrow> nat"
  wparm :: "addr \<Rightarrow> u32 list"
  g_wdactivelist :: "addr list"
  g_wdfreelist :: "addr list"
  g_wdnfree :: nat
  irq_off :: bool
  kfreed :: "addr list"

definition WDOG_ISACTIVE :: "'a wd_state_scheme \<Rightarrow> addr \<Rightarrow> bool" where
  "WDOG_ISACTIVE s w \<longleftrightarrow> wflags s w AND WDOGF_ACTIVE \<noteq> 0"

definition WDOG_ISALLOCED :: "'a wd_state_scheme \<Rightarrow> addr \<Rightarrow> bool" where
  "WDOG_ISALLOCED s w \<longleftrightarrow> wflags s w AND WDOGF_ALLOCED \<noteq> 0"

definition WDOG_ISSTATIC :: "'a wd_state_scheme \<Rightarrow> addr \<Rightarrow> bool" where
  "WDOG_ISSTATIC s w \<longleftrightarrow> wflags s w AND WDOGF_STATIC \<noteq> 0"

definition WDOG_SETACTIVE :: "addr \<Rightarrow> 'a wd_state_scheme \<Rightarrow> 'a wd_state_scheme" where
  "WDOG_SETACTIVE w s = s\<lparr>wflags := (wflags s)(w := wflags s w OR WDOGF_ACTIVE)\<rparr>"

definition WDOG_CLRACTIVE :: "addr \<Rightarrow> 'a wd_state_scheme \<Rightarrow> 'a wd_state_scheme" where
  "WDOG_CLRACTIVE w s = s\<lparr>wflags := (wflags s)(w := wflags s w AND NOT WDOGF_ACTIVE)\<rparr>"

abbreviation set_lag :: "addr \<Rightarrow> int \<Rightarrow> 'a wd_state_scheme \<Rightarrow> 'a wd_state_scheme" where
  "set_lag w v s \<equiv> s\<lparr>lag := (lag s)(w := v)\<rparr>"

section \<open>Creation and deletion (wd_initialize.c, wd_create.c, wd_delete.c)\<close>

text \<open>\<open>pool\<close> is the address of \<open>g_wdpool\<close>; a watchdog structure has 32 bytes.\<close>

definition wd_initialize :: "addr \<Rightarrow> 'a wd_state_scheme \<Rightarrow> 'a wd_state_scheme" where
  "wd_initialize pool s =
     (let s = s\<lparr>g_wdfreelist := []\<rparr>;
          s = s\<lparr>g_wdactivelist := []\<rparr>;
          s = fold (\<lambda>i s. s\<lparr>g_wdfreelist := g_wdfreelist s @ [pool + 32 * i]\<rparr>) [0 ..< CONFIG_PREALLOC_WDOGS] s
      in s\<lparr>g_wdnfree := CONFIG_PREALLOC_WDOGS\<rparr>)"

text \<open>\<open>mem\<close> is what \<open>kmm_malloc\<close> returns. An empty free list gives NULL.\<close>

definition wd_create :: "bool \<Rightarrow> addr \<Rightarrow> 'a wd_state_scheme \<Rightarrow> (addr \<times> 'a wd_state_scheme) option" where
  "wd_create in_irq mem s = do {
     let state = irq_off s;
     let s = s\<lparr>irq_off := True\<rparr>;
     if g_wdnfree s > CONFIG_WDOG_INTRESERVE \<or> in_irq then do {
       let wdog = hd (g_wdfreelist s @ [NULL]);
       let s = s\<lparr>g_wdfreelist := tl (g_wdfreelist s)\<rparr>;
       debugassert (g_wdnfree s > 0);
       let s = s\<lparr>g_wdnfree := g_wdnfree s - 1\<rparr>;
       let s = s\<lparr>irq_off := state\<rparr>;
       Some (wdog, if wdog \<noteq> NULL then s\<lparr>wflags := (wflags s)(wdog := 0)\<rparr> else s)
     } else do {
       let s = s\<lparr>irq_off := state\<rparr>;
       let wdog = mem;
       Some (wdog, if wdog \<noteq> NULL then s\<lparr>wflags := (wflags s)(wdog := WDOGF_ALLOCED)\<rparr> else s)
     }
   }"

section \<open>Cancellation (wd_cancel.c)\<close>

text \<open>The search of \<open>wd_cancel\<close>: the watchdogs before \<open>w\<close>, and the list from \<open>w\<close> on.\<close>

fun wd_find :: "addr \<Rightarrow> addr list \<Rightarrow> addr list \<Rightarrow> addr list \<times> addr list" where
  "wd_find w prev [] = (prev, [])"
| "wd_find w prev (cur # rest) =
     (if cur \<noteq> w then wd_find w (prev @ [cur]) rest else (prev, cur # rest))"

definition wd_cancel :: "addr \<Rightarrow> 'a wd_state_scheme \<Rightarrow> (bool \<times> 'a wd_state_scheme) option" where
  "wd_cancel w s = do {
     let state = irq_off s;
     let s = s\<lparr>irq_off := True\<rparr>;
     if w \<noteq> NULL \<and> WDOG_ISACTIVE s w then do {
       let (prev, curs) = wd_find w [] (g_wdactivelist s);
       debugassert (curs \<noteq> []);
       let rest = tl curs;
       let s = (if rest \<noteq> [] then set_lag (hd rest) (s32 (lag s (hd rest) + lag s w)) s else s);
       let s = s\<lparr>g_wdactivelist := prev @ rest\<rparr>;
       let s = WDOG_CLRACTIVE w s;
       Some (True, s\<lparr>irq_off := state\<rparr>)
     } else Some (False, s\<lparr>irq_off := state\<rparr>)
   }"

text \<open>A heap-allocated watchdog goes to \<open>sched_kfree\<close>, recorded in \<open>kfreed\<close>.\<close>

definition wd_delete :: "addr \<Rightarrow> 'a wd_state_scheme \<Rightarrow> 'a wd_state_scheme option" where
  "wd_delete w s = do {
     debugassert (w \<noteq> NULL);
     let state = irq_off s;
     let s = s\<lparr>irq_off := True\<rparr>;
     s \<leftarrow> (if WDOG_ISACTIVE s w then map_option snd (wd_cancel w s) else Some s);
     if WDOG_ISALLOCED s w then Some (s\<lparr>irq_off := state, kfreed := kfreed s @ [w]\<rparr>)
     else if \<not> WDOG_ISSTATIC s w then do {
       let s = s\<lparr>g_wdfreelist := g_wdfreelist s @ [w]\<rparr>;
       let s = s\<lparr>g_wdnfree := g_wdnfree s + 1\<rparr>;
       debugassert (g_wdnfree s \<le> CONFIG_PREALLOC_WDOGS);
       Some (s\<lparr>irq_off := state\<rparr>)
     } else Some s
   }"

text \<open>\<open>wd_recover\<close> on the \<open>waitdog\<close> field of a TCB; returns the new field.\<close>

definition wd_recover :: "addr \<Rightarrow> 'a wd_state_scheme \<Rightarrow> (addr \<times> 'a wd_state_scheme) option" where
  "wd_recover waitdog s = do {
     let flags = irq_off s;
     let s = s\<lparr>irq_off := True\<rparr>;
     (waitdog, s) \<leftarrow> (if waitdog \<noteq> NULL then do {
         (_, s) \<leftarrow> wd_cancel waitdog s;
         s \<leftarrow> wd_delete waitdog s;
         Some (NULL, s)
       } else Some (waitdog, s));
     Some (waitdog, s\<lparr>irq_off := flags\<rparr>)
   }"

section \<open>Starting and expiry (wd_start.c)\<close>

text \<open>The two loops of \<open>wd_start\<close>. The arguments are the watchdogs before \<open>curr\<close>, \<open>curr\<close>, the
  watchdogs after it, and \<open>now\<close>.\<close>

fun wd_skip_neg :: "(addr \<Rightarrow> int) \<Rightarrow> addr list \<Rightarrow> addr \<Rightarrow> addr list \<Rightarrow> int \<Rightarrow> addr list \<times> addr \<times> addr list \<times> int" where
  "wd_skip_neg lg before cur [] now = (before, cur, [], s32 (now + lg cur))"
| "wd_skip_neg lg before cur (nxt # rest) now =
     (let now = s32 (now + lg cur)
      in if now < 0 then wd_skip_neg lg (before @ [cur]) nxt rest now
         else (before, cur, nxt # rest, now))"

fun wd_skip_le :: "(addr \<Rightarrow> int) \<Rightarrow> int \<Rightarrow> addr list \<Rightarrow> addr \<Rightarrow> addr list \<Rightarrow> int \<Rightarrow> addr list \<times> addr \<times> addr list \<times> int" where
  "wd_skip_le lg delay before cur [] now = (before, cur, [], now)"
| "wd_skip_le lg delay before cur (nxt # rest) now =
     (if now \<le> delay then wd_skip_le lg delay (before @ [cur]) nxt rest (s32 (now + lg nxt))
      else (before, cur, nxt # rest, now))"

definition wd_insert :: "addr \<Rightarrow> int \<Rightarrow> 'a wd_state_scheme \<Rightarrow> int \<times> 'a wd_state_scheme" where
  "wd_insert w delay s =
     (case g_wdactivelist s of
        [] \<Rightarrow> (delay, s\<lparr>g_wdactivelist := [w]\<rparr>)
      | first # others \<Rightarrow>
          (let (before, cur, rest, now) = wd_skip_neg (lag s) [] first others 0;
               (before, cur, rest, now) = wd_skip_le (lag s) delay before cur rest now
           in if delay < now then
                (let delay = s32 (delay - s32 (now - lag s cur));
                     s = set_lag cur (s32 (lag s cur - delay)) s
                 in (delay, s\<lparr>g_wdactivelist := before @ w # cur # rest\<rparr>))
              else
                (let delay = s32 (delay - now)
                 in if rest = [] then (delay, s\<lparr>g_wdactivelist := before @ [cur, w]\<rparr>)
                    else (let s = set_lag (hd rest) (s32 (lag s (hd rest) - delay)) s
                          in (delay, s\<lparr>g_wdactivelist := before @ cur # w # rest\<rparr>)))))"

definition wd_start :: "addr \<Rightarrow> int \<Rightarrow> addr \<Rightarrow> int \<Rightarrow> u32 list \<Rightarrow> 'a wd_state_scheme \<Rightarrow> (bool \<times> 'a wd_state_scheme) option" where
  "wd_start w delay wdentry argc args s =
     (if w = NULL \<or> argc > int CONFIG_MAX_WDOGPARMS \<or> delay < 0 then Some (False, s)
      else do {
        let state = irq_off s;
        let s = s\<lparr>irq_off := True\<rparr>;
        s \<leftarrow> (if WDOG_ISACTIVE s w then map_option snd (wd_cancel w s) else Some s);
        let s = s\<lparr>wfunc := (wfunc s)(w := wdentry)\<rparr>;
        let s = s\<lparr>wargc := (wargc s)(w := nat (argc mod 256))\<rparr>;
        let s = s\<lparr>wparm := (wparm s)(w := take (nat argc) args @ replicate (CONFIG_MAX_WDOGPARMS - nat argc) 0)\<rparr>;
        let delay = (if delay \<le> 0 then 1
                     else if s32 (delay + 1) \<le> 0 then s32 (s32 (delay + 1) - 1) else s32 (delay + 1));
        let (delay, s) = wd_insert w delay s;
        let s = set_lag w delay s;
        let s = WDOG_SETACTIVE w s;
        Some (True, s\<lparr>irq_off := state\<rparr>)
      })"

text \<open>\<open>call\<close> runs a watchdog function on its arguments; it may start and cancel watchdogs.\<close>

partial_function (option) wd_expire_loop ::
  "(addr \<Rightarrow> u32 list \<Rightarrow> 'a wd_state_scheme \<Rightarrow> 'a wd_state_scheme option) \<Rightarrow> 'a wd_state_scheme \<Rightarrow> 'a wd_state_scheme option" where
  "wd_expire_loop call s =
     (case g_wdactivelist s of
        [] \<Rightarrow> Some s
      | w # rest \<Rightarrow>
          (if lag s w \<le> 0 then do {
             let s = s\<lparr>g_wdactivelist := rest\<rparr>;
             let s = (if rest \<noteq> [] then set_lag (hd rest) (s32 (lag s (hd rest) + lag s w)) s else s);
             let s = WDOG_CLRACTIVE w s;
             debugassert (wargc s w \<le> CONFIG_MAX_WDOGPARMS);
             s \<leftarrow> call (wfunc s w) (take (wargc s w) (wparm s w)) s;
             wd_expire_loop call s
           } else Some s))"

definition wd_expiration ::
  "(addr \<Rightarrow> u32 list \<Rightarrow> 'a wd_state_scheme \<Rightarrow> 'a wd_state_scheme option) \<Rightarrow> 'a wd_state_scheme \<Rightarrow> 'a wd_state_scheme option" where
  "wd_expiration call s =
     (if lag s (hd (g_wdactivelist s)) \<le> 0 then wd_expire_loop call s else Some s)"

definition wd_timer ::
  "(addr \<Rightarrow> u32 list \<Rightarrow> 'a wd_state_scheme \<Rightarrow> 'a wd_state_scheme option) \<Rightarrow> 'a wd_state_scheme \<Rightarrow> 'a wd_state_scheme option" where
  "wd_timer call s =
     (case g_wdactivelist s of
        [] \<Rightarrow> Some s
      | w # _ \<Rightarrow> wd_expiration call (set_lag w (s32 (lag s w - 1)) s))"

text \<open>The accumulation of \<open>wd_gettime\<close> (wd_gettime.c).\<close>

fun wd_lag_upto :: "(addr \<Rightarrow> int) \<Rightarrow> addr \<Rightarrow> int \<Rightarrow> addr list \<Rightarrow> int" where
  "wd_lag_upto lg w delay [] = 0"
| "wd_lag_upto lg w delay (cur # rest) =
     (let delay = s32 (delay + lg cur) in if cur = w then delay else wd_lag_upto lg w delay rest)"

definition wd_gettime :: "addr \<Rightarrow> 'a wd_state_scheme \<Rightarrow> int" where
  "wd_gettime w s =
     (if w \<noteq> NULL \<and> WDOG_ISACTIVE s w then wd_lag_upto (lag s) w 0 (g_wdactivelist s) else 0)"

section \<open>Expiry times\<close>

text \<open>The list stores each delay relative to the one before; \<open>due\<close> gives the ticks until each watchdog
  expires.\<close>

fun due :: "(addr \<Rightarrow> int) \<Rightarrow> int \<Rightarrow> addr list \<Rightarrow> (addr \<times> int) list" where
  "due lg now [] = []"
| "due lg now (w # ws) = (w, now + lg w) # due lg (now + lg w) ws"

abbreviation lags :: "(addr \<Rightarrow> int) \<Rightarrow> addr list \<Rightarrow> int" where
  "lags lg ws \<equiv> sum_list (map lg ws)"

lemma due_append [simp]: "due lg now (us @ vs) = due lg now us @ due lg (now + lags lg us) vs"
  by (induction us arbitrary: now) (simp_all add: add.assoc)

lemma fst_due [simp]: "map fst (due lg now ws) = ws"
  by (induction ws arbitrary: now) auto

lemma due_cong: "(\<And>w. w \<in> set ws \<Longrightarrow> lg w = lg' w) \<Longrightarrow> due lg now ws = due lg' now ws"
  by (induction ws arbitrary: now) auto

lemma due_upd [simp]: "w \<notin> set ws \<Longrightarrow> due (lg(w := v)) now ws = due lg now ws"
  by (rule due_cong) auto

lemma lags_upd [simp]: "w \<notin> set ws \<Longrightarrow> map (lg(w := v)) ws = map lg ws"
  by auto

lemma lags_nonneg: "\<forall>w \<in> set ws. 0 \<le> lg w \<Longrightarrow> 0 \<le> lags lg ws"
  by (induction ws) auto

lemma due_bounds:
  "\<forall>w \<in> set ws. 0 \<le> lg w \<Longrightarrow> (w, e) \<in> set (due lg now ws) \<Longrightarrow> now \<le> e \<and> e \<le> now + lags lg ws"
proof (induction ws arbitrary: now)
  case (Cons v ws)
  then show ?case using lags_nonneg [of ws lg] by fastforce
qed simp

lemma due_sorted: "\<forall>w \<in> set ws. 0 \<le> lg w \<Longrightarrow> sorted_wrt (\<lambda>x y. snd x \<le> snd y) (due lg now ws)"
proof (induction ws arbitrary: now)
  case (Cons v ws)
  then show ?case using due_bounds [of ws lg _ _ "now + lg v"] by fastforce
qed simp

definition timers :: "'a wd_state_scheme \<Rightarrow> (addr \<times> int) list" where
  "timers s = due (lag s) 0 (g_wdactivelist s)"

definition wd_wf :: "'a wd_state_scheme \<Rightarrow> bool" where
  "wd_wf s \<longleftrightarrow> distinct (g_wdactivelist s @ g_wdfreelist s) \<and> NULL \<notin> set (g_wdactivelist s @ g_wdfreelist s) \<and>
     (\<forall>w \<in> set (g_wdactivelist s). 0 \<le> lag s w) \<and> lags (lag s) (g_wdactivelist s) < 2 ^ 31 \<and>
     (\<forall>w. WDOG_ISACTIVE s w \<longleftrightarrow> w \<in> set (g_wdactivelist s)) \<and>
     (\<forall>w \<in> set (g_wdactivelist s). wargc s w \<le> CONFIG_MAX_WDOGPARMS) \<and>
     g_wdnfree s = length (g_wdfreelist s) \<and> length (g_wdfreelist s) \<le> CONFIG_PREALLOC_WDOGS"

text \<open>What is called when a watchdog expires: its function and arguments.\<close>

definition wd_call :: "'a wd_state_scheme \<Rightarrow> addr \<Rightarrow> addr \<times> u32 list" where
  "wd_call s w = (wfunc s w, take (wargc s w) (wparm s w))"

section \<open>Flags\<close>

lemma active_bit: "WDOG_ISACTIVE s w \<longleftrightarrow> bit (wflags s w) 0"
  by (simp add: WDOG_ISACTIVE_def WDOGF_ACTIVE_def and_one_eq bit_0 mod_2_eq_odd)

lemma active_flag [simp]:
  "WDOG_ISACTIVE (WDOG_SETACTIVE w s) v \<longleftrightarrow> v = w \<or> WDOG_ISACTIVE s v"
  "WDOG_ISACTIVE (WDOG_CLRACTIVE w s) v \<longleftrightarrow> v \<noteq> w \<and> WDOG_ISACTIVE s v"
  by (auto simp: active_bit WDOG_SETACTIVE_def WDOG_CLRACTIVE_def WDOGF_ACTIVE_def bit_simps)

lemma flag_frame [simp]:
  "lag (WDOG_SETACTIVE w s) = lag s" "lag (WDOG_CLRACTIVE w s) = lag s"
  "g_wdactivelist (WDOG_SETACTIVE w s) = g_wdactivelist s" "g_wdactivelist (WDOG_CLRACTIVE w s) = g_wdactivelist s"
  "g_wdfreelist (WDOG_SETACTIVE w s) = g_wdfreelist s" "g_wdfreelist (WDOG_CLRACTIVE w s) = g_wdfreelist s"
  "g_wdnfree (WDOG_SETACTIVE w s) = g_wdnfree s" "g_wdnfree (WDOG_CLRACTIVE w s) = g_wdnfree s"
  "wargc (WDOG_SETACTIVE w s) = wargc s" "wargc (WDOG_CLRACTIVE w s) = wargc s"
  "wparm (WDOG_SETACTIVE w s) = wparm s" "wparm (WDOG_CLRACTIVE w s) = wparm s"
  "wfunc (WDOG_SETACTIVE w s) = wfunc s" "wfunc (WDOG_CLRACTIVE w s) = wfunc s"
  "irq_off (WDOG_SETACTIVE w s) = irq_off s" "irq_off (WDOG_CLRACTIVE w s) = irq_off s"
  "wd_state.more (WDOG_SETACTIVE w s) = wd_state.more s" "wd_state.more (WDOG_CLRACTIVE w s) = wd_state.more s"
  by (simp_all add: WDOG_SETACTIVE_def WDOG_CLRACTIVE_def)

lemma active_frame [simp]:
  "WDOG_ISACTIVE (s\<lparr>irq_off := b\<rparr>) = WDOG_ISACTIVE s"
  "WDOG_ISACTIVE (s\<lparr>g_wdactivelist := ws\<rparr>) = WDOG_ISACTIVE s"
  "WDOG_ISACTIVE (s\<lparr>lag := l\<rparr>) = WDOG_ISACTIVE s"
  "WDOG_ISACTIVE (s\<lparr>wfunc := f\<rparr>) = WDOG_ISACTIVE s"
  "WDOG_ISACTIVE (s\<lparr>wargc := n\<rparr>) = WDOG_ISACTIVE s"
  "WDOG_ISACTIVE (s\<lparr>wparm := p\<rparr>) = WDOG_ISACTIVE s"
  "WDOG_ISACTIVE (s\<lparr>g_wdfreelist := ws\<rparr>) = WDOG_ISACTIVE s"
  "WDOG_ISACTIVE (s\<lparr>g_wdnfree := k\<rparr>) = WDOG_ISACTIVE s"
  by (simp_all add: WDOG_ISACTIVE_def fun_eq_iff)

section \<open>Cancellation\<close>

lemma wd_find_spec: "w \<notin> set us \<Longrightarrow> wd_find w prev (us @ w # vs) = (prev @ us, w # vs)"
  by (induction us arbitrary: prev) auto

lemma lags_mid:
  assumes "\<forall>w \<in> set (us @ vs). 0 \<le> lg w"
  shows "0 \<le> lags lg us" "0 \<le> lags lg vs"
  using assms lags_nonneg by auto

lemma wd_cancel_spec:
  assumes wf: "wd_wf s" and w: "w \<in> set (g_wdactivelist s)"
  shows "\<exists>s'. wd_cancel w s = Some (True, s') \<and> wd_wf s' \<and> timers s' = filter (\<lambda>x. fst x \<noteq> w) (timers s) \<and>
    g_wdfreelist s' = g_wdfreelist s \<and> g_wdactivelist s' = filter (\<lambda>x. x \<noteq> w) (g_wdactivelist s) \<and>
    irq_off s' = irq_off s \<and> wd_state.more s' = wd_state.more s \<and> wd_call s' = wd_call s"
proof -
  obtain us vs where act: "g_wdactivelist s = us @ w # vs" and nus: "w \<notin> set us"
    using w by (auto dest: split_list_first)
  have d: "distinct (us @ w # vs)" "w \<noteq> NULL" "WDOG_ISACTIVE s w" and nn: "\<forall>x \<in> set (us @ w # vs). 0 \<le> lag s x"
    and b: "lags (lag s) (us @ w # vs) < 2 ^ 31" using wf act by (auto simp: wd_wf_def)
  have "\<forall>x \<in> set us. x \<noteq> w" "\<forall>x \<in> set vs. x \<noteq> w" using d(1) by auto
  then have f: "filter (\<lambda>x. x \<noteq> w) (us @ w # vs) = us @ vs" by simp
  have fd: "filter (\<lambda>x. fst x \<noteq> w) (due lg n ws) = due lg n ws" if "w \<notin> set ws" for lg n ws
    using that by (induction ws arbitrary: n) auto
  show ?thesis
  proof (cases vs)
    case Nil
    then show ?thesis using wf d act nus f fd
      by (auto simp: wd_cancel_def wd_find_spec [of w us "[]" "[]", simplified] debugassert_def wd_wf_def timers_def Let_def
          wd_call_def fun_eq_iff)
  next
    case (Cons v vs')
    have nv: "0 \<le> lag s v" "0 \<le> lag s w" "0 \<le> lags (lag s) us" "0 \<le> lags (lag s) vs'"
      using nn lags_nonneg [of us "lag s"] lags_nonneg [of vs' "lag s"] by (auto simp: Cons)
    have sm: "s32 (lag s v + lag s w) = lag s v + lag s w" using nv b by (intro s32_id) (auto simp: Cons)
    have e: "wd_cancel w s = Some (True, (WDOG_CLRACTIVE w (s\<lparr>irq_off := True, lag := (lag s)(v := lag s v + lag s w),
        g_wdactivelist := us @ v # vs'\<rparr>))\<lparr>irq_off := irq_off s\<rparr>)" (is "_ = Some (True, ?s)")
      using d act nus wd_find_spec [OF nus, of "[]" vs] sm by (simp add: wd_cancel_def debugassert_def Cons Let_def)
    moreover have "timers ?s = filter (\<lambda>x. fst x \<noteq> w) (timers s)"
      using d act nus fd by (auto simp: timers_def Cons add_ac)
    moreover have "wd_wf ?s" using wf d act nus nn b nv by (auto simp: wd_wf_def Cons)
    ultimately show ?thesis using f act by (auto simp: Cons wd_call_def fun_eq_iff)
  qed
qed

section \<open>Starting\<close>

lemma wd_skip_neg_nonneg: "0 \<le> lg c \<Longrightarrow> lg c < 2 ^ 31 \<Longrightarrow> wd_skip_neg lg [] c vs 0 = ([], c, vs, lg c)"
  by (cases vs) (simp_all add: s32_id)

abbreviation passed :: "int \<Rightarrow> addr \<times> int \<Rightarrow> bool" where
  "passed d x \<equiv> snd x \<le> d"

lemma wd_skip_le_spec:
  assumes "\<forall>x \<in> set (us @ c # vs). 0 \<le> lg x" "lags lg (us @ c # vs) < 2 ^ 31"
    "\<forall>x \<in> set (due lg 0 us). passed d x"
  obtains us' c' vs' where "wd_skip_le lg d us c vs (lags lg us + lg c) = (us', c', vs', lags lg us' + lg c')"
    "us' @ c' # vs' = us @ c # vs" "\<forall>x \<in> set (due lg 0 us'). passed d x" "vs' = [] \<or> d < lags lg us' + lg c'"
proof -
  have "\<exists>us' c' vs'. wd_skip_le lg d us c vs (lags lg us + lg c) = (us', c', vs', lags lg us' + lg c') \<and>
    us' @ c' # vs' = us @ c # vs \<and> (\<forall>x \<in> set (due lg 0 us'). passed d x) \<and> (vs' = [] \<or> d < lags lg us' + lg c')"
    using assms
  proof (induction vs arbitrary: us c)
    case Nil
    then show ?case by simp
  next
    case (Cons v vs)
    show ?case
    proof (cases "lags lg us + lg c \<le> d")
      case True
      have "0 \<le> lags lg us" "0 \<le> lags lg vs" "0 \<le> lg c" "0 \<le> lg v"
        using Cons.prems(1) lags_nonneg [of us lg] lags_nonneg [of vs lg] by auto
      then have "s32 (lags lg us + lg c + lg v) = lags lg us + lg c + lg v"
        using Cons.prems(2) by (intro s32_id) auto
      then show ?thesis using Cons.IH [of "us @ [c]" v] Cons.prems True by (simp add: add.assoc)
    next
      case False
      then show ?thesis using Cons.prems by auto
    qed
  qed
  with that show ?thesis by blast
qed

lemma wd_insert_spec:
  assumes wf: "wd_wf s" and w: "w \<notin> set (g_wdactivelist s)" and d: "0 \<le> delay" "delay < 2 ^ 31"
  obtains d' lg ws where "wd_insert w delay s = (d', s\<lparr>lag := lg, g_wdactivelist := ws\<rparr>)"
    "due (lg(w := d')) 0 ws = walk_insert (passed delay) (w, delay) (timers s)" "0 \<le> d'"
    "\<forall>x \<in> set (g_wdactivelist s). 0 \<le> lg x" "lags (lg(w := d')) ws < 2 ^ 31" "distinct ws" "set ws = insert w (set (g_wdactivelist s))"
proof -
  have nn: "\<forall>x \<in> set (g_wdactivelist s). 0 \<le> lag s x" and b: "lags (lag s) (g_wdactivelist s) < 2 ^ 31"
    and dist: "distinct (g_wdactivelist s)" using wf by (auto simp: wd_wf_def)
  show thesis
  proof (cases "g_wdactivelist s")
    case Nil
    then show thesis using that [of delay "[w]" "lag s"] d by (simp add: wd_insert_def timers_def)
  next
    case (Cons c vs)
    have cl: "0 \<le> lag s c" "lag s c < 2 ^ 31"
      using nn b lags_nonneg [of vs "lag s"] by (auto simp: Cons)
    obtain us' c' vs' where k: "wd_skip_le (lag s) delay [] c vs (lag s c) = (us', c', vs', lags (lag s) us' + lag s c')"
      "us' @ c' # vs' = c # vs" "\<forall>x \<in> set (due (lag s) 0 us'). passed delay x" "vs' = [] \<or> delay < lags (lag s) us' + lag s c'"
      using wd_skip_le_spec [of "[]" c vs "lag s" delay] nn b by (auto simp: Cons)
    define now where "now = lags (lag s) us' + lag s c'"
    have act: "g_wdactivelist s = us' @ c' # vs'" using k(2) Cons by simp
    have e: "wd_insert w delay s = (if delay < now then
        (let delay = s32 (delay - s32 (now - lag s c')); s = set_lag c' (s32 (lag s c' - delay)) s
         in (delay, s\<lparr>g_wdactivelist := us' @ w # c' # vs'\<rparr>))
      else (let delay = s32 (delay - now) in if vs' = [] then (delay, s\<lparr>g_wdactivelist := us' @ [c', w]\<rparr>)
        else (let s = set_lag (hd vs') (s32 (lag s (hd vs') - delay)) s in (delay, s\<lparr>g_wdactivelist := us' @ c' # w # vs'\<rparr>))))"
      using k(1) wd_skip_neg_nonneg [of "lag s" c vs, OF cl] by (simp add: wd_insert_def Cons now_def)
    have pos: "0 \<le> lags (lag s) us'" "0 \<le> lags (lag s) vs'" "0 \<le> lag s c'"
      using nn lags_nonneg [of us' "lag s"] lags_nonneg [of vs' "lag s"] by (auto simp: act)
    have b': "lags (lag s) us' + (lag s c' + lags (lag s) vs') < 2 ^ 31" using b by (simp add: act)
    have le: "lags (lag s) us' \<le> delay"
    proof (cases us' rule: rev_cases)
      case (snoc xs x)
      then show ?thesis using k(3) by simp
    qed (use d in simp)
    have w': "w \<notin> set us'" "w \<noteq> c'" "w \<notin> set vs'" "c' \<notin> set us'" "c' \<notin> set vs'" "distinct us'" "distinct vs'"
      "set us' \<inter> set vs' = {}" using w dist by (auto simp: act)
    show thesis
    proof (cases "delay < now")
      case True
      define d' where "d' = delay - lags (lag s) us'"
      have r: "s32 (now - lag s c') = lags (lag s) us'" "s32 (delay - lags (lag s) us') = d'" "s32 (lag s c' - d') = now - delay"
        using pos b' le d by (auto simp: now_def d'_def intro!: trans [OF s32_id])
      have i: "wd_insert w delay s = (d', s\<lparr>lag := (lag s)(c' := now - delay), g_wdactivelist := us' @ w # c' # vs'\<rparr>)"
        using e True r by (simp add: Let_def)
      have t: "due (((lag s)(c' := now - delay))(w := d')) 0 (us' @ w # c' # vs') = walk_insert (passed delay) (w, delay) (timers s)"
      proof -
        have "walk_insert (passed delay) (w, delay) (due (lag s) 0 us' @ due (lag s) (lags (lag s) us') (c' # vs')) =
            due (lag s) 0 us' @ (w, delay) # due (lag s) (lags (lag s) us') (c' # vs')"
          using k(3) True by (intro walk_insert_split) (auto simp: now_def)
        then show ?thesis using w' by (simp add: timers_def act d'_def now_def)
      qed
      show thesis
      proof (rule that [OF i t])
        show "0 \<le> d'" using le by (simp add: d'_def)
        show "\<forall>x \<in> set (g_wdactivelist s). 0 \<le> ((lag s)(c' := now - delay)) x" using nn True by auto
        show "lags (((lag s)(c' := now - delay))(w := d')) (us' @ w # c' # vs') < 2 ^ 31"
          using w' b' by (simp add: d'_def now_def)
      qed (use w' in \<open>auto simp: act\<close>)
    next
      case False
      then have vs': "vs' = []" using k(4) by (simp add: now_def)
      define d' where "d' = delay - now"
      have "s32 (delay - now) = d'" using pos d False by (auto simp: now_def d'_def intro!: s32_id)
      then have i: "wd_insert w delay s = (d', s\<lparr>lag := lag s, g_wdactivelist := us' @ [c', w]\<rparr>)"
        using e False by (simp add: Let_def vs')
      have t: "due ((lag s)(w := d')) 0 (us' @ [c', w]) = walk_insert (passed delay) (w, delay) (timers s)"
      proof -
        have "walk_insert (passed delay) (w, delay) (due (lag s) 0 (us' @ [c']) @ []) = due (lag s) 0 (us' @ [c']) @ (w, delay) # []"
          using k(3) False by (intro walk_insert_split) (auto simp: now_def)
        then show ?thesis using w' by (simp add: timers_def act vs' d'_def now_def)
      qed
      show thesis
      proof (rule that [OF i t])
        show "0 \<le> d'" using False by (simp add: d'_def)
        show "lags ((lag s)(w := d')) (us' @ [c', w]) < 2 ^ 31" using w' d False by (simp add: d'_def now_def)
      qed (use w' nn in \<open>auto simp: act vs'\<close>)
    qed
  qed
qed

text \<open>The effective delay: one tick more than asked for, up to the largest \<open>int\<close>.\<close>

definition ticks_for :: "int \<Rightarrow> int" where
  "ticks_for delay = min (delay + 1) (2 ^ 31 - 1)"

lemma wd_start_spec:
  assumes wf: "wd_wf s" and w: "w \<noteq> NULL" "w \<notin> set (g_wdfreelist s)"
    and a: "0 \<le> argc" "argc \<le> int CONFIG_MAX_WDOGPARMS" and d: "0 \<le> delay" "delay < 2 ^ 31"
  shows "\<exists>s'. wd_start w delay f argc args s = Some (True, s') \<and> wd_wf s' \<and>
    timers s' = walk_insert (passed (ticks_for delay)) (w, ticks_for delay) (filter (\<lambda>x. fst x \<noteq> w) (timers s)) \<and>
    g_wdfreelist s' = g_wdfreelist s \<and> irq_off s' = irq_off s \<and> wd_state.more s' = wd_state.more s \<and>
    (nat argc \<le> length args \<longrightarrow> wd_call s' = (wd_call s)(w := (f, take (nat argc) args)))"
proof -
  have "\<exists>t. (if WDOG_ISACTIVE s w then map_option snd (wd_cancel w (s\<lparr>irq_off := True\<rparr>)) else Some (s\<lparr>irq_off := True\<rparr>)) = Some t \<and>
    wd_wf t \<and> timers t = filter (\<lambda>x. fst x \<noteq> w) (timers s) \<and> w \<notin> set (g_wdactivelist t) \<and>
    g_wdfreelist t = g_wdfreelist s \<and> wd_state.more t = wd_state.more s \<and> wd_call t = wd_call s"
  proof (cases "WDOG_ISACTIVE s w")
    case True
    have "wd_wf (s\<lparr>irq_off := True\<rparr>)" "w \<in> set (g_wdactivelist (s\<lparr>irq_off := True\<rparr>))"
      using wf True by (auto simp: wd_wf_def)
    from wd_cancel_spec [OF this] True show ?thesis by (auto simp: timers_def wd_call_def fun_eq_iff)
  next
    case False
    then have "w \<notin> fst ` set (timers s)" using wf fst_due [of "lag s" 0 "g_wdactivelist s"]
      by (metis list.set_map timers_def wd_wf_def)
    then have "filter (\<lambda>x. fst x \<noteq> w) (timers s) = timers s" by (auto simp: filter_id_conv)
    then show ?thesis using False wf by (auto simp: wd_wf_def timers_def wd_call_def fun_eq_iff)
  qed
  then obtain t where t: "(if WDOG_ISACTIVE s w then map_option snd (wd_cancel w (s\<lparr>irq_off := True\<rparr>)) else Some (s\<lparr>irq_off := True\<rparr>)) = Some t"
    "wd_wf t" "timers t = filter (\<lambda>x. fst x \<noteq> w) (timers s)" "w \<notin> set (g_wdactivelist t)"
    "g_wdfreelist t = g_wdfreelist s" "wd_state.more t = wd_state.more s" "wd_call t = wd_call s" by blast
  define u where "u = t\<lparr>wfunc := (wfunc t)(w := f), wargc := (wargc t)(w := nat (argc mod 256)),
    wparm := (wparm t)(w := take (nat argc) args @ replicate (CONFIG_MAX_WDOGPARMS - nat argc) 0)\<rparr>"
  have u: "wd_wf u" "timers u = timers t" "w \<notin> set (g_wdactivelist u)" "g_wdfreelist u = g_wdfreelist s"
    "wd_state.more u = wd_state.more s" "\<And>v. WDOG_ISACTIVE u v \<longleftrightarrow> v \<in> set (g_wdactivelist u)"
    using t(2,4,5,6) by (auto simp: u_def wd_wf_def timers_def)
  have uw: "wargc u w \<le> CONFIG_MAX_WDOGPARMS" using a by (simp add: u_def CONFIG_MAX_WDOGPARMS_def)
  have dl: "(if delay \<le> 0 then 1 else if s32 (delay + 1) \<le> 0 then s32 (s32 (delay + 1) - 1) else s32 (delay + 1)) = ticks_for delay"
    using d by (cases "delay = 2 ^ 31 - 1") (simp_all add: ticks_for_def s32_id, simp_all add: s32_def)
  have dr: "0 \<le> ticks_for delay" "ticks_for delay < 2 ^ 31" using d by (auto simp: ticks_for_def)
  obtain d' lg ws where i: "wd_insert w (ticks_for delay) u = (d', u\<lparr>lag := lg, g_wdactivelist := ws\<rparr>)"
    "due (lg(w := d')) 0 ws = walk_insert (passed (ticks_for delay)) (w, ticks_for delay) (timers u)" "0 \<le> d'"
    "\<forall>x \<in> set (g_wdactivelist u). 0 \<le> lg x" "lags (lg(w := d')) ws < 2 ^ 31" "distinct ws" "set ws = insert w (set (g_wdactivelist u))"
    by (rule wd_insert_spec [OF u(1,3) dr])
  define s' where "s' = (WDOG_SETACTIVE w (u\<lparr>g_wdactivelist := ws, lag := lg(w := d')\<rparr>))\<lparr>irq_off := irq_off s\<rparr>"
  have "wd_start w delay f argc args s = Some (True, s')"
    using w a d t(1) dl i(1) by (simp add: wd_start_def u_def [symmetric] s'_def Let_def)
  moreover have "wd_wf s'"
    using u(1,4,6) i(3-7) w uw unfolding wd_wf_def by (auto simp: s'_def)
  moreover have "timers s' = walk_insert (passed (ticks_for delay)) (w, ticks_for delay) (filter (\<lambda>x. fst x \<noteq> w) (timers s))"
    using i(2) u(2) t(3) by (simp add: timers_def s'_def)
  moreover have "wd_call s' = (wd_call s)(w := (f, take (nat argc) args))" if "nat argc \<le> length args"
  proof -
    have "nat (argc mod 256) = nat argc" using a by (simp add: CONFIG_MAX_WDOGPARMS_def)
    then show ?thesis using that t(7) by (auto simp: s'_def u_def wd_call_def fun_eq_iff)
  qed
  ultimately show ?thesis using u(4,5) by (auto simp: s'_def)
qed

section \<open>Expiry\<close>

definition expired :: "'a wd_state_scheme \<Rightarrow> addr set" where
  "expired s = fst ` {x \<in> set (timers s). snd x \<le> 0}"

text \<open>What a watchdog function may do to the watchdogs: keep them well-formed and not leave one behind
  that has already expired. Every sequence of \<open>wd_start\<close> and \<open>wd_cancel\<close> calls is such a function.\<close>

definition tame :: "(addr \<Rightarrow> u32 list \<Rightarrow> 'a wd_state_scheme \<Rightarrow> 'a wd_state_scheme option) \<Rightarrow> bool" where
  "tame call \<longleftrightarrow> (\<forall>f a s. wd_wf s \<longrightarrow> (\<exists>s'. call f a s = Some s' \<and> wd_wf s' \<and> expired s' \<subseteq> expired s))"

text \<open>The state after the first watchdog is taken off the list.\<close>

definition wd_pop :: "'a wd_state_scheme \<Rightarrow> 'a wd_state_scheme" where
  "wd_pop s = (case g_wdactivelist s of [] \<Rightarrow> s | w # rest \<Rightarrow>
     WDOG_CLRACTIVE w (let s = s\<lparr>g_wdactivelist := rest\<rparr>
       in if rest \<noteq> [] then set_lag (hd rest) (s32 (lag s (hd rest) + lag s w)) s else s))"

lemma wd_pop_spec:
  assumes wf: "wd_wf s" and act: "g_wdactivelist s = w # rest"
  shows "wd_wf (wd_pop s)" "timers s = (w, lag s w) # timers (wd_pop s)" "g_wdactivelist (wd_pop s) = rest"
    "wfunc (wd_pop s) = wfunc s" "wargc (wd_pop s) = wargc s" "wparm (wd_pop s) = wparm s"
    "wd_state.more (wd_pop s) = wd_state.more s" "g_wdfreelist (wd_pop s) = g_wdfreelist s" "irq_off (wd_pop s) = irq_off s"
proof -
  have "wd_wf (wd_pop s) \<and> timers s = (w, lag s w) # timers (wd_pop s)"
  proof (cases rest)
    case Nil
    then show ?thesis using wf act by (auto simp: wd_pop_def wd_wf_def timers_def Let_def)
  next
    case (Cons v vs)
    have "0 \<le> lag s v" "0 \<le> lag s w" "0 \<le> lags (lag s) vs" "lag s w + (lag s v + lags (lag s) vs) < 2 ^ 31"
      using wf act lags_nonneg [of vs "lag s"] by (auto simp: wd_wf_def Cons)
    moreover from this have "s32 (lag s v + lag s w) = lag s v + lag s w" by (intro s32_id) auto
    ultimately show ?thesis using wf act by (auto simp: wd_pop_def wd_wf_def timers_def Let_def Cons add_ac)
  qed
  then show "wd_wf (wd_pop s)" "timers s = (w, lag s w) # timers (wd_pop s)" by simp_all
qed (use act in \<open>simp_all add: wd_pop_def Let_def\<close>)

lemma wd_expire_loop_pop:
  assumes wf: "wd_wf s" and act: "g_wdactivelist s = w # rest" and l: "lag s w \<le> 0"
  shows "wd_expire_loop call s =
    Option.bind (call (wfunc s w) (take (wargc s w) (wparm s w)) (wd_pop s)) (wd_expire_loop call)"
proof -
  have "wargc s w \<le> CONFIG_MAX_WDOGPARMS" using wf act by (simp add: wd_wf_def)
  then show ?thesis using act l
    by (subst wd_expire_loop.simps) (simp add: wd_pop_def debugassert_def Let_def)
qed

lemma wd_expire_loop_done:
  assumes "g_wdactivelist s = [] \<or> 0 < lag s (hd (g_wdactivelist s))"
  shows "wd_expire_loop call s = Some s"
  using assms by (subst wd_expire_loop.simps) (auto split: list.split)

lemma expired_empty:
  assumes "wd_wf s" "g_wdactivelist s = [] \<or> 0 < lag s (hd (g_wdactivelist s))"
  shows "expired s = {}"
proof (cases "g_wdactivelist s")
  case (Cons w rest)
  have "lag s w \<le> e" if "(x, e) \<in> set (timers s)" for x e
    using that assms(1) due_bounds [of rest "lag s" x e "lag s w"] by (auto simp: wd_wf_def timers_def Cons)
  then show ?thesis using assms(2) Cons by (fastforce simp: expired_def)
qed (simp add: expired_def timers_def)

lemma expired_finite [simp]: "finite (expired s)"
  by (simp add: expired_def)

lemma wd_expire_loop_returns:
  assumes t: "tame call" and wf: "wd_wf s"
  shows "\<exists>s'. wd_expire_loop call s = Some s' \<and> wd_wf s' \<and> expired s' = {}"
  using wf
proof (induction "card (expired s)" arbitrary: s rule: less_induct)
  case less
  show ?case
  proof (cases "g_wdactivelist s = [] \<or> 0 < lag s (hd (g_wdactivelist s))")
    case True
    then show ?thesis using less.prems wd_expire_loop_done [OF True, of call] expired_empty [OF less.prems True] by simp
  next
    case False
    then obtain w rest where act: "g_wdactivelist s = w # rest" and l: "lag s w \<le> 0" by (cases "g_wdactivelist s") auto
    note pop = wd_pop_spec [OF less.prems act]
    from t pop(1) obtain s1 where c: "call (wfunc s w) (take (wargc s w) (wparm s w)) (wd_pop s) = Some s1"
      "wd_wf s1" "expired s1 \<subseteq> expired (wd_pop s)" unfolding tame_def by blast
    have "w \<notin> set rest" using less.prems act by (simp add: wd_wf_def)
    then have "w \<notin> fst ` set (timers (wd_pop s))" using pop(3) fst_due [of "lag (wd_pop s)" 0 rest]
      by (metis list.set_map timers_def)
    then have "w \<notin> expired (wd_pop s)" by (auto simp: expired_def)
    moreover have "expired s = insert w (expired (wd_pop s))" using pop(2) l by (force simp: expired_def)
    ultimately have "expired s1 \<subset> expired s" using c(3) by blast
    then have "card (expired s1) < card (expired s)" by (simp add: psubset_card_mono)
    from less.hyps [OF this c(2)] c(1) show ?thesis by (simp add: wd_expire_loop_pop [OF less.prems act l])
  qed
qed

text \<open>A watchdog function that only records that it was called.\<close>

definition record_call ::
  "addr \<Rightarrow> u32 list \<Rightarrow> (addr \<times> u32 list) list wd_state_scheme \<Rightarrow> (addr \<times> u32 list) list wd_state_scheme option" where
  "record_call f a s = Some (wd_state.more_update (\<lambda>log. log @ [(f, a)]) s)"

lemma more_frame [simp]:
  "timers (wd_state.more_update g s) = timers s" "wd_wf (wd_state.more_update g s) = wd_wf s"
  "wd_call (wd_state.more_update g s) = wd_call s"
  by (simp_all add: timers_def wd_wf_def WDOG_ISACTIVE_def wd_call_def fun_eq_iff)

lemma wd_expire_loop_record:
  assumes "wd_wf s"
  shows "\<exists>s'. wd_expire_loop record_call s = Some s' \<and> wd_wf s' \<and>
    timers s' = dropWhile (\<lambda>x. snd x \<le> 0) (timers s) \<and> wd_call s' = wd_call s \<and>
    wd_state.more s' = wd_state.more s @ map (wd_call s \<circ> fst) (takeWhile (\<lambda>x. snd x \<le> 0) (timers s)) \<and>
    g_wdfreelist s' = g_wdfreelist s \<and> irq_off s' = irq_off s"
  using assms
proof (induction "length (g_wdactivelist s)" arbitrary: s)
  case 0
  then show ?case using wd_expire_loop_done [of s record_call] by (simp add: timers_def)
next
  case (Suc n)
  then obtain w rest where act: "g_wdactivelist s = w # rest" by (cases "g_wdactivelist s") auto
  note pop = wd_pop_spec [OF Suc.prems act]
  show ?case
  proof (cases "lag s w \<le> 0")
    case False
    then show ?thesis using wd_expire_loop_done [of s record_call] Suc.prems pop(2) act by simp
  next
    case True
    let ?s1 = "wd_state.more_update (\<lambda>log. log @ [wd_call s w]) (wd_pop s)"
    have "wd_expire_loop record_call s = wd_expire_loop record_call ?s1"
      using wd_expire_loop_pop [OF Suc.prems act True, of record_call] by (simp add: record_call_def wd_call_def)
    moreover have "n = length (g_wdactivelist ?s1)" and "wd_wf ?s1" using Suc.hyps(2) act pop(1,3) by simp_all
    have wc: "wd_call (wd_pop s) = wd_call s" using pop(4-6) by (simp add: wd_call_def fun_eq_iff)
    from Suc.hyps(1) [OF \<open>n = _\<close> \<open>wd_wf ?s1\<close>]
    have "\<exists>s'. wd_expire_loop record_call ?s1 = Some s' \<and> wd_wf s' \<and>
      timers s' = dropWhile (\<lambda>x. snd x \<le> 0) (timers (wd_pop s)) \<and> wd_call s' = wd_call s \<and>
      wd_state.more s' = (wd_state.more s @ [wd_call s w]) @ map (wd_call s \<circ> fst) (takeWhile (\<lambda>x. snd x \<le> 0) (timers (wd_pop s))) \<and>
      g_wdfreelist s' = g_wdfreelist s \<and> irq_off s' = irq_off s"
      using pop(7-9) wc by simp
    ultimately show ?thesis using pop(2) True by (simp add: comp_def)
  qed
qed

section \<open>Ticks\<close>

text \<open>Between two ticks every active watchdog still has to wait.\<close>

definition settled :: "'a wd_state_scheme \<Rightarrow> bool" where
  "settled s \<longleftrightarrow> wd_wf s \<and> (\<forall>x \<in> set (timers s). 0 < snd x)"

lemma sorted_while:
  assumes "sorted_wrt (\<lambda>x y. snd x \<le> snd y) xs"
  shows "takeWhile (\<lambda>x. snd x \<le> c) xs = filter (\<lambda>x. snd x \<le> (c :: int)) xs"
    and "dropWhile (\<lambda>x. snd x \<le> c) xs = filter (\<lambda>x. c < snd x) xs"
  using assms by (induction xs) (force simp: filter_empty_conv intro!: filter_True [symmetric] filter_False [symmetric])+

lemma timers_sorted: "wd_wf s \<Longrightarrow> sorted_wrt (\<lambda>x y. snd x \<le> snd y) (timers s)"
  unfolding timers_def by (rule due_sorted) (simp add: wd_wf_def)

lemma wd_timer_record:
  assumes "settled s"
  shows "\<exists>s'. wd_timer record_call s = Some s' \<and> settled s' \<and> wd_call s' = wd_call s \<and>
    timers s' = map (apsnd (\<lambda>e. e - 1)) (filter (\<lambda>x. 1 < snd x) (timers s)) \<and>
    wd_state.more s' = wd_state.more s @ map (wd_call s \<circ> fst) (filter (\<lambda>x. snd x \<le> 1) (timers s))"
proof (cases "g_wdactivelist s")
  case Nil
  then show ?thesis using assms by (simp add: wd_timer_def timers_def)
next
  case (Cons w rest)
  have wf: "wd_wf s" and l: "1 \<le> lag s w" using assms by (auto simp: settled_def timers_def Cons)
  define t where "t = set_lag w (lag s w - 1) s"
  have lw: "lag s w < 2 ^ 31" using wf lags_nonneg [of rest "lag s"] by (auto simp: wd_wf_def Cons)
  have d: "due (lag t) (n - 1) ws = map (apsnd (\<lambda>e. e - 1)) (due (lag s) n ws)" if "w \<notin> set ws" for n ws
    using that by (induction ws arbitrary: n) (auto simp: t_def algebra_simps)
  have "w \<notin> set rest" using wf Cons by (simp add: wd_wf_def)
  then have tt: "timers t = map (apsnd (\<lambda>e. e - 1)) (timers s)"
    using d [of rest "lag s w"] by (simp add: timers_def Cons t_def)
  have wt: "wd_wf t" using wf l Cons \<open>w \<notin> set rest\<close> by (auto simp: wd_wf_def t_def)
  have "s32 (lag s w - 1) = lag s w - 1" using l lw by (intro s32_id) auto
  then have "wd_timer record_call s = wd_expire_loop record_call t"
    using wd_expire_loop_done [of t record_call] by (simp add: wd_timer_def wd_expiration_def Cons t_def)
  moreover obtain s' where s': "wd_expire_loop record_call t = Some s'" "wd_wf s'" "timers s' = dropWhile (\<lambda>x. snd x \<le> 0) (timers t)"
    "wd_call s' = wd_call t" "wd_state.more s' = wd_state.more t @ map (wd_call t \<circ> fst) (takeWhile (\<lambda>x. snd x \<le> 0) (timers t))"
    using wd_expire_loop_record [OF wt] by blast
  moreover have "wd_call t = wd_call s" by (simp add: t_def wd_call_def fun_eq_iff)
  moreover have "filter (\<lambda>x. snd x \<le> 0) (timers t) = map (apsnd (\<lambda>e. e - 1)) (filter (\<lambda>x. snd x \<le> 1) (timers s))"
    "filter (\<lambda>x. 0 < snd x) (timers t) = map (apsnd (\<lambda>e. e - 1)) (filter (\<lambda>x. 1 < snd x) (timers s))"
    by (simp_all add: tt filter_map comp_def)
  ultimately show ?thesis
    using sorted_while [OF timers_sorted [OF wt], of 0] by (auto simp: settled_def t_def comp_def)
qed

fun wd_ticks :: "nat \<Rightarrow> (addr \<times> u32 list) list wd_state_scheme \<Rightarrow> (addr \<times> u32 list) list wd_state_scheme option" where
  "wd_ticks 0 s = Some s"
| "wd_ticks (Suc n) s = Option.bind (wd_timer record_call s) (wd_ticks n)"

lemma filter_upto:
  assumes "sorted_wrt (\<lambda>x y. snd x \<le> snd y) xs" "a \<le> (b :: int)"
  shows "filter (\<lambda>x. snd x \<le> b) xs = filter (\<lambda>x. snd x \<le> a) xs @ filter (\<lambda>x. a < snd x \<and> snd x \<le> b) xs"
  using assms(1)
proof (induction xs)
  case (Cons x xs)
  show ?case
  proof (cases "snd x \<le> a")
    case True
    then show ?thesis using Cons assms(2) by simp
  next
    case False
    then have "\<forall>y \<in> set xs. \<not> snd y \<le> a" using Cons.prems by auto
    then show ?thesis using False by (auto intro!: filter_cong)
  qed
qed simp

lemma wd_ticks_spec:
  assumes "settled s"
  shows "\<exists>s'. wd_ticks n s = Some s' \<and> settled s' \<and> wd_call s' = wd_call s \<and>
    timers s' = map (apsnd (\<lambda>e. e - int n)) (filter (\<lambda>x. int n < snd x) (timers s)) \<and>
    wd_state.more s' = wd_state.more s @ map (wd_call s \<circ> fst) (filter (\<lambda>x. snd x \<le> int n) (timers s))"
  using assms
proof (induction n arbitrary: s)
  case 0
  have "filter (\<lambda>x. 0 < snd x) (timers s) = timers s" "filter (\<lambda>x. snd x \<le> 0) (timers s) = []"
    using 0 by (auto simp: settled_def filter_id_conv filter_empty_conv)
  then show ?case using 0 by (simp add: map_idI apsnd_def map_prod_def split_beta)
next
  case (Suc n)
  obtain s1 where s1: "wd_timer record_call s = Some s1" "settled s1" "wd_call s1 = wd_call s"
    "timers s1 = map (apsnd (\<lambda>e. e - 1)) (filter (\<lambda>x. 1 < snd x) (timers s))"
    "wd_state.more s1 = wd_state.more s @ map (wd_call s \<circ> fst) (filter (\<lambda>x. snd x \<le> 1) (timers s))"
    using wd_timer_record [OF Suc.prems] by blast
  obtain s2 where s2: "wd_ticks n s1 = Some s2" "settled s2" "wd_call s2 = wd_call s1"
    "timers s2 = map (apsnd (\<lambda>e. e - int n)) (filter (\<lambda>x. int n < snd x) (timers s1))"
    "wd_state.more s2 = wd_state.more s1 @ map (wd_call s1 \<circ> fst) (filter (\<lambda>x. snd x \<le> int n) (timers s1))"
    using Suc.IH [OF s1(2)] by blast
  have "filter (\<lambda>x. int n < snd x) (timers s1) = map (apsnd (\<lambda>e. e - 1)) (filter (\<lambda>x. int (Suc n) < snd x) (timers s))"
    by (auto simp: s1(4) filter_map comp_def intro!: filter_cong)
  moreover have "filter (\<lambda>x. snd x \<le> int n) (timers s1) =
      map (apsnd (\<lambda>e. e - 1)) (filter (\<lambda>x. 1 < snd x \<and> snd x \<le> int (Suc n)) (timers s))"
    by (auto simp: s1(4) filter_map comp_def intro!: filter_cong)
  moreover have "filter (\<lambda>x. snd x \<le> int (Suc n)) (timers s) =
      filter (\<lambda>x. snd x \<le> 1) (timers s) @ filter (\<lambda>x. 1 < snd x \<and> snd x \<le> int (Suc n)) (timers s)"
    using Suc.prems by (intro filter_upto timers_sorted) (auto simp: settled_def)
  ultimately show ?case using s1 s2 by (auto simp: comp_def)
qed

interpretation expiry: ordered_list "\<lambda>x y. snd x \<le> (snd y :: int)"
  by unfold_locales auto

lemma wd_lag_upto_due:
  assumes "(w, e) \<in> set (due lg now ws)" "distinct ws" "\<forall>x \<in> set ws. 0 \<le> lg x" "0 \<le> now" "now + lags lg ws < 2 ^ 31"
  shows "wd_lag_upto lg w now ws = e"
  using assms
proof (induction ws arbitrary: now)
  case (Cons x ws)
  have "s32 (now + lg x) = now + lg x" using Cons.prems lags_nonneg [of ws lg] by (intro s32_id) auto
  moreover have "w \<in> set ws" if "(w, e) \<in> set (due lg (now + lg x) ws)"
    using that fst_due [of lg "now + lg x" ws] by (metis fst_conv image_eqI list.set_map)
  ultimately show ?case using Cons by (auto simp: Let_def)
qed simp

lemma timers_fst: "fst ` set (timers s) = set (g_wdactivelist s)"
  unfolding timers_def by (simp flip: list.set_map)

lemma timers_mem: "(w, e) \<in> set (timers s) \<Longrightarrow> w \<in> set (g_wdactivelist s)"
  using timers_fst [of s] by force

lemma timers_cover: "w \<in> set (g_wdactivelist s) \<Longrightarrow> \<exists>e. (w, e) \<in> set (timers s)"
  using timers_fst [of s] by force

lemma wd_gettime_timers: "wd_wf s \<Longrightarrow> (w, e) \<in> set (timers s) \<Longrightarrow> wd_gettime w s = e"
  using wd_lag_upto_due [of w e "lag s" 0 "g_wdactivelist s"] timers_mem [of w e s]
  by (auto simp: wd_gettime_def timers_def wd_wf_def)

lemma expired_start:
  assumes "0 < t"
  shows "fst ` {x \<in> set (walk_insert p (w, t) (filter q xs)). snd x \<le> (0 :: int)} \<subseteq> fst ` {x \<in> set xs. snd x \<le> 0}"
  using assms by auto

lemma ticks_for_pos: "0 \<le> d \<Longrightarrow> 0 < ticks_for d"
  by (simp add: ticks_for_def)

text \<open>A watchdog function that starts a watchdog again.\<close>

definition restart :: "addr \<Rightarrow> int \<Rightarrow> addr \<Rightarrow> u32 list \<Rightarrow> 'a wd_state_scheme \<Rightarrow> 'a wd_state_scheme option" where
  "restart w delay f args s =
     (if w \<in> set (g_wdfreelist s) then Some s else map_option snd (wd_start w delay f 0 args s))"

lemma tame_restart:
  assumes "w \<noteq> NULL" "0 \<le> delay" "delay < 2 ^ 31"
  shows "tame (restart w delay :: addr \<Rightarrow> u32 list \<Rightarrow> 'a wd_state_scheme \<Rightarrow> 'a wd_state_scheme option)"
proof -
  have "\<exists>s'. restart w delay f a s = Some s' \<and> wd_wf s' \<and> expired s' \<subseteq> expired s" if wf: "wd_wf s" for f a and s :: "'a wd_state_scheme"
  proof (cases "w \<in> set (g_wdfreelist s)")
    case False
    then obtain s' where "wd_start w delay f 0 a s = Some (True, s')" "wd_wf s'"
      "timers s' = walk_insert (passed (ticks_for delay)) (w, ticks_for delay) (filter (\<lambda>x. fst x \<noteq> w) (timers s))"
      using wd_start_spec [OF wf assms(1), of 0 delay f a] assms(2,3) by auto
    then show ?thesis
      using False expired_start [OF ticks_for_pos [OF assms(2)], of "passed (ticks_for delay)" w "\<lambda>x. fst x \<noteq> w" "timers s"]
      by (auto simp: restart_def expired_def)
  qed (use wf in \<open>simp add: restart_def\<close>)
  then show ?thesis by (simp add: tame_def)
qed

section \<open>Creation and deletion\<close>

lemma wd_initialize_eq:
  "wd_initialize pool s = s\<lparr>g_wdactivelist := [], g_wdfreelist := map (\<lambda>i. pool + 32 * i) [0 ..< CONFIG_PREALLOC_WDOGS],
     g_wdnfree := CONFIG_PREALLOC_WDOGS\<rparr>"
proof -
  have "fold (\<lambda>i s. s\<lparr>g_wdfreelist := g_wdfreelist s @ [pool + 32 * i]\<rparr>) ns s =
      s\<lparr>g_wdfreelist := g_wdfreelist s @ map (\<lambda>i. pool + 32 * i) ns\<rparr>" for ns :: "nat list" and s :: "'a wd_state_scheme"
    by (induction ns arbitrary: s) simp_all
  then show ?thesis by (simp add: wd_initialize_def)
qed

lemma wd_initialize_wf:
  assumes "0 < pool" "\<forall>w. \<not> WDOG_ISACTIVE s w"
  shows "wd_wf (wd_initialize pool s)"
  using assms by (auto simp: wd_initialize_eq wd_wf_def CONFIG_PREALLOC_WDOGS_def distinct_map inj_on_def)

section \<open>Properties\<close>

definition wd_demo0 :: "(addr \<times> u32 list) list wd_state_scheme" where
  "wd_demo0 = wd_initialize 0x2000 \<lparr>wfunc = (\<lambda>_. 0), lag = (\<lambda>_. 0), wflags = (\<lambda>_. 0), wargc = (\<lambda>_. 0), wparm = (\<lambda>_. []),
     g_wdactivelist = [], g_wdfreelist = [], g_wdnfree = 0, irq_off = False, kfreed = [], \<dots> = []\<rparr>"

lemma wd_demo0: "wd_wf wd_demo0" "settled wd_demo0" "timers wd_demo0 = []" "0x8000 \<notin> set (g_wdfreelist wd_demo0)"
  "wd_state.more wd_demo0 = []"
proof -
  show "wd_wf wd_demo0" unfolding wd_demo0_def by (rule wd_initialize_wf) (simp_all add: active_bit)
  then show "settled wd_demo0" by (simp add: settled_def wd_demo0_def wd_initialize_eq timers_def)
qed (auto simp: wd_demo0_def wd_initialize_eq timers_def CONFIG_PREALLOC_WDOGS_def)

text \<open>(C17) \<open>wd_start\<close> keeps the watchdog list well-formed and in the order of expiry: the watchdog leaves its
  old place if it was active, and is queued for \<open>delay + 1\<close> ticks from now behind every watchdog that
  expires no later. No other expiry time changes, although the list stores differences.\<close>

theorem wd_start_refines:
  assumes "wd_wf s" "w \<noteq> NULL" "w \<notin> set (g_wdfreelist s)" "0 \<le> argc" "argc \<le> int CONFIG_MAX_WDOGPARMS"
    "0 \<le> delay" "delay < 2 ^ 31"
  shows "\<exists>s'. wd_start w delay f argc args s = Some (True, s') \<and> wd_wf s' \<and>
    timers s' = walk_insert (\<lambda>x. snd x \<le> ticks_for delay) (w, ticks_for delay) (filter (\<lambda>x. fst x \<noteq> w) (timers s)) \<and>
    sorted_wrt (\<lambda>x y. snd x \<le> snd y) (timers s') \<and> wd_gettime w s' = ticks_for delay"
proof -
  obtain s' where s': "wd_start w delay f argc args s = Some (True, s')" "wd_wf s'"
    "timers s' = walk_insert (passed (ticks_for delay)) (w, ticks_for delay) (filter (\<lambda>x. fst x \<noteq> w) (timers s))"
    using wd_start_spec [OF assms, of f args] by blast
  have "sorted_wrt (\<lambda>x y. snd x \<le> snd y) (timers s')"
    unfolding s'(3) using expiry.sorted_insert [of "filter (\<lambda>x. fst x \<noteq> w) (timers s)" "(w, ticks_for delay)"]
      sorted_wrt_filter [OF timers_sorted [OF assms(1)]] by simp
  moreover have "wd_gettime w s' = ticks_for delay" by (rule wd_gettime_timers [OF s'(2)]) (simp add: s'(3))
  ultimately show ?thesis using s' by blast
qed

theorem wd_start_refines_witness:
  "\<exists>s'. wd_start 0x8000 5 0x40 0 [] wd_demo0 = Some (True, s') \<and> timers s' = [(0x8000, 6)]"
  using wd_start_refines [OF wd_demo0(1) _ wd_demo0(4), of 0 5 "0x40" "[]"] wd_demo0(3) by (auto simp: ticks_for_def)

text \<open>(C28) \<open>wd_cancel\<close> of an active watchdog removes it and leaves every other expiry time as it was.\<close>

theorem wd_cancel_refines:
  assumes "wd_wf s" "WDOG_ISACTIVE s w"
  shows "\<exists>s'. wd_cancel w s = Some (True, s') \<and> wd_wf s' \<and> timers s' = filter (\<lambda>x. fst x \<noteq> w) (timers s) \<and>
    \<not> WDOG_ISACTIVE s' w"
proof -
  have w: "w \<in> set (g_wdactivelist s)" using assms by (simp add: wd_wf_def)
  obtain s' where s': "wd_cancel w s = Some (True, s')" "wd_wf s'" "timers s' = filter (\<lambda>x. fst x \<noteq> w) (timers s)"
    "g_wdactivelist s' = filter (\<lambda>x. x \<noteq> w) (g_wdactivelist s)" using wd_cancel_spec [OF assms(1) w] by blast
  then show ?thesis by (auto simp: wd_wf_def)
qed

theorem wd_cancel_refines_witness:
  "\<exists>s s'. wd_start 0x8000 5 0x40 0 [] wd_demo0 = Some (True, s) \<and> wd_cancel 0x8000 s = Some (True, s') \<and> timers s' = []"
proof -
  obtain s where s: "wd_start 0x8000 5 0x40 0 [] wd_demo0 = Some (True, s)" "wd_wf s" "timers s = [(0x8000, 6)]"
    using wd_start_spec [OF wd_demo0(1) _ wd_demo0(4), of 0 5 "0x40" "[]"] wd_demo0(3) by (auto simp: ticks_for_def)
  then have "WDOG_ISACTIVE s 0x8000" using timers_mem [of "0x8000" 6 s] by (auto simp: wd_wf_def)
  from wd_cancel_refines [OF s(2) this] s show ?thesis by auto
qed

text \<open>(C5) A watchdog fires on time: started with \<open>delay\<close>, it stays active for \<open>delay\<close> ticks of the system
  timer and on the next one its function is called with its arguments, together with the functions of
  all other watchdogs due by then, in the order of expiry and nothing else.\<close>

theorem wd_fires_on_time:
  assumes "settled s" "w \<noteq> NULL" "w \<notin> set (g_wdfreelist s)" "int (length args) \<le> int CONFIG_MAX_WDOGPARMS"
    "0 \<le> delay" "delay < 2 ^ 31"
  shows "\<exists>s1 s2. wd_start w delay f (int (length args)) args s = Some (True, s1) \<and> wd_ticks n s1 = Some s2 \<and> settled s2 \<and>
    wd_state.more s2 = wd_state.more s @ map (wd_call s1 \<circ> fst) (filter (\<lambda>x. snd x \<le> int n) (timers s1)) \<and>
    wd_call s1 w = (f, args) \<and> (w, ticks_for delay) \<in> set (timers s1) \<and>
    (WDOG_ISACTIVE s2 w \<longleftrightarrow> int n < ticks_for delay)"
proof -
  have wf: "wd_wf s" using assms(1) by (simp add: settled_def)
  obtain s1 where s1: "wd_start w delay f (int (length args)) args s = Some (True, s1)" "wd_wf s1"
    "timers s1 = walk_insert (passed (ticks_for delay)) (w, ticks_for delay) (filter (\<lambda>x. fst x \<noteq> w) (timers s))"
    "wd_state.more s1 = wd_state.more s" "wd_call s1 = (wd_call s)(w := (f, args))"
    using wd_start_spec [OF wf assms(2,3) _ assms(4-6), of f args] by auto
  have "settled s1" using assms(1) s1(2,3) ticks_for_pos [OF assms(5)] by (auto simp: settled_def)
  from wd_ticks_spec [OF this, of n] obtain s2 where s2: "wd_ticks n s1 = Some s2" "settled s2"
    "timers s2 = map (apsnd (\<lambda>e. e - int n)) (filter (\<lambda>x. int n < snd x) (timers s1))"
    "wd_state.more s2 = wd_state.more s1 @ map (wd_call s1 \<circ> fst) (filter (\<lambda>x. snd x \<le> int n) (timers s1))" by blast
  have "WDOG_ISACTIVE s2 w \<longleftrightarrow> w \<in> fst ` set (timers s2)"
    using s2(2) timers_mem [of w _ s2] timers_cover [of w s2] by (force simp: settled_def wd_wf_def)
  also have "\<dots> \<longleftrightarrow> int n < ticks_for delay" by (auto simp: s2(3) s1(3) image_iff)
  finally show ?thesis using s1 s2 by auto
qed

theorem wd_fires_on_time_witness:
  "\<exists>s1 s2. wd_start 0x8000 2 0x40 1 [7] wd_demo0 = Some (True, s1) \<and> wd_ticks 3 s1 = Some s2 \<and>
     wd_state.more s2 = [(0x40, [7])]"
proof -
  obtain s1 s2 where s: "wd_start 0x8000 2 0x40 1 [7] wd_demo0 = Some (True, s1)" "wd_ticks 3 s1 = Some s2"
     "wd_state.more s2 = map (wd_call s1 \<circ> fst) (filter (\<lambda>x. snd x \<le> 3) (timers s1))" "wd_call s1 0x8000 = (0x40, [7])"
    using wd_fires_on_time [OF wd_demo0(2) _ wd_demo0(4), of "[7]" 2 "0x40" 3] wd_demo0(5) by (auto simp: CONFIG_MAX_WDOGPARMS_def)
  moreover have "timers s1 = [(0x8000, 3)]"
    using wd_start_spec [OF wd_demo0(1) _ wd_demo0(4), of 1 2 "0x40" "[7]"] wd_demo0(3) s(1)
    by (auto simp: ticks_for_def CONFIG_MAX_WDOGPARMS_def)
  ultimately show ?thesis by auto
qed

text \<open>(C21) The timer interrupt returns although watchdog functions may start and cancel watchdogs
  themselves, and no expired watchdog is left behind.\<close>

theorem wd_timer_returns:
  assumes "tame call" "settled s"
  shows "\<exists>s'. wd_timer call s = Some s' \<and> settled s'"
proof (cases "g_wdactivelist s")
  case Nil
  then show ?thesis using assms by (simp add: wd_timer_def)
next
  case (Cons w rest)
  have wf: "wd_wf s" and l: "1 \<le> lag s w" using assms by (auto simp: settled_def timers_def Cons)
  have lw: "lag s w < 2 ^ 31" using wf lags_nonneg [of rest "lag s"] by (auto simp: wd_wf_def Cons)
  define t where "t = set_lag w (lag s w - 1) s"
  have "w \<notin> set rest" using wf Cons by (simp add: wd_wf_def)
  then have wt: "wd_wf t" using wf l Cons by (auto simp: wd_wf_def t_def)
  have "s32 (lag s w - 1) = lag s w - 1" using l lw by (intro s32_id) auto
  then have "wd_timer call s = wd_expire_loop call t"
    using wd_expire_loop_done [of t call] by (simp add: wd_timer_def wd_expiration_def Cons t_def)
  with wd_expire_loop_returns [OF assms(1) wt] show ?thesis by (fastforce simp: settled_def expired_def)
qed

theorem wd_timer_returns_witness:
  "\<exists>s1 s2. wd_start 0x8000 0 0x40 0 [] wd_demo0 = Some (True, s1) \<and> wd_timer (restart 0x8000 0) s1 = Some s2 \<and> settled s2"
proof -
  obtain s1 where "wd_start 0x8000 0 0x40 0 [] wd_demo0 = Some (True, s1)" "settled s1"
    using wd_start_spec [OF wd_demo0(1) _ wd_demo0(4), of 0 0 "0x40" "[]"] wd_demo0(3)
    by (auto simp: settled_def ticks_for_def)
  with wd_timer_returns [OF tame_restart [of "0x8000" 0]] show ?thesis by auto
qed

text \<open>A task may take a watchdog from the pool only while more than \<open>CONFIG_WDOG_INTRESERVE\<close> are left,
  and otherwise gets one from the heap; \<open>wd_delete\<close> returns what \<open>wd_create\<close> took from the pool and
  restores the count.\<close>

lemma wd_create_delete:
  assumes wf: "wd_wf s" and r: "CONFIG_WDOG_INTRESERVE < g_wdnfree s"
  shows "\<exists>w s' s''. wd_create in_irq mem s = Some (w, s') \<and> w = hd (g_wdfreelist s) \<and> w \<noteq> NULL \<and> wd_wf s' \<and>
    g_wdfreelist s' = tl (g_wdfreelist s) \<and> wd_delete w s' = Some s'' \<and> wd_wf s'' \<and>
    g_wdfreelist s'' = tl (g_wdfreelist s) @ [w] \<and> g_wdnfree s'' = g_wdnfree s \<and> irq_off s'' = irq_off s"
proof -
  obtain w ws where fr: "g_wdfreelist s = w # ws" using wf r by (cases "g_wdfreelist s") (auto simp: wd_wf_def)
  have w: "w \<noteq> NULL" "\<not> WDOG_ISACTIVE s w" "w \<notin> set ws" "w \<notin> set (g_wdactivelist s)" "g_wdnfree s = Suc (length ws)"
    "Suc (length ws) \<le> CONFIG_PREALLOC_WDOGS" using wf fr by (auto simp: wd_wf_def)
  define s' where "s' = s\<lparr>wflags := (wflags s)(w := 0), g_wdfreelist := ws, g_wdnfree := length ws\<rparr>"
  have c: "wd_create in_irq mem s = Some (w, s')"
    using r w fr by (simp add: wd_create_def debugassert_def s'_def Let_def)
  have wf': "wd_wf s'" using wf w fr by (auto simp: wd_wf_def s'_def active_bit)
  define s'' where "s'' = s'\<lparr>g_wdfreelist := ws @ [w], g_wdnfree := Suc (length ws)\<rparr>"
  have "wd_delete w s' = Some s''"
    using w by (simp add: wd_delete_def debugassert_def s'_def s''_def WDOG_ISACTIVE_def WDOG_ISALLOCED_def WDOG_ISSTATIC_def Let_def)
  moreover have "wd_wf s''" using wf' w by (auto simp: wd_wf_def s''_def s'_def active_bit)
  ultimately show ?thesis using c wf' fr w by (auto simp: s'_def s''_def)
qed

lemma wd_create_delete_witness:
  "\<exists>w s' s''. wd_create False 0 wd_demo0 = Some (w, s') \<and> wd_delete w s' = Some s'' \<and> g_wdnfree s'' = 32"
  using wd_create_delete [OF wd_demo0(1), of False 0]
  by (auto simp: wd_demo0_def wd_initialize_eq CONFIG_PREALLOC_WDOGS_def CONFIG_WDOG_INTRESERVE_def)

text \<open>\<open>wd_create\<close> from an interrupt handler with an empty pool does not return NULL but fails its
  assertion.\<close>

lemma wd_create_empty_pool:
  "g_wdfreelist s = [] \<Longrightarrow> g_wdnfree s = 0 \<Longrightarrow> wd_create True mem s = None"
  by (simp add: wd_create_def debugassert_def Let_def)

lemma wd_create_empty_pool_witness:
  "wd_create True 0x9000 (wd_demo0\<lparr>g_wdfreelist := [], g_wdnfree := 0\<rparr>) = None"
  by (rule wd_create_empty_pool) simp_all

text \<open>\<open>wd_delete\<close> of a static watchdog returns with interrupts disabled.\<close>

lemma wd_delete_static_irq:
  assumes "w \<noteq> NULL" "wflags s w = WDOGF_STATIC"
  shows "wd_delete w s = Some (s\<lparr>irq_off := True\<rparr>)"
  using assms
  by (simp add: wd_delete_def debugassert_def WDOG_ISACTIVE_def WDOG_ISALLOCED_def WDOG_ISSTATIC_def WDOGF_STATIC_def
      WDOGF_ACTIVE_def WDOGF_ALLOCED_def Let_def)

lemma wd_delete_static_irq_witness:
  "irq_off (the (wd_delete 0x8000 (wd_demo0\<lparr>wflags := \<lambda>_. WDOGF_STATIC\<rparr>)))"
  by (subst wd_delete_static_irq) simp_all

end
