(* ===== verification/Sched.thy ===== *)
theory Sched
  imports Queue
begin

unbundle bit_operations_syntax

text \<open>
  The scheduler of \<open>os/kernel/sched\<close> and the context switches of \<open>os/arch/arm/src/armv7-r\<close>: task lists,
  preemption lock, priorities, policies and time slices. A task list is the sequence of the addresses of
  its TCBs, as the doubly linked queues keep it (theory \<open>Queue\<close>); the fields of a TCB are functions of its
  address. The running task is the head of the ready-to-run list, so a context switch is a change of that
  head. An operation returns \<open>None\<close> when an assertion fails. Priorities are below 256 wherever the code
  stores them; the return value \<open>False\<close> is \<open>ERROR\<close>.
\<close>

section \<open>State\<close>

datatype tstate =
    TSTATE_TASK_INVALID | TSTATE_TASK_PENDING | TSTATE_TASK_READYTORUN | TSTATE_TASK_RUNNING
  | TSTATE_TASK_INACTIVE | TSTATE_WAIT_SEM | TSTATE_WAIT_SIG | TSTATE_WAIT_MQNOTEMPTY | TSTATE_WAIT_MQNOTFULL

datatype tasklist =
    Pendingtasks | Readytorun | Inactivetasks | Waitingforsemaphore | Waitingforsignal
  | Waitingformqnotempty | Waitingformqnotfull

text \<open>\<open>g_tasklisttable\<close>: the list of a state and whether it is kept in priority order.\<close>

fun g_tasklisttable :: "tstate \<Rightarrow> (tasklist \<times> bool) option" where
  "g_tasklisttable TSTATE_TASK_INVALID = None"
| "g_tasklisttable TSTATE_TASK_PENDING = Some (Pendingtasks, True)"
| "g_tasklisttable TSTATE_TASK_READYTORUN = Some (Readytorun, True)"
| "g_tasklisttable TSTATE_TASK_RUNNING = Some (Readytorun, True)"
| "g_tasklisttable TSTATE_TASK_INACTIVE = Some (Inactivetasks, False)"
| "g_tasklisttable TSTATE_WAIT_SEM = Some (Waitingforsemaphore, True)"
| "g_tasklisttable TSTATE_WAIT_SIG = Some (Waitingforsignal, False)"
| "g_tasklisttable TSTATE_WAIT_MQNOTEMPTY = Some (Waitingformqnotempty, True)"
| "g_tasklisttable TSTATE_WAIT_MQNOTFULL = Some (Waitingformqnotfull, True)"

fun ready_state :: "tstate \<Rightarrow> bool" where
  "ready_state TSTATE_TASK_READYTORUN = True"
| "ready_state TSTATE_TASK_RUNNING = True"
| "ready_state _ = False"

fun blocked_state :: "tstate \<Rightarrow> bool" where
  "blocked_state TSTATE_TASK_INVALID = False"
| "blocked_state TSTATE_TASK_PENDING = False"
| "blocked_state TSTATE_TASK_READYTORUN = False"
| "blocked_state TSTATE_TASK_RUNNING = False"
| "blocked_state _ = True"

definition SCHED_PRIORITY_MIN :: nat where "SCHED_PRIORITY_MIN = 1"
definition SCHED_PRIORITY_MAX :: nat where "SCHED_PRIORITY_MAX = 255"
definition SCHED_PRIORITY_IDLE :: nat where "SCHED_PRIORITY_IDLE = 0"
definition MAX_LOCK_COUNT :: nat where "MAX_LOCK_COUNT = 127"
definition CONFIG_MAX_TASKS :: nat where "CONFIG_MAX_TASKS = 16"

text \<open>\<open>MSEC2TICK(CONFIG_RR_INTERVAL)\<close> with 10 ms ticks.\<close>

definition RR_TICKS :: int where "RR_TICKS = 10"

record sched_state =
  tlist :: "tasklist \<Rightarrow> addr list"
  sched_priority :: "addr \<Rightarrow> nat"
  base_priority :: "addr \<Rightarrow> nat"
  npend_reprio :: "addr \<Rightarrow> nat"
  pend_reprios :: "addr \<Rightarrow> nat list"
  task_state :: "addr \<Rightarrow> tstate"
  round_robin :: "addr \<Rightarrow> bool"
  lockcount :: "addr \<Rightarrow> nat"
  timeslice :: "addr \<Rightarrow> int"
  tcb_pid :: "addr \<Rightarrow> int"
  pidhash_tcb :: "nat \<Rightarrow> addr"
  pidhash_pid :: "nat \<Rightarrow> int"
  idle_tcb :: addr

abbreviation g_readytorun :: "'a sched_state_scheme \<Rightarrow> addr list" where
  "g_readytorun s \<equiv> tlist s Readytorun"

abbreviation g_pendingtasks :: "'a sched_state_scheme \<Rightarrow> addr list" where
  "g_pendingtasks s \<equiv> tlist s Pendingtasks"

text \<open>The head of a list, NULL for an empty one.\<close>

abbreviation head_of :: "addr list \<Rightarrow> addr" where
  "head_of ts \<equiv> hd (ts @ [NULL])"

abbreviation set_tlist :: "tasklist \<Rightarrow> addr list \<Rightarrow> 'a sched_state_scheme \<Rightarrow> 'a sched_state_scheme" where
  "set_tlist l ts s \<equiv> s\<lparr>tlist := (tlist s)(l := ts)\<rparr>"

abbreviation set_task_state :: "addr \<Rightarrow> tstate \<Rightarrow> 'a sched_state_scheme \<Rightarrow> 'a sched_state_scheme" where
  "set_task_state t st s \<equiv> s\<lparr>task_state := (task_state s)(t := st)\<rparr>"

abbreviation set_priority :: "addr \<Rightarrow> nat \<Rightarrow> 'a sched_state_scheme \<Rightarrow> 'a sched_state_scheme" where
  "set_priority t p s \<equiv> s\<lparr>sched_priority := (sched_priority s)(t := p)\<rparr>"

section \<open>Task lists\<close>

text \<open>\<open>sched_addprioritized\<close> passes the tasks of the same or higher priority; it returns whether the
  head of the list changed.\<close>

definition sched_addprioritized :: "addr \<Rightarrow> tasklist \<Rightarrow> 'a sched_state_scheme \<Rightarrow> (bool \<times> 'a sched_state_scheme) option" where
  "sched_addprioritized t l s = do {
     debugassert (sched_priority s t \<ge> SCHED_PRIORITY_MIN);
     let ts = walk_insert (\<lambda>u. sched_priority s t \<le> sched_priority s u) t (tlist s l);
     Some (head_of ts = t, set_tlist l ts s)
   }"

definition sched_addreadytorun :: "addr \<Rightarrow> 'a sched_state_scheme \<Rightarrow> (bool \<times> 'a sched_state_scheme) option" where
  "sched_addreadytorun btcb s =
     (let rtcb = head_of (g_readytorun s)
      in if lockcount s rtcb \<noteq> 0 \<and> sched_priority s rtcb < sched_priority s btcb then do {
           (_, s) \<leftarrow> sched_addprioritized btcb Pendingtasks s;
           Some (False, set_task_state btcb TSTATE_TASK_PENDING s)
         } else do {
           (new_head, s) \<leftarrow> sched_addprioritized btcb Readytorun s;
           if new_head then do {
             debugassert (lockcount s rtcb = 0 \<and> tl (g_readytorun s) \<noteq> []);
             let s = set_task_state btcb TSTATE_TASK_RUNNING s;
             let s = set_task_state (hd (tl (g_readytorun s))) TSTATE_TASK_READYTORUN s;
             Some (True, s)
           } else Some (False, set_task_state btcb TSTATE_TASK_READYTORUN s)
         })"

definition sched_removereadytorun :: "addr \<Rightarrow> 'a sched_state_scheme \<Rightarrow> (bool \<times> 'a sched_state_scheme) option" where
  "sched_removereadytorun rtcb s = do {
     (ret, s) \<leftarrow>
       (if rtcb = head_of (g_readytorun s) then do {
          debugassert (tl (g_readytorun s) \<noteq> []);
          Some (True, set_task_state (hd (tl (g_readytorun s))) TSTATE_TASK_RUNNING s)
        } else Some (False, s));
     let s = set_tlist Readytorun (remove1 rtcb (g_readytorun s)) s;
     Some (ret, set_task_state rtcb TSTATE_TASK_INVALID s)
   }"

definition sched_addblocked :: "addr \<Rightarrow> tstate \<Rightarrow> 'a sched_state_scheme \<Rightarrow> 'a sched_state_scheme option" where
  "sched_addblocked btcb st s = do {
     debugassert (blocked_state st);
     (l, prioritized) \<leftarrow> g_tasklisttable st;
     s \<leftarrow> (if prioritized then map_option snd (sched_addprioritized btcb l s)
           else Some (set_tlist l (tlist s l @ [btcb]) s));
     Some (set_task_state btcb st s)
   }"

definition sched_removeblocked :: "addr \<Rightarrow> 'a sched_state_scheme \<Rightarrow> 'a sched_state_scheme option" where
  "sched_removeblocked btcb s = do {
     let st = task_state s btcb;
     debugassert (blocked_state st);
     (l, _) \<leftarrow> g_tasklisttable st;
     let s = set_tlist l (remove1 btcb (tlist s l)) s;
     Some (set_task_state btcb TSTATE_TASK_INVALID s)
   }"

text \<open>The loops of \<open>sched_mergepending\<close>. The ready-to-run list is split at \<open>rtrtcb\<close>: the tasks before
  it and the tasks from it on. The search goes on from where the last task was inserted.\<close>

fun rtr_search :: "(addr \<Rightarrow> nat) \<Rightarrow> nat \<Rightarrow> addr list \<Rightarrow> addr list \<Rightarrow> addr list \<times> addr list" where
  "rtr_search pri p before [] = (before, [])"
| "rtr_search pri p before (t # rest) =
     (if p \<le> pri t then rtr_search pri p (before @ [t]) rest else (before, t # rest))"

fun merge_loop :: "addr list \<Rightarrow> addr list \<Rightarrow> addr list \<Rightarrow> bool \<Rightarrow> 'a sched_state_scheme \<Rightarrow> (bool \<times> 'a sched_state_scheme) option" where
  "merge_loop [] before rest ret s = Some (ret, set_tlist Readytorun (before @ rest) s)"
| "merge_loop (p # ps) before rest ret s = do {
     let (before, rest) = rtr_search (sched_priority s) (sched_priority s p) before rest;
     debugassert (rest \<noteq> []);
     if before = [] then do {
       let s = set_task_state (hd rest) TSTATE_TASK_READYTORUN s;
       let s = set_task_state p TSTATE_TASK_RUNNING s;
       merge_loop ps before (p # rest) True s
     } else merge_loop ps before (p # rest) ret (set_task_state p TSTATE_TASK_READYTORUN s)
   }"

definition sched_mergepending :: "'a sched_state_scheme \<Rightarrow> (bool \<times> 'a sched_state_scheme) option" where
  "sched_mergepending s = do {
     (ret, s) \<leftarrow> merge_loop (g_pendingtasks s) [] (g_readytorun s) False s;
     Some (ret, set_tlist Pendingtasks [] s)
   }"

section \<open>Context switches (arch/arm/src/armv7-r)\<close>

text \<open>The running task is the head of the ready-to-run list: a context switch is the change of the head.
  The operations say whether they switch.\<close>

definition up_block_task :: "addr \<Rightarrow> tstate \<Rightarrow> 'a sched_state_scheme \<Rightarrow> (bool \<times> 'a sched_state_scheme) option" where
  "up_block_task t st s = do {
     debugassert (ready_state (task_state s t));
     (switch_needed, s) \<leftarrow> sched_removereadytorun t s;
     s \<leftarrow> sched_addblocked t st s;
     (merged, s) \<leftarrow> (if g_pendingtasks s \<noteq> [] then sched_mergepending s else Some (False, s));
     Some (switch_needed \<or> merged, s)
   }"

definition up_unblock_task :: "addr \<Rightarrow> 'a sched_state_scheme \<Rightarrow> (bool \<times> 'a sched_state_scheme) option" where
  "up_unblock_task t s = do {
     debugassert (blocked_state (task_state s t));
     s \<leftarrow> sched_removeblocked t s;
     sched_addreadytorun t s
   }"

definition up_release_pending :: "'a sched_state_scheme \<Rightarrow> (bool \<times> 'a sched_state_scheme) option" where
  "up_release_pending s = sched_mergepending s"

definition up_reprioritize_rtr :: "addr \<Rightarrow> nat \<Rightarrow> 'a sched_state_scheme \<Rightarrow> (bool \<times> 'a sched_state_scheme) option" where
  "up_reprioritize_rtr t priority s = do {
     debugassert (ready_state (task_state s t) \<and> priority \<ge> SCHED_PRIORITY_MIN);
     (removed_head, s) \<leftarrow> sched_removereadytorun t s;
     let s = set_priority t priority s;
     (new_head, s) \<leftarrow> sched_addreadytorun t s;
     let switch_needed = (removed_head \<noteq> new_head);
     s \<leftarrow> (if switch_needed \<and> g_pendingtasks s \<noteq> [] then map_option snd (sched_mergepending s) else Some s);
     Some (switch_needed, s)
   }"

section \<open>Preemption lock\<close>

definition sched_lock :: "bool \<Rightarrow> 'a sched_state_scheme \<Rightarrow> 'a sched_state_scheme option" where
  "sched_lock in_irq s =
     (let rtcb = head_of (g_readytorun s)
      in if rtcb \<noteq> NULL \<and> \<not> in_irq then do {
           debugassert (lockcount s rtcb < MAX_LOCK_COUNT);
           Some (s\<lparr>lockcount := (lockcount s)(rtcb := lockcount s rtcb + 1)\<rparr>)
         } else Some s)"

text \<open>\<open>sched_unlock\<close> ends with a test for an expired time slice that applies only if \<open>rtcb\<close> is not the head of
  the ready-to-run list. The task that called it runs that test, after a context switch when it runs again;
  it is the head of the list then and the test has no effect.\<close>

definition sched_unlock :: "bool \<Rightarrow> 'a sched_state_scheme \<Rightarrow> 'a sched_state_scheme option" where
  "sched_unlock in_irq s =
     (let rtcb = head_of (g_readytorun s)
      in if rtcb \<noteq> NULL \<and> \<not> in_irq then do {
           let s = (if lockcount s rtcb \<noteq> 0 then s\<lparr>lockcount := (lockcount s)(rtcb := lockcount s rtcb - 1)\<rparr> else s);
           if lockcount s rtcb = 0 \<and> g_pendingtasks s \<noteq> [] then map_option snd (up_release_pending s)
           else Some s
         } else Some s)"

definition sched_lockcount :: "'a sched_state_scheme \<Rightarrow> nat" where
  "sched_lockcount s = lockcount s (head_of (g_readytorun s))"

section \<open>Priorities and policies\<close>

text \<open>The result is \<open>False\<close> for \<open>ERROR\<close>.\<close>

definition sched_setpriority :: "addr \<Rightarrow> int \<Rightarrow> 'a sched_state_scheme \<Rightarrow> (bool \<times> 'a sched_state_scheme) option" where
  "sched_setpriority t priority s =
     (let rtcb = head_of (g_readytorun s); p = nat priority
      in if priority < int SCHED_PRIORITY_MIN \<or> priority > int SCHED_PRIORITY_MAX then Some (False, s)
         else case task_state s t of
           TSTATE_TASK_RUNNING \<Rightarrow> do {
             debugassert (tl (g_readytorun s) \<noteq> []);
             s \<leftarrow> (if p \<le> sched_priority s (hd (tl (g_readytorun s)))
                   then map_option snd (up_reprioritize_rtr t p s) else Some (set_priority t p s));
             Some (True, s)
           }
         | TSTATE_TASK_READYTORUN \<Rightarrow>
             (if p > sched_priority s rtcb then do {
                (_, s) \<leftarrow> up_reprioritize_rtr t p s;
                Some (True, s)
              } else do {
                (r, s) \<leftarrow> sched_removereadytorun t s;
                debugassert (\<not> r);
                let s = set_priority t p s;
                (r, s) \<leftarrow> sched_addreadytorun t s;
                debugassert (\<not> r);
                Some (True, s)
              })
         | st \<Rightarrow>
             (case g_tasklisttable st of
                Some (l, True) \<Rightarrow> do {
                  let s = set_tlist l (remove1 t (tlist s l)) s;
                  let s = set_priority t p s;
                  (_, s) \<leftarrow> sched_addprioritized t l s;
                  Some (True, s)
                }
              | _ \<Rightarrow> Some (True, set_priority t p s)))"

text \<open>A task whose call switches to another task goes on with the call when it runs again: the call has
  not returned, and the rest of it is the \<open>resume\<close> operation. In an interrupt handler the switch happens
  when the handler returns.\<close>

datatype 'r progress = Done 'r | Switched

definition sched_reprioritize_resume :: "addr \<Rightarrow> int \<Rightarrow> 'a sched_state_scheme \<Rightarrow> 'a sched_state_scheme" where
  "sched_reprioritize_resume t priority s =
     s\<lparr>base_priority := (base_priority s)(t := nat priority), npend_reprio := (npend_reprio s)(t := 0)\<rparr>"

definition sched_reprioritize :: "bool \<Rightarrow> addr \<Rightarrow> int \<Rightarrow> 'a sched_state_scheme \<Rightarrow> (bool progress \<times> 'a sched_state_scheme) option" where
  "sched_reprioritize in_irq t priority s = do {
     let rtcb = head_of (g_readytorun s);
     (ok, s) \<leftarrow> sched_setpriority t priority s;
     if \<not> in_irq \<and> head_of (g_readytorun s) \<noteq> rtcb then Some (Switched, s)
     else Some (Done ok, if ok then sched_reprioritize_resume t priority s else s)
   }"

definition sched_gettcb :: "int \<Rightarrow> 'a sched_state_scheme \<Rightarrow> addr" where
  "sched_gettcb pid s =
     (if pid \<ge> 0 then
        (let hash_ndx = nat pid mod CONFIG_MAX_TASKS
         in if pid = pidhash_pid s hash_ndx then pidhash_tcb s hash_ndx else NULL)
      else NULL)"

definition sched_verifytcb :: "addr \<Rightarrow> 'a sched_state_scheme \<Rightarrow> bool" where
  "sched_verifytcb t s \<longleftrightarrow> t = pidhash_tcb s (nat (tcb_pid s t) mod CONFIG_MAX_TASKS)"

definition sched_setparam :: "bool \<Rightarrow> int \<Rightarrow> int option \<Rightarrow> 'a sched_state_scheme \<Rightarrow> (bool progress \<times> 'a sched_state_scheme) option" where
  "sched_setparam in_irq pid param s =
     (case param of
        None \<Rightarrow> Some (Done False, s)
      | Some priority \<Rightarrow> do {
          s \<leftarrow> sched_lock in_irq s;
          let rtcb = head_of (g_readytorun s);
          let t = (if pid = 0 \<or> pid = tcb_pid s rtcb then rtcb else sched_gettcb pid s);
          if t = NULL then do {
            s \<leftarrow> sched_unlock in_irq s;
            Some (Done False, s)
          } else do {
            (ret, s) \<leftarrow> sched_reprioritize in_irq t priority s;
            case ret of
              Switched \<Rightarrow> Some (Switched, s)
            | Done ok \<Rightarrow> do {
                s \<leftarrow> sched_unlock in_irq s;
                Some (Done ok, s)
              }
          }
        })"

definition sched_setparam_resume :: "addr \<Rightarrow> int \<Rightarrow> 'a sched_state_scheme \<Rightarrow> (bool \<times> 'a sched_state_scheme) option" where
  "sched_setparam_resume t priority s = do {
     s \<leftarrow> sched_unlock False (sched_reprioritize_resume t priority s);
     Some (True, s)
   }"

definition sched_getparam :: "bool \<Rightarrow> int \<Rightarrow> 'a sched_state_scheme \<Rightarrow> (nat option \<times> 'a sched_state_scheme) option" where
  "sched_getparam in_irq pid s =
     (let rtcb = head_of (g_readytorun s)
      in if pid = 0 \<or> pid = tcb_pid s rtcb then Some (Some (sched_priority s rtcb), s)
         else do {
           s \<leftarrow> sched_lock in_irq s;
           let t = sched_gettcb pid s;
           let ret = (if t = NULL then None else Some (sched_priority s t));
           s \<leftarrow> sched_unlock in_irq s;
           Some (ret, s)
         })"

definition SCHED_FIFO :: int where "SCHED_FIFO = 1"
definition SCHED_RR :: int where "SCHED_RR = 2"

definition sched_setscheduler :: "bool \<Rightarrow> int \<Rightarrow> int \<Rightarrow> int \<Rightarrow> 'a sched_state_scheme \<Rightarrow> (bool progress \<times> 'a sched_state_scheme) option" where
  "sched_setscheduler in_irq pid pol priority s =
   (if pol \<noteq> SCHED_FIFO \<and> pol \<noteq> SCHED_RR then Some (Done False, s) else do {
     let pid = (if pid = 0 then tcb_pid s (head_of (g_readytorun s)) else pid);
     let t = sched_gettcb pid s;
     if t = NULL then Some (Done False, s)
     else do {
       s \<leftarrow> sched_lock in_irq s;
       let s = (if pol = SCHED_RR then s\<lparr>round_robin := (round_robin s)(t := True), timeslice := (timeslice s)(t := RR_TICKS)\<rparr>
         else s\<lparr>round_robin := (round_robin s)(t := False), timeslice := (timeslice s)(t := 0)\<rparr>);
       (ret, s) \<leftarrow> sched_reprioritize in_irq t priority s;
       case ret of
         Switched \<Rightarrow> Some (Switched, s)
       | Done ok \<Rightarrow> do {
           s \<leftarrow> sched_unlock in_irq s;
           Some (Done ok, s)
         }
     }
   })"

definition sched_getscheduler :: "int \<Rightarrow> 'a sched_state_scheme \<Rightarrow> int option" where
  "sched_getscheduler pid s =
     (let t = (if pid = 0 then head_of (g_readytorun s) else sched_gettcb pid s)
      in if t = NULL then None else if round_robin s t then Some SCHED_RR else Some SCHED_FIFO)"

text \<open>The interval in seconds and nanoseconds; \<open>interval_ok\<close> says that the caller's pointer is not NULL.\<close>

definition CONFIG_RR_INTERVAL :: int where "CONFIG_RR_INTERVAL = 100"

definition sched_rr_get_interval :: "int \<Rightarrow> bool \<Rightarrow> 'a sched_state_scheme \<Rightarrow> (int \<times> int) option" where
  "sched_rr_get_interval pid interval_ok s =
     (if pid \<noteq> 0 \<and> (pid < 0 \<or> sched_gettcb pid s = NULL) then None
      else if \<not> interval_ok then None
      else Some (CONFIG_RR_INTERVAL div 1000, (CONFIG_RR_INTERVAL mod 1000) * 1000000))"

definition sched_yield :: "'a sched_state_scheme \<Rightarrow> (bool \<times> 'a sched_state_scheme) option" where
  "sched_yield s = sched_setpriority (head_of (g_readytorun s)) (int (sched_priority s (head_of (g_readytorun s)))) s"

section \<open>Time slices (sched_processtimer.c)\<close>

definition sched_process_timeslice :: "'a sched_state_scheme \<Rightarrow> 'a sched_state_scheme option" where
  "sched_process_timeslice s =
     (let rtcb = head_of (g_readytorun s)
      in if round_robin s rtcb then
           (if timeslice s rtcb \<le> 1 then
              (if lockcount s rtcb = 0 then
                 (let s = s\<lparr>timeslice := (timeslice s)(rtcb := RR_TICKS)\<rparr>
                  in if tl (g_readytorun s) \<noteq> [] \<and> sched_priority s (hd (tl (g_readytorun s))) \<ge> sched_priority s rtcb
                     then map_option snd (up_reprioritize_rtr rtcb (sched_priority s rtcb) s) else Some s)
               else Some s)
            else Some (s\<lparr>timeslice := (timeslice s)(rtcb := timeslice s rtcb - 1)\<rparr>))
         else Some s)"

end
