(* ===== verification/Sched_Inv.thy ===== *)
theory Sched_Inv
  imports Sched
begin

unbundle bit_operations_syntax

text \<open>
  The invariant of the scheduler, and what each operation on the task lists does to a state that satisfies
  it.
\<close>

section \<open>The scheduling invariant\<close>

interpretation prio: ordered_list "\<lambda>t u. pri u \<le> (pri t :: nat)" for pri :: "addr \<Rightarrow> nat"
  by unfold_locales auto

fun prioritized :: "tasklist \<Rightarrow> bool" where
  "prioritized Inactivetasks = False"
| "prioritized Waitingforsignal = False"
| "prioritized _ = True"

fun list_state :: "tasklist \<Rightarrow> tstate" where
  "list_state Pendingtasks = TSTATE_TASK_PENDING"
| "list_state Readytorun = TSTATE_TASK_READYTORUN"
| "list_state Inactivetasks = TSTATE_TASK_INACTIVE"
| "list_state Waitingforsemaphore = TSTATE_WAIT_SEM"
| "list_state Waitingforsignal = TSTATE_WAIT_SIG"
| "list_state Waitingformqnotempty = TSTATE_WAIT_MQNOTEMPTY"
| "list_state Waitingformqnotfull = TSTATE_WAIT_MQNOTFULL"

definition by_priority :: "'a sched_state_scheme \<Rightarrow> addr list \<Rightarrow> bool" where
  "by_priority s ts \<longleftrightarrow> sorted_wrt (\<lambda>t u. sched_priority s u \<le> sched_priority s t) ts"

definition lists_ok :: "'a sched_state_scheme \<Rightarrow> bool" where
  "lists_ok s \<longleftrightarrow> (\<forall>l. distinct (tlist s l) \<and> NULL \<notin> set (tlist s l) \<and> (prioritized l \<longrightarrow> by_priority s (tlist s l))) \<and>
     (\<forall>l l'. l \<noteq> l' \<longrightarrow> set (tlist s l) \<inter> set (tlist s l') = {})"

definition states_ok :: "'a sched_state_scheme \<Rightarrow> bool" where
  "states_ok s \<longleftrightarrow> (\<forall>l. \<forall>t \<in> set (tlist s l).
     task_state s t = (if l = Readytorun \<and> t = hd (tlist s l) then TSTATE_TASK_RUNNING else list_state l))"

definition idle_ok :: "'a sched_state_scheme \<Rightarrow> bool" where
  "idle_ok s \<longleftrightarrow> g_readytorun s \<noteq> [] \<and> last (g_readytorun s) = idle_tcb s \<and> sched_priority s (idle_tcb s) = SCHED_PRIORITY_IDLE \<and>
     (\<forall>l. \<forall>t \<in> set (tlist s l). t \<noteq> idle_tcb s \<longrightarrow> SCHED_PRIORITY_MIN \<le> sched_priority s t \<and> sched_priority s t \<le> SCHED_PRIORITY_MAX)"

definition sched_inv :: "'a sched_state_scheme \<Rightarrow> bool" where
  "sched_inv s \<longleftrightarrow> lists_ok s \<and> states_ok s \<and> idle_ok s"

text \<open>Tasks wait on the pending list only while the running task holds the preemption lock.\<close>

definition sched_wf :: "'a sched_state_scheme \<Rightarrow> bool" where
  "sched_wf s \<longleftrightarrow> sched_inv s \<and> (g_pendingtasks s \<noteq> [] \<longrightarrow> 0 < lockcount s (hd (g_readytorun s)))"

definition unlisted :: "addr \<Rightarrow> 'a sched_state_scheme \<Rightarrow> bool" where
  "unlisted t s \<longleftrightarrow> (\<forall>l. t \<notin> set (tlist s l))"

definition valid_priority :: "nat \<Rightarrow> bool" where
  "valid_priority p \<longleftrightarrow> SCHED_PRIORITY_MIN \<le> p \<and> p \<le> SCHED_PRIORITY_MAX"

lemmas sched_consts = SCHED_PRIORITY_MIN_def SCHED_PRIORITY_MAX_def SCHED_PRIORITY_IDLE_def

abbreviation prio_insert :: "'a sched_state_scheme \<Rightarrow> addr \<Rightarrow> addr list \<Rightarrow> addr list" where
  "prio_insert s t ts \<equiv> walk_insert (\<lambda>u. sched_priority s t \<le> sched_priority s u) t ts"

lemma head_of_nonempty [simp]: "ts \<noteq> [] \<Longrightarrow> head_of ts = hd ts"
  by (cases ts) auto

lemma hd_walk_insert: "hd (walk_insert p x ys) = (if ys = [] \<or> \<not> p (hd ys) then x else hd ys)"
  by (cases ys) auto

lemma walk_insert_nonempty [simp]: "walk_insert p x ys \<noteq> []"
  by (cases ys) auto

lemma last_walk_insert: "ys \<noteq> [] \<Longrightarrow> \<not> p (last ys) \<Longrightarrow> last (walk_insert p x ys) = last ys"
  by (induction ys) auto

lemma by_priority_insert: "by_priority s ts \<Longrightarrow> by_priority s (prio_insert s t ts)"
  unfolding by_priority_def by (rule prio.sorted_insert)

lemma sched_inv_rtr:
  assumes "sched_inv s"
  obtains r rs where "g_readytorun s = r # rs" "distinct (r # rs)" "r \<noteq> NULL" "task_state s r = TSTATE_TASK_RUNNING"
    "\<forall>t \<in> set rs. task_state s t = TSTATE_TASK_READYTORUN" "\<forall>t \<in> set rs. sched_priority s t \<le> sched_priority s r"
proof -
  obtain r rs where r: "g_readytorun s = r # rs" using assms by (cases "g_readytorun s") (auto simp: sched_inv_def idle_ok_def)
  have d: "distinct (r # rs)" "r \<noteq> NULL" using assms r unfolding sched_inv_def lists_ok_def by (metis list.set_intros(1))+
  have p: "by_priority s (r # rs)" using assms r unfolding sched_inv_def lists_ok_def by (metis prioritized.simps(4))
  have st: "\<forall>t \<in> set (r # rs). task_state s t = (if t = r then TSTATE_TASK_RUNNING else TSTATE_TASK_READYTORUN)"
    using assms r unfolding sched_inv_def states_ok_def by (metis list.sel(1) list_state.simps(2))
  have "task_state s r = TSTATE_TASK_RUNNING" "\<forall>t \<in> set rs. task_state s t = TSTATE_TASK_READYTORUN" using st d(1) by auto
  then show thesis using that [OF r d] p by (auto simp: by_priority_def)
qed

text \<open>A task that is in no list is added to one.\<close>

lemma sched_inv_insert:
  assumes inv: "sched_inv s" and t: "unlisted t s" "t \<noteq> NULL" "valid_priority (sched_priority s t)"
    and ts: "set ts = insert t (set (tlist s l))" "distinct ts" "prioritized l \<longrightarrow> by_priority s ts"
      "l = Readytorun \<longrightarrow> last ts = last (g_readytorun s)"
    and f: "\<And>l' u. u \<in> set (((tlist s)(l := ts)) l') \<Longrightarrow>
      f u = (if l' = Readytorun \<and> u = hd (((tlist s)(l := ts)) l') then TSTATE_TASK_RUNNING else list_state l')"
  shows "sched_inv (s\<lparr>tlist := (tlist s)(l := ts), task_state := f\<rparr>)"
proof -
  have lo: "lists_ok s" and id: "idle_ok s" using inv by (auto simp: sched_inv_def)
  have ne: "ts \<noteq> []" using ts(1) by auto
  have "lists_ok (s\<lparr>tlist := (tlist s)(l := ts), task_state := f\<rparr>)"
    using lo t ts unfolding lists_ok_def unlisted_def by_priority_def by auto
  moreover have "states_ok (s\<lparr>tlist := (tlist s)(l := ts), task_state := f\<rparr>)"
    using f by (auto simp: states_ok_def)
  moreover have "idle_ok (s\<lparr>tlist := (tlist s)(l := ts), task_state := f\<rparr>)"
    using id ts(1,4) t(3) ne unfolding idle_ok_def valid_priority_def by auto
  ultimately show ?thesis by (simp add: sched_inv_def)
qed

lemma sched_inv_remove:
  assumes inv: "sched_inv s" and t: "t \<noteq> idle_tcb s"
    and f: "\<And>l' u. u \<in> set (((tlist s)(l := remove1 t (tlist s l))) l') \<Longrightarrow>
      f u = (if l' = Readytorun \<and> u = hd (((tlist s)(l := remove1 t (tlist s l))) l') then TSTATE_TASK_RUNNING else list_state l')"
  shows "sched_inv (s\<lparr>tlist := (tlist s)(l := remove1 t (tlist s l)), task_state := f\<rparr>)"
proof -
  have lo: "lists_ok s" and id: "idle_ok s" using inv by (auto simp: sched_inv_def)
  have sub: "set (remove1 t (tlist s l)) \<subseteq> set (tlist s l)" by (rule set_remove1_subset)
  have so: "by_priority s ts \<Longrightarrow> by_priority s (remove1 t ts)" for ts
    unfolding by_priority_def
  proof (induction ts)
    case (Cons a ts)
    then show ?case using set_remove1_subset [of t ts] by auto
  qed simp
  have "lists_ok (s\<lparr>tlist := (tlist s)(l := remove1 t (tlist s l)), task_state := f\<rparr>)"
  proof -
    let ?ls = "(tlist s)(l := remove1 t (tlist s l))"
    have "set (?ls a) \<subseteq> set (tlist s a)" "distinct (?ls a)" "prioritized a \<longrightarrow> by_priority s (?ls a)" for a
      using sub lo so by (auto simp: lists_ok_def)
    then show ?thesis using lo unfolding lists_ok_def by_priority_def by (simp del: fun_upd_apply) blast
  qed
  moreover have "states_ok (s\<lparr>tlist := (tlist s)(l := remove1 t (tlist s l)), task_state := f\<rparr>)"
    using f by (auto simp: states_ok_def)
  moreover have "idle_ok (s\<lparr>tlist := (tlist s)(l := remove1 t (tlist s l)), task_state := f\<rparr>)"
  proof -
    obtain ts where rtr: "g_readytorun s = ts @ [idle_tcb s]"
      using id by (metis append_butlast_last_id idle_ok_def)
    have "remove1 t (ts @ [idle_tcb s]) = remove1 t ts @ [idle_tcb s]" using t by (auto simp: remove1_append remove1_idem)
    then have "last (remove1 t (g_readytorun s)) = idle_tcb s" "remove1 t (g_readytorun s) \<noteq> []" by (simp_all add: rtr)
    then show ?thesis using id unfolding idle_ok_def
      by (cases "l = Readytorun") (auto split: if_splits dest!: subsetD [OF set_remove1_subset])
  qed
  ultimately show ?thesis by (simp add: sched_inv_def)
qed

section \<open>List operations\<close>

lemma unlistedI: "sched_inv s \<Longrightarrow> t \<in> set (tlist s l) \<Longrightarrow> unlisted t (s\<lparr>tlist := (tlist s)(l := remove1 t (tlist s l)), task_state := f\<rparr>)"
  unfolding sched_inv_def lists_ok_def unlisted_def by (auto simp: set_remove1_eq)

lemma states_at: "sched_inv s \<Longrightarrow> t \<in> set (tlist s l) \<Longrightarrow>
    task_state s t = (if l = Readytorun \<and> t = hd (tlist s l) then TSTATE_TASK_RUNNING else list_state l)"
  unfolding sched_inv_def states_ok_def by blast

lemma only_list: "sched_inv s \<Longrightarrow> t \<in> set (tlist s l) \<Longrightarrow> t \<in> set (tlist s l') \<Longrightarrow> l' = l"
  unfolding sched_inv_def lists_ok_def by blast

lemma priority_order: "sched_inv s \<Longrightarrow> prioritized l \<Longrightarrow> by_priority s (tlist s l)"
  unfolding sched_inv_def lists_ok_def by blast

lemma inv_distinct: "sched_inv s \<Longrightarrow> distinct (tlist s l)"
  unfolding sched_inv_def lists_ok_def by blast

text \<open>\<open>sched_addreadytorun\<close> puts a task that is in no list on the pending list or the ready-to-run list.\<close>

lemma sched_addreadytorun_spec:
  assumes inv: "sched_inv s" and t: "unlisted t s" "t \<noteq> NULL" "valid_priority (sched_priority s t)"
  defines "r \<equiv> hd (g_readytorun s)"
  defines "locked \<equiv> lockcount s r \<noteq> 0 \<and> sched_priority s r < sched_priority s t"
  shows "\<exists>f. sched_addreadytorun t s = Some (\<not> locked \<and> sched_priority s r < sched_priority s t,
      s\<lparr>tlist := (if locked then (tlist s)(Pendingtasks := prio_insert s t (g_pendingtasks s))
                  else (tlist s)(Readytorun := prio_insert s t (g_readytorun s))), task_state := f\<rparr>)"
    (is "\<exists>f. _ = Some (?ret, ?s f)")
    and "\<And>b s'. sched_addreadytorun t s = Some (b, s') \<Longrightarrow> sched_inv s'"
proof -
  obtain r' rs where rtr: "g_readytorun s = r' # rs" "distinct (r' # rs)" "task_state s r' = TSTATE_TASK_RUNNING"
    "\<forall>u \<in> set rs. task_state s u = TSTATE_TASK_READYTORUN" using sched_inv_rtr [OF inv] by metis
  have r: "r' = r" by (simp add: r_def rtr)
  note rtr = rtr [unfolded r]
  have id: "last (r # rs) = idle_tcb s" "sched_priority s (idle_tcb s) = SCHED_PRIORITY_IDLE"
    using inv rtr(1) by (auto simp: sched_inv_def idle_ok_def)
  have tl: "t \<notin> set (tlist s l)" for l using t(1) by (simp add: unlisted_def)
  have tn: "t \<noteq> r" "t \<notin> set rs" using tl [of Readytorun] rtr(1) by auto
  have vp: "SCHED_PRIORITY_MIN \<le> sched_priority s t" using t(3) by (simp add: valid_priority_def)
  have "\<exists>f. sched_addreadytorun t s = Some (?ret, ?s f) \<and> sched_inv (?s f)"
  proof (cases locked)
    case True
    let ?f = "(task_state s)(t := TSTATE_TASK_PENDING)"
    have "sched_inv (s\<lparr>tlist := (tlist s)(Pendingtasks := prio_insert s t (g_pendingtasks s)), task_state := ?f\<rparr>)"
    proof (rule sched_inv_insert [OF inv t])
      show "?f u = (if l' = Readytorun \<and> u = hd (((tlist s)(Pendingtasks := prio_insert s t (g_pendingtasks s))) l')
          then TSTATE_TASK_RUNNING else list_state l')"
        if "u \<in> set (((tlist s)(Pendingtasks := prio_insert s t (g_pendingtasks s))) l')" for l' u
        using that states_at [OF inv, of u l'] tl [of l'] by (auto split: if_splits)
    qed (use tl [of Pendingtasks] inv_distinct [OF inv] by_priority_insert [OF priority_order [OF inv, of Pendingtasks]] in auto)
    moreover have "sched_addreadytorun t s = Some (?ret, ?s ?f)"
      using True vp by (simp add: sched_addreadytorun_def sched_addprioritized_def debugassert_def rtr(1) r locked_def Let_def)
    ultimately show ?thesis using True by auto
  next
    case False
    let ?ts = "prio_insert s t (r # rs)"
    have las: "last ?ts = last (r # rs)"
      using id vp by (intro last_walk_insert) (auto simp: sched_consts)
    have set: "set ?ts = insert t (set (tlist s Readytorun))" "distinct ?ts" "prioritized Readytorun \<longrightarrow> by_priority s ?ts"
      "Readytorun = Readytorun \<longrightarrow> last ?ts = last (g_readytorun s)"
      using tn rtr(1,2) las by_priority_insert [OF priority_order [OF inv, of Readytorun], of t] by auto
    show ?thesis
    proof (cases "sched_priority s r < sched_priority s t")
      case True
      let ?f = "(task_state s)(t := TSTATE_TASK_RUNNING, r := TSTATE_TASK_READYTORUN)"
      have "sched_inv (s\<lparr>tlist := (tlist s)(Readytorun := ?ts), task_state := ?f\<rparr>)"
      proof (rule sched_inv_insert [OF inv t set])
        show "?f u = (if l' = Readytorun \<and> u = hd (((tlist s)(Readytorun := ?ts)) l') then TSTATE_TASK_RUNNING else list_state l')"
          if u: "u \<in> set (((tlist s)(Readytorun := ?ts)) l')" for l' u
        proof (cases "l' = Readytorun")
          case True
          with u rtr(2,4) tn \<open>sched_priority s r < sched_priority s t\<close> show ?thesis by (auto simp: set(1) rtr(1))
        next
          case False
          then have "u \<noteq> t" "u \<noteq> r" using u tl [of l'] only_list [OF inv, of r Readytorun l'] rtr(1) by auto
          then show ?thesis using False u states_at [OF inv, of u l'] by simp
        qed
      qed
      moreover have "sched_addreadytorun t s = Some (?ret, ?s ?f)"
        using True False vp tn
        by (simp add: sched_addreadytorun_def sched_addprioritized_def debugassert_def rtr(1) r locked_def Let_def)
      ultimately show ?thesis using False by (auto simp: rtr(1))
    next
      case le: False
      let ?f = "(task_state s)(t := TSTATE_TASK_READYTORUN)"
      have "sched_inv (s\<lparr>tlist := (tlist s)(Readytorun := ?ts), task_state := ?f\<rparr>)"
      proof (rule sched_inv_insert [OF inv t set])
        show "?f u = (if l' = Readytorun \<and> u = hd (((tlist s)(Readytorun := ?ts)) l') then TSTATE_TASK_RUNNING else list_state l')"
          if u: "u \<in> set (((tlist s)(Readytorun := ?ts)) l')" for l' u
        proof (cases "l' = Readytorun")
          case True
          with u rtr(2-4) tn le show ?thesis by (auto simp: set(1) rtr(1))
        next
          case False
          then have "u \<noteq> t" using u tl [of l'] by auto
          then show ?thesis using False u states_at [OF inv, of u l'] by simp
        qed
      qed
      moreover have "sched_addreadytorun t s = Some (?ret, ?s ?f)"
        using le False vp tn
        by (simp add: sched_addreadytorun_def sched_addprioritized_def debugassert_def rtr(1) r locked_def Let_def)
      ultimately show ?thesis using False by (auto simp: rtr(1))
    qed
  qed
  then show "\<exists>f. sched_addreadytorun t s = Some (?ret, ?s f)"
    and "\<And>b s'. sched_addreadytorun t s = Some (b, s') \<Longrightarrow> sched_inv s'" by auto
qed

lemma sched_removereadytorun_spec:
  assumes inv: "sched_inv s" and t: "t \<in> set (g_readytorun s)" "t \<noteq> idle_tcb s"
  shows "\<exists>f. sched_removereadytorun t s = Some (t = hd (g_readytorun s),
      s\<lparr>tlist := (tlist s)(Readytorun := remove1 t (g_readytorun s)), task_state := f\<rparr>) \<and>
    sched_inv (s\<lparr>tlist := (tlist s)(Readytorun := remove1 t (g_readytorun s)), task_state := f\<rparr>) \<and>
    unlisted t (s\<lparr>tlist := (tlist s)(Readytorun := remove1 t (g_readytorun s)), task_state := f\<rparr>)"
proof -
  obtain r rs where rtr: "g_readytorun s = r # rs" "distinct (r # rs)" "task_state s r = TSTATE_TASK_RUNNING"
    "\<forall>u \<in> set rs. task_state s u = TSTATE_TASK_READYTORUN" using sched_inv_rtr [OF inv] by metis
  have id: "last (r # rs) = idle_tcb s" using inv rtr(1) by (auto simp: sched_inv_def idle_ok_def)
  show ?thesis
  proof (cases "t = r")
    case True
    then obtain q qs where rs: "rs = q # qs" using id t(2) by (cases rs) auto
    let ?f = "(task_state s)(q := TSTATE_TASK_RUNNING, t := TSTATE_TASK_INVALID)"
    have "sched_inv (s\<lparr>tlist := (tlist s)(Readytorun := remove1 t (tlist s Readytorun)), task_state := ?f\<rparr>)"
    proof (rule sched_inv_remove [OF inv t(2)])
      show "?f u = (if l' = Readytorun \<and> u = hd (((tlist s)(Readytorun := remove1 t (tlist s Readytorun))) l') then TSTATE_TASK_RUNNING else list_state l')"
        if u: "u \<in> set (((tlist s)(Readytorun := remove1 t (tlist s Readytorun))) l')" for l' u
      proof (cases "l' = Readytorun")
        case l: True
        then show ?thesis using u rtr rs True by auto
      next
        case False
        then have "u \<noteq> t" "u \<noteq> q" using u only_list [OF inv, of _ Readytorun l'] rtr(1) rs True by auto
        then show ?thesis using False u states_at [OF inv, of u l'] by simp
      qed
    qed
    then show ?thesis using True rs rtr(1) unlistedI [OF inv t(1)]
      by (intro exI [of _ ?f]) (simp add: sched_removereadytorun_def debugassert_def)
  next
    case False
    let ?f = "(task_state s)(t := TSTATE_TASK_INVALID)"
    have "sched_inv (s\<lparr>tlist := (tlist s)(Readytorun := remove1 t (tlist s Readytorun)), task_state := ?f\<rparr>)"
    proof (rule sched_inv_remove [OF inv t(2)])
      show "?f u = (if l' = Readytorun \<and> u = hd (((tlist s)(Readytorun := remove1 t (tlist s Readytorun))) l') then TSTATE_TASK_RUNNING else list_state l')"
        if u: "u \<in> set (((tlist s)(Readytorun := remove1 t (tlist s Readytorun))) l')" for l' u
      proof (cases "l' = Readytorun")
        case l: True
        then show ?thesis using u rtr False by auto
      next
        case nl: False
        then have "u \<noteq> t" using u only_list [OF inv t(1), of l'] by auto
        then show ?thesis using nl u states_at [OF inv, of u l'] by simp
      qed
    qed
    then show ?thesis using False rtr(1) unlistedI [OF inv t(1)]
      by (intro exI [of _ ?f]) (simp add: sched_removereadytorun_def)
  qed
qed

section \<open>Merging the pending tasks\<close>

text \<open>The single pass of \<open>sched_mergepending\<close> is the insertion of the pending tasks one after the other.\<close>

abbreviation prio_merge :: "(addr \<Rightarrow> nat) \<Rightarrow> addr list \<Rightarrow> addr list \<Rightarrow> addr list" where
  "prio_merge pri ps ts \<equiv> fold (\<lambda>p. walk_insert (\<lambda>u. pri p \<le> pri u) p) ps ts"

lemma rtr_search_split: "rtr_search pri q before rest =
    (before @ takeWhile (\<lambda>u. q \<le> pri u) rest, dropWhile (\<lambda>u. q \<le> pri u) rest)"
  by (induction rest arbitrary: before) auto

lemma set_prio_merge [simp]: "set (prio_merge pri ps ts) = set ps \<union> set ts"
  by (induction ps arbitrary: ts) auto

lemma distinct_prio_merge: "distinct (ps @ ts) \<Longrightarrow> distinct (prio_merge pri ps ts)"
  by (induction ps arbitrary: ts) auto

lemma prio_merge_nonempty: "ts \<noteq> [] \<Longrightarrow> prio_merge pri ps ts \<noteq> []"
  by (induction ps arbitrary: ts) auto

lemma last_prio_merge:
  "ts \<noteq> [] \<Longrightarrow> \<forall>p \<in> set ps. pri (last ts) < pri p \<Longrightarrow> last (prio_merge pri ps ts) = last ts"
  by (induction ps arbitrary: ts) (auto simp: last_walk_insert)

lemma hd_prio_merge:
  "ts \<noteq> [] \<Longrightarrow> \<forall>p \<in> set ps. pri p \<le> pri (hd ts) \<Longrightarrow> hd (prio_merge pri ps ts) = hd ts"
  by (induction ps arbitrary: ts) (auto simp: hd_walk_insert)

lemma sorted_prio_merge: "sorted_wrt (\<lambda>t u. pri u \<le> pri t) ts \<Longrightarrow> sorted_wrt (\<lambda>t u. pri u \<le> pri t) (prio_merge pri ps ts)"
  by (induction ps arbitrary: ts) (auto simp: prio.sorted_insert)

lemma merge_loop_spec:
  assumes "distinct (ps @ before @ rest)" "before @ rest \<noteq> []"
    and "sorted_wrt (\<lambda>t u. sched_priority s u \<le> sched_priority s t) ps"
    and "\<forall>x \<in> set before. \<forall>p \<in> set ps. sched_priority s p \<le> sched_priority s x"
    and "\<forall>p \<in> set ps. sched_priority s (last (before @ rest)) < sched_priority s p"
    and "\<forall>u \<in> set (before @ rest). task_state s u =
        (if u = hd (before @ rest) then TSTATE_TASK_RUNNING else TSTATE_TASK_READYTORUN)"
  shows "\<exists>f. merge_loop ps before rest ret s = Some
      (ret \<or> hd (prio_merge (sched_priority s) ps (before @ rest)) \<noteq> hd (before @ rest),
       s\<lparr>tlist := (tlist s)(Readytorun := prio_merge (sched_priority s) ps (before @ rest)), task_state := f\<rparr>) \<and>
     (\<forall>u \<in> set (ps @ before @ rest). f u = (if u = hd (prio_merge (sched_priority s) ps (before @ rest))
        then TSTATE_TASK_RUNNING else TSTATE_TASK_READYTORUN)) \<and>
     (\<forall>u. u \<notin> set (ps @ before @ rest) \<longrightarrow> f u = task_state s u)"
  using assms
proof (induction ps arbitrary: before rest ret s)
  case Nil
  then show ?case by (intro exI [of _ "task_state s"]) (auto simp: fun_upd_def)
next
  case (Cons p ps)
  let ?P = "\<lambda>u. sched_priority s p \<le> sched_priority s u"
  define b r where b_def: "b = before @ takeWhile ?P rest" and r_def: "r = dropWhile ?P rest"
  have bP: "\<forall>x \<in> set before. ?P x" using Cons.prems(4) by auto
  have bP': "\<forall>x \<in> set b. ?P x" using bP set_takeWhileD unfolding b_def by fastforce
  have lst: "\<not> ?P (last (before @ rest))" using Cons.prems(5) by auto
  have rn: "r \<noteq> []"
  proof
    assume "r = []"
    then have "\<forall>x \<in> set rest. ?P x" by (simp add: r_def dropWhile_eq_Nil_conv)
    with bP have "\<forall>x \<in> set (before @ rest). ?P x" by auto
    then show False using lst last_in_set [OF Cons.prems(2)] by blast
  qed
  have spl: "before @ rest = b @ r" by (simp add: b_def r_def)
  have ins: "walk_insert ?P p (before @ rest) = b @ p # r"
    using walk_insert_split [of b ?P r p] bP' hd_dropWhile [of ?P rest] by (auto simp: spl r_def)
  have las: "last (b @ p # r) = last (before @ rest)" using rn by (simp add: spl)
  have hdn: "hd (b @ p # r) = (if b = [] then p else hd (before @ rest))" by (simp add: spl)
  let ?s = "if b = [] then set_task_state p TSTATE_TASK_RUNNING (set_task_state (hd r) TSTATE_TASK_READYTORUN s)
            else set_task_state p TSTATE_TASK_READYTORUN s"
  have pri [simp]: "sched_priority ?s = sched_priority s" by simp
  have step: "merge_loop (p # ps) before rest ret s = merge_loop ps b (p # r) (ret \<or> b = []) ?s"
    using rn by (auto simp: rtr_search_split debugassert_def b_def r_def)
  have pn: "p \<notin> set ps" "p \<notin> set before" "p \<notin> set rest" using Cons.prems(1) by auto
  have d: "distinct (ps @ b @ p # r)"
  proof -
    have "distinct (ps @ p # before @ rest)" using Cons.prems(1) by auto
    then have "distinct (ps @ p # b @ r)" by (simp only: spl)
    then show ?thesis by auto
  qed
  have st: "\<forall>u \<in> set (b @ p # r). task_state ?s u =
      (if u = hd (b @ p # r) then TSTATE_TASK_RUNNING else TSTATE_TASK_READYTORUN)"
  proof
    fix u assume "u \<in> set (b @ p # r)"
    then have u: "u = p \<or> u \<in> set (before @ rest)" by (simp only: spl) auto
    show "task_state ?s u = (if u = hd (b @ p # r) then TSTATE_TASK_RUNNING else TSTATE_TASK_READYTORUN)"
    proof (cases "b = []")
      case True
      then have "r = before @ rest" by (simp add: spl)
      then show ?thesis using True u Cons.prems(6) rn by auto
    next
      case False
      then have "hd (b @ p # r) = hd (before @ rest)" using hdn by simp
      moreover have "hd (before @ rest) \<noteq> p" using pn Cons.prems(2) by (metis Un_iff hd_in_set set_append)
      ultimately show ?thesis using False u Cons.prems(6) by auto
    qed
  qed
  have "\<exists>f. merge_loop ps b (p # r) (ret \<or> b = []) ?s = Some
      ((ret \<or> b = []) \<or> hd (prio_merge (sched_priority ?s) ps (b @ p # r)) \<noteq> hd (b @ p # r),
       ?s\<lparr>tlist := (tlist ?s)(Readytorun := prio_merge (sched_priority ?s) ps (b @ p # r)), task_state := f\<rparr>) \<and>
     (\<forall>u \<in> set (ps @ b @ p # r). f u = (if u = hd (prio_merge (sched_priority ?s) ps (b @ p # r))
        then TSTATE_TASK_RUNNING else TSTATE_TASK_READYTORUN)) \<and>
     (\<forall>u. u \<notin> set (ps @ b @ p # r) \<longrightarrow> f u = task_state ?s u)"
  proof (rule Cons.IH [OF d _ _ _ _ st])
    show "\<forall>x \<in> set b. \<forall>q \<in> set ps. sched_priority ?s q \<le> sched_priority ?s x"
      using bP' Cons.prems(3) by (auto intro: order_trans)
    show "\<forall>q \<in> set ps. sched_priority ?s (last (b @ p # r)) < sched_priority ?s q"
      using Cons.prems(5) by (simp only: las pri) simp
  qed (use Cons.prems(3) in auto)
  then obtain f where f: "merge_loop ps b (p # r) (ret \<or> b = []) ?s = Some
      ((ret \<or> b = []) \<or> hd (prio_merge (sched_priority s) ps (b @ p # r)) \<noteq> hd (b @ p # r),
       ?s\<lparr>tlist := (tlist ?s)(Readytorun := prio_merge (sched_priority s) ps (b @ p # r)), task_state := f\<rparr>)"
     "\<forall>u \<in> set (ps @ b @ p # r). f u = (if u = hd (prio_merge (sched_priority s) ps (b @ p # r))
        then TSTATE_TASK_RUNNING else TSTATE_TASK_READYTORUN)"
     "\<forall>u. u \<notin> set (ps @ b @ p # r) \<longrightarrow> f u = task_state ?s u" by (simp only: pri) blast
  have m: "prio_merge (sched_priority s) (p # ps) (before @ rest) = prio_merge (sched_priority s) ps (b @ p # r)"
    by (simp only: fold_simps ins)
  have hd: "hd (prio_merge (sched_priority s) ps (b @ p # r)) = hd (b @ p # r) \<or> b \<noteq> []"
    using Cons.prems(3) hd_prio_merge [of "p # r" ps "sched_priority s"] by (cases "b = []") auto
  have hp: "hd (before @ rest) \<noteq> p" using pn Cons.prems(2) by (metis Un_iff hd_in_set set_append)
  have sets: "set (ps @ b @ p # r) = set ((p # ps) @ before @ rest)" by (simp only: spl) auto
  have upd: "?s\<lparr>tlist := (tlist ?s)(Readytorun := x), task_state := f\<rparr> = s\<lparr>tlist := (tlist s)(Readytorun := x), task_state := f\<rparr>" for x
    by simp
  show ?case
    unfolding step m f(1) upd
  proof (intro exI [of _ f] conjI)
    show "Some ((ret \<or> b = []) \<or> hd (prio_merge (sched_priority s) ps (b @ p # r)) \<noteq> hd (b @ p # r),
        s\<lparr>tlist := (tlist s)(Readytorun := prio_merge (sched_priority s) ps (b @ p # r)), task_state := f\<rparr>) =
      Some (ret \<or> hd (prio_merge (sched_priority s) ps (b @ p # r)) \<noteq> hd (before @ rest),
        s\<lparr>tlist := (tlist s)(Readytorun := prio_merge (sched_priority s) ps (b @ p # r)), task_state := f\<rparr>)"
      using hd hdn hp by auto
    show "\<forall>u. u \<notin> set ((p # ps) @ before @ rest) \<longrightarrow> f u = task_state s u"
    proof (intro allI impI)
      fix u assume u: "u \<notin> set ((p # ps) @ before @ rest)"
      then have "u \<noteq> hd r" using rn set_dropWhileD [of "hd r" ?P rest] by (auto simp: r_def)
      then show "f u = task_state s u" using f(3) u unfolding sets by auto
    qed
  qed (use f(2) sets in blast)
qed

lemma sched_mergepending_spec:
  assumes inv: "sched_inv s"
  defines "rtr \<equiv> prio_merge (sched_priority s) (g_pendingtasks s) (g_readytorun s)"
  shows "\<exists>f. sched_mergepending s = Some (hd rtr \<noteq> hd (g_readytorun s),
      s\<lparr>tlist := (tlist s)(Readytorun := rtr, Pendingtasks := []), task_state := f\<rparr>) \<and>
    sched_inv (s\<lparr>tlist := (tlist s)(Readytorun := rtr, Pendingtasks := []), task_state := f\<rparr>)"
proof -
  let ?ps = "g_pendingtasks s" and ?r = "g_readytorun s"
  have lo: "lists_ok s" and id: "idle_ok s" using inv by (auto simp: sched_inv_def)
  have d: "distinct (?ps @ [] @ ?r)" using inv_distinct [OF inv] only_list [OF inv] by fastforce
  have rn: "[] @ ?r \<noteq> []" using id by (simp add: idle_ok_def)
  have so: "sorted_wrt (\<lambda>t u. sched_priority s u \<le> sched_priority s t) ?ps" "by_priority s ?r"
    using priority_order [OF inv, of Pendingtasks] priority_order [OF inv, of Readytorun] by (simp_all add: by_priority_def)
  have idp: "idle_tcb s \<notin> set ?ps" using id only_list [OF inv, of "idle_tcb s" Readytorun Pendingtasks]
    by (metis append_Nil idle_ok_def last_in_set rn tasklist.distinct(1))
  have las: "\<forall>p \<in> set ?ps. sched_priority s (last ([] @ ?r)) < sched_priority s p"
    using id idp unfolding idle_ok_def sched_consts by force
  have st: "\<forall>u \<in> set ([] @ ?r). task_state s u = (if u = hd ([] @ ?r) then TSTATE_TASK_RUNNING else TSTATE_TASK_READYTORUN)"
    using states_at [OF inv, of _ Readytorun] by auto
  obtain f where f: "merge_loop ?ps [] ?r False s = Some (hd rtr \<noteq> hd ?r,
       s\<lparr>tlist := (tlist s)(Readytorun := rtr), task_state := f\<rparr>)"
    "\<forall>u \<in> set (?ps @ ?r). f u = (if u = hd rtr then TSTATE_TASK_RUNNING else TSTATE_TASK_READYTORUN)"
    "\<forall>u. u \<notin> set (?ps @ ?r) \<longrightarrow> f u = task_state s u"
    using merge_loop_spec [OF d rn so(1) _ las st, of False] unfolding rtr_def by auto
  let ?s = "s\<lparr>tlist := (tlist s)(Readytorun := rtr, Pendingtasks := []), task_state := f\<rparr>"
  have set: "set rtr = set ?ps \<union> set ?r" "distinct rtr" "rtr \<noteq> []" "by_priority s rtr" "last rtr = last ?r"
    using d rn so(2) las distinct_prio_merge prio_merge_nonempty last_prio_merge [of ?r ?ps "sched_priority s"]
    unfolding rtr_def by_priority_def by (auto intro: sorted_prio_merge)
  have "sched_mergepending s = Some (hd rtr \<noteq> hd ?r, ?s)" by (simp add: sched_mergepending_def f(1))
  moreover have "lists_ok ?s"
  proof -
    have dj: "set rtr \<inter> set (tlist s l) = {}" "set (tlist s l) \<inter> set rtr = {}"
      if "l \<noteq> Readytorun" "l \<noteq> Pendingtasks" for l
      using that lo unfolding set(1) lists_ok_def by blast+
    have nn: "NULL \<notin> set rtr" using lo unfolding set(1) lists_ok_def by simp
    show ?thesis using lo set(2,4) dj nn unfolding lists_ok_def by_priority_def by simp
  qed
  moreover have "states_ok ?s" unfolding states_ok_def
  proof (intro allI ballI)
    fix l u assume u: "u \<in> set (tlist ?s l)"
    show "task_state ?s u = (if l = Readytorun \<and> u = hd (tlist ?s l) then TSTATE_TASK_RUNNING else list_state l)"
    proof (cases "l = Readytorun")
      case True
      then show ?thesis using u f(2) set(1) by auto
    next
      case False
      then have ul: "u \<in> set (tlist s l)" "l \<noteq> Pendingtasks" using u by (auto split: if_splits)
      then have "u \<notin> set (?ps @ ?r)" using False only_list [OF inv ul(1), of Readytorun] only_list [OF inv ul(1), of Pendingtasks] by auto
      then show ?thesis using ul False f(3) states_at [OF inv ul(1)] by simp
    qed
  qed
  moreover have "idle_ok ?s" using id set(1,3,5) unfolding idle_ok_def by auto
  ultimately show ?thesis unfolding sched_inv_def by blast
qed

section \<open>Blocked tasks\<close>

lemma blocked_list: "blocked_state st \<Longrightarrow> \<exists>l. g_tasklisttable st = Some (l, prioritized l) \<and> list_state l = st \<and> l \<noteq> Readytorun \<and> l \<noteq> Pendingtasks"
  by (cases st) auto

lemma sched_addblocked_spec:
  assumes inv: "sched_inv s" and t: "unlisted t s" "t \<noteq> NULL" "valid_priority (sched_priority s t)"
    and l: "blocked_state st" "g_tasklisttable st = Some (l, prioritized l)" "list_state l = st" "l \<noteq> Readytorun"
  defines "ts \<equiv> (if prioritized l then prio_insert s t (tlist s l) else tlist s l @ [t])"
  shows "sched_addblocked t st s = Some (s\<lparr>tlist := (tlist s)(l := ts), task_state := (task_state s)(t := st)\<rparr>)"
    and "sched_inv (s\<lparr>tlist := (tlist s)(l := ts), task_state := (task_state s)(t := st)\<rparr>)"
proof -
  show "sched_addblocked t st s = Some (s\<lparr>tlist := (tlist s)(l := ts), task_state := (task_state s)(t := st)\<rparr>)"
    using l t(3) by (simp add: sched_addblocked_def sched_addprioritized_def debugassert_def valid_priority_def ts_def Let_def)
  have tl: "t \<notin> set (tlist s l)" for l using t(1) by (simp add: unlisted_def)
  show "sched_inv (s\<lparr>tlist := (tlist s)(l := ts), task_state := (task_state s)(t := st)\<rparr>)"
  proof (rule sched_inv_insert [OF inv t])
    show "((task_state s)(t := st)) u = (if l' = Readytorun \<and> u = hd (((tlist s)(l := ts)) l') then TSTATE_TASK_RUNNING else list_state l')"
      if "u \<in> set (((tlist s)(l := ts)) l')" for l' u
      using that l(3,4) tl states_at [OF inv, of u l'] unfolding ts_def by (auto split: if_splits)
  qed (use tl [of l] l(4) inv_distinct [OF inv, of l] by_priority_insert priority_order [OF inv, of l] in \<open>auto simp: ts_def\<close>)
qed

lemma sched_removeblocked_spec:
  assumes inv: "sched_inv s" and t: "t \<in> set (tlist s l)" "t \<noteq> idle_tcb s" and l: "blocked_state (task_state s t)"
  defines "s' \<equiv> s\<lparr>tlist := (tlist s)(l := remove1 t (tlist s l)), task_state := (task_state s)(t := TSTATE_TASK_INVALID)\<rparr>"
  shows "sched_removeblocked t s = Some s'" "sched_inv s'" "unlisted t s'" "l \<noteq> Readytorun" "l \<noteq> Pendingtasks"
proof -
  have st: "task_state s t = (if l = Readytorun \<and> t = hd (tlist s l) then TSTATE_TASK_RUNNING else list_state l)"
    by (rule states_at [OF inv t(1)])
  then have nr: "l \<noteq> Readytorun" "l \<noteq> Pendingtasks" using l by (auto split: if_splits)
  then show "l \<noteq> Readytorun" "l \<noteq> Pendingtasks" by auto
  have "g_tasklisttable (list_state l) = Some (l, prioritized l)" by (cases l) auto
  then show "sched_removeblocked t s = Some s'"
    using l st nr by (simp add: sched_removeblocked_def debugassert_def s'_def)
  show "unlisted t s'" unfolding s'_def by (rule unlistedI [OF inv t(1)])
  show "sched_inv s'" unfolding s'_def
  proof (rule sched_inv_remove [OF inv t(2)])
    show "((task_state s)(t := TSTATE_TASK_INVALID)) u = (if l' = Readytorun \<and> u = hd (((tlist s)(l := remove1 t (tlist s l))) l') then TSTATE_TASK_RUNNING else list_state l')"
      if u: "u \<in> set (((tlist s)(l := remove1 t (tlist s l))) l')" for l' u
    proof -
      have "u \<in> set (tlist s l')" "u \<noteq> t"
        using u inv_distinct [OF inv, of l] only_list [OF inv t(1), of l'] by (auto split: if_splits)
      then show ?thesis using nr states_at [OF inv, of u l'] by auto
    qed
  qed
qed

end
