(* ===== verification/Sched_Ops.thy ===== *)
theory Sched_Ops
  imports Sched_Inv
begin

unbundle bit_operations_syntax

text \<open>
  The operations that change which task runs: blocking and unblocking, the preemption lock, priorities,
  policies and time slices. Each returns and keeps the scheduler well-formed.
\<close>

section \<open>Context switches\<close>

text \<open>What the list operations leave alone: every field but the lists and the task states.\<close>

definition relisted :: "'a sched_state_scheme \<Rightarrow> 'a sched_state_scheme \<Rightarrow> bool" where
  "relisted s s' \<longleftrightarrow> (\<exists>ls f. s' = s\<lparr>tlist := ls, task_state := f\<rparr>)"

lemma relistedI [intro]: "relisted s (s\<lparr>tlist := ls, task_state := f\<rparr>)"
  unfolding relisted_def by blast

lemma relisted_trans [trans]: "relisted s s' \<Longrightarrow> relisted s' s'' \<Longrightarrow> relisted s s''"
  unfolding relisted_def by force

lemma relisted_fields:
  assumes "relisted s s'"
  shows "sched_priority s' = sched_priority s" "base_priority s' = base_priority s" "npend_reprio s' = npend_reprio s"
    "pend_reprios s' = pend_reprios s" "round_robin s' = round_robin s" "lockcount s' = lockcount s" "timeslice s' = timeslice s"
    "tcb_pid s' = tcb_pid s" "pidhash_tcb s' = pidhash_tcb s" "pidhash_pid s' = pidhash_pid s" "idle_tcb s' = idle_tcb s"
    "sched_state.more s' = sched_state.more s"
  using assms unfolding relisted_def by auto

lemma member_facts:
  assumes "sched_inv s" "t \<in> set (tlist s l)" "t \<noteq> idle_tcb s"
  shows "t \<noteq> NULL" "valid_priority (sched_priority s t)"
proof -
  show "t \<noteq> NULL" using assms unfolding sched_inv_def lists_ok_def by metis
  show "valid_priority (sched_priority s t)" using assms unfolding sched_inv_def idle_ok_def valid_priority_def by simp
qed

lemma readytorun_nonempty: "sched_inv s \<Longrightarrow> g_readytorun s \<noteq> []"
  by (simp add: sched_inv_def idle_ok_def)

text \<open>The part of a state that adding a task to the runnable tasks changes.\<close>

definition made_ready :: "addr \<Rightarrow> 'a sched_state_scheme \<Rightarrow> 'a sched_state_scheme \<Rightarrow> bool" where
  "made_ready t s s' \<longleftrightarrow>
     (if lockcount s (hd (g_readytorun s)) \<noteq> 0 \<and> sched_priority s (hd (g_readytorun s)) < sched_priority s t
      then g_pendingtasks s' = prio_insert s t (g_pendingtasks s) \<and> g_readytorun s' = g_readytorun s
      else g_readytorun s' = prio_insert s t (g_readytorun s) \<and> g_pendingtasks s' = g_pendingtasks s)"

lemma sched_addreadytorun_ready:
  assumes inv: "sched_inv s" and t: "unlisted t s" "t \<noteq> NULL" "valid_priority (sched_priority s t)"
  obtains s' where "sched_addreadytorun t s = Some (hd (g_readytorun s') \<noteq> hd (g_readytorun s), s')" "sched_inv s'" "relisted s s'"
    "made_ready t s s'" "\<And>l'. l' \<noteq> Readytorun \<Longrightarrow> l' \<noteq> Pendingtasks \<Longrightarrow> tlist s' l' = tlist s l'"
proof -
  let ?lk = "lockcount s (hd (g_readytorun s)) \<noteq> 0 \<and> sched_priority s (hd (g_readytorun s)) < sched_priority s t"
  obtain f where f: "sched_addreadytorun t s = Some (\<not> ?lk \<and> sched_priority s (hd (g_readytorun s)) < sched_priority s t,
      s\<lparr>tlist := (if ?lk then (tlist s)(Pendingtasks := prio_insert s t (g_pendingtasks s))
                  else (tlist s)(Readytorun := prio_insert s t (g_readytorun s))), task_state := f\<rparr>)"
    using sched_addreadytorun_spec(1) [OF inv t] by blast
  then have inv': "sched_inv (s\<lparr>tlist := (if ?lk then (tlist s)(Pendingtasks := prio_insert s t (g_pendingtasks s))
                  else (tlist s)(Readytorun := prio_insert s t (g_readytorun s))), task_state := f\<rparr>)" (is "sched_inv ?s'")
    by (rule sched_addreadytorun_spec(2) [OF inv t])
  note rn = readytorun_nonempty [OF inv]
  have "t \<notin> set (g_readytorun s)" using t(1) by (simp add: unlisted_def)
  then have hd: "(\<not> ?lk \<and> sched_priority s (hd (g_readytorun s)) < sched_priority s t) = (hd (g_readytorun ?s') \<noteq> hd (g_readytorun s))"
    using rn hd_in_set [OF rn] by (auto simp: hd_walk_insert)
  show thesis
  proof (rule that)
    show "sched_addreadytorun t s = Some (hd (g_readytorun ?s') \<noteq> hd (g_readytorun s), ?s')" using f by (simp only: hd)
    show "made_ready t s ?s'" by (simp add: made_ready_def)
  qed (use inv' in auto)
qed

lemma sched_removereadytorun_ready:
  assumes inv: "sched_inv s" and t: "t \<in> set (g_readytorun s)" "t \<noteq> idle_tcb s"
  obtains s' where "sched_removereadytorun t s = Some (hd (g_readytorun s') \<noteq> hd (g_readytorun s), s')" "sched_inv s'" "relisted s s'"
    "unlisted t s'" "g_readytorun s' = remove1 t (g_readytorun s)" "\<And>l. l \<noteq> Readytorun \<Longrightarrow> tlist s' l = tlist s l"
    "(hd (g_readytorun s') \<noteq> hd (g_readytorun s)) = (t = hd (g_readytorun s))"
proof -
  obtain f where f: "sched_removereadytorun t s = Some (t = hd (g_readytorun s),
      s\<lparr>tlist := (tlist s)(Readytorun := remove1 t (g_readytorun s)), task_state := f\<rparr>)"
    and inv1: "sched_inv (s\<lparr>tlist := (tlist s)(Readytorun := remove1 t (g_readytorun s)), task_state := f\<rparr>)" (is "sched_inv ?s'")
    and un1: "unlisted t (s\<lparr>tlist := (tlist s)(Readytorun := remove1 t (g_readytorun s)), task_state := f\<rparr>)"
    using sched_removereadytorun_spec [OF inv t] by blast
  have hd: "(hd (g_readytorun ?s') \<noteq> hd (g_readytorun s)) = (t = hd (g_readytorun s))"
    using t(1) inv_distinct [OF inv, of Readytorun] readytorun_nonempty [OF inv1]
    by (cases "g_readytorun s") (auto dest: hd_in_set)
  show thesis
  proof (rule that [of ?s'])
    show "sched_removereadytorun t s = Some (hd (g_readytorun ?s') \<noteq> hd (g_readytorun s), ?s')" by (simp only: f hd)
  qed (use inv1 un1 hd in auto)
qed

lemma sched_mergepending_ready:
  assumes inv: "sched_inv s"
  obtains s' where "sched_mergepending s = Some (hd (g_readytorun s') \<noteq> hd (g_readytorun s), s')" "sched_inv s'" "relisted s s'"
    "g_readytorun s' = prio_merge (sched_priority s) (g_pendingtasks s) (g_readytorun s)" "g_pendingtasks s' = []"
    "\<And>l. l \<noteq> Readytorun \<Longrightarrow> l \<noteq> Pendingtasks \<Longrightarrow> tlist s' l = tlist s l"
proof -
  let ?r = "prio_merge (sched_priority s) (g_pendingtasks s) (g_readytorun s)"
  obtain f where f: "sched_mergepending s = Some (hd ?r \<noteq> hd (g_readytorun s),
      s\<lparr>tlist := (tlist s)(Readytorun := ?r, Pendingtasks := []), task_state := f\<rparr>)"
    "sched_inv (s\<lparr>tlist := (tlist s)(Readytorun := ?r, Pendingtasks := []), task_state := f\<rparr>)" (is "sched_inv ?s'")
    using sched_mergepending_spec [OF inv] by blast
  show thesis by (rule that [of ?s']) (use f in auto)
qed

text \<open>The merge behind the test for an empty pending list.\<close>

lemma merge_if_pending:
  assumes inv: "sched_inv s"
  obtains s' where "(if g_pendingtasks s \<noteq> [] then sched_mergepending s else Some (False, s)) =
      Some (hd (g_readytorun s') \<noteq> hd (g_readytorun s), s')" "sched_inv s'" "relisted s s'"
    "g_readytorun s' = prio_merge (sched_priority s) (g_pendingtasks s) (g_readytorun s)" "g_pendingtasks s' = []"
    "\<And>l. l \<noteq> Readytorun \<Longrightarrow> l \<noteq> Pendingtasks \<Longrightarrow> tlist s' l = tlist s l"
proof (cases "g_pendingtasks s = []")
  case True
  have "relisted s s" using relistedI [of s "task_state s" "tlist s"] by simp
  then show thesis by (intro that [of s]) (use True inv in auto)
next
  case False
  obtain s' where m: "sched_mergepending s = Some (hd (g_readytorun s') \<noteq> hd (g_readytorun s), s')" "sched_inv s'" "relisted s s'"
      "g_readytorun s' = prio_merge (sched_priority s) (g_pendingtasks s) (g_readytorun s)" "g_pendingtasks s' = []"
      "\<And>l. l \<noteq> Readytorun \<Longrightarrow> l \<noteq> Pendingtasks \<Longrightarrow> tlist s' l = tlist s l"
    using sched_mergepending_ready [OF inv] by blast
  show thesis
  proof (rule that)
    show "(if g_pendingtasks s \<noteq> [] then sched_mergepending s else Some (False, s)) =
      Some (hd (g_readytorun s') \<noteq> hd (g_readytorun s), s')" using False m(1) by simp
  qed (rule m; assumption)+
qed

text \<open>A blocked task is in the list of its state; the tasks that were pending are ready.\<close>

lemma up_block_task_spec:
  assumes inv: "sched_inv s" and t: "t \<in> set (g_readytorun s)" "t \<noteq> idle_tcb s"
    and st: "blocked_state st" "list_state l = st"
  obtains s' where "up_block_task t st s = Some (hd (g_readytorun s') \<noteq> hd (g_readytorun s), s')" "sched_inv s'" "relisted s s'"
    "g_pendingtasks s' = []"
    "g_readytorun s' = prio_merge (sched_priority s) (g_pendingtasks s) (remove1 t (g_readytorun s))"
    "tlist s' l = (if prioritized l then prio_insert s t (tlist s l) else tlist s l @ [t])"
    "\<And>l'. l' \<noteq> Readytorun \<Longrightarrow> l' \<noteq> Pendingtasks \<Longrightarrow> l' \<noteq> l \<Longrightarrow> tlist s' l' = tlist s l'"
proof -
  have rdy: "ready_state (task_state s t)" using states_at [OF inv t(1)] by simp
  have l: "g_tasklisttable st = Some (l, prioritized l)" "l \<noteq> Readytorun" "l \<noteq> Pendingtasks" using st by (cases l; auto)+
  obtain s1 where s1: "sched_removereadytorun t s = Some (hd (g_readytorun s1) \<noteq> hd (g_readytorun s), s1)" "sched_inv s1" "relisted s s1"
    "unlisted t s1" "g_readytorun s1 = remove1 t (g_readytorun s)" "\<And>l. l \<noteq> Readytorun \<Longrightarrow> tlist s1 l = tlist s l"
    "(hd (g_readytorun s1) \<noteq> hd (g_readytorun s)) = (t = hd (g_readytorun s))"
    using sched_removereadytorun_ready [OF inv t] by blast
  note same1 = relisted_fields [OF s1(3)]
  have tp: "t \<noteq> NULL" "valid_priority (sched_priority s1 t)" using member_facts [OF inv t] by (simp_all add: same1)
  define s2 where "s2 = s1\<lparr>tlist := (tlist s1)(l := (if prioritized l then prio_insert s1 t (tlist s1 l) else tlist s1 l @ [t])),
      task_state := (task_state s1)(t := st)\<rparr>"
  have add: "sched_addblocked t st s1 = Some s2" "sched_inv s2"
    using sched_addblocked_spec [OF s1(2,4) tp st(1) l(1) st(2) l(2)] unfolding s2_def by simp_all
  have s2: "g_readytorun s2 = remove1 t (g_readytorun s)" "g_pendingtasks s2 = g_pendingtasks s" "sched_priority s2 = sched_priority s"
    "tlist s2 l = (if prioritized l then prio_insert s t (tlist s l) else tlist s l @ [t])"
    "\<And>l'. l' \<noteq> Readytorun \<Longrightarrow> l' \<noteq> l \<Longrightarrow> tlist s2 l' = tlist s l'"
    using l s1(5,6) same1 by (auto simp: s2_def)
  obtain s3 where s3: "(if g_pendingtasks s2 \<noteq> [] then sched_mergepending s2 else Some (False, s2)) =
      Some (hd (g_readytorun s3) \<noteq> hd (g_readytorun s2), s3)" "sched_inv s3" "relisted s2 s3"
    "g_readytorun s3 = prio_merge (sched_priority s2) (g_pendingtasks s2) (g_readytorun s2)" "g_pendingtasks s3 = []"
    "\<And>l. l \<noteq> Readytorun \<Longrightarrow> l \<noteq> Pendingtasks \<Longrightarrow> tlist s3 l = tlist s2 l"
    using merge_if_pending [OF add(2)] by blast
  have t3: "t \<in> set (tlist s3 l)" using s3(6) [of l] s2(4) l by simp
  have rs: "hd (g_readytorun s3) \<in> set (g_readytorun s3)" using readytorun_nonempty [OF s3(2)] by simp
  have sw: "hd (g_readytorun s1) \<noteq> hd (g_readytorun s) \<or> hd (g_readytorun s3) \<noteq> hd (g_readytorun s2) \<longleftrightarrow>
      hd (g_readytorun s3) \<noteq> hd (g_readytorun s)"
  proof (cases "t = hd (g_readytorun s)")
    case True
    then have "hd (g_readytorun s3) \<noteq> hd (g_readytorun s)" using rs only_list [OF s3(2) t3, of Readytorun] l(2) by auto
    then show ?thesis using True s1(7) by blast
  next
    case False
    then show ?thesis using s1(5,7) s2(1) by simp
  qed
  show thesis
  proof (rule that)
    show "up_block_task t st s = Some (hd (g_readytorun s3) \<noteq> hd (g_readytorun s), s3)"
      using sw unfolding up_block_task_def s1(1) by (simp add: debugassert_def rdy add(1) s3(1) del: if_split)
    show "relisted s s3" by (rule relisted_trans [OF s1(3) relisted_trans [OF _ s3(3)]]) (auto simp: s2_def)
    show "tlist s3 l = (if prioritized l then prio_insert s t (tlist s l) else tlist s l @ [t])" using s3(6) l s2(4) by simp
    show "tlist s3 l' = tlist s l'" if "l' \<noteq> Readytorun" "l' \<noteq> Pendingtasks" "l' \<noteq> l" for l' using that s3(6) s2(5) by simp
  qed (use s2(1-3) s3(2,4,5) in auto)
qed

lemma up_unblock_task_spec:
  assumes inv: "sched_inv s" and t: "t \<in> set (tlist s l)" "t \<noteq> idle_tcb s" and st: "blocked_state (task_state s t)"
  obtains s' where "up_unblock_task t s = Some (hd (g_readytorun s') \<noteq> hd (g_readytorun s), s')" "sched_inv s'" "relisted s s'"
    "tlist s' l = remove1 t (tlist s l)"
    "\<And>l'. l' \<noteq> Readytorun \<Longrightarrow> l' \<noteq> Pendingtasks \<Longrightarrow> l' \<noteq> l \<Longrightarrow> tlist s' l' = tlist s l'"
    "made_ready t s s'"
proof -
  define s1 where "s1 = s\<lparr>tlist := (tlist s)(l := remove1 t (tlist s l)), task_state := (task_state s)(t := TSTATE_TASK_INVALID)\<rparr>"
  note rem = sched_removeblocked_spec [OF inv t st, folded s1_def]
  have same: "g_readytorun s1 = g_readytorun s" "g_pendingtasks s1 = g_pendingtasks s" "sched_priority s1 = sched_priority s"
    "lockcount s1 = lockcount s" using rem(4,5) by (simp_all add: s1_def)
  have tp: "t \<noteq> NULL" "valid_priority (sched_priority s1 t)" using member_facts [OF inv t] by (simp_all add: same)
  obtain s' where s': "sched_addreadytorun t s1 = Some (hd (g_readytorun s') \<noteq> hd (g_readytorun s1), s')" "sched_inv s'" "relisted s1 s'"
    "made_ready t s1 s'" "\<And>l'. l' \<noteq> Readytorun \<Longrightarrow> l' \<noteq> Pendingtasks \<Longrightarrow> tlist s' l' = tlist s1 l'"
    using sched_addreadytorun_ready [OF rem(2,3) tp] by blast
  show thesis
  proof (rule that)
    show "up_unblock_task t s = Some (hd (g_readytorun s') \<noteq> hd (g_readytorun s), s')"
      using rem(1) s'(1) st by (simp add: up_unblock_task_def debugassert_def same)
    show "made_ready t s s'" using s'(4) by (simp add: made_ready_def same)
    show "relisted s s'" using s'(3) by (rule relisted_trans [rotated]) (auto simp: s1_def)
    show "tlist s' l = remove1 t (tlist s l)" using s'(5) [of l] rem(4,5) by (simp add: s1_def)
    show "tlist s' l' = tlist s l'" if "l' \<noteq> Readytorun" "l' \<noteq> Pendingtasks" "l' \<noteq> l" for l'
      using s'(5) [of l'] that by (simp add: s1_def)
  qed (rule s'(2))
qed

section \<open>Changing a priority\<close>

lemma by_priority_other [simp]: "t \<notin> set ts \<Longrightarrow> by_priority (set_priority t p s) ts = by_priority s ts"
  unfolding by_priority_def by (induction ts) auto

lemma idle_listed: "sched_inv s \<Longrightarrow> idle_tcb s \<in> set (g_readytorun s)"
  unfolding sched_inv_def idle_ok_def using last_in_set by metis

lemma set_priority_unlisted:
  assumes "sched_inv s" "unlisted t s"
  shows "sched_inv (set_priority t p s)" "unlisted t (set_priority t p s)"
proof -
  have tn: "t \<notin> set (tlist s l)" for l using assms(2) by (simp add: unlisted_def)
  have "t \<noteq> idle_tcb s" using idle_listed [OF assms(1)] tn by blast
  moreover have "lists_ok (set_priority t p s)" using assms(1) tn by (simp add: sched_inv_def lists_ok_def)
  moreover have "u \<noteq> t" if "u \<in> set (tlist s l)" for u l using that tn by auto
  ultimately show "sched_inv (set_priority t p s)" using assms(1) by (simp add: sched_inv_def states_ok_def idle_ok_def)
  show "unlisted t (set_priority t p s)" using tn by (simp add: unlisted_def)
qed

text \<open>A listed task changes its priority; the tasks of every list but the runnable ones stay, and the
  runnable ones stay runnable.\<close>

text \<open>The running task goes on when another task gets a priority that is not higher, or when it holds the
  preemption lock.\<close>

definition keeps_head :: "addr \<Rightarrow> nat \<Rightarrow> 'a sched_state_scheme \<Rightarrow> bool" where
  "keeps_head t p s \<longleftrightarrow> t \<noteq> hd (g_readytorun s) \<and>
     (p \<le> sched_priority s (hd (g_readytorun s)) \<or> lockcount s (hd (g_readytorun s)) \<noteq> 0)"

definition reprioritized :: "addr \<Rightarrow> nat \<Rightarrow> 'a sched_state_scheme \<Rightarrow> 'a sched_state_scheme \<Rightarrow> bool" where
  "reprioritized t p s s' \<longleftrightarrow> relisted (set_priority t p s) s' \<and>
     set (g_readytorun s') \<union> set (g_pendingtasks s') = set (g_readytorun s) \<union> set (g_pendingtasks s) \<and>
     (\<forall>l. l \<noteq> Readytorun \<longrightarrow> l \<noteq> Pendingtasks \<longrightarrow> set (tlist s' l) = set (tlist s l)) \<and>
     (keeps_head t p s \<longrightarrow> hd (g_readytorun s') = hd (g_readytorun s)) \<and> (sched_wf s \<longrightarrow> sched_wf s')"

lemma up_reprioritize_rtr_spec:
  assumes inv: "sched_inv s" and t: "t \<in> set (g_readytorun s)" "t \<noteq> idle_tcb s" and p: "valid_priority p"
  obtains b s' where "up_reprioritize_rtr t p s = Some (b, s')" "sched_inv s'" "reprioritized t p s s'"
proof -
  have rdy: "ready_state (task_state s t)" using states_at [OF inv t(1)] by simp
  obtain s1 where s1: "sched_removereadytorun t s = Some (hd (g_readytorun s1) \<noteq> hd (g_readytorun s), s1)" "sched_inv s1" "relisted s s1"
    "unlisted t s1" "g_readytorun s1 = remove1 t (g_readytorun s)" "\<And>l. l \<noteq> Readytorun \<Longrightarrow> tlist s1 l = tlist s l"
    "(hd (g_readytorun s1) \<noteq> hd (g_readytorun s)) = (t = hd (g_readytorun s))"
    using sched_removereadytorun_ready [OF inv t] by blast
  define s2 where "s2 = set_priority t p s1"
  have inv2: "sched_inv s2" "unlisted t s2" unfolding s2_def by (rule set_priority_unlisted [OF s1(2,4)])+
  have tp: "t \<noteq> NULL" "valid_priority (sched_priority s2 t)" using member_facts [OF inv t] p by (simp_all add: s2_def)
  obtain s3 where s3: "sched_addreadytorun t s2 = Some (hd (g_readytorun s3) \<noteq> hd (g_readytorun s2), s3)" "sched_inv s3" "relisted s2 s3"
    "made_ready t s2 s3" "\<And>l'. l' \<noteq> Readytorun \<Longrightarrow> l' \<noteq> Pendingtasks \<Longrightarrow> tlist s3 l' = tlist s2 l'"
    using sched_addreadytorun_ready [OF inv2 tp] by blast
  have l2: "tlist s2 l = tlist s1 l" for l by (simp add: s2_def)
  have fr: "relisted (set_priority t p s) s3"
    using s1(3) s3(3) unfolding relisted_def s2_def by force
  have set1: "set (g_readytorun s1) = set (g_readytorun s) - {t}" using inv_distinct [OF inv, of Readytorun] s1(5) by simp
  have rset: "set (g_readytorun s3) \<union> set (g_pendingtasks s3) = set (g_readytorun s) \<union> set (g_pendingtasks s)"
    using s3(4) t(1) unfolding made_ready_def l2 by (auto simp: set1 s1(6) split: if_splits)
  have oth: "tlist s3 l = tlist s l" if "l \<noteq> Readytorun" "l \<noteq> Pendingtasks" for l using that s3(5) l2 s1(6) by simp
  define sw where "sw = ((hd (g_readytorun s1) \<noteq> hd (g_readytorun s)) \<noteq> (hd (g_readytorun s3) \<noteq> hd (g_readytorun s2)))"
  have kh: "\<not> sw \<and> hd (g_readytorun s3) = hd (g_readytorun s)" if k: "keeps_head t p s"
  proof -
    have t1: "t \<noteq> hd (g_readytorun s)" using k by (simp add: keeps_head_def)
    then have h1: "hd (g_readytorun s2) = hd (g_readytorun s)" using s1(7) l2 by simp
    have f: "sched_priority s2 = (sched_priority s)(t := p)" "lockcount s2 = lockcount s"
      using relisted_fields(1,6) [OF s1(3)] by (simp_all add: s2_def)
    have "hd (g_readytorun s3) = hd (g_readytorun s2)"
      using s3(4) k t1 readytorun_nonempty [OF inv2(1)]
      by (auto simp: made_ready_def keeps_head_def h1 f hd_walk_insert split: if_splits)
    then show ?thesis using h1 s1(7) t1 by (simp add: sw_def)
  qed
  have call: "up_reprioritize_rtr t p s = (do {
      s \<leftarrow> (if sw \<and> g_pendingtasks s3 \<noteq> [] then map_option snd (sched_mergepending s3) else Some s3);
      Some (sw, s) })"
    using p s3(1) unfolding up_reprioritize_rtr_def s1(1) valid_priority_def
    by (simp add: rdy debugassert_def s2_def sw_def)
  show thesis
  proof (cases "sw \<and> g_pendingtasks s3 \<noteq> []")
    case True
    obtain s4 where s4: "sched_mergepending s3 = Some (hd (g_readytorun s4) \<noteq> hd (g_readytorun s3), s4)" "sched_inv s4" "relisted s3 s4"
        "g_readytorun s4 = prio_merge (sched_priority s3) (g_pendingtasks s3) (g_readytorun s3)" "g_pendingtasks s4 = []"
        "\<And>l. l \<noteq> Readytorun \<Longrightarrow> l \<noteq> Pendingtasks \<Longrightarrow> tlist s4 l = tlist s3 l"
      using sched_mergepending_ready [OF s3(2)] by blast
    show thesis
    proof (rule that)
      show "up_reprioritize_rtr t p s = Some (sw, s4)" using call True s4(1) by simp
      show "reprioritized t p s s4" unfolding reprioritized_def
      proof (intro conjI allI impI)
        show "relisted (set_priority t p s) s4" by (rule relisted_trans [OF fr s4(3)])
        show "set (g_readytorun s4) \<union> set (g_pendingtasks s4) = set (g_readytorun s) \<union> set (g_pendingtasks s)"
          using rset by (auto simp: s4(4,5))
        show "set (tlist s4 l) = set (tlist s l)" if "l \<noteq> Readytorun" "l \<noteq> Pendingtasks" for l using that s4(6) oth by simp
        show "sched_wf s4" using s4(2,5) by (simp add: sched_wf_def)
        show "hd (g_readytorun s4) = hd (g_readytorun s)" if "keeps_head t p s" using kh [OF that] True by simp
      qed
    qed (rule s4(2))
  next
    case False
    have "g_pendingtasks s3 \<noteq> [] \<longrightarrow> 0 < lockcount s (hd (g_readytorun s3))" if wf: "sched_wf s"
    proof
      assume pn: "g_pendingtasks s3 \<noteq> []"
      then have nsw: "\<not> sw" using False by simp
      have lk: "lockcount s2 = lockcount s" using relisted_fields(6) [OF s1(3)] by (simp add: s2_def)
      show "0 < lockcount s (hd (g_readytorun s3))"
      proof (cases "t = hd (g_readytorun s)")
        case True
        then have ch: "hd (g_readytorun s3) \<noteq> hd (g_readytorun s2)" using nsw s1(7) by (auto simp: sw_def)
        then have ins: "g_readytorun s3 = prio_insert s2 t (g_readytorun s2)" "g_pendingtasks s3 = g_pendingtasks s2"
          using s3(4) by (auto simp: made_ready_def split: if_splits)
        then have "hd (g_readytorun s3) = t" using ch by (auto simp: hd_walk_insert split: if_splits)
        moreover have "g_pendingtasks s \<noteq> []" using pn ins(2) l2 s1(6) by simp
        ultimately show ?thesis using wf True by (auto simp: sched_wf_def)
      next
        case nt: False
        then have hd: "hd (g_readytorun s3) = hd (g_readytorun s)" "hd (g_readytorun s2) = hd (g_readytorun s)"
          using nsw s1(7) l2 by (auto simp: sw_def)
        show ?thesis
        proof (cases "g_pendingtasks s = []")
          case True
          then have "g_pendingtasks s2 = []" using l2 s1(6) by simp
          then show ?thesis using s3(4) pn hd lk by (auto simp: made_ready_def split: if_splits)
        next
          case False
          then show ?thesis using wf hd by (auto simp: sched_wf_def)
        qed
      qed
    qed
    moreover have "lockcount s3 = lockcount s" using relisted_fields(6) [OF fr] by simp
    ultimately have wf: "sched_wf s \<longrightarrow> sched_wf s3" using s3(2) by (auto simp: sched_wf_def)
    show thesis
    proof (rule that)
      show "up_reprioritize_rtr t p s = Some (sw, s3)" using call False by auto
      show "reprioritized t p s s3" unfolding reprioritized_def using fr rset oth wf kh by simp
    qed (rule s3(2))
  qed
qed

lemma relisted_refl [simp]: "relisted s s"
  using relistedI [of s "task_state s" "tlist s"] by simp

lemma reprioritized_in_place:
  assumes "sched_inv (set_priority t p s)"
  shows "reprioritized t p s (set_priority t p s)"
  using assms by (simp add: reprioritized_def sched_wf_def)

lemma set_priority_in_place:
  assumes inv: "sched_inv s" and t: "t \<in> set (tlist s l)" "t \<noteq> idle_tcb s" and p: "valid_priority p"
    and ord: "prioritized l \<longrightarrow> by_priority (set_priority t p s) (tlist s l)"
  shows "sched_inv (set_priority t p s)"
proof -
  have "by_priority (set_priority t p s) (tlist s l')" if "prioritized l'" for l'
  proof (cases "l' = l")
    case False
    then have "t \<notin> set (tlist s l')" using only_list [OF inv t(1)] by blast
    then show ?thesis using priority_order [OF inv that] by simp
  qed (use that ord in simp)
  then have "lists_ok (set_priority t p s)" using inv by (simp add: sched_inv_def lists_ok_def)
  moreover have "idle_ok (set_priority t p s)" using inv p t(2) by (simp add: sched_inv_def idle_ok_def valid_priority_def)
  ultimately show ?thesis using inv by (simp add: sched_inv_def states_ok_def)
qed

lemma setpriority_waiting:
  assumes inv: "sched_inv s" and t: "t \<in> set (tlist s l)" "t \<noteq> idle_tcb s" and p: "valid_priority p"
    and l: "prioritized l" "l \<noteq> Readytorun"
  obtains s' where "(do {
      (_, s) \<leftarrow> sched_addprioritized t l (set_priority t p (set_tlist l (remove1 t (tlist s l)) s));
      Some (True, s) }) = Some (True, s')" "sched_inv s'" "reprioritized t p s s'"
proof -
  define s1 where "s1 = s\<lparr>tlist := (tlist s)(l := remove1 t (tlist s l)), task_state := task_state s\<rparr>"
  have d: "t \<notin> set (remove1 t (tlist s l))" using inv_distinct [OF inv, of l] by simp
  have inv1: "sched_inv s1" unfolding s1_def
  proof (rule sched_inv_remove [OF inv t(2)])
    show "task_state s u = (if l' = Readytorun \<and> u = hd (((tlist s)(l := remove1 t (tlist s l))) l') then TSTATE_TASK_RUNNING else list_state l')"
      if u: "u \<in> set (((tlist s)(l := remove1 t (tlist s l))) l')" for l' u
    proof -
      have "u \<in> set (tlist s l')" using u set_remove1_subset [of t "tlist s l"] by (auto split: if_splits)
      then show ?thesis using l(2) states_at [OF inv, of u l'] by auto
    qed
  qed
  have un: "unlisted t s1" unfolding s1_def by (rule unlistedI [OF inv t(1)])
  define s2 where "s2 = set_priority t p s1"
  have inv2: "sched_inv s2" "unlisted t s2" unfolding s2_def by (rule set_priority_unlisted [OF inv1 un])+
  have tp: "t \<noteq> NULL" "valid_priority (sched_priority s2 t)" using member_facts [OF inv t] p by (simp_all add: s2_def)
  have t2: "task_state s2 = task_state s" "tlist s2 = (tlist s)(l := remove1 t (tlist s l))" by (simp_all add: s2_def s1_def)
  define s3 where "s3 = s2\<lparr>tlist := (tlist s2)(l := prio_insert s2 t (tlist s2 l)), task_state := task_state s2\<rparr>"
  have inv3: "sched_inv s3" unfolding s3_def
  proof (rule sched_inv_insert [OF inv2 tp])
    show "task_state s2 u = (if l' = Readytorun \<and> u = hd (((tlist s2)(l := prio_insert s2 t (tlist s2 l))) l') then TSTATE_TASK_RUNNING else list_state l')"
      if "u \<in> set (((tlist s2)(l := prio_insert s2 t (tlist s2 l))) l')" for l' u
    proof -
      have "u \<in> set (tlist s l')" using that t(1) set_remove1_subset [of t "tlist s l"] by (auto simp: t2 split: if_splits)
      then show ?thesis using l(2) states_at [OF inv, of u l'] by (auto simp: t2)
    qed
  qed (use l d inv_distinct [OF inv2(1), of l] by_priority_insert [OF priority_order [OF inv2(1) l(1)]] t2 in auto)
  have lists: "set (tlist s3 l') = set (tlist s l')" "l' \<noteq> l \<Longrightarrow> tlist s3 l' = tlist s l'" for l'
    using inv_distinct [OF inv, of l] t(1) by (auto simp: s3_def t2)
  show thesis
  proof (rule that)
    show "(do { (_, s) \<leftarrow> sched_addprioritized t l (set_priority t p (set_tlist l (remove1 t (tlist s l)) s));
      Some (True, s) }) = Some (True, s3)"
      using p by (simp add: sched_addprioritized_def debugassert_def valid_priority_def s3_def s2_def s1_def Let_def)
    have pe: "g_pendingtasks s3 = [] \<longleftrightarrow> g_pendingtasks s = []" using lists(1) [of Pendingtasks] by (metis set_empty)
    have "lockcount s3 = lockcount s" by (simp add: s3_def s2_def s1_def)
    then have "sched_wf s \<longrightarrow> sched_wf s3" using inv3 pe lists(2) [of Readytorun] l(2) by (simp add: sched_wf_def)
    moreover have "relisted (set_priority t p s) s3" unfolding relisted_def
      by (intro exI [of _ "tlist s3"] exI [of _ "task_state s3"]) (simp add: s3_def s2_def s1_def)
    ultimately show "reprioritized t p s s3" unfolding reprioritized_def using lists(1) lists(2) [of Readytorun] l(2) by simp
  qed (rule inv3)
qed

lemma setpriority_ready:
  assumes inv: "sched_inv s" and t: "t \<in> set (g_readytorun s)" "t \<noteq> idle_tcb s" and p: "valid_priority p"
    and le: "t \<noteq> hd (g_readytorun s)" "p \<le> sched_priority s (hd (g_readytorun s))"
  obtains s' where "(do {
      (r, s) \<leftarrow> sched_removereadytorun t s;
      debugassert (\<not> r);
      let s = set_priority t p s;
      (r, s) \<leftarrow> sched_addreadytorun t s;
      debugassert (\<not> r);
      Some (True, s) }) = Some (True, s')" "sched_inv s'" "reprioritized t p s s'"
proof -
  obtain s1 where s1: "sched_removereadytorun t s = Some (hd (g_readytorun s1) \<noteq> hd (g_readytorun s), s1)" "sched_inv s1" "relisted s s1"
    "unlisted t s1" "g_readytorun s1 = remove1 t (g_readytorun s)" "\<And>l. l \<noteq> Readytorun \<Longrightarrow> tlist s1 l = tlist s l"
    "(hd (g_readytorun s1) \<noteq> hd (g_readytorun s)) = (t = hd (g_readytorun s))"
    using sched_removereadytorun_ready [OF inv t] by blast
  define s2 where "s2 = set_priority t p s1"
  have inv2: "sched_inv s2" "unlisted t s2" unfolding s2_def by (rule set_priority_unlisted [OF s1(2,4)])+
  have tp: "t \<noteq> NULL" "valid_priority (sched_priority s2 t)" using member_facts [OF inv t] p by (simp_all add: s2_def)
  obtain s3 where s3: "sched_addreadytorun t s2 = Some (hd (g_readytorun s3) \<noteq> hd (g_readytorun s2), s3)" "sched_inv s3" "relisted s2 s3"
    "made_ready t s2 s3" "\<And>l'. l' \<noteq> Readytorun \<Longrightarrow> l' \<noteq> Pendingtasks \<Longrightarrow> tlist s3 l' = tlist s2 l'"
    using sched_addreadytorun_ready [OF inv2 tp] by blast
  have l2: "tlist s2 l = tlist s1 l" for l by (simp add: s2_def)
  have hd2: "hd (g_readytorun s2) = hd (g_readytorun s)" using s1(7) le(1) l2 by simp
  have pr: "sched_priority s2 = (sched_priority s)(t := p)" using relisted_fields(1) [OF s1(3)] by (simp add: s2_def)
  have ins: "g_readytorun s3 = prio_insert s2 t (g_readytorun s2)" "g_pendingtasks s3 = g_pendingtasks s2"
    using s3(4) le pr unfolding made_ready_def hd2 by (auto split: if_splits)
  then have hd3: "hd (g_readytorun s3) = hd (g_readytorun s)"
    using le pr readytorun_nonempty [OF inv2(1)] by (auto simp: hd_walk_insert hd2)
  have fr: "relisted (set_priority t p s) s3" using s1(3) s3(3) unfolding relisted_def s2_def by force
  have rset: "set (g_readytorun s3) = set (g_readytorun s)" "g_pendingtasks s3 = g_pendingtasks s"
    using t(1) inv_distinct [OF inv, of Readytorun] ins l2 s1(5,6) by auto
  have oth: "tlist s3 l = tlist s l" if "l \<noteq> Readytorun" "l \<noteq> Pendingtasks" for l using that s3(5) l2 s1(6) by simp
  have "sched_wf s \<longrightarrow> sched_wf s3" using s3(2) rset(2) hd3 relisted_fields(6) [OF fr] by (simp add: sched_wf_def)
  then have "reprioritized t p s s3" unfolding reprioritized_def using fr rset oth hd3 by simp
  moreover have "(do {
      (r, s) \<leftarrow> sched_removereadytorun t s;
      debugassert (\<not> r);
      let s = set_priority t p s;
      (r, s) \<leftarrow> sched_addreadytorun t s;
      debugassert (\<not> r);
      Some (True, s) }) = Some (True, s3)"
    using s1(7) le(1) hd2 hd3 s3(1) by (simp add: s1(1) debugassert_def s2_def)
  ultimately show thesis using that s3(2) by blast
qed

lemma sched_setpriority_spec:
  assumes inv: "sched_inv s" and t: "t \<in> set (tlist s l)" "t \<noteq> idle_tcb s" and p: "valid_priority p"
  obtains s' where "sched_setpriority t (int p) s = Some (True, s')" "sched_inv s'" "reprioritized t p s s'"
proof -
  have pp: "\<not> (int p < int SCHED_PRIORITY_MIN \<or> int p > int SCHED_PRIORITY_MAX)" using p by (simp add: valid_priority_def)
  have st: "task_state s t = (if l = Readytorun \<and> t = hd (tlist s l) then TSTATE_TASK_RUNNING else list_state l)"
    by (rule states_at [OF inv t(1)])
  obtain r rs where rtr: "g_readytorun s = r # rs" "distinct (r # rs)" "r \<noteq> NULL" "task_state s r = TSTATE_TASK_RUNNING"
    "\<forall>t \<in> set rs. task_state s t = TSTATE_TASK_READYTORUN" "\<forall>t \<in> set rs. sched_priority s t \<le> sched_priority s r"
    using sched_inv_rtr [OF inv] by blast
  show thesis
  proof (cases "l = Readytorun")
    case lr: True
    note tr = t(1) [unfolded lr]
    obtain b s' where up: "up_reprioritize_rtr t p s = Some (b, s')" "sched_inv s'" "reprioritized t p s s'"
      using up_reprioritize_rtr_spec [OF inv tr t(2) p] by blast
    show thesis
    proof (cases "t = r")
      case True
      have "rs \<noteq> []" using inv rtr(1) True t(2) by (auto simp: sched_inv_def idle_ok_def)
      then obtain u us where us: "rs = u # us" by (cases rs) auto
      show thesis
      proof (cases "p \<le> sched_priority s u")
        case True
        show thesis by (rule that [OF _ up(2,3)])
          (use pp st lr \<open>t = r\<close> rtr(1) us True up(1) in \<open>simp add: sched_setpriority_def debugassert_def Let_def\<close>)
      next
        case False
        have "by_priority s (t # u # us)" using priority_order [OF inv, of Readytorun] rtr(1) us True by simp
        then have "by_priority (set_priority t p s) (t # u # us)"
          using False rtr(2) us True by (auto simp: by_priority_def intro: sorted_wrt_mono_rel [rotated])
        then have inv': "sched_inv (set_priority t p s)"
          using set_priority_in_place [OF inv t p] lr rtr(1) us True by simp
        show thesis by (rule that [OF _ inv' reprioritized_in_place [OF inv']])
          (use pp st lr \<open>t = r\<close> rtr(1) us False in \<open>simp add: sched_setpriority_def debugassert_def Let_def\<close>)
      qed
    next
      case False
      show thesis
      proof (cases "p > sched_priority s r")
        case True
        show thesis by (rule that [OF _ up(2,3)])
          (use pp st lr False rtr(1) True up(1) in \<open>simp add: sched_setpriority_def debugassert_def Let_def\<close>)
      next
        case le: False
        obtain s' where s': "(do {
            (r, s) \<leftarrow> sched_removereadytorun t s;
            debugassert (\<not> r);
            let s = set_priority t p s;
            (r, s) \<leftarrow> sched_addreadytorun t s;
            debugassert (\<not> r);
            Some (True, s) }) = Some (True, s')" "sched_inv s'" "reprioritized t p s s'"
          using setpriority_ready [OF inv tr t(2) p] False le rtr(1) by auto
        have "sched_setpriority t (int p) s = Some (True, s')"
          using pp st lr False rtr(1) le s'(1) unfolding sched_setpriority_def by (simp add: Let_def)
        then show thesis using that s'(2,3) by blast
      qed
    qed
  next
    case False
    show thesis
    proof (cases "prioritized l")
      case True
      obtain s' where s': "(do {
          (_, s) \<leftarrow> sched_addprioritized t l (set_priority t p (set_tlist l (remove1 t (tlist s l)) s));
          Some (True, s) }) = Some (True, s')" "sched_inv s'" "reprioritized t p s s'"
        using setpriority_waiting [OF inv t p True False] by blast
      have "sched_setpriority t (int p) s = Some (True, s')"
        using pp st False True s'(1) by (cases l) (simp_all add: sched_setpriority_def Let_def)
      then show thesis using that s'(2,3) by blast
    next
      case np: False
      have inv': "sched_inv (set_priority t p s)" using set_priority_in_place [OF inv t p] np by simp
      show thesis by (rule that [OF _ inv' reprioritized_in_place [OF inv']])
        (use pp st False np in \<open>cases l; simp add: sched_setpriority_def Let_def\<close>)
    qed
  qed
qed

section \<open>Every call keeps the scheduler well-formed\<close>

lemma sched_inv_frame [simp]:
  "sched_inv (s\<lparr>lockcount := c\<rparr>) = sched_inv s" "sched_inv (s\<lparr>timeslice := ts\<rparr>) = sched_inv s"
  "sched_inv (s\<lparr>round_robin := rr\<rparr>) = sched_inv s" "sched_inv (s\<lparr>base_priority := bp\<rparr>) = sched_inv s"
  "sched_inv (s\<lparr>npend_reprio := np\<rparr>) = sched_inv s"
  by (simp_all add: sched_inv_def lists_ok_def states_ok_def idle_ok_def by_priority_def)

lemma sched_wf_frame [simp]:
  "sched_wf (s\<lparr>timeslice := ts\<rparr>) = sched_wf s" "sched_wf (s\<lparr>round_robin := rr\<rparr>) = sched_wf s"
  "sched_wf (s\<lparr>base_priority := bp\<rparr>) = sched_wf s" "sched_wf (s\<lparr>npend_reprio := np\<rparr>) = sched_wf s"
  by (simp_all add: sched_wf_def)

lemma wf_inv: "sched_wf s \<Longrightarrow> sched_inv s"
  by (simp add: sched_wf_def)

lemma running_facts:
  assumes "sched_inv s"
  shows "head_of (g_readytorun s) = hd (g_readytorun s)" "hd (g_readytorun s) \<noteq> NULL" "hd (g_readytorun s) \<in> set (g_readytorun s)"
    "task_state s (hd (g_readytorun s)) = TSTATE_TASK_RUNNING"
proof -
  obtain r rs where "g_readytorun s = r # rs" "r \<noteq> NULL" "task_state s r = TSTATE_TASK_RUNNING" using sched_inv_rtr [OF assms] by metis
  then show "head_of (g_readytorun s) = hd (g_readytorun s)" "hd (g_readytorun s) \<noteq> NULL" "hd (g_readytorun s) \<in> set (g_readytorun s)"
    "task_state s (hd (g_readytorun s)) = TSTATE_TASK_RUNNING" by simp_all
qed

lemma sched_lock_spec:
  assumes wf: "sched_wf s" and lc: "lockcount s (hd (g_readytorun s)) < MAX_LOCK_COUNT"
  shows "sched_lock False s = Some (s\<lparr>lockcount := (lockcount s)(hd (g_readytorun s) := lockcount s (hd (g_readytorun s)) + 1)\<rparr>)"
    and "sched_wf (s\<lparr>lockcount := (lockcount s)(hd (g_readytorun s) := lockcount s (hd (g_readytorun s)) + 1)\<rparr>)"
  using wf lc running_facts [OF wf_inv [OF wf]] by (simp_all add: sched_lock_def debugassert_def sched_wf_def Let_def)

text \<open>Releasing the last lock makes every pending task ready.\<close>

lemma sched_unlock_spec:
  assumes wf: "sched_wf s"
  obtains s' where "sched_unlock False s = Some s'" "sched_wf s'"
    "relisted (s\<lparr>lockcount := (lockcount s)(hd (g_readytorun s) := lockcount s (hd (g_readytorun s)) - 1)\<rparr>) s'"
    "if lockcount s (hd (g_readytorun s)) \<le> 1
     then g_pendingtasks s' = [] \<and> g_readytorun s' = prio_merge (sched_priority s) (g_pendingtasks s) (g_readytorun s)
     else tlist s' = tlist s"
    "\<And>l. l \<noteq> Readytorun \<Longrightarrow> l \<noteq> Pendingtasks \<Longrightarrow> tlist s' l = tlist s l"
proof -
  let ?r = "hd (g_readytorun s)"
  define s1 where "s1 = s\<lparr>lockcount := (lockcount s)(?r := lockcount s ?r - 1)\<rparr>"
  note run = running_facts [OF wf_inv [OF wf]]
  have s1: "(if lockcount s ?r \<noteq> 0 then s\<lparr>lockcount := (lockcount s)(?r := lockcount s ?r - 1)\<rparr> else s) = s1"
  proof (cases "lockcount s ?r = 0")
    case True
    then have "(lockcount s)(?r := lockcount s ?r - 1) = lockcount s" by (simp add: fun_eq_iff)
    then show ?thesis using True by (simp only: s1_def) simp
  qed (simp add: s1_def)
  have call: "sched_unlock False s = (if lockcount s1 ?r = 0 \<and> g_pendingtasks s1 \<noteq> [] then map_option snd (sched_mergepending s1) else Some s1)"
    using run s1 by (simp add: sched_unlock_def up_release_pending_def Let_def del: fun_upd_apply)
  have inv1: "sched_inv s1" using wf_inv [OF wf] by (simp add: s1_def)
  have l1: "tlist s1 = tlist s" "sched_priority s1 = sched_priority s" "lockcount s1 ?r = lockcount s ?r - 1" by (simp_all add: s1_def)
  show thesis
  proof (cases "lockcount s1 ?r = 0 \<and> g_pendingtasks s1 \<noteq> []")
    case True
    obtain s2 where s2: "sched_mergepending s1 = Some (hd (g_readytorun s2) \<noteq> hd (g_readytorun s1), s2)" "sched_inv s2" "relisted s1 s2"
        "g_readytorun s2 = prio_merge (sched_priority s1) (g_pendingtasks s1) (g_readytorun s1)" "g_pendingtasks s2 = []"
        "\<And>l. l \<noteq> Readytorun \<Longrightarrow> l \<noteq> Pendingtasks \<Longrightarrow> tlist s2 l = tlist s1 l"
      using sched_mergepending_ready [OF inv1] by blast
    show thesis
    proof (rule that)
      show "sched_unlock False s = Some s2" using call True s2(1) by simp
      show "sched_wf s2" using s2(2,5) by (simp add: sched_wf_def)
      show "relisted (s\<lparr>lockcount := (lockcount s)(?r := lockcount s ?r - 1)\<rparr>) s2" using s2(3) by (simp add: s1_def)
    qed (use True l1 s2(4-6) in auto)
  next
    case False
    show thesis
    proof (rule that)
      show "sched_unlock False s = Some s1" using call False by auto
      show "sched_wf s1" using wf inv1 False l1 by (auto simp: sched_wf_def)
      show "relisted (s\<lparr>lockcount := (lockcount s)(?r := lockcount s ?r - 1)\<rparr>) s1" by (simp add: s1_def)
    qed (use False l1 wf in \<open>auto simp: sched_wf_def\<close>)
  qed
qed

lemma sched_setpriority_wf:
  assumes wf: "sched_wf s" and t: "t \<in> set (tlist s l)" "t \<noteq> idle_tcb s"
  obtains ok s' where "sched_setpriority t p s = Some (ok, s')" "sched_wf s'"
    "if ok then reprioritized t (nat p) s s' else s' = s"
    "ok \<longleftrightarrow> int SCHED_PRIORITY_MIN \<le> p \<and> p \<le> int SCHED_PRIORITY_MAX"
proof (cases "int SCHED_PRIORITY_MIN \<le> p \<and> p \<le> int SCHED_PRIORITY_MAX")
  case True
  then have vp: "valid_priority (nat p)" "int (nat p) = p" by (auto simp: valid_priority_def sched_consts)
  obtain s' where s': "sched_setpriority t (int (nat p)) s = Some (True, s')" "sched_inv s'" "reprioritized t (nat p) s s'"
    using sched_setpriority_spec [OF wf_inv [OF wf] t vp(1)] by blast
  have "sched_wf s'" using s'(3) wf by (simp add: reprioritized_def)
  then show thesis using that [of True s'] s' True vp(2) by simp
next
  case False
  then have "sched_setpriority t p s = Some (False, s)" by (auto simp: sched_setpriority_def Let_def)
  then show thesis using that [of False s] wf False by simp
qed

lemma sched_reprioritize_wf:
  assumes wf: "sched_wf s" and t: "t \<in> set (tlist s l)" "t \<noteq> idle_tcb s"
  obtains r s' where "sched_reprioritize in_irq t p s = Some (r, s')" "sched_wf s'"
    "case r of Switched \<Rightarrow> reprioritized t (nat p) s s' | Done True \<Rightarrow> \<exists>s1. reprioritized t (nat p) s s1 \<and> s' = sched_reprioritize_resume t p s1 | Done False \<Rightarrow> s' = s"
proof -
  obtain ok s1 where s1: "sched_setpriority t p s = Some (ok, s1)" "sched_wf s1" "if ok then reprioritized t (nat p) s s1 else s1 = s"
    using sched_setpriority_wf [OF wf t] by metis
  have wf2: "sched_wf (sched_reprioritize_resume t p s1)" using s1(2) by (simp add: sched_reprioritize_resume_def)
  show thesis
  proof (cases "\<not> in_irq \<and> head_of (g_readytorun s1) \<noteq> head_of (g_readytorun s)")
    case True
    then have ok using s1(3) by (auto split: if_splits)
    have "sched_reprioritize in_irq t p s = Some (Switched, s1)" using s1(1) True by (simp add: sched_reprioritize_def)
    then show thesis using that s1(2,3) \<open>ok\<close> by simp
  next
    case False
    have call: "sched_reprioritize in_irq t p s = Some (Done ok, if ok then sched_reprioritize_resume t p s1 else s1)"
      using s1(1) False by (auto simp: sched_reprioritize_def)
    show thesis using that [OF call] s1(2,3) wf2 by (cases ok) auto
  qed
qed

text \<open>What a call keeps that neither blocks nor unblocks a task: the tasks that can run, the tasks on every other
  list, and everything beside the scheduler.\<close>

definition reordered :: "'a sched_state_scheme \<Rightarrow> 'a sched_state_scheme \<Rightarrow> bool" where
  "reordered s s' \<longleftrightarrow> sched_state.more s' = sched_state.more s \<and> idle_tcb s' = idle_tcb s \<and>
     set (g_readytorun s') \<union> set (g_pendingtasks s') = set (g_readytorun s) \<union> set (g_pendingtasks s) \<and>
     (\<forall>l. l \<noteq> Readytorun \<longrightarrow> l \<noteq> Pendingtasks \<longrightarrow> set (tlist s' l) = set (tlist s l))"

lemma reordered_refl [simp]: "reordered s s"
  by (simp add: reordered_def)

lemma reordered_trans [trans]: "reordered s s' \<Longrightarrow> reordered s' s'' \<Longrightarrow> reordered s s''"
  by (simp add: reordered_def)

lemma reprioritized_reordered: "reprioritized t p s s' \<Longrightarrow> reordered s s'"
  using relisted_fields(11,12) [of "set_priority t p s" s'] by (auto simp: reprioritized_def reordered_def)

lemma reordered_resume: "reordered s (sched_reprioritize_resume t p s)"
  by (simp add: reordered_def sched_reprioritize_resume_def)

lemma sched_unlock_wf: "sched_wf s \<Longrightarrow> \<exists>s'. sched_unlock in_irq s = Some s' \<and> sched_wf s' \<and> reordered s s'"
proof (cases in_irq)
  case False
  assume wf: "sched_wf s"
  let ?r = "hd (g_readytorun s)"
  obtain s' where s': "sched_unlock False s = Some s'" "sched_wf s'" "relisted (s\<lparr>lockcount := (lockcount s)(?r := lockcount s ?r - 1)\<rparr>) s'"
    "if lockcount s ?r \<le> 1 then g_pendingtasks s' = [] \<and> g_readytorun s' = prio_merge (sched_priority s) (g_pendingtasks s) (g_readytorun s) else tlist s' = tlist s"
    "\<And>l. l \<noteq> Readytorun \<Longrightarrow> l \<noteq> Pendingtasks \<Longrightarrow> tlist s' l = tlist s l"
    by (rule sched_unlock_spec [OF wf]) blast
  have "reordered s s'" using relisted_fields(11,12) [OF s'(3)] s'(4,5) by (auto simp: reordered_def split: if_splits)
  then show ?thesis using s'(1,2) False by simp
qed (simp add: sched_unlock_def Let_def)

lemma sched_lock_wf:
  "sched_wf s \<Longrightarrow> lockcount s (hd (g_readytorun s)) < MAX_LOCK_COUNT \<Longrightarrow>
   \<exists>s'. sched_lock in_irq s = Some s' \<and> sched_wf s' \<and> tlist s' = tlist s \<and> idle_tcb s' = idle_tcb s \<and>
     sched_priority s' = sched_priority s \<and> tcb_pid s' = tcb_pid s \<and> pidhash_tcb s' = pidhash_tcb s \<and> pidhash_pid s' = pidhash_pid s \<and> reordered s s'"
proof (cases in_irq)
  case False
  assume "sched_wf s" "lockcount s (hd (g_readytorun s)) < MAX_LOCK_COUNT"
  then show ?thesis using False sched_lock_spec [of s] by (auto simp: reordered_def)
qed (simp add: sched_lock_def Let_def)

section \<open>Reachable states\<close>

text \<open>The calls of tasks and interrupt handlers on the scheduler. \<open>Resume\<close> is the rest of a \<open>sched_setparam\<close>
  that switched tasks.\<close>

datatype sched_call =
    Block tstate | Unblock addr | Lock | Unlock | Setpriority addr int | Yield | Tick
  | Setparam bool int "int option" | Setscheduler bool int int int | Resume int

definition param_target :: "int \<Rightarrow> 'a sched_state_scheme \<Rightarrow> addr" where
  "param_target pid s = (if pid = 0 \<or> pid = tcb_pid s (head_of (g_readytorun s)) then head_of (g_readytorun s) else sched_gettcb pid s)"

definition policy_target :: "int \<Rightarrow> 'a sched_state_scheme \<Rightarrow> addr" where
  "policy_target pid s = sched_gettcb (if pid = 0 then tcb_pid s (head_of (g_readytorun s)) else pid) s"

fun sched_exec :: "sched_call \<Rightarrow> 'a sched_state_scheme \<Rightarrow> 'a sched_state_scheme option" where
  "sched_exec (Block st) s = map_option snd (up_block_task (head_of (g_readytorun s)) st s)"
| "sched_exec (Unblock t) s = map_option snd (up_unblock_task t s)"
| "sched_exec Lock s = sched_lock False s"
| "sched_exec Unlock s = sched_unlock False s"
| "sched_exec (Setpriority t p) s = map_option snd (sched_setpriority t p s)"
| "sched_exec Yield s = map_option snd (sched_yield s)"
| "sched_exec Tick s = sched_process_timeslice s"
| "sched_exec (Setparam in_irq pid param) s = map_option snd (sched_setparam in_irq pid param s)"
| "sched_exec (Setscheduler in_irq pid pol p) s = map_option snd (sched_setscheduler in_irq pid pol p s)"
| "sched_exec (Resume p) s = map_option snd (sched_setparam_resume (head_of (g_readytorun s)) p s)"

definition user_task :: "addr \<Rightarrow> 'a sched_state_scheme \<Rightarrow> bool" where
  "user_task t s \<longleftrightarrow> t \<noteq> idle_tcb s \<and> (\<exists>l. t \<in> set (tlist s l))"

text \<open>The idle task neither blocks nor changes its priority; the preemption lock is nested at most
  \<open>MAX_LOCK_COUNT\<close> deep.\<close>

fun permitted :: "sched_call \<Rightarrow> 'a sched_state_scheme \<Rightarrow> bool" where
  "permitted (Block st) s \<longleftrightarrow> blocked_state st \<and> user_task (hd (g_readytorun s)) s"
| "permitted (Unblock t) s \<longleftrightarrow> blocked_state (task_state s t) \<and> user_task t s"
| "permitted Lock s \<longleftrightarrow> lockcount s (hd (g_readytorun s)) < MAX_LOCK_COUNT"
| "permitted Unlock s \<longleftrightarrow> True"
| "permitted (Setpriority t p) s \<longleftrightarrow> user_task t s"
| "permitted Yield s \<longleftrightarrow> True"
| "permitted Tick s \<longleftrightarrow> True"
| "permitted (Setparam in_irq pid param) s \<longleftrightarrow>
     lockcount s (hd (g_readytorun s)) < MAX_LOCK_COUNT \<and> (param_target pid s = NULL \<or> user_task (param_target pid s) s)"
| "permitted (Setscheduler in_irq pid pol p) s \<longleftrightarrow>
     lockcount s (hd (g_readytorun s)) < MAX_LOCK_COUNT \<and> (policy_target pid s = NULL \<or> user_task (policy_target pid s) s)"
| "permitted (Resume p) s \<longleftrightarrow> True"

inductive sched_reach :: "'a sched_state_scheme \<Rightarrow> 'a sched_state_scheme \<Rightarrow> bool" for s0 where
  init: "sched_reach s0 s0"
| call: "sched_reach s0 s \<Longrightarrow> permitted c s \<Longrightarrow> sched_exec c s = Some s' \<Longrightarrow> sched_reach s0 s'"

lemma user_taskE: "user_task t s \<Longrightarrow> (\<And>l. t \<noteq> idle_tcb s \<Longrightarrow> t \<in> set (tlist s l) \<Longrightarrow> thesis) \<Longrightarrow> thesis"
  by (auto simp: user_task_def)

lemma made_ready_wf:
  assumes "sched_wf s" "sched_inv s'" "relisted s s'" "made_ready t s s'"
  shows "sched_wf s'"
  using assms(1,2,4) relisted_fields(6) [OF assms(3)] readytorun_nonempty [OF wf_inv [OF assms(1)]]
  by (auto simp: sched_wf_def made_ready_def hd_walk_insert split: if_splits)

lemma locked_reprioritize_wf:
  assumes wf: "sched_wf s" and t: "user_task t s"
  shows "\<exists>r s'. (do { (ret, s) \<leftarrow> sched_reprioritize in_irq t p s;
      case ret of Switched \<Rightarrow> Some (Switched, s)
      | Done ok \<Rightarrow> do { s \<leftarrow> sched_unlock in_irq s; Some (Done ok, s) } }) = Some (r, s') \<and> sched_wf s' \<and> reordered s s'"
proof -
  obtain l where l: "t \<in> set (tlist s l)" "t \<noteq> idle_tcb s" using t by (auto simp: user_task_def)
  obtain r s1 where s1: "sched_reprioritize in_irq t p s = Some (r, s1)" "sched_wf s1"
    "case r of Switched \<Rightarrow> reprioritized t (nat p) s s1 | Done True \<Rightarrow> \<exists>s2. reprioritized t (nat p) s s2 \<and> s1 = sched_reprioritize_resume t p s2 | Done False \<Rightarrow> s1 = s"
    by (rule sched_reprioritize_wf [OF wf l]) (rule that)
  have r1: "reordered s s1"
    using s1(3) reprioritized_reordered reordered_trans [OF reprioritized_reordered reordered_resume]
    by (auto split: progress.splits bool.splits)
  obtain s2 where s2: "sched_unlock in_irq s1 = Some s2" "sched_wf s2" "reordered s1 s2" using sched_unlock_wf [OF s1(2)] by blast
  show ?thesis using s1(1,2) s2 r1 reordered_trans [OF r1 s2(3)] by (cases r) auto
qed

lemma sched_setparam_wf:
  assumes wf: "sched_wf s" and lc: "lockcount s (hd (g_readytorun s)) < MAX_LOCK_COUNT"
    and t: "param_target pid s = NULL \<or> user_task (param_target pid s) s"
  shows "\<exists>r s'. sched_setparam in_irq pid param s = Some (r, s') \<and> sched_wf s' \<and> reordered s s'"
proof (cases param)
  case None
  then show ?thesis using wf by (simp add: sched_setparam_def)
next
  case (Some p)
  obtain s1 where s1: "sched_lock in_irq s = Some s1" "sched_wf s1" "tlist s1 = tlist s" "idle_tcb s1 = idle_tcb s"
    "tcb_pid s1 = tcb_pid s" "pidhash_tcb s1 = pidhash_tcb s" "pidhash_pid s1 = pidhash_pid s" "reordered s s1"
    using sched_lock_wf [OF wf lc] by blast
  have tg: "param_target pid s1 = param_target pid s" by (simp add: param_target_def sched_gettcb_def s1 Let_def)
  have call: "sched_setparam in_irq pid param s = (if param_target pid s1 = NULL then do { s \<leftarrow> sched_unlock in_irq s1; Some (Done False, s) }
      else do { (ret, s) \<leftarrow> sched_reprioritize in_irq (param_target pid s1) p s1;
        case ret of Switched \<Rightarrow> Some (Switched, s) | Done ok \<Rightarrow> do { s \<leftarrow> sched_unlock in_irq s; Some (Done ok, s) } })"
    using Some s1(1) by (simp add: sched_setparam_def param_target_def Let_def)
  show ?thesis
  proof (cases "param_target pid s = NULL")
    case True
    obtain s2 where "sched_unlock in_irq s1 = Some s2" "sched_wf s2" "reordered s1 s2" using sched_unlock_wf [OF s1(2)] by blast
    then show ?thesis using call tg True reordered_trans [OF s1(8)] by simp
  next
    case False
    then have "user_task (param_target pid s1) s1" using t tg s1(3,4) by (simp add: user_task_def)
    then obtain r s2 where "sched_setparam in_irq pid param s = Some (r, s2)" "sched_wf s2" "reordered s1 s2"
      using locked_reprioritize_wf [OF s1(2), of "param_target pid s1" in_irq p] call tg False by auto
    then show ?thesis using reordered_trans [OF s1(8)] by blast
  qed
qed

lemma sched_setscheduler_wf:
  assumes wf: "sched_wf s" and lc: "lockcount s (hd (g_readytorun s)) < MAX_LOCK_COUNT"
    and t: "policy_target pid s = NULL \<or> user_task (policy_target pid s) s"
  shows "\<exists>r s'. sched_setscheduler in_irq pid pol p s = Some (r, s') \<and> sched_wf s' \<and> reordered s s'"
proof (cases "(pol \<noteq> SCHED_FIFO \<and> pol \<noteq> SCHED_RR) \<or> policy_target pid s = NULL")
  case True
  then show ?thesis using wf by (auto simp: sched_setscheduler_def policy_target_def Let_def)
next
  case False
  let ?t = "policy_target pid s"
  obtain s1 where s1: "sched_lock in_irq s = Some s1" "sched_wf s1" "tlist s1 = tlist s" "idle_tcb s1 = idle_tcb s" "reordered s s1"
    using sched_lock_wf [OF wf lc] by blast
  define s2 where "s2 = (if pol = SCHED_RR then s1\<lparr>round_robin := (round_robin s1)(?t := True), timeslice := (timeslice s1)(?t := RR_TICKS)\<rparr>
         else s1\<lparr>round_robin := (round_robin s1)(?t := False), timeslice := (timeslice s1)(?t := 0)\<rparr>)"
  have call: "sched_setscheduler in_irq pid pol p s = do { (ret, s) \<leftarrow> sched_reprioritize in_irq ?t p s2;
        case ret of Switched \<Rightarrow> Some (Switched, s) | Done ok \<Rightarrow> do { s \<leftarrow> sched_unlock in_irq s; Some (Done ok, s) } }"
    using False s1(1) unfolding sched_setscheduler_def s2_def Let_def policy_target_def [symmetric] by auto
  have "sched_wf s2" using s1(2) by (simp add: s2_def)
  moreover have "user_task ?t s2" using False t s1(3,4) by (simp add: user_task_def s2_def)
  ultimately obtain r s3 where "sched_setscheduler in_irq pid pol p s = Some (r, s3)" "sched_wf s3" "reordered s2 s3"
    using locked_reprioritize_wf [of s2 ?t in_irq p] unfolding call by blast
  moreover have "reordered s s2" using s1(5) by (simp add: s2_def reordered_def)
  ultimately show ?thesis using reordered_trans by blast
qed

lemma sched_yield_wf:
  assumes wf: "sched_wf s"
  shows "\<exists>r s'. sched_yield s = Some (r, s') \<and> sched_wf s' \<and> reordered s s'"
proof (cases "hd (g_readytorun s) = idle_tcb s")
  case True
  then have "sched_priority s (hd (g_readytorun s)) = SCHED_PRIORITY_IDLE" using wf by (simp add: sched_wf_def sched_inv_def idle_ok_def)
  then show ?thesis using wf running_facts [OF wf_inv [OF wf]]
    by (intro exI [of _ False] exI [of _ s]) (simp add: sched_yield_def sched_setpriority_def sched_consts Let_def)
next
  case False
  note run = running_facts [OF wf_inv [OF wf]]
  obtain ok s' where s': "sched_setpriority (hd (g_readytorun s)) (int (sched_priority s (hd (g_readytorun s)))) s = Some (ok, s')" "sched_wf s'"
    "if ok then reprioritized (hd (g_readytorun s)) (nat (int (sched_priority s (hd (g_readytorun s))))) s s' else s' = s"
    by (rule sched_setpriority_wf [OF wf run(3) False]) (rule that)
  then have "reordered s s'" using reprioritized_reordered by (auto split: if_splits)
  then show ?thesis using s'(1,2) run(1) by (simp add: sched_yield_def)
qed

lemma reprioritize_self_wf:
  assumes wf: "sched_wf s" and t: "t \<in> set (g_readytorun s)" "t \<noteq> idle_tcb s"
  shows "\<exists>b s'. up_reprioritize_rtr t (sched_priority s t) s = Some (b, s') \<and> sched_wf s' \<and> reordered s s'"
proof -
  obtain b s' where s': "up_reprioritize_rtr t (sched_priority s t) s = Some (b, s')" "reprioritized t (sched_priority s t) s s'"
    using up_reprioritize_rtr_spec [OF wf_inv [OF wf] t member_facts(2) [OF wf_inv [OF wf] t]] by blast
  moreover have "sched_wf s'" using s'(2) wf by (simp add: reprioritized_def)
  ultimately show ?thesis using reprioritized_reordered [OF s'(2)] by blast
qed

lemma sched_process_timeslice_wf:
  assumes wf: "sched_wf s"
  shows "\<exists>s'. sched_process_timeslice s = Some s' \<and> sched_wf s' \<and> reordered s s'"
proof -
  let ?t = "hd (g_readytorun s)"
  note run = running_facts [OF wf_inv [OF wf]]
  let ?s = "s\<lparr>timeslice := (timeslice s)(?t := RR_TICKS)\<rparr>"
  have "?t \<noteq> idle_tcb s" if "tl (g_readytorun s) \<noteq> []"
  proof -
    obtain r rs where rtr: "g_readytorun s = r # rs" "distinct (r # rs)" using sched_inv_rtr [OF wf_inv [OF wf]] by metis
    have "last (g_readytorun s) = idle_tcb s" using wf by (simp add: sched_wf_def sched_inv_def idle_ok_def)
    then show ?thesis using that rtr last_in_set [of rs] by auto
  qed
  then have "\<exists>b s'. up_reprioritize_rtr ?t (sched_priority ?s ?t) ?s = Some (b, s') \<and> sched_wf s' \<and> reordered ?s s'" if "tl (g_readytorun s) \<noteq> []"
    using that reprioritize_self_wf [of ?s ?t] wf run(3) by simp
  moreover have ts: "reordered s (s\<lparr>timeslice := f\<rparr>)" for f by (simp add: reordered_def)
  ultimately show ?thesis using wf run(1) reordered_trans [OF ts] by (auto simp: sched_process_timeslice_def Let_def)
qed

end
