(* ===== verification/Sched_Props.thy ===== *)
theory Sched_Props
  imports Sched_Ops
begin

unbundle bit_operations_syntax

text \<open>
  The correctness of the scheduler.
\<close>

section \<open>A concrete scheduler\<close>

definition sched_demo :: sched_state where
  "sched_demo = \<lparr>tlist = (\<lambda>_. [])(Readytorun := [1, 2, 3, 9], Waitingforsemaphore := [4]),
     sched_priority = (\<lambda>_. 0)(1 := 100, 2 := 100, 3 := 50, 4 := 120), base_priority = (\<lambda>_. 0)(1 := 100, 2 := 100, 3 := 50, 4 := 120),
     npend_reprio = (\<lambda>_. 0), pend_reprios = (\<lambda>_. []),
     task_state = (\<lambda>_. TSTATE_TASK_INVALID)(1 := TSTATE_TASK_RUNNING, 2 := TSTATE_TASK_READYTORUN, 3 := TSTATE_TASK_READYTORUN,
       9 := TSTATE_TASK_READYTORUN, 4 := TSTATE_WAIT_SEM),
     round_robin = (\<lambda>_. False)(1 := True), lockcount = (\<lambda>_. 0), timeslice = (\<lambda>_. 0)(1 := 1),
     tcb_pid = int(9 := 0), pidhash_tcb = (\<lambda>_. 0)(0 := 9, 1 := 1, 2 := 2, 3 := 3, 4 := 4), pidhash_pid = int, idle_tcb = 9\<rparr>"

lemma all_tasklist: "(\<forall>l. P l) \<longleftrightarrow> P Pendingtasks \<and> P Readytorun \<and> P Inactivetasks \<and> P Waitingforsemaphore \<and>
    P Waitingforsignal \<and> P Waitingformqnotempty \<and> P Waitingformqnotfull"
  by (metis tasklist.exhaust)

lemma sched_demo_wf: "sched_wf sched_demo"
  by (simp add: sched_wf_def sched_inv_def lists_ok_def states_ok_def idle_ok_def all_tasklist by_priority_def sched_demo_def sched_consts)

section \<open>Correctness\<close>

lemma sched_exec_wf:
  assumes "sched_wf s" "permitted c s"
  shows "\<exists>s'. sched_exec c s = Some s' \<and> sched_wf s'"
proof (cases c)
  case (Block st)
  then have b: "blocked_state st" "hd (g_readytorun s) \<noteq> idle_tcb s" using assms(2) by (auto simp: user_task_def)
  note run = running_facts [OF wf_inv [OF assms(1)]]
  obtain l where l: "list_state l = st" using blocked_list [OF b(1)] by blast
  obtain s' where "up_block_task (hd (g_readytorun s)) st s = Some (hd (g_readytorun s') \<noteq> hd (g_readytorun s), s')" "sched_inv s'"
      "g_pendingtasks s' = []"
    using up_block_task_spec [OF wf_inv [OF assms(1)] run(3) b(2,1) l] by blast
  then show ?thesis using Block run(1) by (simp add: sched_wf_def)
next
  case (Unblock t)
  then obtain l where t: "t \<in> set (tlist s l)" "t \<noteq> idle_tcb s" "blocked_state (task_state s t)" using assms(2) by (auto simp: user_task_def)
  obtain s' where s': "up_unblock_task t s = Some (hd (g_readytorun s') \<noteq> hd (g_readytorun s), s')" "sched_inv s'" "relisted s s'" "made_ready t s s'"
    using up_unblock_task_spec [OF wf_inv [OF assms(1)] t] by blast
  have "sched_wf s'" by (rule made_ready_wf [OF assms(1) s'(2-4)])
  then show ?thesis using Unblock s'(1) by simp
next
  case Lock
  then show ?thesis using sched_lock_spec [OF assms(1)] assms(2) by simp
next
  case Unlock
  then show ?thesis using sched_unlock_wf [OF assms(1)] by auto
next
  case (Setpriority t p)
  then obtain l where t: "t \<in> set (tlist s l)" "t \<noteq> idle_tcb s" using assms(2) by (auto simp: user_task_def)
  obtain ok s' where "sched_setpriority t p s = Some (ok, s')" "sched_wf s'" by (rule sched_setpriority_wf [OF assms(1) t])
  then show ?thesis using Setpriority by simp
next
  case Yield
  then show ?thesis using sched_yield_wf [OF assms(1)] by auto
next
  case Tick
  then show ?thesis using sched_process_timeslice_wf [OF assms(1)] by auto
next
  case (Setparam in_irq pid param)
  then show ?thesis using sched_setparam_wf [OF assms(1)] assms(2) by fastforce
next
  case (Setscheduler in_irq pid pol p)
  then show ?thesis using sched_setscheduler_wf [OF assms(1)] assms(2) by fastforce
next
  case (Resume p)
  have "sched_wf (sched_reprioritize_resume (head_of (g_readytorun s)) p s)" using assms(1) by (simp add: sched_reprioritize_resume_def)
  then obtain s' where "sched_unlock False (sched_reprioritize_resume (head_of (g_readytorun s)) p s) = Some s'" "sched_wf s'"
    using sched_unlock_wf by blast
  then show ?thesis using Resume by (simp add: sched_setparam_resume_def)
qed

text \<open>(C10) Every permitted call returns in a well-formed scheduler and leaves it well-formed: no assertion of the
  scheduler fails, the lists stay disjoint, in order of priority and consistent with the task states.\<close>

theorem sched_calls_return:
  assumes "sched_wf s" "permitted c s"
  shows "\<exists>s'. sched_exec c s = Some s' \<and> sched_wf s'"
  by (rule sched_exec_wf [OF assms])

theorem sched_calls_return_witness: "\<exists>s'. sched_exec (Unblock 4) sched_demo = Some s' \<and> sched_wf s'"
  by (rule sched_calls_return [OF sched_demo_wf])
    (auto simp: user_task_def sched_demo_def intro: exI [of _ Waitingforsemaphore])

text \<open>(C2) In every reachable state the running task is a ready task of the highest priority, and no task
  is kept from running once the preemption lock is released: without a lock no task is pending.\<close>

theorem sched_running_highest:
  assumes "sched_wf s0" "sched_reach s0 s"
  shows "sched_wf s \<and> task_state s (hd (g_readytorun s)) = TSTATE_TASK_RUNNING \<and>
    (\<forall>t \<in> set (g_readytorun s). sched_priority s t \<le> sched_priority s (hd (g_readytorun s))) \<and>
    (sched_lockcount s = 0 \<longrightarrow> g_pendingtasks s = [])"
proof -
  have wf: "sched_wf s" using assms(2,1)
  proof (induction rule: sched_reach.induct)
    case (call s c s')
    then show ?case using sched_exec_wf [of s c] by auto
  qed
  obtain r rs where r: "g_readytorun s = r # rs" "\<forall>t \<in> set rs. sched_priority s t \<le> sched_priority s r" "task_state s r = TSTATE_TASK_RUNNING"
    using sched_inv_rtr [OF wf_inv [OF wf]] by metis
  then show ?thesis using wf by (auto simp: sched_lockcount_def sched_wf_def)
qed

lemma sched_demo_unblock:
  "sched_exec (Unblock 4) sched_demo = Some (sched_demo\<lparr>tlist := (\<lambda>_. [])(Readytorun := [4, 1, 2, 3, 9]),
     task_state := (task_state sched_demo)(4 := TSTATE_TASK_RUNNING, 1 := TSTATE_TASK_READYTORUN)\<rparr>)"
  by (simp add: sched_demo_def up_unblock_task_def sched_removeblocked_def sched_addreadytorun_def sched_addprioritized_def
    debugassert_def sched_consts Let_def fun_eq_iff)

theorem sched_running_highest_witness:
  "\<exists>s. sched_reach sched_demo s \<and> hd (g_readytorun s) = 4 \<and> task_state s 4 = TSTATE_TASK_RUNNING \<and>
     (\<forall>t \<in> {1, 2, 3, 9}. sched_priority s t \<le> sched_priority s 4)"
proof -
  let ?s = "sched_demo\<lparr>tlist := (\<lambda>_. [])(Readytorun := [4, 1, 2, 3, 9]),
     task_state := (task_state sched_demo)(4 := TSTATE_TASK_RUNNING, 1 := TSTATE_TASK_READYTORUN)\<rparr>"
  have "permitted (Unblock 4) sched_demo"
    by (auto simp: user_task_def sched_demo_def intro: exI [of _ Waitingforsemaphore])
  then have r: "sched_reach sched_demo ?s"
    using sched_reach.call [OF sched_reach.init _ sched_demo_unblock] by blast
  show ?thesis using r sched_running_highest [OF sched_demo_wf r] by (intro exI [of _ ?s]) simp
qed

text \<open>(C18) The single pass of \<open>sched_mergepending\<close> over the two ordered lists gives the same list as adding
  the pending tasks one after the other with \<open>sched_addprioritized\<close>, and reports whether the head
  changed.\<close>

theorem sched_mergepending_equiv:
  assumes "sched_inv s"
  shows "\<exists>s' f. sched_mergepending s = Some (hd (g_readytorun s') \<noteq> hd (g_readytorun s), s') \<and>
     fold (\<lambda>t r. Option.bind r (\<lambda>r. map_option snd (sched_addprioritized t Readytorun r))) (g_pendingtasks s) (Some s) =
       Some (s'\<lparr>task_state := f, tlist := (tlist s')(Pendingtasks := g_pendingtasks s)\<rparr>) \<and> g_pendingtasks s' = []"
proof -
  obtain f where f: "sched_mergepending s = Some (hd (prio_merge (sched_priority s) (g_pendingtasks s) (g_readytorun s)) \<noteq> hd (g_readytorun s),
      s\<lparr>tlist := (tlist s)(Readytorun := prio_merge (sched_priority s) (g_pendingtasks s) (g_readytorun s), Pendingtasks := []), task_state := f\<rparr>)"
    using sched_mergepending_spec [OF assms] by blast
  have "sched_priority s t \<ge> SCHED_PRIORITY_MIN" if "t \<in> set (g_pendingtasks s)" for t
  proof -
    have "t \<noteq> idle_tcb s" using that only_list [OF assms idle_listed [OF assms], of Pendingtasks] by auto
    then show ?thesis using member_facts(2) [OF assms that] by (simp add: valid_priority_def)
  qed
  then have "fold (\<lambda>t r. Option.bind r (\<lambda>r. map_option snd (sched_addprioritized t Readytorun r))) ps (Some (set_tlist Readytorun ts s)) =
      Some (set_tlist Readytorun (prio_merge (sched_priority s) ps ts) s)" if "set ps \<subseteq> set (g_pendingtasks s)" for ps ts
    using that by (induction ps arbitrary: ts) (simp_all add: sched_addprioritized_def debugassert_def Let_def)
  from this [of "g_pendingtasks s" "g_readytorun s"]
  have "fold (\<lambda>t r. Option.bind r (\<lambda>r. map_option snd (sched_addprioritized t Readytorun r))) (g_pendingtasks s) (Some s) =
      Some (set_tlist Readytorun (prio_merge (sched_priority s) (g_pendingtasks s) (g_readytorun s)) s)" by simp
  then show ?thesis unfolding f
    by (intro exI [of _ "s\<lparr>tlist := (tlist s)(Readytorun := prio_merge (sched_priority s) (g_pendingtasks s) (g_readytorun s), Pendingtasks := []), task_state := f\<rparr>"]
      exI [of _ "task_state s"]) (simp add: fun_upd_twist)
qed

text \<open>The same scheduler with the preemption lock held and two pending tasks.\<close>

definition sched_demo_locked :: sched_state where
  "sched_demo_locked = sched_demo\<lparr>tlist := (tlist sched_demo)(Pendingtasks := [5, 6]), lockcount := (\<lambda>_. 0)(1 := 1),
     sched_priority := (sched_priority sched_demo)(5 := 130, 6 := 110),
     task_state := (task_state sched_demo)(5 := TSTATE_TASK_PENDING, 6 := TSTATE_TASK_PENDING)\<rparr>"

lemma sched_demo_locked_wf: "sched_wf sched_demo_locked"
  by (simp add: sched_wf_def sched_inv_def lists_ok_def states_ok_def idle_ok_def all_tasklist by_priority_def
    sched_demo_locked_def sched_demo_def sched_consts)

theorem sched_mergepending_equiv_witness:
  "\<exists>s' f. sched_mergepending sched_demo_locked = Some (hd (g_readytorun s') \<noteq> 1, s') \<and>
     fold (\<lambda>t r. Option.bind r (\<lambda>r. map_option snd (sched_addprioritized t Readytorun r))) [5, 6] (Some sched_demo_locked) =
       Some (s'\<lparr>task_state := f, tlist := (tlist s')(Pendingtasks := [5, 6])\<rparr>)"
  using sched_mergepending_equiv [OF wf_inv [OF sched_demo_locked_wf]] by (auto simp: sched_demo_locked_def sched_demo_def)

text \<open>(C22) A task that is made ready takes the processor at once if and only if its priority is higher than
  that of the running task and the running task does not hold the preemption lock. Otherwise it waits
  behind the tasks of its own priority, on the pending list while a lower-priority task holds the lock.\<close>

theorem up_unblock_task_preempts:
  assumes "sched_wf s" "user_task t s" "blocked_state (task_state s t)"
  shows "\<exists>s'. up_unblock_task t s = Some (hd (g_readytorun s') = t, s') \<and>
    (hd (g_readytorun s') = t \<longleftrightarrow>
       sched_lockcount s = 0 \<and> sched_priority s (hd (g_readytorun s)) < sched_priority s t) \<and>
    (if sched_lockcount s \<noteq> 0 \<and> sched_priority s (hd (g_readytorun s)) < sched_priority s t
     then g_readytorun s' = g_readytorun s \<and>
       g_pendingtasks s' = filter (\<lambda>u. sched_priority s t \<le> sched_priority s u) (g_pendingtasks s) @ t #
         filter (\<lambda>u. sched_priority s u < sched_priority s t) (g_pendingtasks s)
     else g_pendingtasks s' = g_pendingtasks s \<and>
       g_readytorun s' = filter (\<lambda>u. sched_priority s t \<le> sched_priority s u) (g_readytorun s) @ t #
         filter (\<lambda>u. sched_priority s u < sched_priority s t) (g_readytorun s))"
proof -
  note inv = wf_inv [OF assms(1)]
  obtain l where t: "t \<in> set (tlist s l)" "t \<noteq> idle_tcb s" using assms(2) by (auto simp: user_task_def)
  obtain s' where s': "up_unblock_task t s = Some (hd (g_readytorun s') \<noteq> hd (g_readytorun s), s')" "made_ready t s s'"
    using up_unblock_task_spec [OF inv t assms(3)] by blast
  note rn = readytorun_nonempty [OF inv]
  have "l \<noteq> Readytorun" using sched_removeblocked_spec(4) [OF inv t assms(3)] .
  then have tn: "t \<notin> set (g_readytorun s)" using only_list [OF inv t(1), of Readytorun] by auto
  have ins: "prio_insert s t ts = filter (\<lambda>u. sched_priority s t \<le> sched_priority s u) ts @ t #
      filter (\<lambda>u. sched_priority s u < sched_priority s t) ts" if "by_priority s ts" for ts
    using that unfolding by_priority_def
  proof (induction ts)
    case (Cons u ts)
    show ?case
    proof (cases "sched_priority s t \<le> sched_priority s u")
      case True
      then show ?thesis using Cons by auto
    next
      case False
      then have "\<forall>v \<in> set (u # ts). sched_priority s v < sched_priority s t" using Cons.prems by auto
      then have "filter (\<lambda>u. sched_priority s t \<le> sched_priority s u) (u # ts) = []"
        "filter (\<lambda>u. sched_priority s u < sched_priority s t) (u # ts) = u # ts"
        by (auto simp: filter_empty_conv filter_id_conv)
      then show ?thesis using False by simp
    qed
  qed simp
  have lk: "sched_lockcount s = lockcount s (hd (g_readytorun s))" using rn by (simp add: sched_lockcount_def)
  have hd: "hd (g_readytorun s') = t \<longleftrightarrow> sched_lockcount s = 0 \<and> sched_priority s (hd (g_readytorun s)) < sched_priority s t"
    "hd (g_readytorun s') \<noteq> hd (g_readytorun s) \<longleftrightarrow> hd (g_readytorun s') = t"
    using s'(2) rn tn hd_in_set [OF rn] by (auto simp: lk made_ready_def hd_walk_insert split: if_splits)
  show ?thesis
    using s' hd ins [OF priority_order [OF inv, of Readytorun]] ins [OF priority_order [OF inv, of Pendingtasks]]
    by (intro exI [of _ s']) (auto simp: made_ready_def lk split: if_splits)
qed

theorem up_unblock_task_preempts_witness:
  "\<exists>s'. up_unblock_task 4 sched_demo = Some (True, s') \<and> g_readytorun s' = [4, 1, 2, 3, 9]"
proof -
  have "user_task 4 sched_demo" by (auto simp: user_task_def sched_demo_def intro: exI [of _ Waitingforsemaphore])
  from up_unblock_task_preempts [OF sched_demo_wf this] show ?thesis
    by (auto simp: sched_demo_def sched_lockcount_def)
qed

text \<open>A running task whose priority becomes that of the next task or less goes behind that task.\<close>

lemma up_reprioritize_rtr_self:
  assumes inv: "sched_inv s" and rtr: "g_readytorun s = t # u # rest" and pend: "g_pendingtasks s = []"
    and p: "valid_priority p" "p \<le> sched_priority s u"
  obtains s' where "up_reprioritize_rtr t p s = Some (True, s')" "sched_inv s'" "relisted (set_priority t p s) s'"
    "g_readytorun s' = walk_insert (\<lambda>v. p \<le> sched_priority s v) t (u # rest)" "g_pendingtasks s' = []" "t \<noteq> idle_tcb s"
proof -
  have t: "t \<in> set (g_readytorun s)" using rtr by simp
  have d: "distinct (t # u # rest)" using inv_distinct [OF inv, of Readytorun] rtr by simp
  moreover have "last (t # u # rest) = idle_tcb s" using inv rtr by (simp add: sched_inv_def idle_ok_def)
  ultimately have tn: "t \<noteq> idle_tcb s" using last_in_set [of "u # rest"] by (auto split: if_splits)
  have rdy: "ready_state (task_state s t)" using states_at [OF inv t] by simp
  obtain s1 where s1: "sched_removereadytorun t s = Some (hd (g_readytorun s1) \<noteq> hd (g_readytorun s), s1)" "sched_inv s1" "relisted s s1"
    "unlisted t s1" "g_readytorun s1 = remove1 t (g_readytorun s)" "\<And>l. l \<noteq> Readytorun \<Longrightarrow> tlist s1 l = tlist s l"
    "(hd (g_readytorun s1) \<noteq> hd (g_readytorun s)) = (t = hd (g_readytorun s))"
    using sched_removereadytorun_ready [OF inv t tn] by blast
  define s2 where "s2 = set_priority t p s1"
  have inv2: "sched_inv s2" "unlisted t s2" unfolding s2_def by (rule set_priority_unlisted [OF s1(2,4)])+
  have pri: "sched_priority s2 = (sched_priority s)(t := p)" using relisted_fields(1) [OF s1(3)] by (simp add: s2_def)
  have tp: "t \<noteq> NULL" "valid_priority (sched_priority s2 t)" using member_facts [OF inv t tn] p pri by simp_all
  have l2: "g_readytorun s2 = u # rest" "g_pendingtasks s2 = []" using s1(5,6) rtr pend by (simp_all add: s2_def)
  obtain s3 where s3: "sched_addreadytorun t s2 = Some (hd (g_readytorun s3) \<noteq> hd (g_readytorun s2), s3)" "sched_inv s3" "relisted s2 s3"
    "made_ready t s2 s3"
    using sched_addreadytorun_ready [OF inv2 tp] by blast
  have "prio_insert s2 t (u # rest) = walk_insert (\<lambda>v. p \<le> sched_priority s v) t (u # rest)"
  proof -
    have "walk_insert (\<lambda>v. p \<le> ((sched_priority s)(t := p)) v) t vs = walk_insert (\<lambda>v. p \<le> sched_priority s v) t vs" if "t \<notin> set vs" for vs
      using that by (induction vs) auto
    then show ?thesis using d by (simp add: pri)
  qed
  then have r3: "g_readytorun s3 = walk_insert (\<lambda>v. p \<le> sched_priority s v) t (u # rest)" "g_pendingtasks s3 = []"
    using s3(4) p(2) d l2 by (auto simp: made_ready_def pri split: if_splits)
  have fr: "relisted (set_priority t p s) s3" using s1(3) s3(3) unfolding relisted_def s2_def by force
  have "up_reprioritize_rtr t p s = Some (True, s3)"
    using s1(1,7) s3(1) r3 rtr l2 p by (simp add: up_reprioritize_rtr_def debugassert_def rdy valid_priority_def s2_def [symmetric])
  then show thesis using that s3(2) fr r3 tn by blast
qed

lemma up_reprioritize_rtr_rotates:
  assumes inv: "sched_inv s" and rtr: "g_readytorun s = t # es @ rest" "es \<noteq> []" and pend: "g_pendingtasks s = []"
    and eq: "\<forall>u \<in> set es. sched_priority s u = sched_priority s t" and lt: "\<forall>u \<in> set rest. sched_priority s u < sched_priority s t"
  obtains s' where "up_reprioritize_rtr t (sched_priority s t) s = Some (True, s')" "sched_inv s'" "relisted s s'"
    "g_readytorun s' = es @ t # rest"
proof -
  obtain u us where es: "es = u # us" using rtr(2) by (cases es) auto
  have r: "g_readytorun s = t # u # us @ rest" using rtr(1) es by simp
  have "distinct (t # u # us @ rest)" using inv_distinct [OF inv, of Readytorun] r by simp
  moreover have "last (t # u # us @ rest) = idle_tcb s" using inv r by (simp add: sched_inv_def idle_ok_def)
  ultimately have tn: "t \<noteq> idle_tcb s" using last_in_set [of "u # us @ rest"] by (auto split: if_splits)
  have v: "valid_priority (sched_priority s t)" using member_facts(2) [OF inv _ tn, of Readytorun] r by simp
  have same: "set_priority t (sched_priority s t) s = s" by simp
  obtain s' where s': "up_reprioritize_rtr t (sched_priority s t) s = Some (True, s')" "sched_inv s'"
    "relisted (set_priority t (sched_priority s t) s) s'"
    "g_readytorun s' = walk_insert (\<lambda>v. sched_priority s t \<le> sched_priority s v) t (u # us @ rest)"
    using up_reprioritize_rtr_self [OF inv r pend v] eq es by auto
  have "walk_insert (\<lambda>v. sched_priority s t \<le> sched_priority s v) t (es @ rest) = es @ t # rest"
    using eq lt by (intro walk_insert_split) (auto, cases rest, auto)
  then show thesis using that s' same es by simp
qed

text \<open>(C25) Round robin: when the time slice of the running task is used up and other ready tasks have its
  priority, the timer puts it behind them and ahead of the tasks of lower priority, with a new slice.
  Repeated, this gives every task of that priority its turn in the order of the list.\<close>

theorem sched_timeslice_rotates:
  assumes "sched_wf s" "g_readytorun s = t # es @ rest" "es \<noteq> []"
    "\<forall>u \<in> set es. sched_priority s u = sched_priority s t" "\<forall>u \<in> set rest. sched_priority s u < sched_priority s t"
    "round_robin s t" "timeslice s t \<le> 1" "lockcount s t = 0"
  shows "\<exists>s'. sched_process_timeslice s = Some s' \<and> g_readytorun s' = es @ t # rest \<and> timeslice s' t = RR_TICKS \<and>
    (\<forall>u. u \<noteq> t \<longrightarrow> timeslice s' u = timeslice s u) \<and> sched_priority s' = sched_priority s"
proof -
  define s1 where "s1 = s\<lparr>timeslice := (timeslice s)(t := RR_TICKS)\<rparr>"
  have inv1: "sched_inv s1" using wf_inv [OF assms(1)] by (simp add: s1_def)
  have l1: "g_readytorun s1 = t # es @ rest" "g_pendingtasks s1 = []" "sched_priority s1 = sched_priority s"
    using assms(1,2,8) by (auto simp: s1_def sched_wf_def)
  have eq: "\<forall>u \<in> set es. sched_priority s1 u = sched_priority s1 t" "\<forall>u \<in> set rest. sched_priority s1 u < sched_priority s1 t"
    using assms(4,5) by (simp_all add: l1(3))
  obtain s2 where s2: "up_reprioritize_rtr t (sched_priority s1 t) s1 = Some (True, s2)" "relisted s1 s2" "g_readytorun s2 = es @ t # rest"
    using up_reprioritize_rtr_rotates [OF inv1 l1(1) assms(3) l1(2) eq] by blast
  have "sched_process_timeslice s = Some s2"
    using assms(2-8) s2(1) by (cases es) (auto simp: sched_process_timeslice_def s1_def Let_def)
  then show ?thesis using s2(3) relisted_fields(1,7) [OF s2(2)] by (simp add: s1_def)
qed

theorem sched_timeslice_rotates_witness:
  "\<exists>s'. sched_process_timeslice sched_demo = Some s' \<and> g_readytorun s' = [2, 1, 3, 9] \<and> timeslice s' 1 = 10"
proof -
  have "\<exists>s'. sched_process_timeslice sched_demo = Some s' \<and> g_readytorun s' = [2] @ 1 # [3, 9] \<and> timeslice s' 1 = RR_TICKS \<and>
      (\<forall>u. u \<noteq> 1 \<longrightarrow> timeslice s' u = timeslice sched_demo u) \<and> sched_priority s' = sched_priority sched_demo"
    by (rule sched_timeslice_rotates [OF sched_demo_wf]) (simp_all add: sched_demo_def)
  then show ?thesis by (auto simp: RR_TICKS_def)
qed

section \<open>Priorities through process identifiers\<close>

text \<open>The table of process identifiers agrees with the TCBs.\<close>

definition pids_ok :: "'a sched_state_scheme \<Rightarrow> bool" where
  "pids_ok s \<longleftrightarrow> (\<forall>l. \<forall>t \<in> set (tlist s l). sched_gettcb (tcb_pid s t) s = t)"

lemma reprioritized_fields:
  assumes "reprioritized t p s s'"
  shows "sched_priority s' = (sched_priority s)(t := p)" "tcb_pid s' = tcb_pid s" "lockcount s' = lockcount s"
    "pidhash_tcb s' = pidhash_tcb s" "pidhash_pid s' = pidhash_pid s" "idle_tcb s' = idle_tcb s"
    "set (g_readytorun s') \<union> set (g_pendingtasks s') = set (g_readytorun s) \<union> set (g_pendingtasks s)"
  using assms relisted_fields [of "set_priority t p s" s'] by (auto simp: reprioritized_def)

lemma runnable_after_unlock:
  assumes "sched_wf s" "sched_unlock False s = Some s'"
  shows "set (g_readytorun s') \<subseteq> set (g_readytorun s) \<union> set (g_pendingtasks s)" "sched_wf s'"
    "sched_priority s' = sched_priority s" "tcb_pid s' = tcb_pid s" "pidhash_tcb s' = pidhash_tcb s" "pidhash_pid s' = pidhash_pid s"
    "lockcount s' = (lockcount s)(hd (g_readytorun s) := lockcount s (hd (g_readytorun s)) - 1)"
proof -
  obtain s2 where s2: "sched_unlock False s = Some s2" "sched_wf s2"
    "relisted (s\<lparr>lockcount := (lockcount s)(hd (g_readytorun s) := lockcount s (hd (g_readytorun s)) - 1)\<rparr>) s2"
    "if lockcount s (hd (g_readytorun s)) \<le> 1
     then g_pendingtasks s2 = [] \<and> g_readytorun s2 = prio_merge (sched_priority s) (g_pendingtasks s) (g_readytorun s)
     else tlist s2 = tlist s"
    by (rule sched_unlock_spec [OF assms(1)])
  have "s2 = s'" using s2(1) assms(2) by simp
  then show "set (g_readytorun s') \<subseteq> set (g_readytorun s) \<union> set (g_pendingtasks s)" "sched_wf s'"
    "sched_priority s' = sched_priority s" "tcb_pid s' = tcb_pid s" "pidhash_tcb s' = pidhash_tcb s" "pidhash_pid s' = pidhash_pid s"
    "lockcount s' = (lockcount s)(hd (g_readytorun s) := lockcount s (hd (g_readytorun s)) - 1)"
    using s2(2,4) relisted_fields [OF s2(3)] by (auto split: if_splits)
qed

text \<open>The facts a query by process identifier needs.\<close>

definition queried :: "int \<Rightarrow> addr \<Rightarrow> nat \<Rightarrow> 'a sched_state_scheme \<Rightarrow> bool" where
  "queried pid t p s \<longleftrightarrow> sched_wf s \<and> sched_gettcb pid s = t \<and> t \<noteq> NULL \<and> sched_priority s t = p \<and> pid \<noteq> 0 \<and>
     lockcount s (hd (g_readytorun s)) < MAX_LOCK_COUNT \<and>
     (tcb_pid s (hd (g_readytorun s)) = pid \<longrightarrow> hd (g_readytorun s) = t)"

lemma sched_getparam_queried:
  assumes "queried pid t p s"
  shows "\<exists>s'. sched_getparam False pid s = Some (Some p, s')"
proof -
  have wf: "sched_wf s" using assms by (simp add: queried_def)
  note run = running_facts [OF wf_inv [OF wf]]
  have h: "lockcount s (hd (g_readytorun s)) < MAX_LOCK_COUNT" "tcb_pid s (hd (g_readytorun s)) = pid \<longrightarrow> hd (g_readytorun s) = t"
    using assms by (auto simp: queried_def)
  show ?thesis
  proof (cases "pid = tcb_pid s (hd (g_readytorun s))")
    case True
    then show ?thesis using h(2) assms run(1) by (auto simp: sched_getparam_def queried_def Let_def)
  next
    case False
    obtain s1 where s1: "sched_lock False s = Some s1" "sched_wf s1" "sched_priority s1 = sched_priority s"
      "pidhash_tcb s1 = pidhash_tcb s" "pidhash_pid s1 = pidhash_pid s" using sched_lock_wf [OF wf h(1)] by blast
    obtain s2 where "sched_unlock False s1 = Some s2" using sched_unlock_wf [OF s1(2)] by blast
    moreover have "sched_gettcb pid s1 = sched_gettcb pid s" by (simp add: sched_gettcb_def s1 Let_def)
    ultimately show ?thesis using False assms run(1) s1(1,3) by (simp add: sched_getparam_def queried_def Let_def)
  qed
qed

text \<open>(C26) A priority set through \<open>sched_setparam\<close> is the one \<open>sched_getparam\<close> reports, for every task but the
  idle task and whether or not the change switches tasks.\<close>

theorem sched_setparam_getparam:
  assumes "sched_wf s" "pids_ok s" "user_task t s" "tcb_pid s t = pid" "pid \<noteq> 0" "valid_priority p"
    "\<forall>u. lockcount s u < MAX_LOCK_COUNT"
  shows "\<exists>r s' s''. sched_setparam False pid (Some (int p)) s = Some (r, s') \<and> r \<noteq> Done False \<and>
    sched_getparam False pid s' = Some (Some p, s'')"
proof -
  let ?r = "hd (g_readytorun s)"
  note inv = wf_inv [OF assms(1)] and run = running_facts [OF wf_inv [OF assms(1)]]
  obtain l where t: "t \<in> set (tlist s l)" "t \<noteq> idle_tcb s" using assms(3) by (auto simp: user_task_def)
  have tn: "t \<noteq> NULL" by (rule member_facts(1) [OF inv t])
  have tcb: "sched_gettcb pid s = t" using assms(2,4) t(1) by (auto simp: pids_ok_def)
  have uniq: "u = t" if "u \<in> set (tlist s l')" "tcb_pid s u = pid" for u l' using assms(2) tcb that unfolding pids_ok_def by metis
  define s1 where "s1 = s\<lparr>lockcount := (lockcount s)(?r := lockcount s ?r + 1)\<rparr>"
  have s1: "sched_lock False s = Some s1" "sched_wf s1"
    using sched_lock_spec [OF assms(1)] assms(7) unfolding s1_def by simp_all
  have l1: "tlist s1 = tlist s" "tcb_pid s1 = tcb_pid s" "sched_priority s1 = sched_priority s" "idle_tcb s1 = idle_tcb s"
    "pidhash_tcb s1 = pidhash_tcb s" "pidhash_pid s1 = pidhash_pid s" by (simp_all add: s1_def)
  have t1: "t \<in> set (tlist s1 l)" "t \<noteq> idle_tcb s1" using t l1 by simp_all
  have g1: "sched_gettcb pid s' = t" if "pidhash_tcb s' = pidhash_tcb s" "pidhash_pid s' = pidhash_pid s" for s' :: "'a sched_state_scheme"
    using tcb unfolding sched_gettcb_def that .
  have tgt: "(if pid = 0 \<or> pid = tcb_pid s1 (head_of (g_readytorun s1)) then head_of (g_readytorun s1) else sched_gettcb pid s1) = t"
    using uniq [of ?r Readytorun] run assms(5) g1 [of s1] l1 by auto
  obtain s2 where s2: "sched_setpriority t (int p) s1 = Some (True, s2)" "sched_wf s2" "reprioritized t p s1 s2"
    using sched_setpriority_spec [OF wf_inv [OF s1(2)] t1 assms(6)] s1(2) unfolding reprioritized_def by metis
  note f2 = reprioritized_fields [OF s2(3)] and run2 = running_facts [OF wf_inv [OF s2(2)]]
  have runnable: "u = t" if "u \<in> set (g_readytorun s2) \<union> set (g_pendingtasks s2)" "tcb_pid s u = pid" for u
    using that f2(7) l1(1) uniq [of u Readytorun] uniq [of u Pendingtasks] by auto
  show ?thesis
  proof (cases "hd (g_readytorun s2) = ?r")
    case False
    have "sched_setparam False pid (Some (int p)) s = Some (Switched, s2)"
      using s1(1) tgt tn s2(1) False run(1) run2(1) l1(1) by (simp add: sched_setparam_def sched_reprioritize_def Let_def)
    moreover have "queried pid t p s2"
      using s2(2) tn assms(5,7) f2(1-6) l1 g1 [of s2] False runnable [of "hd (g_readytorun s2)"] run2(3)
      by (simp add: queried_def s1_def)
    ultimately show ?thesis using sched_getparam_queried by blast
  next
    case True
    define s3 where "s3 = sched_reprioritize_resume t (int p) s2"
    have wf3: "sched_wf s3" using s2(2) by (simp add: s3_def sched_reprioritize_resume_def)
    obtain s4 where s4: "sched_unlock False s3 = Some s4" using sched_unlock_wf [OF wf3] by blast
    note r4 = runnable_after_unlock [OF wf3 s4]
    have call: "sched_setparam False pid (Some (int p)) s = Some (Done True, s4)"
      using s1(1) tgt tn s2(1) True run(1) run2(1) l1(1) s4
      by (simp add: sched_setparam_def sched_reprioritize_def s3_def Let_def)
    have f3: "tlist s3 = tlist s2" "lockcount s3 = lockcount s2" "tcb_pid s3 = tcb_pid s2" "sched_priority s3 = sched_priority s2"
      "pidhash_tcb s3 = pidhash_tcb s2" "pidhash_pid s3 = pidhash_pid s2" by (simp_all add: s3_def sched_reprioritize_resume_def)
    have "hd (g_readytorun s4) \<in> set (g_readytorun s2) \<union> set (g_pendingtasks s2)"
      using r4(1) running_facts(3) [OF wf_inv [OF r4(2)]] f3(1) by auto
    then have "queried pid t p s4"
      using r4 tn assms(5,7) f2(1-6) f3 l1 g1 [of s4] True runnable [of "hd (g_readytorun s4)"]
      by (simp add: queried_def s1_def)
    then show ?thesis using call sched_getparam_queried by blast
  qed
qed

theorem sched_setparam_getparam_witness:
  "\<exists>r s' s''. sched_setparam False 2 (Some 200) sched_demo = Some (r, s') \<and> r \<noteq> Done False \<and>
     sched_getparam False 2 s' = Some (Some 200, s'')"
proof -
  have "pids_ok sched_demo"
    by (simp add: pids_ok_def all_tasklist sched_demo_def sched_gettcb_def CONFIG_MAX_TASKS_def Let_def)
  moreover have "user_task 2 sched_demo" by (auto simp: user_task_def sched_demo_def intro: exI [of _ Readytorun])
  ultimately have "\<exists>r s' s''. sched_setparam False 2 (Some (int 200)) sched_demo = Some (r, s') \<and> r \<noteq> Done False \<and>
     sched_getparam False 2 s' = Some (Some 200, s'')"
    by (rule sched_setparam_getparam [OF sched_demo_wf])
      (simp_all add: sched_demo_def valid_priority_def sched_consts MAX_LOCK_COUNT_def)
  then show ?thesis by simp
qed

text \<open>(C38) \<open>sched_setparam\<close> takes the preemption lock to keep the head of the ready-to-run list as it is, but
  a task that lowers its own priority below the next one loses the processor while it holds the lock.\<close>

theorem sched_setparam_switches:
  assumes "sched_wf s" "g_readytorun s = t # u # rest" "valid_priority p" "p < sched_priority s u" "lockcount s t = 0"
  shows "\<exists>s'. sched_setparam False 0 (Some (int p)) s = Some (Switched, s') \<and> hd (g_readytorun s') = u \<and>
    task_state s' u = TSTATE_TASK_RUNNING \<and> lockcount s' t = 1"
proof -
  note inv = wf_inv [OF assms(1)]
  define s1 where "s1 = s\<lparr>lockcount := (lockcount s)(t := 1)\<rparr>"
  have s1: "sched_lock False s = Some s1" "sched_wf s1"
    using sched_lock_spec [OF assms(1)] assms(2,5) unfolding s1_def by (simp_all add: MAX_LOCK_COUNT_def)
  have l1: "g_readytorun s1 = t # u # rest" "g_pendingtasks s1 = []" "p \<le> sched_priority s1 u"
    using assms by (auto simp: s1_def sched_wf_def)
  obtain s2 where s2: "up_reprioritize_rtr t p s1 = Some (True, s2)" "sched_inv s2" "relisted (set_priority t p s1) s2"
      "g_readytorun s2 = walk_insert (\<lambda>v. p \<le> sched_priority s1 v) t (u # rest)" "t \<noteq> idle_tcb s1"
    using up_reprioritize_rtr_self [OF wf_inv [OF s1(2)] l1(1,2) assms(3) l1(3)] by blast
  have hd: "hd (g_readytorun s2) = u" using s2(4) l1(3) by simp
  note run1 = running_facts [OF wf_inv [OF s1(2)]] and run2 = running_facts [OF s2(2)]
  have t: "t \<noteq> NULL" "t \<noteq> u" "task_state s1 t = TSTATE_TASK_RUNNING"
    using run1 l1(1) inv_distinct [OF inv, of Readytorun] assms(2) by auto
  have rng: "\<not> (int p < int SCHED_PRIORITY_MIN \<or> int p > int SCHED_PRIORITY_MAX)" using assms(3) by (simp add: valid_priority_def)
  have "sched_setpriority t (int p) s1 = Some (True, s2)"
    using rng t(3) l1 s2(1) by (simp add: sched_setpriority_def debugassert_def Let_def)
  then have "sched_setparam False 0 (Some (int p)) s = Some (Switched, s2)"
    using s1(1) l1(1) t(1,2) hd run2(1) by (simp add: sched_setparam_def sched_reprioritize_def Let_def)
  moreover have "lockcount s2 t = 1" using relisted_fields(6) [OF s2(3)] by (simp add: s1_def)
  ultimately show ?thesis using hd run2(4) by auto
qed

theorem sched_setparam_switches_witness:
  "\<exists>s'. sched_setparam False 0 (Some 50) sched_demo = Some (Switched, s') \<and> hd (g_readytorun s') = 2 \<and> lockcount s' 1 = 1"
proof -
  have "\<exists>s'. sched_setparam False 0 (Some (int 50)) sched_demo = Some (Switched, s') \<and> hd (g_readytorun s') = 2 \<and>
      task_state s' 2 = TSTATE_TASK_RUNNING \<and> lockcount s' 1 = 1"
    by (rule sched_setparam_switches [OF sched_demo_wf]) (simp_all add: sched_demo_def valid_priority_def sched_consts)
  then show ?thesis by auto
qed

end
