(* ===== verification/Sem.thy ===== *)
theory Sem
  imports Sched_Ops
begin

unbundle bit_operations_syntax

text \<open>
  The semaphores of \<open>os/kernel/semaphore\<close> with priority inheritance and the holder lists of
  \<open>sem_holder.c\<close>. The state extends that of the scheduler. A semaphore is an address with a count and a
  list of holder containers, most recent first; free containers are on \<open>g_freeholders\<close>. An operation returns
  \<open>None\<close> when an assertion fails or an array is written out of bounds.
\<close>

section \<open>State\<close>

definition SEM_VALUE_MAX :: int where "SEM_VALUE_MAX = 0x7fff"
definition CONFIG_SEM_PREALLOCHOLDERS :: nat where "CONFIG_SEM_PREALLOCHOLDERS = 16"
definition CONFIG_SEM_NNESTPRIO :: nat where "CONFIG_SEM_NNESTPRIO = 16"
definition EINTR :: int where "EINTR = 4"
definition EAGAIN :: int where "EAGAIN = 11"
definition EINVAL :: int where "EINVAL = 22"
definition ETIMEDOUT :: int where "ETIMEDOUT = 110"

definition s16 :: "int \<Rightarrow> int" where
  "s16 x = (x + 2 ^ 15) mod 2 ^ 16 - 2 ^ 15"

text \<open>Counts have 16 bits. A post asserts that the count of the semaphore is below \<open>SEM_VALUE_MAX\<close>, and at most
  \<open>CONFIG_MAX_TASKS\<close> tasks wait, so it does not wrap; the count of a holder can.\<close>

record sem_state = sched_state +
  semcount :: "addr \<Rightarrow> int"
  hlist :: "addr \<Rightarrow> addr list"
  htcb :: "addr \<Rightarrow> addr"
  hcounts :: "addr \<Rightarrow> int"
  g_freeholders :: "addr list"
  waitsem :: "addr \<Rightarrow> addr"
  pterrno :: "addr \<Rightarrow> int"

abbreviation set_semcount :: "addr \<Rightarrow> int \<Rightarrow> 'a sem_state_scheme \<Rightarrow> 'a sem_state_scheme" where
  "set_semcount sem c s \<equiv> s\<lparr>semcount := (semcount s)(sem := c)\<rparr>"

abbreviation set_waitsem :: "addr \<Rightarrow> addr \<Rightarrow> 'a sem_state_scheme \<Rightarrow> 'a sem_state_scheme" where
  "set_waitsem t sem s \<equiv> s\<lparr>waitsem := (waitsem s)(t := sem)\<rparr>"

abbreviation set_errno :: "addr \<Rightarrow> int \<Rightarrow> 'a sem_state_scheme \<Rightarrow> 'a sem_state_scheme" where
  "set_errno t e s \<equiv> s\<lparr>pterrno := (pterrno s)(t := e)\<rparr>"

section \<open>Holders (sem_holder.c)\<close>

definition sem_initholders :: "addr \<Rightarrow> 'a sem_state_scheme \<Rightarrow> 'a sem_state_scheme" where
  "sem_initholders g_holderalloc s = s\<lparr>g_freeholders := map (\<lambda>i. g_holderalloc + 12 * i) [0 ..< CONFIG_SEM_PREALLOCHOLDERS]\<rparr>"

definition sem_allocholder :: "addr \<Rightarrow> 'a sem_state_scheme \<Rightarrow> addr \<times> 'a sem_state_scheme" where
  "sem_allocholder sem s =
     (case g_freeholders s of
        pholder # rest \<Rightarrow>
          (let s = s\<lparr>g_freeholders := rest\<rparr>;
               s = s\<lparr>hlist := (hlist s)(sem := pholder # hlist s sem)\<rparr>
           in (pholder, s\<lparr>hcounts := (hcounts s)(pholder := 0)\<rparr>))
      | [] \<Rightarrow> (NULL, s))"

definition sem_findholder :: "addr \<Rightarrow> addr \<Rightarrow> 'a sem_state_scheme \<Rightarrow> addr" where
  "sem_findholder sem t s = (case find (\<lambda>pholder. htcb s pholder = t) (hlist s sem) of None \<Rightarrow> NULL | Some pholder \<Rightarrow> pholder)"

definition sem_findorallocateholder :: "addr \<Rightarrow> addr \<Rightarrow> 'a sem_state_scheme \<Rightarrow> addr \<times> 'a sem_state_scheme" where
  "sem_findorallocateholder sem t s =
     (let pholder = sem_findholder sem t s in if pholder = NULL then sem_allocholder sem s else (pholder, s))"

definition sem_freeholder :: "addr \<Rightarrow> addr \<Rightarrow> 'a sem_state_scheme \<Rightarrow> 'a sem_state_scheme" where
  "sem_freeholder sem pholder s =
     (let s = s\<lparr>htcb := (htcb s)(pholder := NULL)\<rparr>;
          s = s\<lparr>hcounts := (hcounts s)(pholder := 0)\<rparr>
      in if pholder \<in> set (hlist s sem)
         then s\<lparr>hlist := (hlist s)(sem := remove1 pholder (hlist s sem)), g_freeholders := pholder # g_freeholders s\<rparr>
         else s)"

text \<open>What a handler of \<open>sem_foreachholder\<close> does: it returns, or a context switch suspends it. In the second
  case the argument says whether the switch was inside \<open>sched_reprioritize\<close>.\<close>

datatype handled = Ret int | Suspended bool

text \<open>The loop reads the next holder before it calls the handler, so it follows the list as it was.\<close>

fun sem_foreach_loop :: "(addr \<Rightarrow> 'a sem_state_scheme \<Rightarrow> (handled \<times> 'a sem_state_scheme) option) \<Rightarrow> addr list \<Rightarrow>
    'a sem_state_scheme \<Rightarrow> (handled \<times> 'a sem_state_scheme) option" where
  "sem_foreach_loop handler [] s = Some (Ret 0, s)"
| "sem_foreach_loop handler (pholder # nxt) s =
     (if htcb s pholder \<noteq> NULL then do {
        (ret, s) \<leftarrow> handler pholder s;
        if ret = Ret 0 then sem_foreach_loop handler nxt s else Some (ret, s)
      } else sem_foreach_loop handler nxt s)"

definition sem_foreachholder :: "addr \<Rightarrow> (addr \<Rightarrow> 'a sem_state_scheme \<Rightarrow> (handled \<times> 'a sem_state_scheme) option) \<Rightarrow>
    'a sem_state_scheme \<Rightarrow> (handled \<times> 'a sem_state_scheme) option" where
  "sem_foreachholder sem handler s = sem_foreach_loop handler (hlist s sem) s"

definition sem_recoverholders :: "addr \<Rightarrow> addr \<Rightarrow> 'a sem_state_scheme \<Rightarrow> (handled \<times> 'a sem_state_scheme) option" where
  "sem_recoverholders sem pholder s = Some (Ret 0, sem_freeholder sem pholder s)"

definition sem_destroyholder :: "addr \<Rightarrow> 'a sem_state_scheme \<Rightarrow> 'a sem_state_scheme option" where
  "sem_destroyholder sem s =
     (if hlist s sem \<noteq> [] then map_option snd (sem_foreachholder sem (sem_recoverholders sem) s) else Some s)"

definition sem_addholder_tcb :: "addr \<Rightarrow> addr \<Rightarrow> 'a sem_state_scheme \<Rightarrow> 'a sem_state_scheme" where
  "sem_addholder_tcb t sem s =
     (let (pholder, s) = sem_findorallocateholder sem t s
      in if pholder \<noteq> NULL then
           (let s = s\<lparr>htcb := (htcb s)(pholder := t)\<rparr>
            in s\<lparr>hcounts := (hcounts s)(pholder := s16 (hcounts s pholder + 1))\<rparr>)
         else s)"

definition sem_addholder :: "addr \<Rightarrow> 'a sem_state_scheme \<Rightarrow> 'a sem_state_scheme" where
  "sem_addholder sem s = sem_addholder_tcb (head_of (g_readytorun s)) sem s"

definition sem_releaseholder :: "addr \<Rightarrow> 'a sem_state_scheme \<Rightarrow> 'a sem_state_scheme" where
  "sem_releaseholder sem s =
     (let pholder = sem_findholder sem (head_of (g_readytorun s)) s
      in if pholder \<noteq> NULL \<and> hcounts s pholder > 0
         then s\<lparr>hcounts := (hcounts s)(pholder := hcounts s pholder - 1)\<rparr> else s)"

section \<open>Priority inheritance (sem_holder.c)\<close>

text \<open>\<open>pend_reprios\<close> has \<open>CONFIG_SEM_NNESTPRIO\<close> entries; a write beyond them is undefined.\<close>

definition push_reprio :: "addr \<Rightarrow> nat \<Rightarrow> 'a sem_state_scheme \<Rightarrow> 'a sem_state_scheme option" where
  "push_reprio t p s = do {
     debugassert (npend_reprio s t < CONFIG_SEM_NNESTPRIO);
     let s = s\<lparr>pend_reprios := (pend_reprios s)(t := (pend_reprios s t)[npend_reprio s t := p])\<rparr>;
     Some (s\<lparr>npend_reprio := (npend_reprio s)(t := npend_reprio s t + 1)\<rparr>)
   }"

text \<open>Raising the priority of a holder to that of the running task does not switch tasks.\<close>

definition sem_boostholderprio :: "addr \<Rightarrow> addr \<Rightarrow> addr \<Rightarrow> 'a sem_state_scheme \<Rightarrow> (handled \<times> 'a sem_state_scheme) option" where
  "sem_boostholderprio sem rtcb pholder s =
     (let h = htcb s pholder
      in if \<not> sched_verifytcb h s then Some (Ret 0, sem_freeholder sem pholder s)
         else if sched_priority s rtcb > base_priority s h then
           if sched_priority s rtcb > sched_priority s h then do {
             s \<leftarrow> (if sched_priority s h > base_priority s h \<and> npend_reprio s h < CONFIG_SEM_NNESTPRIO
                   then push_reprio h (sched_priority s h) s else Some s);
             (_, s) \<leftarrow> sched_setpriority h (int (sched_priority s rtcb)) s;
             Some (Ret 0, s)
           } else do {
             s \<leftarrow> push_reprio h (sched_priority s rtcb) s;
             Some (Ret 0, s)
           }
         else Some (Ret 0, s))"

definition sem_boostpriority :: "addr \<Rightarrow> 'a sem_state_scheme \<Rightarrow> 'a sem_state_scheme option" where
  "sem_boostpriority sem s = map_option snd (sem_foreachholder sem (sem_boostholderprio sem (head_of (g_readytorun s))) s)"

text \<open>The search for the highest pending priority: \<open>j\<close> is the best index so far, \<open>i\<close> runs up to \<open>n\<close>.\<close>

function max_reprio :: "nat list \<Rightarrow> nat \<Rightarrow> nat \<Rightarrow> nat \<Rightarrow> nat" where
  "max_reprio ps n i j = (if i < n then max_reprio ps n (i + 1) (if ps ! i > ps ! j then i else j) else j)"
  by pat_completeness auto
termination by (relation "measure (\<lambda>(_, n, i, _). n - i)") auto

declare max_reprio.simps [simp del]

text \<open>Remove entry \<open>k\<close> of the pending priorities: the last one takes its place.\<close>

definition drop_reprio :: "addr \<Rightarrow> nat \<Rightarrow> 'a sem_state_scheme \<Rightarrow> 'a sem_state_scheme" where
  "drop_reprio t k s =
     (let l = npend_reprio s t - 1;
          s = (if l > 0 then s\<lparr>pend_reprios := (pend_reprios s)(t := (pend_reprios s t)[k := pend_reprios s t ! l])\<rparr> else s)
      in s\<lparr>npend_reprio := (npend_reprio s)(t := l)\<rparr>)"

definition sem_restoreholderprio :: "bool \<Rightarrow> addr \<Rightarrow> addr \<Rightarrow> addr \<Rightarrow> 'a sem_state_scheme \<Rightarrow> (handled \<times> 'a sem_state_scheme) option" where
  "sem_restoreholderprio in_irq sem stcb pholder s =
     (let h = htcb s pholder
      in if \<not> sched_verifytcb h s then Some (Ret 0, sem_freeholder sem pholder s)
         else if sched_priority s h \<noteq> base_priority s h then
           if npend_reprio s h < 1 then do {
             (r, s) \<leftarrow> sched_reprioritize in_irq h (int (base_priority s h)) s;
             Some (if r = Switched then Suspended True else Ret 0, s)
           }
           else if sched_priority s h \<le> sched_priority s stcb then do {
             let rtcb = head_of (g_readytorun s);
             let j = max_reprio (pend_reprios s h) (npend_reprio s h) 1 0;
             let rpriority = pend_reprios s h ! j;
             let s = drop_reprio h j s;
             (_, s) \<leftarrow> sched_setpriority h (int rpriority) s;
             Some (if \<not> in_irq \<and> head_of (g_readytorun s) \<noteq> rtcb then Suspended False else Ret 0, s)
           }
           else (case find (\<lambda>i. pend_reprios s h ! i = sched_priority s stcb) [0 ..< npend_reprio s h] of
               Some i \<Rightarrow> Some (Ret 0, drop_reprio h i s)
             | None \<Rightarrow> Some (Ret 0, s))
         else Some (Ret 0, s))"

text \<open>The first pass skips the running task. The holders it meets do not run, and the preemption lock keeps
  the head of the ready-to-run list, so it does not switch tasks.\<close>

definition sem_restoreholderprioA :: "addr \<Rightarrow> addr \<Rightarrow> addr \<Rightarrow> 'a sem_state_scheme \<Rightarrow> (handled \<times> 'a sem_state_scheme) option" where
  "sem_restoreholderprioA sem stcb pholder s =
     (if htcb s pholder \<noteq> head_of (g_readytorun s) then sem_restoreholderprio True sem stcb pholder s else Some (Ret 0, s))"

definition sem_restoreholderprioB :: "addr \<Rightarrow> addr \<Rightarrow> addr \<Rightarrow> 'a sem_state_scheme \<Rightarrow> (handled \<times> 'a sem_state_scheme) option" where
  "sem_restoreholderprioB sem stcb pholder s =
     (if htcb s pholder = head_of (g_readytorun s) then do {
        (r, s) \<leftarrow> sem_restoreholderprio False sem stcb pholder s;
        Some (case r of Ret _ \<Rightarrow> Ret 1 | Suspended b \<Rightarrow> Suspended b, s)
      } else Some (Ret 0, s))"

definition sem_restorebaseprio_irq :: "addr \<Rightarrow> addr \<Rightarrow> 'a sem_state_scheme \<Rightarrow> 'a sem_state_scheme option" where
  "sem_restorebaseprio_irq stcb sem s =
     (if stcb \<noteq> NULL then map_option snd (sem_foreachholder sem (sem_restoreholderprio True sem stcb) s) else Some s)"

text \<open>Without a woken task \<open>sem_verifyholder\<close> visits the holders; its body is disabled.

  The end of \<open>sem_restorebaseprio_task\<close>, which a suspended call runs later.\<close>

definition sem_drop_holder :: "addr \<Rightarrow> addr \<Rightarrow> 'a sem_state_scheme \<Rightarrow> 'a sem_state_scheme" where
  "sem_drop_holder rtcb sem s =
     (let pholder = sem_findholder sem rtcb s
      in if pholder \<noteq> NULL \<and> hcounts s pholder \<le> 0 then sem_freeholder sem pholder s else s)"

definition sem_restorebaseprio_task :: "addr \<Rightarrow> addr \<Rightarrow> 'a sem_state_scheme \<Rightarrow> (handled \<times> 'a sem_state_scheme) option" where
  "sem_restorebaseprio_task stcb sem s = do {
     let rtcb = head_of (g_readytorun s);
     (r, s) \<leftarrow> (if stcb \<noteq> NULL then do {
         (_, s) \<leftarrow> sem_foreachholder sem (sem_restoreholderprioA sem stcb) s;
         sem_foreachholder sem (sem_restoreholderprioB sem stcb) s
       } else Some (Ret 0, s));
     case r of
       Suspended b \<Rightarrow> Some (Suspended b, s)
     | Ret _ \<Rightarrow> Some (Ret 0, sem_drop_holder rtcb sem s)
   }"

definition sem_restorebaseprio :: "bool \<Rightarrow> addr \<Rightarrow> addr \<Rightarrow> 'a sem_state_scheme \<Rightarrow> (handled \<times> 'a sem_state_scheme) option" where
  "sem_restorebaseprio in_irq stcb sem s = do {
     debugassert (semcount s sem > 0 \<and> stcb = NULL \<or> semcount s sem \<le> 0 \<and> stcb \<noteq> NULL);
     if in_irq then do {
       s \<leftarrow> sem_restorebaseprio_irq stcb sem s;
       Some (Ret 0, s)
     } else sem_restorebaseprio_task stcb sem s
   }"

text \<open>\<open>sem_canceled\<close> in an interrupt handler, where the watchdog of a timed wait calls it: restoring a holder
  switches no task. In a task (a signal for a waiting task, or the deletion of one) the switch can come in the
  middle of the loop, when the running task is itself a holder; that execution is not modelled.\<close>

definition sem_canceled :: "addr \<Rightarrow> addr \<Rightarrow> 'a sem_state_scheme \<Rightarrow> 'a sem_state_scheme option" where
  "sem_canceled stcb sem s = do {
     debugassert (semcount s sem \<le> 0);
     map_option snd (sem_foreachholder sem (sem_restoreholderprio True sem stcb) s)
   }"

section \<open>Semaphores\<close>

definition sem_init :: "addr \<Rightarrow> nat \<Rightarrow> 'a sem_state_scheme \<Rightarrow> bool \<times> 'a sem_state_scheme" where
  "sem_init sem v s =
     (if sem \<noteq> NULL \<and> int v \<le> SEM_VALUE_MAX
      then (True, s\<lparr>semcount := (semcount s)(sem := int v), hlist := (hlist s)(sem := [])\<rparr>)
      else (False, set_errno (head_of (g_readytorun s)) EINVAL s))"

definition sem_getvalue :: "addr \<Rightarrow> 'a sem_state_scheme \<Rightarrow> int option" where
  "sem_getvalue sem s = (if sem \<noteq> NULL then Some (semcount s sem) else None)"

definition sem_destroy :: "addr \<Rightarrow> 'a sem_state_scheme \<Rightarrow> (bool \<times> 'a sem_state_scheme) option" where
  "sem_destroy sem s =
     (if sem \<noteq> NULL then do {
        let s = (if semcount s sem \<ge> 0 then set_semcount sem 1 s else s);
        s \<leftarrow> sem_destroyholder sem s;
        Some (True, s)
      } else Some (False, set_errno (head_of (g_readytorun s)) EINVAL s))"

definition sem_trywait :: "addr \<Rightarrow> 'a sem_state_scheme \<Rightarrow> bool \<times> 'a sem_state_scheme" where
  "sem_trywait sem s =
     (let rtcb = head_of (g_readytorun s);
          s = set_errno rtcb EINVAL s
      in if sem \<noteq> NULL then
           (let s = set_errno rtcb EAGAIN s
            in if semcount s sem > 0 then
                 (let s = set_semcount sem (semcount s sem - 1) s;
                      s = sem_addholder sem s
                  in (True, set_waitsem rtcb NULL s))
               else (False, s))
         else (False, s))"

text \<open>A call that blocks is \<open>Switched\<close>; the task runs \<open>sem_wait_resume\<close> when it runs again.\<close>

definition sem_wait :: "addr \<Rightarrow> 'a sem_state_scheme \<Rightarrow> (bool progress \<times> 'a sem_state_scheme) option" where
  "sem_wait sem s = do {
     let rtcb = head_of (g_readytorun s);
     let s = set_errno rtcb EINVAL s;
     if sem \<noteq> NULL then
       if semcount s sem > 0 then do {
         let s = set_semcount sem (semcount s sem - 1) s;
         let s = sem_addholder sem s;
         Some (Done True, set_waitsem rtcb NULL s)
       } else do {
         debugassert (waitsem s rtcb = NULL);
         let s = set_semcount sem (semcount s sem - 1) s;
         let s = set_waitsem rtcb sem s;
         s \<leftarrow> sched_lock False s;
         s \<leftarrow> sem_boostpriority sem s;
         let s = set_errno rtcb 0 s;
         (_, s) \<leftarrow> up_block_task rtcb TSTATE_WAIT_SEM s;
         Some (Switched, s)
       }
     else Some (Done False, s)
   }"

definition sem_wait_resume :: "'a sem_state_scheme \<Rightarrow> (bool \<times> 'a sem_state_scheme) option" where
  "sem_wait_resume s = do {
     let errno = pterrno s (head_of (g_readytorun s));
     s \<leftarrow> sched_unlock False s;
     Some (errno \<noteq> EINTR \<and> errno \<noteq> ETIMEDOUT, s)
   }"

definition sem_wait_for_isr :: "addr \<Rightarrow> 'a sem_state_scheme \<Rightarrow> (bool progress \<times> 'a sem_state_scheme) option" where
  "sem_wait_for_isr sem s = do {
     let rtcb = head_of (g_readytorun s);
     let s = set_errno rtcb EINVAL s;
     if sem \<noteq> NULL then
       if semcount s sem > 0 then do {
         let s = set_semcount sem (semcount s sem - 1) s;
         Some (Done True, set_waitsem rtcb NULL s)
       } else do {
         debugassert (waitsem s rtcb = NULL);
         let s = set_semcount sem (semcount s sem - 1) s;
         let s = set_waitsem rtcb sem s;
         let s = set_errno rtcb 0 s;
         (_, s) \<leftarrow> up_block_task rtcb TSTATE_WAIT_SEM s;
         Some (Switched, s)
       }
     else Some (Done False, s)
   }"

text \<open>The first task in the waiting list that waits for the semaphore, NULL if there is none.\<close>

definition first_waiter :: "addr \<Rightarrow> 'a sem_state_scheme \<Rightarrow> addr" where
  "first_waiter sem s = head_of (filter (\<lambda>t. waitsem s t = sem) (tlist s Waitingforsemaphore))"

definition sem_post :: "bool \<Rightarrow> addr \<Rightarrow> 'a sem_state_scheme \<Rightarrow> (handled \<times> 'a sem_state_scheme) option" where
  "sem_post in_irq sem s =
     (if sem \<noteq> NULL then do {
        debugassert (semcount s sem < SEM_VALUE_MAX);
        let s = sem_releaseholder sem s;
        let s = set_semcount sem (semcount s sem + 1) s;
        s \<leftarrow> sched_lock in_irq s;
        let stcb = (if semcount s sem \<le> 0 then first_waiter sem s else NULL);
        s \<leftarrow> (if stcb \<noteq> NULL then do {
            let s = sem_addholder_tcb stcb sem s;
            let s = set_waitsem stcb NULL s;
            map_option snd (up_unblock_task stcb s)
          } else Some s);
        (r, s) \<leftarrow> sem_restorebaseprio in_irq stcb sem s;
        case r of
          Suspended b \<Rightarrow> Some (Suspended b, s)
        | Ret _ \<Rightarrow> do {
            s \<leftarrow> sched_unlock in_irq s;
            Some (Ret 0, s)
          }
      } else Some (Ret (-1), s))"

text \<open>The rest of a \<open>sem_post\<close> that was suspended in \<open>sem_restoreholderprioB\<close>; \<open>reprio\<close> is the priority when the
  switch was inside \<open>sched_reprioritize\<close>.\<close>

definition sem_post_resume :: "nat option \<Rightarrow> addr \<Rightarrow> 'a sem_state_scheme \<Rightarrow> 'a sem_state_scheme option" where
  "sem_post_resume reprio sem s =
     (let rtcb = head_of (g_readytorun s);
          s = (case reprio of Some p \<Rightarrow> sched_reprioritize_resume rtcb (int p) s | None \<Rightarrow> s);
          s = sem_drop_holder rtcb sem s
      in sched_unlock False s)"

definition sem_post_from_isr :: "addr \<Rightarrow> 'a sem_state_scheme \<Rightarrow> (bool \<times> 'a sem_state_scheme) option" where
  "sem_post_from_isr sem s =
     (if sem \<noteq> NULL then do {
        debugassert (semcount s sem < SEM_VALUE_MAX);
        let s = set_semcount sem (semcount s sem + 1) s;
        let stcb = (if semcount s sem \<le> 0 then first_waiter sem s else NULL);
        s \<leftarrow> (if stcb \<noteq> NULL then do {
            let s = set_waitsem stcb NULL s;
            map_option snd (up_unblock_task stcb s)
          } else Some s);
        Some (True, s)
      } else Some (False, s))"

definition sem_waitirq :: "addr \<Rightarrow> int \<Rightarrow> 'a sem_state_scheme \<Rightarrow> 'a sem_state_scheme option" where
  "sem_waitirq wtcb errcode s =
     (if task_state s wtcb = TSTATE_WAIT_SEM then do {
        let sem = waitsem s wtcb;
        debugassert (sem \<noteq> NULL \<and> semcount s sem < 0);
        s \<leftarrow> sem_canceled wtcb sem s;
        let s = set_semcount sem (semcount s sem + 1) s;
        let s = set_waitsem wtcb NULL s;
        let s = set_errno wtcb errcode s;
        map_option snd (up_unblock_task wtcb s)
      } else Some s)"

definition sem_recover :: "addr \<Rightarrow> 'a sem_state_scheme \<Rightarrow> 'a sem_state_scheme option" where
  "sem_recover t s =
     (if task_state s t = TSTATE_WAIT_SEM then do {
        let sem = waitsem s t;
        debugassert (sem \<noteq> NULL \<and> semcount s sem < 0);
        s \<leftarrow> sem_canceled t sem s;
        let s = set_semcount sem (semcount s sem + 1) s;
        Some (set_waitsem t NULL s)
      } else Some s)"

definition sem_timeout :: "int \<Rightarrow> 'a sem_state_scheme \<Rightarrow> 'a sem_state_scheme option" where
  "sem_timeout pid s =
     (let wtcb = sched_gettcb pid s
      in if wtcb \<noteq> NULL \<and> task_state s wtcb = TSTATE_WAIT_SEM then sem_waitirq wtcb ETIMEDOUT s else Some s)"

end
