(* ===== verification/Sem_Inv.thy ===== *)
theory Sem_Inv
  imports Sem
begin

unbundle bit_operations_syntax

text \<open>
  The invariant of the semaphores, the holder containers, and what boosting the holders does: the task that
  waits blocks, and every live holder runs at least at its priority.
\<close>

section \<open>Invariant\<close>

definition listed :: "'a sched_state_scheme \<Rightarrow> addr set" where
  "listed s = {t. \<exists>l. t \<in> set (tlist s l)}"

text \<open>A task waits for a semaphore exactly while it is in the waiting list, and a negative count is the number
  of tasks that wait.\<close>

definition waiting_ok :: "'a sem_state_scheme \<Rightarrow> bool" where
  "waiting_ok s \<longleftrightarrow> (\<forall>t. waitsem s t \<noteq> NULL \<longleftrightarrow> t \<in> set (tlist s Waitingforsemaphore)) \<and>
     (\<forall>sem. sem \<noteq> NULL \<longrightarrow> card {t. waitsem s t = sem} = nat (- semcount s sem)) \<and>
     (\<forall>sem. semcount s sem \<le> SEM_VALUE_MAX)"

text \<open>A task has its base priority or is boosted, and the priorities it may be set back to are valid.\<close>

definition prios_ok :: "'a sem_state_scheme \<Rightarrow> bool" where
  "prios_ok s \<longleftrightarrow> (\<forall>t \<in> listed s. t \<noteq> idle_tcb s \<longrightarrow> valid_priority (base_priority s t) \<and>
     npend_reprio s t \<le> CONFIG_SEM_NNESTPRIO \<and> length (pend_reprios s t) = CONFIG_SEM_NNESTPRIO \<and>
     (\<forall>i < npend_reprio s t. base_priority s t \<le> pend_reprios s t ! i \<and> pend_reprios s t ! i \<le> SCHED_PRIORITY_MAX) \<and>
     base_priority s t \<le> sched_priority s t)"

text \<open>Every holder container is in one list; a holder that is still alive is a task of the scheduler.\<close>

definition holders_ok :: "'a sem_state_scheme \<Rightarrow> bool" where
  "holders_ok s \<longleftrightarrow> distinct (g_freeholders s) \<and> NULL \<notin> set (g_freeholders s) \<and>
     (\<forall>sem. distinct (hlist s sem) \<and> inj_on (htcb s) (set (hlist s sem)) \<and> NULL \<notin> set (hlist s sem) \<and> set (hlist s sem) \<inter> set (g_freeholders s) = {} \<and>
       (\<forall>sem'. sem' \<noteq> sem \<longrightarrow> set (hlist s sem) \<inter> set (hlist s sem') = {}) \<and>
       (\<forall>p \<in> set (hlist s sem). htcb s p \<noteq> NULL \<and> (sched_verifytcb (htcb s p) s \<longrightarrow> htcb s p \<in> listed s \<and> htcb s p \<noteq> idle_tcb s)))"

definition sem_inv :: "'a sem_state_scheme \<Rightarrow> bool" where
  "sem_inv s \<longleftrightarrow> sched_wf s \<and> waiting_ok s \<and> prios_ok s \<and> holders_ok s"

text \<open>What the priority changes keep: everything but priorities, pending priorities and the order of the lists.\<close>

definition sem_frame :: "'a sem_state_scheme \<Rightarrow> 'a sem_state_scheme \<Rightarrow> bool" where
  "sem_frame s s' \<longleftrightarrow> semcount s' = semcount s \<and> waitsem s' = waitsem s \<and> pterrno s' = pterrno s \<and>
     lockcount s' = lockcount s \<and> base_priority s' = base_priority s \<and> idle_tcb s' = idle_tcb s \<and>
     tcb_pid s' = tcb_pid s \<and> pidhash_tcb s' = pidhash_tcb s \<and> pidhash_pid s' = pidhash_pid s \<and> listed s' = listed s \<and>
     set (tlist s' Waitingforsemaphore) = set (tlist s Waitingforsemaphore) \<and>
     set (g_readytorun s') \<union> set (g_pendingtasks s') = set (g_readytorun s) \<union> set (g_pendingtasks s)"

definition holder_frame :: "'a sem_state_scheme \<Rightarrow> 'a sem_state_scheme \<Rightarrow> bool" where
  "holder_frame s s' \<longleftrightarrow> hlist s' = hlist s \<and> htcb s' = htcb s \<and> hcounts s' = hcounts s \<and> g_freeholders s' = g_freeholders s"

definition reprio_frame :: "'a sem_state_scheme \<Rightarrow> 'a sem_state_scheme \<Rightarrow> bool" where
  "reprio_frame s s' \<longleftrightarrow> npend_reprio s' = npend_reprio s \<and> pend_reprios s' = pend_reprios s"

lemma sem_frame_refl [simp]: "sem_frame s s" "holder_frame s s" "reprio_frame s s"
  by (simp_all add: sem_frame_def holder_frame_def reprio_frame_def)

lemma sem_frame_trans [trans]: "sem_frame s s' \<Longrightarrow> sem_frame s' s'' \<Longrightarrow> sem_frame s s''"
  by (simp add: sem_frame_def)

lemma relisted_frames:
  assumes "relisted s s'"
  shows "holder_frame s s'" "reprio_frame s s'" "semcount s' = semcount s" "waitsem s' = waitsem s" "pterrno s' = pterrno s"
  using assms by (auto simp: relisted_def holder_frame_def reprio_frame_def)

lemma listed_eq:
  fixes s s' :: "'a sched_state_scheme"
  assumes "set (g_readytorun s') \<union> set (g_pendingtasks s') = set (g_readytorun s) \<union> set (g_pendingtasks s)"
    and "\<And>l. l \<noteq> Readytorun \<Longrightarrow> l \<noteq> Pendingtasks \<Longrightarrow> set (tlist s' l) = set (tlist s l)"
  shows "listed s' = listed s"
proof -
  have eq: "listed u = set (g_readytorun u) \<union> set (g_pendingtasks u) \<union> (\<Union>l \<in> - {Readytorun, Pendingtasks}. set (tlist u l))" for u :: "'a sched_state_scheme"
    by (auto simp: listed_def)
  have "(\<Union>l \<in> - {Readytorun, Pendingtasks}. set (tlist s' l)) = (\<Union>l \<in> - {Readytorun, Pendingtasks}. set (tlist s l))"
    using assms(2) by auto
  then show ?thesis using assms(1) by (simp only: eq)
qed

lemma reprioritized_frames:
  assumes "reprioritized t p s s'"
  shows "sem_frame s s'" "holder_frame s s'" "reprio_frame s s'" "sched_priority s' = (sched_priority s)(t := p)"
proof -
  have r: "relisted (set_priority t p s) s'" using assms by (simp add: reprioritized_def)
  have "listed s' = listed s" using assms by (intro listed_eq) (auto simp: reprioritized_def)
  moreover have "set (tlist s' Waitingforsemaphore) = set (tlist s Waitingforsemaphore)"
    "set (g_readytorun s') \<union> set (g_pendingtasks s') = set (g_readytorun s) \<union> set (g_pendingtasks s)"
    using assms by (simp_all add: reprioritized_def)
  ultimately show "sem_frame s s'" using relisted_fields [OF r] relisted_frames [OF r] by (simp add: sem_frame_def)
  show "holder_frame s s'" "reprio_frame s s'" using relisted_frames [OF r] by (simp_all add: holder_frame_def reprio_frame_def)
  show "sched_priority s' = (sched_priority s)(t := p)" using relisted_fields [OF r] by simp
qed

text \<open>The state \<open>s\<close> differs from \<open>s0\<close> by changes of priorities and holders only, and is consistent.\<close>

definition restoring :: "'a sem_state_scheme \<Rightarrow> 'a sem_state_scheme \<Rightarrow> bool" where
  "restoring s0 s \<longleftrightarrow> sched_wf s \<and> prios_ok s \<and> holders_ok s \<and> sem_frame s0 s"

lemma restoringD:
  assumes "restoring s0 s"
  shows "sched_wf s" "prios_ok s" "holders_ok s" "sem_frame s0 s" "restoring s s"
  using assms by (simp_all add: restoring_def)

lemma verifytcb_frame: "sem_frame s s' \<Longrightarrow> sched_verifytcb t s' = sched_verifytcb t s"
  by (simp add: sem_frame_def sched_verifytcb_def)

lemma holders_ok_frame: "holders_ok s \<Longrightarrow> sem_frame s s' \<Longrightarrow> holder_frame s s' \<Longrightarrow> holders_ok s'"
  by (simp add: holders_ok_def verifytcb_frame) (simp add: sem_frame_def holder_frame_def)

lemma prios_ok_frame:
  "prios_ok s \<Longrightarrow> sem_frame s s' \<Longrightarrow> reprio_frame s s' \<Longrightarrow> (\<And>t. base_priority s t \<le> sched_priority s t \<Longrightarrow> base_priority s t \<le> sched_priority s' t) \<Longrightarrow> prios_ok s'"
  by (auto simp: prios_ok_def sem_frame_def reprio_frame_def)

lemma waiting_ok_frame: "waiting_ok s \<Longrightarrow> sem_frame s s' \<Longrightarrow> waiting_ok s'"
  by (simp add: waiting_ok_def sem_frame_def)

lemma listedE: "t \<in> listed s \<Longrightarrow> (\<And>l. t \<in> set (tlist s l) \<Longrightarrow> thesis) \<Longrightarrow> thesis"
  by (auto simp: listed_def)

section \<open>Holder containers\<close>

lemma holders_ok_facts:
  assumes "holders_ok s"
  shows "distinct (g_freeholders s)" "NULL \<notin> set (g_freeholders s)" "distinct (hlist s sem)" "NULL \<notin> set (hlist s sem)"
    "set (hlist s sem) \<inter> set (g_freeholders s) = {}" "sem' \<noteq> sem \<Longrightarrow> set (hlist s sem) \<inter> set (hlist s sem') = {}"
    "p \<in> set (hlist s sem) \<Longrightarrow> htcb s p \<noteq> NULL" "p \<in> set (hlist s sem) \<Longrightarrow> sched_verifytcb (htcb s p) s \<Longrightarrow> htcb s p \<in> listed s"
    "p \<in> set (hlist s sem) \<Longrightarrow> sched_verifytcb (htcb s p) s \<Longrightarrow> htcb s p \<noteq> idle_tcb s" "inj_on (htcb s) (set (hlist s sem))"
  using assms unfolding holders_ok_def by simp_all

lemma sem_freeholder_frame:
  "sem_frame s (sem_freeholder sem p s)" "reprio_frame s (sem_freeholder sem p s)"
  "sched_priority (sem_freeholder sem p s) = sched_priority s" "tlist (sem_freeholder sem p s) = tlist s"
  "sched_wf (sem_freeholder sem p s) = sched_wf s"
  by (auto simp: sem_freeholder_def sem_frame_def reprio_frame_def listed_def Let_def sched_wf_def sched_inv_def lists_ok_def
    states_ok_def idle_ok_def by_priority_def)

lemma sem_freeholder_ok:
  assumes "holders_ok s" "p \<in> set (hlist s sem)"
  shows "holders_ok (sem_freeholder sem p s)"
    "hlist (sem_freeholder sem p s) = (hlist s)(sem := remove1 p (hlist s sem))" "htcb (sem_freeholder sem p s) = (htcb s)(p := NULL)"
proof -
  let ?s = "sem_freeholder sem p s"
  show hl: "hlist ?s = (hlist s)(sem := remove1 p (hlist s sem))" "htcb ?s = (htcb s)(p := NULL)"
    using assms(2) by (simp_all add: sem_freeholder_def Let_def)
  have fr: "g_freeholders ?s = p # g_freeholders s" using assms(2) by (simp add: sem_freeholder_def Let_def)
  have v: "sched_verifytcb t ?s = sched_verifytcb t s" for t using verifytcb_frame [OF sem_freeholder_frame(1)] .
  have li: "listed ?s = listed s" "idle_tcb ?s = idle_tcb s" using sem_freeholder_frame(1) [of s sem p] by (simp_all add: sem_frame_def)
  note f = holders_ok_facts [OF assms(1)]
  have pn: "p \<notin> set (hlist s sem')" if "sem' \<noteq> sem" for sem' using f(6) [OF that] assms(2) by auto
  have hs: "set (hlist ?s sem') = set (hlist s sem') - {p}" for sem'
    using f(3) pn [of sem'] by (simp add: hl)
  have d: "distinct (hlist ?s sem')" for sem' using f(3) by (simp add: hl)
  have i: "inj_on (htcb ?s) (set (hlist ?s sem'))" for sem' using f(10) [of sem'] unfolding hs hl(2) inj_on_def by simp
  have "p \<notin> set (g_freeholders s)" using f(5) [of sem] assms(2) by auto
  moreover have "p \<noteq> NULL" using f(4) [of sem] assms(2) by metis
  ultimately have "distinct (g_freeholders ?s)" "NULL \<notin> set (g_freeholders ?s)" using f(1,2) by (simp_all add: fr)
  moreover have "set (hlist ?s sem') \<inter> set (g_freeholders ?s) = {}" "NULL \<notin> set (hlist ?s sem')" for sem'
    using f(4,5) [of sem'] by (auto simp: hs fr)
  moreover have "set (hlist ?s a) \<inter> set (hlist ?s b) = {}" if "b \<noteq> a" for a b
    using f(6) [OF that] by (auto simp: hs)
  moreover have "htcb ?s q \<noteq> NULL \<and> (sched_verifytcb (htcb ?s q) ?s \<longrightarrow> htcb ?s q \<in> listed ?s \<and> htcb ?s q \<noteq> idle_tcb ?s)"
    if "q \<in> set (hlist ?s sem')" for q sem'
  proof -
    have "q \<noteq> p" "q \<in> set (hlist s sem')" using that by (auto simp: hs)
    then show ?thesis using f(7-9) [of q sem'] unfolding v li by (simp add: hl(2))
  qed
  ultimately show "holders_ok ?s" using d i unfolding holders_ok_def by simp
qed

lemma sched_wf_cong:
  "tlist s' = tlist s \<Longrightarrow> task_state s' = task_state s \<Longrightarrow> sched_priority s' = sched_priority s \<Longrightarrow> idle_tcb s' = idle_tcb s \<Longrightarrow>
   lockcount s' = lockcount s \<Longrightarrow> sched_wf s' = sched_wf s"
  by (simp add: sched_wf_def sched_inv_def lists_ok_def states_ok_def idle_ok_def by_priority_def)

text \<open>What the operations on holders keep.\<close>

definition task_frame :: "'a sem_state_scheme \<Rightarrow> 'a sem_state_scheme \<Rightarrow> bool" where
  "task_frame s s' \<longleftrightarrow> sem_frame s s' \<and> reprio_frame s s' \<and> tlist s' = tlist s \<and> task_state s' = task_state s \<and>
     sched_priority s' = sched_priority s"

lemma task_frame_wf: "task_frame s s' \<Longrightarrow> sched_wf s' = sched_wf s"
  by (rule sched_wf_cong) (simp_all add: task_frame_def sem_frame_def)

lemma sem_allocholder_ok:
  assumes "holders_ok s" "t \<notin> htcb s ` set (hlist s sem)" "t \<noteq> NULL" "t \<in> listed s" "t \<noteq> idle_tcb s" "g_freeholders s = p # ps"
  shows "holders_ok (s\<lparr>g_freeholders := ps, hlist := (hlist s)(sem := p # hlist s sem), hcounts := hc, htcb := (htcb s)(p := t)\<rparr>)"
proof -
  let ?s = "s\<lparr>g_freeholders := ps, hlist := (hlist s)(sem := p # hlist s sem), hcounts := hc, htcb := (htcb s)(p := t)\<rparr>"
  note f = holders_ok_facts [OF assms(1)]
  have pn: "p \<notin> set (hlist s sem')" for sem' using f(5) [of sem'] assms(6) by auto
  have li: "listed ?s = listed s" by (simp add: listed_def)
  have v: "sched_verifytcb u ?s = sched_verifytcb u s" for u by (simp add: sched_verifytcb_def)
  have p: "p \<noteq> NULL" "p \<notin> set ps" "distinct ps" "NULL \<notin> set ps" using f(1,2) assms(6) by auto
  have "distinct (hlist ?s a) \<and> inj_on (htcb ?s) (set (hlist ?s a)) \<and> NULL \<notin> set (hlist ?s a) \<and> set (hlist ?s a) \<inter> set ps = {}" for a
    using f(3-5,10) [of a] assms(2,6) pn [of a] p by (auto simp: inj_on_def)
  moreover have "set (hlist ?s a) \<inter> set (hlist ?s b) = {}" if "b \<noteq> a" for a b
    using f(6) [OF that] pn [of a] pn [of b] that by auto
  moreover have "htcb ?s q \<noteq> NULL \<and> (sched_verifytcb (htcb ?s q) ?s \<longrightarrow> htcb ?s q \<in> listed ?s \<and> htcb ?s q \<noteq> idle_tcb ?s)"
    if "q \<in> set (hlist ?s a)" for q a
  proof (cases "q = p")
    case False
    then have "q \<in> set (hlist s a)" using that by (auto split: if_splits)
    then show ?thesis using False f(7-9) [of q a] unfolding v li by simp
  qed (use assms(3-5) li in simp)
  ultimately show ?thesis using p unfolding holders_ok_def by simp
qed

lemma sem_findholder_spec:
  assumes "holders_ok s"
  shows "sem_findholder sem t s = NULL \<Longrightarrow> t \<notin> htcb s ` set (hlist s sem)"
    "sem_findholder sem t s \<noteq> NULL \<Longrightarrow> sem_findholder sem t s \<in> set (hlist s sem) \<and> htcb s (sem_findholder sem t s) = t"
  using holders_ok_facts(4) [OF assms, of sem]
  by (auto simp: sem_findholder_def find_None_iff find_Some_iff in_set_conv_nth split: option.splits) metis+

lemma sem_addholder_tcb_ok:
  assumes "holders_ok s" "t \<noteq> NULL" "t \<in> listed s" "t \<noteq> idle_tcb s"
  shows "holders_ok (sem_addholder_tcb t sem s)" "task_frame s (sem_addholder_tcb t sem s)"
    "\<And>sem'. sem' \<noteq> sem \<Longrightarrow> hlist (sem_addholder_tcb t sem s) sem' = hlist s sem'"
    "\<And>sem' q. q \<in> set (hlist s sem') \<Longrightarrow> htcb (sem_addholder_tcb t sem s) q = htcb s q"
    "g_freeholders s \<noteq> [] \<Longrightarrow> t \<in> htcb (sem_addholder_tcb t sem s) ` set (hlist (sem_addholder_tcb t sem s) sem)"
proof -
  let ?s = "sem_addholder_tcb t sem s"
  consider (found) "sem_findholder sem t s \<noteq> NULL" | (none) "sem_findholder sem t s = NULL" "g_freeholders s = []"
    | (new) p ps where "sem_findholder sem t s = NULL" "g_freeholders s = p # ps" by (cases "g_freeholders s") auto
  then have "holders_ok ?s \<and> task_frame s ?s \<and> (\<forall>sem'. sem' \<noteq> sem \<longrightarrow> hlist ?s sem' = hlist s sem') \<and>
      (\<forall>sem' q. q \<in> set (hlist s sem') \<longrightarrow> htcb ?s q = htcb s q) \<and> (g_freeholders s \<noteq> [] \<longrightarrow> t \<in> htcb ?s ` set (hlist ?s sem))"
  proof cases
    case found
    let ?p = "sem_findholder sem t s"
    have "(htcb s)(?p := t) = htcb s" using sem_findholder_spec(2) [OF assms(1) found] by auto
    then have eq: "?s = s\<lparr>hcounts := (hcounts s)(?p := s16 (hcounts s ?p + 1))\<rparr>"
      using found by (simp add: sem_addholder_tcb_def sem_findorallocateholder_def Let_def)
    have "sem_frame s ?s" "holder_frame s (?s\<lparr>hcounts := hcounts s\<rparr>)" unfolding eq by (simp_all add: sem_frame_def holder_frame_def listed_def)
    moreover have "t \<in> htcb s ` set (hlist s sem)" using sem_findholder_spec(2) [OF assms(1) found] by (metis imageI)
    ultimately show ?thesis using assms(1) unfolding eq
      by (simp add: task_frame_def reprio_frame_def holders_ok_def listed_def sched_verifytcb_def)
  next
    case none
    then have "?s = s" by (simp add: sem_addholder_tcb_def sem_findorallocateholder_def sem_allocholder_def Let_def)
    then show ?thesis using assms(1) none(2) by (simp add: task_frame_def)
  next
    case new
    have "p \<noteq> NULL" using holders_ok_facts(2) [OF assms(1)] new(2) by auto
    then have eq: "?s = s\<lparr>g_freeholders := ps, hlist := (hlist s)(sem := p # hlist s sem), hcounts := (hcounts s)(p := 0, p := s16 1), htcb := (htcb s)(p := t)\<rparr>"
      using new by (simp add: sem_addholder_tcb_def sem_findorallocateholder_def sem_allocholder_def Let_def)
    have "holders_ok ?s" unfolding eq
      by (rule sem_allocholder_ok [OF assms(1) sem_findholder_spec(1) [OF assms(1) new(1)] assms(2-4) new(2)])
    moreover have "q \<noteq> p" if "q \<in> set (hlist s sem')" for q sem' using holders_ok_facts(5) [OF assms(1), of sem'] new(2) that by auto
    ultimately show ?thesis by (auto simp: eq task_frame_def sem_frame_def reprio_frame_def listed_def)
  qed
  then show "holders_ok ?s" "task_frame s ?s" "\<And>sem'. sem' \<noteq> sem \<Longrightarrow> hlist ?s sem' = hlist s sem'"
    "\<And>sem' q. q \<in> set (hlist s sem') \<Longrightarrow> htcb ?s q = htcb s q" "g_freeholders s \<noteq> [] \<Longrightarrow> t \<in> htcb ?s ` set (hlist ?s sem)" by blast+
qed

lemma counts_only:
  assumes "s' = s\<lparr>hcounts := hc\<rparr>"
  shows "holders_ok s' = holders_ok s" "task_frame s s'"
  by (simp_all add: assms holders_ok_def listed_def sched_verifytcb_def task_frame_def sem_frame_def reprio_frame_def)

lemma sem_releaseholder_counts:
  obtains hc where "sem_releaseholder sem s = s\<lparr>hcounts := hc\<rparr>"
  by (cases "sem_findholder sem (head_of (g_readytorun s)) s \<noteq> NULL \<and> hcounts s (sem_findholder sem (head_of (g_readytorun s)) s) > 0")
    (auto simp: sem_releaseholder_def Let_def intro: that [of "hcounts s"])

lemma sem_releaseholder_ok: "holders_ok (sem_releaseholder sem s) = holders_ok s" "task_frame s (sem_releaseholder sem s)"
proof -
  obtain hc where "sem_releaseholder sem s = s\<lparr>hcounts := hc\<rparr>" by (rule sem_releaseholder_counts)
  from counts_only [OF this] show "holders_ok (sem_releaseholder sem s) = holders_ok s" "task_frame s (sem_releaseholder sem s)" .
qed

section \<open>Boosting the holders\<close>

lemma prios_okD:
  assumes "prios_ok s" "t \<in> listed s" "t \<noteq> idle_tcb s"
  shows "valid_priority (base_priority s t)" "npend_reprio s t \<le> CONFIG_SEM_NNESTPRIO" "length (pend_reprios s t) = CONFIG_SEM_NNESTPRIO"
    "\<And>i. i < npend_reprio s t \<Longrightarrow> base_priority s t \<le> pend_reprios s t ! i \<and> pend_reprios s t ! i \<le> SCHED_PRIORITY_MAX"
    "base_priority s t \<le> sched_priority s t"
  using assms by (auto simp: prios_ok_def)

lemma push_reprio_ok:
  assumes "prios_ok s" "npend_reprio s t < CONFIG_SEM_NNESTPRIO" "base_priority s t \<le> p" "p \<le> SCHED_PRIORITY_MAX"
  obtains s' where "push_reprio t p s = Some s'" "prios_ok s'" "sem_frame s s'" "holder_frame s s'" "tlist s' = tlist s"
    "sched_priority s' = sched_priority s" "task_state s' = task_state s" "npend_reprio s' = (npend_reprio s)(t := npend_reprio s t + 1)"
proof -
  define s' where "s' = s\<lparr>pend_reprios := (pend_reprios s)(t := (pend_reprios s t)[npend_reprio s t := p]),
      npend_reprio := (npend_reprio s)(t := npend_reprio s t + 1)\<rparr>"
  have "push_reprio t p s = Some s'" using assms(2) by (simp add: push_reprio_def debugassert_def s'_def)
  moreover have "prios_ok s'" using assms by (auto simp: prios_ok_def s'_def listed_def nth_list_update less_Suc_eq)
  moreover have "sem_frame s s'" "holder_frame s s'" by (simp_all add: sem_frame_def holder_frame_def s'_def listed_def)
  ultimately show thesis using that [of s'] by (simp add: s'_def)
qed

text \<open>The state in which the holders of a semaphore are boosted.\<close>

definition boosting :: "addr \<Rightarrow> 'a sem_state_scheme \<Rightarrow> bool" where
  "boosting r s \<longleftrightarrow> sched_wf s \<and> prios_ok s \<and> holders_ok s \<and> hd (g_readytorun s) = r"

definition boosted :: "addr \<Rightarrow> addr \<Rightarrow> 'a sem_state_scheme \<Rightarrow> 'a sem_state_scheme \<Rightarrow> bool" where
  "boosted r h s s' \<longleftrightarrow> sem_frame s s' \<and> sched_priority s' r = sched_priority s r \<and>
     (\<forall>t. sched_priority s t \<le> sched_priority s' t) \<and> (\<forall>t. t \<noteq> h \<longrightarrow> npend_reprio s' t = npend_reprio s t)"

lemma sem_boostholderprio_spec:
  assumes b: "boosting r s" and p: "p \<in> set (hlist s sem)"
    and room: "sched_verifytcb (htcb s p) s \<Longrightarrow> npend_reprio s (htcb s p) < CONFIG_SEM_NNESTPRIO"
  obtains s' where "sem_boostholderprio sem r p s = Some (Ret 0, s')" "boosting r s'" "boosted r (htcb s p) s s'"
    "if sched_verifytcb (htcb s p) s then holder_frame s s' \<and> sched_priority s r \<le> sched_priority s' (htcb s p)
     else s' = sem_freeholder sem p s"
proof -
  let ?h = "htcb s p"
  have wf: "sched_wf s" and po: "prios_ok s" and ho: "holders_ok s" and hd: "hd (g_readytorun s) = r" using b by (simp_all add: boosting_def)
  note f = holders_ok_facts [OF ho]
  show thesis
  proof (cases "sched_verifytcb ?h s")
    case False
    let ?s = "sem_freeholder sem p s"
    note fr = sem_freeholder_frame [where s = s and sem = sem and p = p]
    have "boosting r ?s"
      using wf po hd fr prios_ok_frame [OF po fr(1,2)] fr(3) sem_freeholder_ok(1) [OF ho p] by (simp add: boosting_def)
    moreover have "boosted r ?h s ?s" using fr by (simp add: boosted_def reprio_frame_def)
    ultimately show thesis using that [of ?s] False by (simp add: sem_boostholderprio_def Let_def)
  next
    case v: True
    have hl: "?h \<in> listed s" "?h \<noteq> idle_tcb s" using f(8,9) [OF p v] by auto
    obtain l where l: "?h \<in> set (tlist s l)" by (rule listedE [OF hl(1)])
    note pk = prios_okD [OF po hl]
    have room': "npend_reprio s ?h < CONFIG_SEM_NNESTPRIO" using room v by simp
    show thesis
    proof (cases "sched_priority s r > base_priority s ?h")
      case False
      have "boosted r ?h s s" by (simp add: boosted_def)
      moreover have "sched_priority s r \<le> sched_priority s ?h" using False pk(5) by simp
      ultimately show thesis using that [of s] b v False by (simp add: sem_boostholderprio_def Let_def)
    next
      case gt: True
      have rv: "valid_priority (sched_priority s r)"
      proof -
        have "r \<noteq> idle_tcb s" using gt pk(1) wf by (auto simp: valid_priority_def sched_consts sched_wf_def sched_inv_def idle_ok_def)
        then show ?thesis using member_facts(2) [OF wf_inv [OF wf], of r Readytorun] running_facts(3) [OF wf_inv [OF wf]] hd by simp
      qed
      show thesis
      proof (cases "sched_priority s r > sched_priority s ?h")
        case hi: True
        have "\<exists>s1. (if sched_priority s ?h > base_priority s ?h \<and> npend_reprio s ?h < CONFIG_SEM_NNESTPRIO
              then push_reprio ?h (sched_priority s ?h) s else Some s) = Some s1 \<and> prios_ok s1 \<and> sem_frame s s1 \<and> holder_frame s s1 \<and>
            tlist s1 = tlist s \<and> sched_priority s1 = sched_priority s \<and> task_state s1 = task_state s \<and>
            (\<forall>t. t \<noteq> ?h \<longrightarrow> npend_reprio s1 t = npend_reprio s t)"
        proof (cases "sched_priority s ?h > base_priority s ?h")
          case True
          have "sched_priority s ?h \<le> SCHED_PRIORITY_MAX" using member_facts(2) [OF wf_inv [OF wf] l hl(2)] by (simp add: valid_priority_def)
          from push_reprio_ok [OF po room' pk(5) this] show ?thesis using True room' by (metis fun_upd_other)
        qed (use po in simp)
        then obtain s1 where s1: "(if sched_priority s ?h > base_priority s ?h \<and> npend_reprio s ?h < CONFIG_SEM_NNESTPRIO
              then push_reprio ?h (sched_priority s ?h) s else Some s) = Some s1" "prios_ok s1" "sem_frame s s1" "holder_frame s s1"
            "tlist s1 = tlist s" "sched_priority s1 = sched_priority s" "task_state s1 = task_state s"
            "\<forall>t. t \<noteq> ?h \<longrightarrow> npend_reprio s1 t = npend_reprio s t" by blast
        have wf1: "sched_wf s1" using wf s1(3,5-7) sched_wf_cong [of s1 s] by (simp add: sem_frame_def)
        have l1: "?h \<in> set (tlist s1 l)" "?h \<noteq> idle_tcb s1" using l hl s1(3,5) by (simp_all add: sem_frame_def)
        obtain s2 where s2: "sched_setpriority ?h (int (sched_priority s r)) s1 = Some (True, s2)" "sched_inv s2"
            "reprioritized ?h (sched_priority s r) s1 s2"
          using sched_setpriority_spec [OF wf_inv [OF wf1] l1 rv] by blast
        note fr2 = reprioritized_frames [OF s2(3)]
        have hr: "?h \<noteq> r" using hi by auto
        then have "keeps_head ?h (sched_priority s r) s1" using hd s1(5,6) by (simp add: keeps_head_def)
        then have hd2: "hd (g_readytorun s2) = r" using s2(3) hd s1(5) by (simp add: reprioritized_def)
        have wf2: "sched_wf s2" using s2(3) wf1 by (simp add: reprioritized_def)
        have fr: "sem_frame s s2" by (rule sem_frame_trans [OF s1(3) fr2(1)])
        have hf: "holder_frame s s2" using s1(4) fr2(2) by (simp add: holder_frame_def)
        have b3: "base_priority s1 = base_priority s" using s1(3) by (simp add: sem_frame_def)
        have "boosting r s2" using wf2 hd2 prios_ok_frame [OF s1(2) fr2(1,3)] fr2(4) s1(6) gt b3 holders_ok_frame [OF ho fr hf] by (simp add: boosting_def)
        moreover have "boosted r ?h s s2" using fr fr2(3,4) s1(6,8) hr hi by (simp add: boosted_def reprio_frame_def)
        moreover have "sched_priority s r \<le> sched_priority s2 ?h" using fr2(4) by simp
        moreover have "sem_boostholderprio sem r p s = Some (Ret 0, s2)"
          using v gt hi s1(1,6) s2(1) by (simp add: sem_boostholderprio_def Let_def)
        ultimately show thesis using that [of s2] v hf by simp
      next
        case lo: False
        obtain s1 where s1: "push_reprio ?h (sched_priority s r) s = Some s1" "prios_ok s1" "sem_frame s s1" "holder_frame s s1" "tlist s1 = tlist s"
            "sched_priority s1 = sched_priority s" "task_state s1 = task_state s" "npend_reprio s1 = (npend_reprio s)(?h := npend_reprio s ?h + 1)"
          using push_reprio_ok [OF po room', of "sched_priority s r"] gt rv by (auto simp: valid_priority_def)
        have wf1: "sched_wf s1" using wf s1(3,5-7) sched_wf_cong [of s1 s] by (simp add: sem_frame_def)
        have "boosting r s1" using wf1 hd s1(2,5) holders_ok_frame [OF ho s1(3,4)] by (simp add: boosting_def)
        moreover have "boosted r ?h s s1" using s1(3,6,8) by (simp add: boosted_def)
        moreover have "sem_boostholderprio sem r p s = Some (Ret 0, s1)" using v gt lo s1(1) by (simp add: sem_boostholderprio_def Let_def)
        ultimately show thesis using that [of s1] v lo s1(4,6) by simp
      qed
    qed
  qed
qed

lemma sem_boost_loop:
  assumes "boosting r s" "set ps \<subseteq> set (hlist s sem)" "distinct ps"
    and "\<And>q. q \<in> set ps \<Longrightarrow> sched_verifytcb (htcb s q) s \<Longrightarrow> npend_reprio s (htcb s q) < CONFIG_SEM_NNESTPRIO"
  shows "\<exists>s'. sem_foreach_loop (sem_boostholderprio sem r) ps s = Some (Ret 0, s') \<and> boosting r s' \<and> sem_frame s s' \<and>
    sched_priority s' r = sched_priority s r \<and> (\<forall>t. sched_priority s t \<le> sched_priority s' t) \<and>
    (\<forall>q \<in> set ps. sched_verifytcb (htcb s q) s \<longrightarrow> sched_priority s r \<le> sched_priority s' (htcb s q))"
  using assms
proof (induction ps arbitrary: s)
  case Nil
  then show ?case by simp
next
  case (Cons p ps)
  have p: "p \<in> set (hlist s sem)" "p \<notin> set ps" using Cons.prems(2,3) by auto
  have ho: "holders_ok s" using Cons.prems(1) by (simp add: boosting_def)
  note f = holders_ok_facts [OF ho]
  have room: "sched_verifytcb (htcb s p) s \<Longrightarrow> npend_reprio s (htcb s p) < CONFIG_SEM_NNESTPRIO" using Cons.prems(4) [of p] by simp
  obtain s1 where s1: "sem_boostholderprio sem r p s = Some (Ret 0, s1)" "boosting r s1" "boosted r (htcb s p) s s1"
    "if sched_verifytcb (htcb s p) s then holder_frame s s1 \<and> sched_priority s r \<le> sched_priority s1 (htcb s p)
     else s1 = sem_freeholder sem p s"
    using sem_boostholderprio_spec [OF Cons.prems(1) p(1) room] by blast
  have fr: "sem_frame s s1" and pr: "sched_priority s1 r = sched_priority s r" "\<forall>t. sched_priority s t \<le> sched_priority s1 t"
    and np: "\<forall>t. t \<noteq> htcb s p \<longrightarrow> npend_reprio s1 t = npend_reprio s t" using s1(3) by (simp_all add: boosted_def)
  have hl: "set (hlist s1 sem) = (if sched_verifytcb (htcb s p) s then set (hlist s sem) else set (hlist s sem) - {p})"
    "\<And>q. q \<noteq> p \<Longrightarrow> htcb s1 q = htcb s q" "sched_verifytcb (htcb s p) s \<Longrightarrow> htcb s1 p = htcb s p"
    using s1(4) sem_freeholder_ok(2,3) [OF ho p(1)] f(3) [of sem] by (auto simp: holder_frame_def split: if_splits)
  have qp: "q \<noteq> p" if "q \<in> set ps" for q using that p(2) by auto
  have sub: "set ps \<subseteq> set (hlist s1 sem)" using Cons.prems(2) qp by (auto simp: hl(1))
  have room1: "npend_reprio s1 (htcb s1 q) < CONFIG_SEM_NNESTPRIO" if q: "q \<in> set ps" "sched_verifytcb (htcb s1 q) s1" for q
  proof -
    have "q \<in> set (hlist s sem)" using q(1) Cons.prems(2) by auto
    then have "htcb s q \<noteq> htcb s p" using inj_onD [OF f(10) [of sem], of q p] p(1) qp [OF q(1)] by auto
    then show ?thesis using Cons.prems(4) [of q] q np hl(2) [OF qp [OF q(1)]] verifytcb_frame [OF fr] by simp
  qed
  obtain s2 where s2: "sem_foreach_loop (sem_boostholderprio sem r) ps s1 = Some (Ret 0, s2)" "boosting r s2" "sem_frame s1 s2"
    "sched_priority s2 r = sched_priority s1 r" "\<forall>t. sched_priority s1 t \<le> sched_priority s2 t"
    "\<forall>q \<in> set ps. sched_verifytcb (htcb s1 q) s1 \<longrightarrow> sched_priority s1 r \<le> sched_priority s2 (htcb s1 q)"
    using Cons.IH [OF s1(2) sub _ room1] Cons.prems(3) by auto
  have "sem_foreach_loop (sem_boostholderprio sem r) (p # ps) s = Some (Ret 0, s2)"
    using s1(1) s2(1) f(7) [OF p(1)] by simp
  moreover have "sem_frame s s2" by (rule sem_frame_trans [OF fr s2(3)])
  moreover have "sched_priority s r \<le> sched_priority s2 (htcb s q)" if q: "q \<in> set (p # ps)" "sched_verifytcb (htcb s q) s" for q
  proof (cases "q = p")
    case True
    then have "sched_priority s r \<le> sched_priority s1 (htcb s p)" using s1(4) q(2) by simp
    also have "\<dots> \<le> sched_priority s2 (htcb s p)" using s2(5) by simp
    finally show ?thesis using True by simp
  next
    case False
    then show ?thesis using q s2(6) hl(2) [OF False] pr(1) verifytcb_frame [OF fr] by auto
  qed
  moreover have "\<forall>t. sched_priority s t \<le> sched_priority s2 t" using pr(2) s2(5) by (meson order_trans)
  moreover have "sched_priority s2 r = sched_priority s r" using s2(4) pr(1) by simp
  ultimately show ?case using s2(2) by blast
qed


section \<open>Waiting\<close>

lemma relisted_ok:
  assumes "relisted s s'" "listed s' = listed s"
  shows "prios_ok s' = prios_ok s" "holders_ok s' = holders_ok s"
  using assms relisted_fields [OF assms(1)] relisted_frames [OF assms(1)]
  by (simp_all add: prios_ok_def holders_ok_def holder_frame_def reprio_frame_def sched_verifytcb_def)

lemma waits_card:
  assumes "waiting_ok s" "sem \<noteq> NULL"
  shows "finite {t. waitsem s t = sem}"
proof -
  have "{t. waitsem s t = sem} \<subseteq> set (tlist s Waitingforsemaphore)" using assms by (auto simp: waiting_ok_def)
  then show ?thesis by (rule finite_subset) simp
qed

text \<open>The running task is recorded as a waiter and moves to the waiting list.\<close>

lemma waiting_ok_block:
  assumes w: "waiting_ok s" and r: "waitsem s r = NULL" "sem \<noteq> NULL" "semcount s sem \<le> 0"
    and s': "waitsem s' = (waitsem s)(r := sem)" "semcount s' = (semcount s)(sem := semcount s sem - 1)"
      "set (tlist s' Waitingforsemaphore) = insert r (set (tlist s Waitingforsemaphore))"
  shows "waiting_ok s'"
proof -
  have "{t. waitsem s' t = sem} = insert r {t. waitsem s t = sem}" using r by (auto simp: s')
  moreover have "r \<notin> {t. waitsem s t = sem}" using r by auto
  moreover have "card {t. waitsem s t = sem} = nat (- semcount s sem)" using w r(2) by (simp add: waiting_ok_def)
  ultimately have "card {t. waitsem s' t = sem} = nat (- semcount s' sem)"
    using waits_card [OF w r(2)] r(3) by (simp add: s'(2) nat_diff_distrib')
  moreover have "{t. waitsem s' t = sem'} = {t. waitsem s t = sem'}" if "sem' \<noteq> sem" "sem' \<noteq> NULL" for sem'
    using that r(1) by (auto simp: s'(1))
  moreover have "semcount s sem - 1 \<le> SEM_VALUE_MAX" using r(3) by (simp add: SEM_VALUE_MAX_def)
  ultimately show ?thesis using w r(2,3) by (auto simp: waiting_ok_def s')
qed

text \<open>Moving a task between the runnable tasks and a waiting list keeps the set of tasks.\<close>

lemma listed_move:
  fixes s s' :: "'a sched_state_scheme"
  assumes "l \<noteq> Readytorun" "l \<noteq> Pendingtasks"
    and "set (g_readytorun s') \<union> set (g_pendingtasks s') \<union> set (tlist s' l) = set (g_readytorun s) \<union> set (g_pendingtasks s) \<union> set (tlist s l)"
    and "\<And>l'. l' \<noteq> Readytorun \<Longrightarrow> l' \<noteq> Pendingtasks \<Longrightarrow> l' \<noteq> l \<Longrightarrow> tlist s' l' = tlist s l'"
  shows "listed s' = listed s"
proof -
  have eq: "listed u = (set (g_readytorun u) \<union> set (g_pendingtasks u) \<union> set (tlist u l)) \<union> (\<Union>l' \<in> - {Readytorun, Pendingtasks, l}. set (tlist u l'))"
    for u :: "'a sched_state_scheme" by (auto simp: listed_def)
  have "(\<Union>l' \<in> - {Readytorun, Pendingtasks, l}. set (tlist s' l')) = (\<Union>l' \<in> - {Readytorun, Pendingtasks, l}. set (tlist s l'))"
    using assms(4) by auto
  then show ?thesis using assms(3) by (simp only: eq)
qed

lemma sem_block:
  assumes s: "restoring s s" and r: "r = hd (g_readytorun s)" "r \<noteq> idle_tcb s"
  obtains b s' where "up_block_task r TSTATE_WAIT_SEM s = Some (b, s')" "restoring s' s'" "relisted s s'"
    "set (tlist s' Waitingforsemaphore) = insert r (set (tlist s Waitingforsemaphore))"
proof -
  note d = restoringD [OF s]
  have r': "r \<in> set (g_readytorun s)" using running_facts(3) [OF wf_inv [OF d(1)]] r(1) by simp
  have bl: "blocked_state TSTATE_WAIT_SEM" "list_state Waitingforsemaphore = TSTATE_WAIT_SEM" by simp_all
  obtain s' where s': "up_block_task r TSTATE_WAIT_SEM s = Some (hd (g_readytorun s') \<noteq> hd (g_readytorun s), s')" "sched_inv s'" "relisted s s'"
    "g_pendingtasks s' = []"
    "g_readytorun s' = prio_merge (sched_priority s) (g_pendingtasks s) (remove1 r (g_readytorun s))"
    "tlist s' Waitingforsemaphore = (if prioritized Waitingforsemaphore then prio_insert s r (tlist s Waitingforsemaphore) else tlist s Waitingforsemaphore @ [r])"
    "\<And>l'. l' \<noteq> Readytorun \<Longrightarrow> l' \<noteq> Pendingtasks \<Longrightarrow> l' \<noteq> Waitingforsemaphore \<Longrightarrow> tlist s' l' = tlist s l'"
    using up_block_task_spec [OF wf_inv [OF d(1)] r' r(2) bl] by blast
  have wl: "set (tlist s' Waitingforsemaphore) = insert r (set (tlist s Waitingforsemaphore))" by (simp add: s'(6))
  have li: "listed s' = listed s"
    using inv_distinct [OF wf_inv [OF d(1)], of Readytorun] r' s'(7)
    by (intro listed_move [of Waitingforsemaphore]) (auto simp: s'(4,5) wl)
  have "sched_wf s'" using s'(2,4) by (simp add: sched_wf_def)
  then have "restoring s' s'" using relisted_ok [OF s'(3) li] d by (simp add: restoring_def)
  then show thesis by (rule that [OF s'(1) _ s'(3) wl])
qed

definition room_for :: "addr \<Rightarrow> 'a sem_state_scheme \<Rightarrow> bool" where
  "room_for sem s \<longleftrightarrow> (\<forall>q \<in> set (hlist s sem). sched_verifytcb (htcb s q) s \<longrightarrow> npend_reprio s (htcb s q) < CONFIG_SEM_NNESTPRIO)"

lemma running_not_waiting:
  assumes "sem_inv s"
  shows "waitsem s (hd (g_readytorun s)) = NULL"
proof -
  have wf: "sched_wf s" and w: "waiting_ok s" using assms by (simp_all add: sem_inv_def)
  have "hd (g_readytorun s) \<notin> set (tlist s Waitingforsemaphore)"
    using only_list [OF wf_inv [OF wf] running_facts(3) [OF wf_inv [OF wf]], of Waitingforsemaphore] by auto
  then show ?thesis using w by (auto simp: waiting_ok_def)
qed

lemma sem_wait_blocks:
  assumes inv: "sem_inv s" and sem: "sem \<noteq> NULL" "semcount s sem \<le> 0" and r: "hd (g_readytorun s) \<noteq> idle_tcb s"
    and lc: "lockcount s (hd (g_readytorun s)) < MAX_LOCK_COUNT" and room: "room_for sem s"
  obtains s' where "sem_wait sem s = Some (Switched, s')" "sem_inv s'"
    "semcount s' = (semcount s)(sem := semcount s sem - 1)" "waitsem s' = (waitsem s)(hd (g_readytorun s) := sem)"
    "\<forall>q \<in> set (hlist s sem). sched_verifytcb (htcb s q) s \<longrightarrow> sched_priority s (hd (g_readytorun s)) \<le> sched_priority s' (htcb s q)"
    "sched_priority s' (hd (g_readytorun s)) = sched_priority s (hd (g_readytorun s))"
    "task_state s' (hd (g_readytorun s)) = TSTATE_WAIT_SEM"
proof -
  let ?r = "hd (g_readytorun s)"
  have wf: "sched_wf s" and w: "waiting_ok s" and po: "prios_ok s" and ho: "holders_ok s" using inv by (simp_all add: sem_inv_def)
  note run = running_facts [OF wf_inv [OF wf]]
  define s1 where "s1 = s\<lparr>pterrno := (pterrno s)(?r := EINVAL), semcount := (semcount s)(sem := semcount s sem - 1),
      waitsem := (waitsem s)(?r := sem)\<rparr>"
  define s2 where "s2 = s1\<lparr>lockcount := (lockcount s1)(?r := lockcount s1 ?r + 1)\<rparr>"
  have l1: "tlist s1 = tlist s" "lockcount s1 = lockcount s" by (simp_all add: s1_def)
  have wf1: "sched_wf s1" using wf sched_wf_cong [of s1 s] by (simp add: s1_def)
  have lock: "sched_lock False s1 = Some s2" and wf2: "sched_wf s2"
    using sched_lock_spec [OF wf1] lc unfolding l1 s2_def by simp_all
  have f2: "tlist s2 = tlist s" "hlist s2 = hlist s" "htcb s2 = htcb s" "npend_reprio s2 = npend_reprio s" "sched_priority s2 = sched_priority s"
    "semcount s2 = semcount s1" "waitsem s2 = waitsem s1" "idle_tcb s2 = idle_tcb s"
    by (simp_all add: s2_def s1_def)
  have v2: "sched_verifytcb t s2 = sched_verifytcb t s" for t by (simp add: sched_verifytcb_def s2_def s1_def)
  have "listed s2 = listed s" by (simp add: listed_def f2)
  then have "prios_ok s2" "holders_ok s2" using po ho by (simp_all add: prios_ok_def holders_ok_def s2_def s1_def sched_verifytcb_def)
  then have b2: "boosting ?r s2" using wf2 f2 by (simp add: boosting_def)
  have "\<And>q. q \<in> set (hlist s2 sem) \<Longrightarrow> sched_verifytcb (htcb s2 q) s2 \<Longrightarrow> npend_reprio s2 (htcb s2 q) < CONFIG_SEM_NNESTPRIO"
    using room by (simp add: room_for_def v2 f2)
  from sem_boost_loop [OF b2 subset_refl holders_ok_facts(3) [OF \<open>holders_ok s2\<close>] this]
  obtain s3 where s3: "sem_foreach_loop (sem_boostholderprio sem ?r) (hlist s2 sem) s2 = Some (Ret 0, s3)" "boosting ?r s3" "sem_frame s2 s3"
    "sched_priority s3 ?r = sched_priority s2 ?r"
    "\<forall>q \<in> set (hlist s2 sem). sched_verifytcb (htcb s2 q) s2 \<longrightarrow> sched_priority s2 ?r \<le> sched_priority s3 (htcb s2 q)"
    by blast
  have boost: "sem_boostpriority sem s2 = Some s3" using s3(1) run f2(1) by (simp add: sem_boostpriority_def sem_foreachholder_def)
  define s4 where "s4 = s3\<lparr>pterrno := (pterrno s3)(?r := 0)\<rparr>"
  have wf3: "sched_wf s3" "hd (g_readytorun s3) = ?r" "prios_ok s3" "holders_ok s3" using s3(2) by (simp_all add: boosting_def)
  have r4: "restoring s4 s4" using wf3 sched_wf_cong [of s4 s3]
    by (simp add: restoring_def s4_def prios_ok_def holders_ok_def listed_def sched_verifytcb_def)
  have "?r = hd (g_readytorun s4)" "?r \<noteq> idle_tcb s4" using wf3(2) r s3(3) f2 by (simp_all add: s4_def sem_frame_def)
  then obtain b s5 where s5: "up_block_task ?r TSTATE_WAIT_SEM s4 = Some (b, s5)" "restoring s5 s5" "relisted s4 s5"
    "set (tlist s5 Waitingforsemaphore) = insert ?r (set (tlist s4 Waitingforsemaphore))"
    by (rule sem_block [OF r4])
  have call: "sem_wait sem s = Some (Switched, s5)"
    using sem running_not_waiting [OF inv] run lock boost s5(1) l1
    by (simp add: sem_wait_def debugassert_def Let_def s1_def [symmetric] s4_def)
  note fr5 = relisted_fields [OF s5(3)] relisted_frames [OF s5(3)]
  have sc: "semcount s5 = (semcount s)(sem := semcount s sem - 1)" "waitsem s5 = (waitsem s)(?r := sem)"
    using fr5 s3(3) by (simp_all add: s4_def sem_frame_def f2 s1_def)
  have "set (tlist s5 Waitingforsemaphore) = insert ?r (set (tlist s Waitingforsemaphore))"
    using s5(4) s3(3) by (simp add: s4_def sem_frame_def f2)
  then have "waiting_ok s5" using waiting_ok_block [OF w running_not_waiting [OF inv] sem sc(2,1)] by simp
  then have inv5: "sem_inv s5" using restoringD [OF s5(2)] by (simp add: sem_inv_def)
  have h5: "hlist s5 = hlist s3" "htcb s5 = htcb s3" "sched_priority s5 = sched_priority s3" using fr5 by (simp_all add: s4_def holder_frame_def)
  show thesis
  proof (rule that [OF call inv5 sc])
    show "\<forall>q \<in> set (hlist s sem). sched_verifytcb (htcb s q) s \<longrightarrow> sched_priority s ?r \<le> sched_priority s5 (htcb s q)"
      using s3(5) by (simp add: h5 f2 v2)
    show "sched_priority s5 ?r = sched_priority s ?r" using s3(4) by (simp add: h5 f2)
    have "?r \<in> set (tlist s5 Waitingforsemaphore)" using s5(4) by simp
    then show "task_state s5 ?r = TSTATE_WAIT_SEM" using wf_inv [OF restoringD(1) [OF s5(2)]] by (auto simp: sched_inv_def states_ok_def)
  qed
qed

end
