(* ===== verification/Sem_Ops.thy ===== *)
theory Sem_Ops
  imports Sem_Inv
begin

unbundle bit_operations_syntax

text \<open>
  Restoring the priorities of the holders, and what each call on a semaphore does to a state that satisfies the
  invariant.
\<close>

section \<open>Restoring the holders\<close>

lemma max_reprio_less: "j < n \<Longrightarrow> max_reprio ps n i j < n"
proof (induction ps n i j rule: max_reprio.induct)
  case (1 ps n i j)
  then show ?case by (subst max_reprio.simps) auto
qed

lemma drop_reprio_ok:
  assumes "prios_ok s" "k < npend_reprio s t" "t \<in> listed s" "t \<noteq> idle_tcb s"
  shows "prios_ok (drop_reprio t k s)" "sem_frame s (drop_reprio t k s)" "holder_frame s (drop_reprio t k s)"
    "tlist (drop_reprio t k s) = tlist s" "sched_priority (drop_reprio t k s) = sched_priority s"
    "task_state (drop_reprio t k s) = task_state s"
proof -
  let ?s = "drop_reprio t k s" and ?n = "npend_reprio s t"
  show fr: "sem_frame s ?s" "holder_frame s ?s" "tlist ?s = tlist s" "sched_priority ?s = sched_priority s" "task_state ?s = task_state s"
    by (simp_all add: drop_reprio_def Let_def sem_frame_def holder_frame_def listed_def)
  have np: "npend_reprio ?s = (npend_reprio s)(t := ?n - 1)"
    "pend_reprios ?s = (pend_reprios s)(t := if ?n - 1 > 0 then (pend_reprios s t)[k := pend_reprios s t ! (?n - 1)] else pend_reprios s t)"
    by (auto simp: drop_reprio_def Let_def)
  note pk = prios_okD [OF assms(1,3,4)]
  have "base_priority s t \<le> pend_reprios ?s t ! i \<and> pend_reprios ?s t ! i \<le> SCHED_PRIORITY_MAX" if "i < ?n - 1" for i
    using that pk(4) [of i] pk(4) [of "?n - 1"] pk(2,3) by (cases "i = k") (auto simp: np)
  then show "prios_ok ?s" using assms(1) fr pk unfolding prios_ok_def by (auto simp: np sem_frame_def)
qed

lemma sem_restoreholderprio_spec:
  assumes s: "restoring s0 s" and p: "p \<in> set (hlist s sem)"
  obtains r s' where "sem_restoreholderprio in_irq sem stcb p s = Some (r, s')" "restoring s0 s'"
    "if sched_verifytcb (htcb s p) s then holder_frame s s' else s' = sem_freeholder sem p s"
    "r = Ret 0 \<or> \<not> in_irq \<and> (\<exists>b. r = Suspended b)"
    "\<not> in_irq \<Longrightarrow> r = Ret 0 \<Longrightarrow> hd (g_readytorun s') = hd (g_readytorun s)"
    "htcb s p \<noteq> hd (g_readytorun s) \<Longrightarrow> lockcount s (hd (g_readytorun s)) \<noteq> 0 \<Longrightarrow> hd (g_readytorun s') = hd (g_readytorun s)"
    "\<And>t. t \<noteq> htcb s p \<Longrightarrow> sched_priority s' t = sched_priority s t \<and> npend_reprio s' t = npend_reprio s t"
    "sched_verifytcb (htcb s p) s \<Longrightarrow> npend_reprio s (htcb s p) = 0 \<Longrightarrow>
      sched_priority s' (htcb s p) = base_priority s (htcb s p) \<and> npend_reprio s' (htcb s p) = 0"
proof -
  let ?h = "htcb s p"
  have wf: "sched_wf s" and po: "prios_ok s" and ho: "holders_ok s" and fr0: "sem_frame s0 s" using s by (simp_all add: restoring_def)
  note f = holders_ok_facts [OF ho]
  show thesis
  proof (cases "sched_verifytcb ?h s")
    case False
    let ?s = "sem_freeholder sem p s"
    note fr = sem_freeholder_frame [where s = s and sem = sem and p = p]
    have "restoring s0 ?s"
      using wf fr prios_ok_frame [OF po fr(1,2)] fr(3) sem_freeholder_ok(1) [OF ho p] sem_frame_trans [OF fr0 fr(1)] by (simp add: restoring_def)
    then show thesis using that [of "Ret 0" ?s] False fr(2-4) by (simp add: sem_restoreholderprio_def Let_def reprio_frame_def)
  next
    case v: True
    have hl: "?h \<in> listed s" "?h \<noteq> idle_tcb s" using f(8,9) [OF p v] by auto
    obtain l where l: "?h \<in> set (tlist s l)" by (rule listedE [OF hl(1)])
    note pk = prios_okD [OF po hl]
    have set: "\<exists>s2. sched_setpriority ?h (int q) s1 = Some (True, s2) \<and> restoring s0 s2 \<and> holder_frame s s2 \<and> reprio_frame s1 s2 \<and>
        (?h \<noteq> hd (g_readytorun s) \<longrightarrow> lockcount s (hd (g_readytorun s)) \<noteq> 0 \<longrightarrow> hd (g_readytorun s2) = hd (g_readytorun s)) \<and>
        base_priority s2 = base_priority s \<and> sched_priority s2 = (sched_priority s)(?h := q)"
      if s1: "prios_ok s1" "sem_frame s s1" "holder_frame s s1" "tlist s1 = tlist s" "sched_priority s1 = sched_priority s"
        "task_state s1 = task_state s" and q: "base_priority s ?h \<le> q" "q \<le> SCHED_PRIORITY_MAX" for s1 :: "'a sem_state_scheme" and q
    proof -
      have b: "base_priority s1 = base_priority s" "idle_tcb s1 = idle_tcb s" "lockcount s1 = lockcount s" using s1(2) by (simp_all add: sem_frame_def)
      have wf1: "sched_wf s1" using wf s1 b sched_wf_cong [of s1 s] by simp
      have l1: "?h \<in> set (tlist s1 l)" "?h \<noteq> idle_tcb s1" using l hl s1(4) b by simp_all
      have "valid_priority q" using q pk(1) by (simp add: valid_priority_def)
      then obtain s2 where s2: "sched_setpriority ?h (int q) s1 = Some (True, s2)" "sched_inv s2" "reprioritized ?h q s1 s2"
        using sched_setpriority_spec [OF wf_inv [OF wf1] l1] by blast
      note fr2 = reprioritized_frames [OF s2(3)]
      have wf2: "sched_wf s2" using s2(3) wf1 by (simp add: reprioritized_def)
      have fr: "sem_frame s s2" by (rule sem_frame_trans [OF s1(2) fr2(1)])
      have hf: "holder_frame s s2" using s1(3) fr2(2) by (simp add: holder_frame_def)
      have "prios_ok s2" using prios_ok_frame [OF s1(1) fr2(1,3)] q b fr2(4) by simp
      then have "restoring s0 s2" using wf2 holders_ok_frame [OF ho fr hf] sem_frame_trans [OF fr0 fr] by (simp add: restoring_def)
      moreover have "hd (g_readytorun s2) = hd (g_readytorun s)" if "?h \<noteq> hd (g_readytorun s)" "lockcount s (hd (g_readytorun s)) \<noteq> 0"
        using s2(3) that b s1(4) by (simp add: reprioritized_def keeps_head_def)
      ultimately show ?thesis using s2(1) hf fr2(1,3,4) b s1(5) by (auto simp: sem_frame_def)
    qed
    consider (same) "sched_priority s ?h = base_priority s ?h" | (base) "sched_priority s ?h \<noteq> base_priority s ?h" "npend_reprio s ?h < 1"
      | (nextp) "sched_priority s ?h \<noteq> base_priority s ?h" "\<not> npend_reprio s ?h < 1" "sched_priority s ?h \<le> sched_priority s stcb"
      | (higher) "sched_priority s ?h \<noteq> base_priority s ?h" "\<not> npend_reprio s ?h < 1" "\<not> sched_priority s ?h \<le> sched_priority s stcb" by blast
    then show thesis
    proof cases
      case same
      then show thesis using that [of "Ret 0" s] v s by (simp add: sem_restoreholderprio_def Let_def)
    next
      case base
      have bm: "base_priority s ?h \<le> SCHED_PRIORITY_MAX" using pk(1) by (simp add: valid_priority_def)
      obtain s2 where s2: "sched_setpriority ?h (int (base_priority s ?h)) s = Some (True, s2)" "restoring s0 s2" "holder_frame s s2" "reprio_frame s s2"
          "?h \<noteq> hd (g_readytorun s) \<longrightarrow> lockcount s (hd (g_readytorun s)) \<noteq> 0 \<longrightarrow> hd (g_readytorun s2) = hd (g_readytorun s)"
          "base_priority s2 = base_priority s" "sched_priority s2 = (sched_priority s)(?h := base_priority s ?h)"
        using set [OF po sem_frame_refl(1,2) refl refl refl order_refl bm] by blast
      have "(base_priority s2)(?h := base_priority s ?h) = base_priority s2" "(npend_reprio s2)(?h := 0) = npend_reprio s2"
        using s2(4,6) base(2) by (auto simp: reprio_frame_def)
      then have res: "sched_reprioritize_resume ?h (int (base_priority s ?h)) s2 = s2" by (simp add: sched_reprioritize_resume_def)
      show thesis
      proof (cases "\<not> in_irq \<and> head_of (g_readytorun s2) \<noteq> head_of (g_readytorun s)")
        case True
        then have "sem_restoreholderprio in_irq sem stcb p s = Some (Suspended True, s2)"
          using v base s2(1) by (simp add: sem_restoreholderprio_def sched_reprioritize_def Let_def)
        from that [OF this s2(2)] show thesis using s2(3-5,7) v True by (auto simp: reprio_frame_def)
      next
        case False
        then have "sem_restoreholderprio in_irq sem stcb p s = Some (Ret 0, s2)"
          using v base s2(1) res by (auto simp: sem_restoreholderprio_def sched_reprioritize_def Let_def)
        moreover have "\<not> in_irq \<Longrightarrow> hd (g_readytorun s2) = hd (g_readytorun s)"
          using False s2(2) running_facts(1) [OF wf_inv [OF wf]] running_facts(1) [OF wf_inv, of s2] by (auto simp: restoring_def)
        ultimately show thesis using that [of "Ret 0" s2] s2(2-5,7) v by (simp add: reprio_frame_def)
      qed
    next
      case nextp
      define j where "j = max_reprio (pend_reprios s ?h) (npend_reprio s ?h) 1 0"
      have j: "j < npend_reprio s ?h" unfolding j_def using nextp(2) by (intro max_reprio_less) simp
      note dr = drop_reprio_ok [OF po j hl]
      obtain s2 where s2: "sched_setpriority ?h (int (pend_reprios s ?h ! j)) (drop_reprio ?h j s) = Some (True, s2)" "restoring s0 s2" "holder_frame s s2"
          "?h \<noteq> hd (g_readytorun s) \<longrightarrow> lockcount s (hd (g_readytorun s)) \<noteq> 0 \<longrightarrow> hd (g_readytorun s2) = hd (g_readytorun s)"
          "reprio_frame (drop_reprio ?h j s) s2" "sched_priority s2 = (sched_priority s)(?h := pend_reprios s ?h ! j)"
        using set [OF dr, of "pend_reprios s ?h ! j"] pk(4) [OF j] by blast
      have call: "sem_restoreholderprio in_irq sem stcb p s =
          Some (if \<not> in_irq \<and> head_of (g_readytorun s2) \<noteq> head_of (g_readytorun s) then Suspended False else Ret 0, s2)"
        using v nextp s2(1) by (simp add: sem_restoreholderprio_def Let_def j_def)
      have hds: "head_of (g_readytorun s2) = hd (g_readytorun s2)" "head_of (g_readytorun s) = hd (g_readytorun s)"
        using s2(2) running_facts(1) [OF wf_inv [OF wf]] running_facts(1) [OF wf_inv, of s2] by (auto simp: restoring_def)
      have "npend_reprio s2 t = npend_reprio s t" if "t \<noteq> ?h" for t
        using s2(5) that by (simp add: reprio_frame_def drop_reprio_def Let_def)
      then show thesis by (intro that [OF call s2(2)]) (use v s2(3,4,6) hds nextp(2) in \<open>auto split: if_splits\<close>)
    next
      case higher
      show thesis
      proof (cases "find (\<lambda>i. pend_reprios s ?h ! i = sched_priority s stcb) [0 ..< npend_reprio s ?h]")
        case None
        then show thesis using that [of "Ret 0" s] v s higher by (simp add: sem_restoreholderprio_def Let_def)
      next
        case (Some i)
        then have i: "i < npend_reprio s ?h" by (auto simp: find_Some_iff)
        note dr = drop_reprio_ok [OF po i hl]
        have "sched_wf (drop_reprio ?h i s)" using wf dr sched_wf_cong [of "drop_reprio ?h i s" s] by (simp add: sem_frame_def)
        then have "restoring s0 (drop_reprio ?h i s)"
          using dr holders_ok_frame [OF ho dr(2,3)] sem_frame_trans [OF fr0 dr(2)] by (simp add: restoring_def)
        moreover have "npend_reprio (drop_reprio ?h i s) t = npend_reprio s t" if "t \<noteq> ?h" for t using that by (simp add: drop_reprio_def Let_def)
        ultimately show thesis using that [of "Ret 0" "drop_reprio ?h i s"] v higher Some dr(3-5) by (simp add: sem_restoreholderprio_def Let_def)
      qed
    qed
  qed
qed

text \<open>A handler that keeps an invariant and removes at most the holder it is called for runs through the list.\<close>

lemma holder_loop:
  assumes ok: "\<And>s. P s \<Longrightarrow> holders_ok s"
    and step: "\<And>p s. P s \<Longrightarrow> p \<in> set (hlist s sem) \<Longrightarrow>
      \<exists>r s'. handler p s = Some (r, s') \<and> (if r = Ret 0 then P s' else E r s') \<and> set (hlist s sem) - {p} \<subseteq> set (hlist s' sem)"
  shows "P s \<Longrightarrow> set ps \<subseteq> set (hlist s sem) \<Longrightarrow> distinct ps \<Longrightarrow>
    \<exists>r s'. sem_foreach_loop handler ps s = Some (r, s') \<and> (if r = Ret 0 then P s' else E r s')"
proof (induction ps arbitrary: s)
  case Nil
  then show ?case by simp
next
  case (Cons p ps)
  have p: "p \<in> set (hlist s sem)" using Cons.prems(2) by simp
  obtain r s1 where s1: "handler p s = Some (r, s1)" "if r = Ret 0 then P s1 else E r s1" "set (hlist s sem) - {p} \<subseteq> set (hlist s1 sem)"
    using step [OF Cons.prems(1) p] by blast
  have n: "htcb s p \<noteq> NULL" using holders_ok_facts(7) [OF ok [OF Cons.prems(1)] p] .
  show ?case
  proof (cases "r = Ret 0")
    case True
    have "set ps \<subseteq> set (hlist s1 sem)" using Cons.prems(2,3) s1(3) by auto
    then show ?thesis using Cons.IH [of s1] Cons.prems(3) s1(1,2) n True by simp
  next
    case False
    then show ?thesis using s1(1,2) n by simp
  qed
qed

lemma holder_foreach:
  assumes "\<And>s. P s \<Longrightarrow> holders_ok s"
    and "\<And>p s. P s \<Longrightarrow> p \<in> set (hlist s sem) \<Longrightarrow>
      \<exists>r s'. handler p s = Some (r, s') \<and> (if r = Ret 0 then P s' else E r s') \<and> set (hlist s sem) - {p} \<subseteq> set (hlist s' sem)"
    and "P s"
  shows "\<exists>r s'. sem_foreachholder sem handler s = Some (r, s') \<and> (if r = Ret 0 then P s' else E r s')"
  unfolding sem_foreachholder_def
  by (rule holder_loop [where P = P and E = E and sem = sem, OF assms subset_refl holders_ok_facts(3) [OF assms(1) [OF assms(3)]]])

lemma restored_holders:
  assumes "holders_ok s" "p \<in> set (hlist s sem)" "if v then holder_frame s s' else s' = sem_freeholder sem p s"
  shows "set (hlist s sem) - {p} \<subseteq> set (hlist s' sem)"
  using assms sem_freeholder_ok(2) [OF assms(1,2)] holders_ok_facts(3) [OF assms(1), of sem]
  by (auto simp: holder_frame_def split: if_splits)

lemma sem_restore_irq:
  assumes "restoring s0 s"
  shows "\<exists>s'. sem_foreachholder sem (sem_restoreholderprio True sem stcb) s = Some (Ret 0, s') \<and> restoring s0 s'"
proof -
  have "\<exists>r s'. sem_foreachholder sem (sem_restoreholderprio True sem stcb) s = Some (r, s') \<and> (if r = Ret 0 then restoring s0 s' else False)"
  proof (rule holder_foreach [where P = "restoring s0"])
    show "restoring s0 s" by (rule assms)
    show "holders_ok u" if "restoring s0 u" for u using that by (simp add: restoring_def)
    fix p and u :: "'a sem_state_scheme"
    assume u: "restoring s0 u" "p \<in> set (hlist u sem)"
    obtain r u' where u': "sem_restoreholderprio True sem stcb p u = Some (r, u')" "restoring s0 u'"
        "if sched_verifytcb (htcb u p) u then holder_frame u u' else u' = sem_freeholder sem p u"
        "r = Ret 0 \<or> \<not> True \<and> (\<exists>b. r = Suspended b)"
      by (rule sem_restoreholderprio_spec [OF u, of True stcb]) (rule that)
    have "holders_ok u" using u(1) by (simp add: restoring_def)
    then show "\<exists>r s'. sem_restoreholderprio True sem stcb p u = Some (r, s') \<and> (if r = Ret 0 then restoring s0 s' else False) \<and>
        set (hlist u sem) - {p} \<subseteq> set (hlist s' sem)"
      using u' restored_holders [OF _ u(2) u'(3)] by auto
  qed
  then show ?thesis by (auto split: if_splits)
qed

lemma sem_restore_A:
  assumes "restoring s0 s" "lockcount s0 r \<noteq> 0" "hd (g_readytorun s) = r"
  shows "\<exists>s'. sem_foreachholder sem (sem_restoreholderprioA sem stcb) s = Some (Ret 0, s') \<and> restoring s0 s' \<and> hd (g_readytorun s') = r"
proof -
  let ?P = "\<lambda>s. restoring s0 s \<and> hd (g_readytorun s) = r"
  have "\<exists>r s'. sem_foreachholder sem (sem_restoreholderprioA sem stcb) s = Some (r, s') \<and> (if r = Ret 0 then ?P s' else False)"
  proof (rule holder_foreach [where P = ?P])
    show "holders_ok u" if "?P u" for u using that by (simp add: restoring_def)
    show "?P s" using assms by simp
    fix p and u :: "'a sem_state_scheme"
    assume P: "?P u" and p: "p \<in> set (hlist u sem)"
    then have u: "restoring s0 u" and h: "hd (g_readytorun u) = r" by simp_all
    have ho: "holders_ok u" and wf: "sched_wf u" and lk: "lockcount u r \<noteq> 0" using u assms(2) by (auto simp: restoring_def sem_frame_def)
    have hd: "head_of (g_readytorun u) = r" using running_facts(1) [OF wf_inv [OF wf]] h by simp
    show "\<exists>r' s'. sem_restoreholderprioA sem stcb p u = Some (r', s') \<and> (if r' = Ret 0 then ?P s' else False) \<and>
        set (hlist u sem) - {p} \<subseteq> set (hlist s' sem)"
    proof (cases "htcb u p = r")
      case True
      then have "sem_restoreholderprioA sem stcb p u = Some (Ret 0, u)" by (simp add: sem_restoreholderprioA_def hd)
      then show ?thesis using P by auto
    next
      case False
      obtain r' u' where u': "sem_restoreholderprio True sem stcb p u = Some (r', u')" "restoring s0 u'"
          "if sched_verifytcb (htcb u p) u then holder_frame u u' else u' = sem_freeholder sem p u"
          "r' = Ret 0 \<or> \<not> True \<and> (\<exists>b. r' = Suspended b)"
          "htcb u p \<noteq> hd (g_readytorun u) \<Longrightarrow> lockcount u (hd (g_readytorun u)) \<noteq> 0 \<Longrightarrow> hd (g_readytorun u') = hd (g_readytorun u)"
        by (rule sem_restoreholderprio_spec [OF u p, of True stcb]) (rule that)
      have "hd (g_readytorun u') = r" using u'(5) False h lk by simp
      then show ?thesis using u'(1,2,4) False restored_holders [OF ho p u'(3)] by (auto simp: sem_restoreholderprioA_def hd)
    qed
  qed
  then show ?thesis by (auto split: if_splits)
qed

lemma sem_restore_B:
  assumes "restoring s0 s" "hd (g_readytorun s) = r"
  shows "\<exists>r' s'. sem_foreachholder sem (sem_restoreholderprioB sem stcb) s = Some (r', s') \<and> restoring s0 s' \<and>
    (r' = Ret 0 \<or> r' = Ret 1 \<or> (\<exists>b. r' = Suspended b)) \<and> ((\<exists>b. r' = Suspended b) \<or> hd (g_readytorun s') = r)"
proof -
  let ?P = "\<lambda>s. restoring s0 s \<and> hd (g_readytorun s) = r"
  let ?E = "\<lambda>r' s'. restoring s0 s' \<and> (r' = Ret 1 \<and> hd (g_readytorun s') = r \<or> (\<exists>b. r' = Suspended b))"
  have "\<exists>r s'. sem_foreachholder sem (sem_restoreholderprioB sem stcb) s = Some (r, s') \<and> (if r = Ret 0 then ?P s' else ?E r s')"
  proof (rule holder_foreach [where P = ?P])
    show "holders_ok u" if "?P u" for u using that by (simp add: restoring_def)
    show "?P s" using assms by simp
    fix p and u :: "'a sem_state_scheme"
    assume P: "?P u" and p: "p \<in> set (hlist u sem)"
    then have u: "restoring s0 u" and h: "hd (g_readytorun u) = r" by simp_all
    have ho: "holders_ok u" and wf: "sched_wf u" using u by (auto simp: restoring_def)
    have hd: "head_of (g_readytorun u) = r" using running_facts(1) [OF wf_inv [OF wf]] h by simp
    show "\<exists>r' s'. sem_restoreholderprioB sem stcb p u = Some (r', s') \<and> (if r' = Ret 0 then ?P s' else ?E r' s') \<and>
        set (hlist u sem) - {p} \<subseteq> set (hlist s' sem)"
    proof (cases "htcb u p = r")
      case False
      then have "sem_restoreholderprioB sem stcb p u = Some (Ret 0, u)" by (simp add: sem_restoreholderprioB_def hd)
      then show ?thesis using P by auto
    next
      case True
      obtain r' u' where u': "sem_restoreholderprio False sem stcb p u = Some (r', u')" "restoring s0 u'"
          "if sched_verifytcb (htcb u p) u then holder_frame u u' else u' = sem_freeholder sem p u"
          "r' = Ret 0 \<or> \<not> False \<and> (\<exists>b. r' = Suspended b)" "\<not> False \<Longrightarrow> r' = Ret 0 \<Longrightarrow> hd (g_readytorun u') = hd (g_readytorun u)"
        by (rule sem_restoreholderprio_spec [OF u p, of False stcb]) (rule that)
      show ?thesis
      proof (cases "r' = Ret 0")
        case r: True
        have "sem_restoreholderprioB sem stcb p u = Some (Ret 1, u')" using u'(1) r True by (simp add: sem_restoreholderprioB_def hd)
        then show ?thesis using u'(2,5) r h restored_holders [OF ho p u'(3)] by auto
      next
        case False
        then obtain b where r: "r' = Suspended b" using u'(4) by auto
        have "sem_restoreholderprioB sem stcb p u = Some (Suspended b, u')" using u'(1) r True by (simp add: sem_restoreholderprioB_def hd)
        then show ?thesis using u'(2) restored_holders [OF ho p u'(3)] by auto
      qed
    qed
  qed
  then show ?thesis by (auto split: if_splits)
qed

lemma sem_drop_holder_ok:
  assumes "restoring s0 s"
  shows "restoring s0 (sem_drop_holder r sem s)" "hd (g_readytorun (sem_drop_holder r sem s)) = hd (g_readytorun s)"
proof -
  let ?p = "sem_findholder sem r s"
  have core: "sched_wf s" "prios_ok s" "holders_ok s" "sem_frame s0 s" using assms by (simp_all add: restoring_def)
  note fr = sem_freeholder_frame [where s = s and sem = sem and p = ?p]
  have "restoring s0 (sem_freeholder sem ?p s)" if "?p \<noteq> NULL"
    using core fr prios_ok_frame [OF core(2) fr(1,2)] sem_freeholder_ok(1) [OF core(3)] sem_findholder_spec(2) [OF core(3) that] sem_frame_trans [OF core(4) fr(1)]
    by (simp add: restoring_def)
  then show "restoring s0 (sem_drop_holder r sem s)" "hd (g_readytorun (sem_drop_holder r sem s)) = hd (g_readytorun s)"
    using assms fr(4) by (simp_all add: sem_drop_holder_def Let_def)
qed

lemma sem_restorebaseprio_spec:
  assumes s: "restoring s s" and st: "semcount s sem > 0 \<and> stcb = NULL \<or> semcount s sem \<le> 0 \<and> stcb \<noteq> NULL"
    and lk: "\<not> in_irq \<Longrightarrow> lockcount s (hd (g_readytorun s)) \<noteq> 0"
  obtains r s' where "sem_restorebaseprio in_irq stcb sem s = Some (r, s')" "restoring s s'" "r = Ret 0 \<or> \<not> in_irq \<and> (\<exists>b. r = Suspended b)"
    "\<not> in_irq \<Longrightarrow> r = Ret 0 \<Longrightarrow> hd (g_readytorun s') = hd (g_readytorun s)"
proof (cases in_irq)
  case True
  obtain s' where "sem_foreachholder sem (sem_restoreholderprio True sem stcb) s = Some (Ret 0, s')" "restoring s s'"
    using sem_restore_irq [OF s] by blast
  then show thesis using that [of "Ret 0" "if stcb \<noteq> NULL then s' else s"] True st s
    by (auto simp: sem_restorebaseprio_def sem_restorebaseprio_irq_def debugassert_def)
next
  case False
  let ?r = "hd (g_readytorun s)"
  have hd: "head_of (g_readytorun s) = ?r" using running_facts(1) [OF wf_inv, of s] s by (simp add: restoring_def)
  show thesis
  proof (cases "stcb = NULL")
    case True
    then have "sem_restorebaseprio in_irq stcb sem s = Some (Ret 0, sem_drop_holder ?r sem s)"
      using False st hd by (simp add: sem_restorebaseprio_def sem_restorebaseprio_task_def debugassert_def Let_def)
    then show thesis using that sem_drop_holder_ok [OF s] by simp
  next
    case stcb: False
    obtain s1 where s1: "sem_foreachholder sem (sem_restoreholderprioA sem stcb) s = Some (Ret 0, s1)" "restoring s s1" "hd (g_readytorun s1) = ?r"
      using sem_restore_A [OF s lk [OF False] refl] by blast
    obtain r' s2 where s2: "sem_foreachholder sem (sem_restoreholderprioB sem stcb) s1 = Some (r', s2)" "restoring s s2"
        "r' = Ret 0 \<or> r' = Ret 1 \<or> (\<exists>b. r' = Suspended b)" "(\<exists>b. r' = Suspended b) \<or> hd (g_readytorun s2) = ?r"
      using sem_restore_B [OF s1(2,3)] by blast
    have call: "sem_restorebaseprio in_irq stcb sem s =
        Some (case r' of Suspended b \<Rightarrow> (Suspended b, s2) | Ret _ \<Rightarrow> (Ret 0, sem_drop_holder ?r sem s2))"
      using False st stcb hd s1(1) s2(1)
      by (cases r') (simp_all add: sem_restorebaseprio_def sem_restorebaseprio_task_def debugassert_def Let_def)
    show thesis
    proof (cases r')
      case (Ret x)
      then show thesis using that [of "Ret 0" "sem_drop_holder ?r sem s2"] call sem_drop_holder_ok [OF s2(2)] s2(4) by simp
    next
      case (Suspended b)
      then have "sem_restorebaseprio in_irq stcb sem s = Some (Suspended b, s2)" using call by simp
      from that [OF this s2(2)] show thesis using False by auto
    qed
  qed
qed

section \<open>Waking a task\<close>

lemma waiter_facts:
  assumes "sched_wf s" "t \<in> set (tlist s Waitingforsemaphore)"
  shows "t \<noteq> NULL" "t \<noteq> idle_tcb s" "task_state s t = TSTATE_WAIT_SEM" "t \<in> listed s"
proof -
  have inv: "sched_inv s" by (rule wf_inv [OF assms(1)])
  have "idle_tcb s \<in> set (g_readytorun s)"
    using inv last_in_set [of "g_readytorun s"] by (simp add: sched_inv_def idle_ok_def)
  then show ti: "t \<noteq> idle_tcb s" using only_list [OF inv, of "idle_tcb s" Readytorun Waitingforsemaphore] assms(2) by auto
  show "t \<noteq> NULL" by (rule member_facts(1) [OF inv assms(2) ti])
  show "task_state s t = TSTATE_WAIT_SEM" using inv assms(2) by (auto simp: sched_inv_def states_ok_def)
  show "t \<in> listed s" using assms(2) by (auto simp: listed_def)
qed

lemma sem_wake:
  assumes s: "restoring s s" and t: "t \<in> set (tlist s Waitingforsemaphore)"
  obtains s' where "map_option snd (up_unblock_task t s) = Some s'" "restoring s' s'" "relisted s s'" "listed s' = listed s"
    "set (tlist s' Waitingforsemaphore) = set (tlist s Waitingforsemaphore) - {t}"
    "set (g_readytorun s') \<union> set (g_pendingtasks s') = insert t (set (g_readytorun s) \<union> set (g_pendingtasks s))"
    "made_ready t s s'"
proof -
  have wf: "sched_wf s" "prios_ok s" "holders_ok s" using s by (simp_all add: restoring_def)
  note w = waiter_facts [OF wf(1) t]
  have st: "blocked_state (task_state s t)" using w(3) by simp
  obtain s' where s': "up_unblock_task t s = Some (hd (g_readytorun s') \<noteq> hd (g_readytorun s), s')" "sched_inv s'" "relisted s s'"
    "tlist s' Waitingforsemaphore = remove1 t (tlist s Waitingforsemaphore)"
    "\<And>l'. l' \<noteq> Readytorun \<Longrightarrow> l' \<noteq> Pendingtasks \<Longrightarrow> l' \<noteq> Waitingforsemaphore \<Longrightarrow> tlist s' l' = tlist s l'" "made_ready t s s'"
    using up_unblock_task_spec [OF wf_inv [OF wf(1)] t w(2) st] by blast
  have rn: "set (g_readytorun s') \<union> set (g_pendingtasks s') = insert t (set (g_readytorun s) \<union> set (g_pendingtasks s))"
    using s'(6) by (auto simp: made_ready_def split: if_splits)
  have wl: "set (tlist s' Waitingforsemaphore) = set (tlist s Waitingforsemaphore) - {t}"
    using s'(4) inv_distinct [OF wf_inv [OF wf(1)], of Waitingforsemaphore] by simp
  have li: "listed s' = listed s"
    by (rule listed_move [of Waitingforsemaphore]) (use s'(5) rn wl t in auto)
  have "sched_wf s'" by (rule made_ready_wf [OF wf(1) s'(2,3,6)])
  then have "restoring s' s'" using wf relisted_ok [OF s'(3) li] by (simp add: restoring_def)
  then show thesis using that s' rn wl li by simp
qed

lemma waiting_ok_wake:
  assumes w: "waiting_ok s" and t: "waitsem s t = sem" "sem \<noteq> NULL"
    and s': "waitsem s' = (waitsem s)(t := NULL)" "semcount s' = (semcount s)(sem := semcount s sem + 1)"
      "set (tlist s' Waitingforsemaphore) = set (tlist s Waitingforsemaphore) - {t}"
  shows "waiting_ok s'" "semcount s sem < 0"
proof -
  have c: "card {u. waitsem s u = sem} = nat (- semcount s sem)" using w t(2) by (simp add: waiting_ok_def)
  have fin: "finite {u. waitsem s u = sem}" by (rule waits_card [OF w t(2)])
  have "{u. waitsem s u = sem} \<noteq> {}" using t by auto
  then have "card {u. waitsem s u = sem} > 0" using fin by (simp add: card_gt_0_iff)
  then show neg: "semcount s sem < 0" using c by simp
  have "{u. waitsem s' u = sem} = {u. waitsem s u = sem} - {t}" using t by (auto simp: s'(1))
  then have "card {u. waitsem s' u = sem} = card {u. waitsem s u = sem} - 1" using t by simp
  then have "card {u. waitsem s' u = sem} = nat (- semcount s' sem)" using c neg by (simp add: s'(2) nat_diff_distrib')
  moreover have "{u. waitsem s' u = sem'} = {u. waitsem s u = sem'}" if "sem' \<noteq> sem" "sem' \<noteq> NULL" for sem'
    using that t by (auto simp: s'(1))
  moreover have "semcount s sem + 1 \<le> SEM_VALUE_MAX" using neg by (simp add: SEM_VALUE_MAX_def)
  ultimately show "waiting_ok s'" using w by (auto simp: waiting_ok_def s')
qed

text \<open>A negative count has a waiter, and the first one in the list has the highest priority.\<close>

lemma first_waiter_spec:
  assumes wf: "sched_wf s" and w: "waiting_ok s" and sem: "sem \<noteq> NULL" "semcount s sem < 0"
  shows "first_waiter sem s \<in> set (tlist s Waitingforsemaphore)" "waitsem s (first_waiter sem s) = sem"
    "\<And>t. waitsem s t = sem \<Longrightarrow> sched_priority s t \<le> sched_priority s (first_waiter sem s)"
proof -
  let ?ws = "filter (\<lambda>t. waitsem s t = sem) (tlist s Waitingforsemaphore)"
  have "card {t. waitsem s t = sem} = nat (- semcount s sem)" using w sem by (simp add: waiting_ok_def)
  then have "card {t. waitsem s t = sem} \<noteq> 0" using sem(2) by simp
  then have "{t. waitsem s t = sem} \<noteq> {}" using card.empty by metis
  moreover have all: "t \<in> set ?ws" if "waitsem s t = sem" for t using w that sem(1) by (auto simp: waiting_ok_def)
  ultimately have ne: "?ws \<noteq> []" by fastforce
  then have hd: "first_waiter sem s = hd ?ws" by (simp add: first_waiter_def)
  have in_ws: "hd ?ws \<in> set ?ws" using ne by (rule hd_in_set)
  then show "first_waiter sem s \<in> set (tlist s Waitingforsemaphore)" "waitsem s (first_waiter sem s) = sem" unfolding hd by auto
  have "by_priority s (tlist s Waitingforsemaphore)" using wf_inv [OF wf] by (auto simp: sched_inv_def lists_ok_def)
  then have srt: "sorted_wrt (\<lambda>t u. sched_priority s u \<le> sched_priority s t) ?ws" by (simp add: by_priority_def sorted_wrt_filter)
  show "sched_priority s t \<le> sched_priority s (first_waiter sem s)" if "waitsem s t = sem" for t
    using all [OF that] srt ne unfolding hd by (cases ?ws) auto
qed

lemma sched_unlock_ok:
  assumes s: "restoring s s"
  obtains s' where "sched_unlock in_irq s = Some s'" "restoring s' s'" "semcount s' = semcount s" "waitsem s' = waitsem s" "pterrno s' = pterrno s"
    "set (tlist s' Waitingforsemaphore) = set (tlist s Waitingforsemaphore)" "sched_priority s' = sched_priority s"
    "set (g_readytorun s') \<union> set (g_pendingtasks s') = set (g_readytorun s) \<union> set (g_pendingtasks s)"
    "\<not> in_irq \<Longrightarrow> lockcount s (hd (g_readytorun s)) \<le> 1 \<Longrightarrow> g_pendingtasks s' = []"
    "holder_frame s s'" "base_priority s' = base_priority s" "\<And>t. sched_verifytcb t s' = sched_verifytcb t s"
proof (cases in_irq)
  case True
  then show thesis using that [of s] s by (simp add: sched_unlock_def Let_def)
next
  case False
  have wf: "sched_wf s" "prios_ok s" "holders_ok s" using s by (simp_all add: restoring_def)
  let ?r = "hd (g_readytorun s)"
  define s1 where "s1 = s\<lparr>lockcount := (lockcount s)(?r := lockcount s ?r - 1)\<rparr>"
  obtain s' where s': "sched_unlock False s = Some s'" "sched_wf s'" "relisted s1 s'"
    "if lockcount s ?r \<le> 1
     then g_pendingtasks s' = [] \<and> g_readytorun s' = prio_merge (sched_priority s) (g_pendingtasks s) (g_readytorun s)
     else tlist s' = tlist s" "\<And>l. l \<noteq> Readytorun \<Longrightarrow> l \<noteq> Pendingtasks \<Longrightarrow> tlist s' l = tlist s l"
    by (rule sched_unlock_spec [OF wf(1), folded s1_def]) (rule that)
  have rn: "set (g_readytorun s') \<union> set (g_pendingtasks s') = set (g_readytorun s) \<union> set (g_pendingtasks s)"
    using s'(4) by (auto split: if_splits)
  have l1: "listed s1 = listed s" by (simp add: s1_def listed_def)
  have "listed s' = listed s1" unfolding l1 by (rule listed_eq) (use s'(5) rn in auto)
  then have "prios_ok s'" "holders_ok s'"
    using wf relisted_ok [OF s'(3)] l1 by (simp_all add: s1_def prios_ok_def holders_ok_def sched_verifytcb_def)
  then have re: "restoring s' s'" using s'(2) by (simp add: restoring_def)
  show thesis
    by (rule that [of s'])
      (use s' re rn relisted_frames [OF s'(3)] relisted_fields [OF s'(3)] False in
        \<open>auto simp: s1_def holder_frame_def sched_verifytcb_def split: if_splits\<close>)
qed

text \<open>Counts, waiting records and error codes are not part of the scheduler and holder invariants.\<close>

lemma aux_ok:
  assumes "restoring s s"
  shows "restoring (s\<lparr>semcount := a, waitsem := b, pterrno := c\<rparr>) (s\<lparr>semcount := a, waitsem := b, pterrno := c\<rparr>)"
  using assms sched_wf_cong [of "s\<lparr>semcount := a, waitsem := b, pterrno := c\<rparr>" s]
  by (simp add: restoring_def prios_ok_def holders_ok_def listed_def sched_verifytcb_def)

lemma aux_semcount: "s\<lparr>semcount := a\<rparr> = s\<lparr>semcount := a, waitsem := waitsem s, pterrno := pterrno s\<rparr>"
  and aux_waitsem: "s\<lparr>waitsem := b\<rparr> = s\<lparr>semcount := semcount s, waitsem := b, pterrno := pterrno s\<rparr>"
  and aux_pterrno: "s\<lparr>pterrno := c\<rparr> = s\<lparr>semcount := semcount s, waitsem := waitsem s, pterrno := c\<rparr>"
  by simp_all

lemma aux_ok1:
  assumes "restoring s s"
  shows "restoring (s\<lparr>semcount := a\<rparr>) (s\<lparr>semcount := a\<rparr>)" "restoring (s\<lparr>waitsem := b\<rparr>) (s\<lparr>waitsem := b\<rparr>)"
    "restoring (s\<lparr>pterrno := c\<rparr>) (s\<lparr>pterrno := c\<rparr>)"
  by (subst (1 2) aux_semcount aux_waitsem aux_pterrno, rule aux_ok [OF assms])+

lemma sched_lock_ok:
  assumes s: "restoring s s" and lc: "\<not> in_irq \<Longrightarrow> lockcount s (hd (g_readytorun s)) < MAX_LOCK_COUNT"
  obtains s' where "sched_lock in_irq s = Some s'" "restoring s' s'" "\<exists>f. s' = s\<lparr>lockcount := f\<rparr>"
    "\<not> in_irq \<Longrightarrow> lockcount s' (hd (g_readytorun s)) = lockcount s (hd (g_readytorun s)) + 1"
proof (cases in_irq)
  case True
  moreover have "\<exists>f. s = s\<lparr>lockcount := f\<rparr>" by (rule exI [of _ "lockcount s"]) simp
  ultimately show thesis using that [of s] s by (simp add: sched_lock_def Let_def)
next
  case False
  let ?s = "s\<lparr>lockcount := (lockcount s)(hd (g_readytorun s) := lockcount s (hd (g_readytorun s)) + 1)\<rparr>"
  have wf: "sched_wf s" "prios_ok s" "holders_ok s" using s by (simp_all add: restoring_def)
  have "restoring ?s ?s" using wf sched_lock_spec(2) [OF wf(1) lc [OF False]]
    by (simp add: restoring_def prios_ok_def holders_ok_def listed_def sched_verifytcb_def)
  moreover have "\<exists>f. ?s = s\<lparr>lockcount := f\<rparr>" by (rule exI) (rule refl)
  ultimately show thesis using that [of ?s] sched_lock_spec(1) [OF wf(1) lc [OF False]] False by simp
qed

lemma task_frame_ok:
  assumes "restoring s s" "holders_ok s'" "task_frame s s'"
  shows "restoring s' s'" "semcount s' = semcount s" "waitsem s' = waitsem s" "pterrno s' = pterrno s" "tlist s' = tlist s"
    "sched_priority s' = sched_priority s" "lockcount s' = lockcount s" "listed s' = listed s" "idle_tcb s' = idle_tcb s"
  using assms task_frame_wf [OF assms(3)] prios_ok_frame [of s s'] by (auto simp: restoring_def task_frame_def sem_frame_def)

lemma sem_inv_restoring: "sem_inv s \<longleftrightarrow> restoring s s \<and> waiting_ok s"
  by (auto simp: sem_inv_def restoring_def)

text \<open>The holders of the other semaphores, base priorities and the tasks that are alive.\<close>

definition others_frame :: "addr \<Rightarrow> 'a sem_state_scheme \<Rightarrow> 'a sem_state_scheme \<Rightarrow> bool" where
  "others_frame sem s s' \<longleftrightarrow> base_priority s' = base_priority s \<and> (\<forall>t. sched_verifytcb t s' = sched_verifytcb t s) \<and>
     (\<forall>sem'. sem' \<noteq> sem \<longrightarrow> hlist s' sem' = hlist s sem' \<and> (\<forall>q \<in> set (hlist s sem'). htcb s' q = htcb s q))"

lemma others_frame_trans: "others_frame sem s s' \<Longrightarrow> others_frame sem s' s'' \<Longrightarrow> others_frame sem s s''"
  by (simp add: others_frame_def)

lemma others_frameI: "sem_frame s s' \<Longrightarrow> holder_frame s s' \<Longrightarrow> others_frame sem s s'"
  by (simp add: others_frame_def verifytcb_frame) (simp add: sem_frame_def holder_frame_def)

lemma others_frame_free:
  assumes "holders_ok s" "p \<in> set (hlist s sem)"
  shows "others_frame sem s (sem_freeholder sem p s)"
  using holders_ok_facts(6) [OF assms(1), of _ sem] assms(2) sem_freeholder_frame(1) [of s sem p]
  unfolding others_frame_def sem_freeholder_ok(2,3) [OF assms] by (auto simp: verifytcb_frame) (auto simp: sem_frame_def)

text \<open>Task \<open>w\<close> was handed the semaphore; no priority has changed yet.\<close>

definition handed :: "addr \<Rightarrow> addr \<Rightarrow> 'a sem_state_scheme \<Rightarrow> 'a sem_state_scheme \<Rightarrow> bool" where
  "handed w sem s s' \<longleftrightarrow> others_frame sem s s' \<and> sched_priority s' = sched_priority s \<and> npend_reprio s' = npend_reprio s \<and>
     (g_freeholders s \<noteq> [] \<longrightarrow> w \<in> htcb s' ` set (hlist s' sem))"

text \<open>\<open>sem_post\<close> up to the restoration of the holders.\<close>

lemma sem_post_wake:
  assumes s: "restoring s s" and w: "waiting_ok s" and sem: "sem \<noteq> NULL" "semcount s sem < 0"
    and s2: "restoring s2 s2" "tlist s2 = tlist s" "waitsem s2 = waitsem s" "sched_priority s2 = sched_priority s" "lockcount s2 (hd (g_readytorun s)) \<noteq> 0 \<or> in_irq"
      "semcount s2 = (semcount s)(sem := semcount s sem + 1)"
  obtains s' where "map_option snd (up_unblock_task (first_waiter sem s) (set_waitsem (first_waiter sem s) NULL (sem_addholder_tcb (first_waiter sem s) sem s2))) = Some s'"
    "restoring s' s'" "waiting_ok s'" "semcount s' = (semcount s)(sem := semcount s sem + 1)"
    "waitsem s' = (waitsem s)(first_waiter sem s := NULL)" "lockcount s' = lockcount s2" "sched_priority s' = sched_priority s"
    "set (g_readytorun s') \<union> set (g_pendingtasks s') = insert (first_waiter sem s) (set (g_readytorun s) \<union> set (g_pendingtasks s))"
    "lockcount s2 (hd (g_readytorun s)) \<noteq> 0 \<Longrightarrow> hd (g_readytorun s') = hd (g_readytorun s)"
    "handed (first_waiter sem s) sem s2 s'"
proof -
  let ?w = "first_waiter sem s"
  have wf: "sched_wf s" using s by (simp add: restoring_def)
  note fw = first_waiter_spec [OF wf w sem]
  note r2 = restoringD [OF s2(1)]
  have w2: "?w \<in> set (tlist s2 Waitingforsemaphore)" using fw(1) s2(2) by simp
  note wf2 = waiter_facts [OF r2(1) w2]
  define s3 where "s3 = sem_addholder_tcb ?w sem s2"
  note ah = sem_addholder_tcb_ok [OF r2(3) wf2(1,4,2), where sem = sem, folded s3_def]
  note t3 = task_frame_ok [OF s2(1) ah(1,2)]
  define s4 where "s4 = set_waitsem ?w NULL s3"
  have r4: "restoring s4 s4" using aux_ok1(2) [OF t3(1)] by (simp add: s4_def)
  have f4: "tlist s4 = tlist s" "semcount s4 = (semcount s)(sem := semcount s sem + 1)" "waitsem s4 = (waitsem s)(?w := NULL)"
    "lockcount s4 = lockcount s2" "sched_priority s4 = sched_priority s" using t3 s2 by (simp_all add: s4_def)
  have w4: "?w \<in> set (tlist s4 Waitingforsemaphore)" using fw(1) f4(1) by simp
  obtain s' where s': "map_option snd (up_unblock_task ?w s4) = Some s'" "restoring s' s'" "relisted s4 s'" "listed s' = listed s4"
    "set (tlist s' Waitingforsemaphore) = set (tlist s4 Waitingforsemaphore) - {?w}"
    "set (g_readytorun s') \<union> set (g_pendingtasks s') = insert ?w (set (g_readytorun s4) \<union> set (g_pendingtasks s4))"
    "made_ready ?w s4 s'"
    by (rule sem_wake [OF r4 w4]) (rule that)
  note fr = relisted_frames [OF s'(3)] relisted_fields [OF s'(3)]
  have c': "semcount s' = (semcount s)(sem := semcount s sem + 1)" "waitsem s' = (waitsem s)(?w := NULL)" using fr f4 by simp_all
  have "waiting_ok s'" using waiting_ok_wake(1) [OF w fw(2) sem(1) c'(2,1)] s'(5) f4(1) by simp
  moreover have "hd (g_readytorun s') = hd (g_readytorun s)" if "lockcount s2 (hd (g_readytorun s)) \<noteq> 0"
    using s'(7) that readytorun_nonempty [OF wf_inv [OF wf]] by (auto simp: made_ready_def f4 hd_walk_insert split: if_splits)
  moreover have "handed ?w sem s2 s'"
    using ah(2-5) fr unfolding handed_def others_frame_def s4_def
    by (auto simp: task_frame_def sem_frame_def reprio_frame_def holder_frame_def sched_verifytcb_def)
  ultimately show thesis using that [of s'] s'(1,2,6) c' fr f4 by (simp add: s3_def s4_def)
qed

text \<open>The tasks that can run.\<close>

abbreviation runnable :: "'a sched_state_scheme \<Rightarrow> addr set" where
  "runnable s \<equiv> set (g_readytorun s) \<union> set (g_pendingtasks s)"

text \<open>What \<open>sem_post\<close> achieves, whether or not it is suspended on the way.\<close>

definition posted :: "addr \<Rightarrow> 'a sem_state_scheme \<Rightarrow> 'a sem_state_scheme \<Rightarrow> bool" where
  "posted sem s s' \<longleftrightarrow> semcount s' = (semcount s)(sem := semcount s sem + 1) \<and>
     (if semcount s sem < 0 then waitsem s' = (waitsem s)(first_waiter sem s := NULL) \<and> runnable s' = insert (first_waiter sem s) (runnable s)
      else waitsem s' = waitsem s \<and> runnable s' = runnable s)"

lemma restoring_posted:
  assumes "restoring s2 s" "posted sem s0 s2" "waiting_ok s2"
  shows "posted sem s0 s" "waiting_ok s"
  using assms waiting_ok_frame [of s2 s] by (simp_all add: posted_def restoring_def sem_frame_def)

lemma sem_post_prefix:
  assumes inv: "sem_inv s" and sem: "sem \<noteq> NULL" "semcount s sem < SEM_VALUE_MAX"
    and lc: "\<not> in_irq \<Longrightarrow> lockcount s (hd (g_readytorun s)) < MAX_LOCK_COUNT"
  obtains s3 stcb where "sem_post in_irq sem s = do {
        (r, s) \<leftarrow> sem_restorebaseprio in_irq stcb sem s3;
        case r of Suspended b \<Rightarrow> Some (Suspended b, s)
        | Ret _ \<Rightarrow> do { s \<leftarrow> sched_unlock in_irq s; Some (Ret 0, s) } }"
    "restoring s3 s3" "waiting_ok s3" "posted sem s s3" "semcount s3 sem > 0 \<and> stcb = NULL \<or> semcount s3 sem \<le> 0 \<and> stcb \<noteq> NULL"
    "\<not> in_irq \<Longrightarrow> hd (g_readytorun s3) = hd (g_readytorun s) \<and> lockcount s3 (hd (g_readytorun s)) = lockcount s (hd (g_readytorun s)) + 1"
    "semcount s sem < 0 \<Longrightarrow> handed (first_waiter sem s) sem s s3"
proof -
  let ?r = "hd (g_readytorun s)" and ?w = "first_waiter sem s"
  have s: "restoring s s" and w: "waiting_ok s" using inv by (simp_all add: sem_inv_restoring)
  define s1 where "s1 = set_semcount sem (semcount s sem + 1) (sem_releaseholder sem s)"
  note rh = sem_releaseholder_ok [where sem = sem and s = s]
  have ho: "holders_ok (sem_releaseholder sem s)" using s rh(1) by (simp add: restoring_def)
  note t0 = task_frame_ok [OF s ho rh(2)]
  have r1: "restoring s1 s1" using aux_ok1(1) [OF t0(1)] by (simp add: s1_def)
  have f1: "tlist s1 = tlist s" "waitsem s1 = waitsem s" "sched_priority s1 = sched_priority s" "lockcount s1 = lockcount s"
    "semcount s1 = (semcount s)(sem := semcount s sem + 1)" using t0 by (simp_all add: s1_def)
  obtain s2 where s2: "sched_lock in_irq s1 = Some s2" "restoring s2 s2" "\<exists>f. s2 = s1\<lparr>lockcount := f\<rparr>"
      "\<not> in_irq \<Longrightarrow> lockcount s2 (hd (g_readytorun s1)) = lockcount s1 (hd (g_readytorun s1)) + 1"
    by (rule sched_lock_ok [OF r1, of in_irq]) (use lc f1 in auto)
  have f2: "tlist s2 = tlist s" "waitsem s2 = waitsem s" "sched_priority s2 = sched_priority s" "semcount s2 = (semcount s)(sem := semcount s sem + 1)"
    using s2(3) f1 by auto
  have fw: "first_waiter sem s2 = ?w" by (simp add: first_waiter_def f2)
  have start: "semcount (sem_releaseholder sem s) = semcount s" by (rule t0(2))
  show thesis
  proof (cases "semcount s sem < 0")
    case neg: True
    have lk2: "lockcount s2 ?r \<noteq> 0 \<or> in_irq" using s2(4) f1 by (cases in_irq) auto
    have wn: "?w \<noteq> NULL" using first_waiter_spec(1) [OF restoringD(1) [OF s] w sem(1) neg] waiter_facts(1) [OF restoringD(1) [OF s]] by blast
    obtain s3 where s3: "map_option snd (up_unblock_task ?w (set_waitsem ?w NULL (sem_addholder_tcb ?w sem s2))) = Some s3"
        "restoring s3 s3" "waiting_ok s3" "semcount s3 = (semcount s)(sem := semcount s sem + 1)"
        "waitsem s3 = (waitsem s)(?w := NULL)" "lockcount s3 = lockcount s2" "sched_priority s3 = sched_priority s"
        "runnable s3 = insert ?w (runnable s)" "lockcount s2 ?r \<noteq> 0 \<Longrightarrow> hd (g_readytorun s3) = ?r" "handed ?w sem s2 s3"
      by (rule sem_post_wake [OF s w sem(1) neg s2(2) f2(1-3) lk2 f2(4)]) (rule that)
    show thesis
    proof (rule that [of ?w s3])
      show "restoring s3 s3" "waiting_ok s3" by (rule s3(2), rule s3(3))
      show "posted sem s s3" using neg s3(4,5,8) by (simp add: posted_def)
      show "semcount s3 sem > 0 \<and> ?w = NULL \<or> semcount s3 sem \<le> 0 \<and> ?w \<noteq> NULL" using neg wn s3(4) by simp
      show "hd (g_readytorun s3) = ?r \<and> lockcount s3 ?r = lockcount s ?r + 1" if "\<not> in_irq"
        using s3(6,9) s2(4) [OF that] f1 by simp
      obtain hc where "sem_releaseholder sem s = s\<lparr>hcounts := hc\<rparr>" by (rule sem_releaseholder_counts)
      then show "handed ?w sem s s3" using s3(10) s2(3) by (auto simp: s1_def handed_def others_frame_def sched_verifytcb_def)
    qed (use sem neg s2(1) s3(1) fw f2(4) wn in \<open>auto simp: sem_post_def debugassert_def Let_def start s1_def\<close>)
  next
    case False
    have "waiting_ok s2" using w False sem f2 by (auto simp: waiting_ok_def)
    show thesis
    proof (rule that [of NULL s2])
      show "restoring s2 s2" "waiting_ok s2" by fact+
      show "posted sem s s2" using False by (simp add: posted_def f2)
      show "semcount s2 sem > 0 \<and> NULL = NULL \<or> semcount s2 sem \<le> 0 \<and> NULL \<noteq> NULL" using False by (simp add: f2)
      show "hd (g_readytorun s2) = ?r \<and> lockcount s2 ?r = lockcount s ?r + 1" if "\<not> in_irq"
        using s2(4) [OF that] f1 f2 by simp
      show "handed ?w sem s s2" if "semcount s sem < 0" using that False by simp
    qed (use sem False s2(1) f2(4) in \<open>simp add: sem_post_def debugassert_def Let_def start s1_def\<close>)
  qed
qed

lemma sem_post_spec:
  assumes inv: "sem_inv s" and sem: "sem \<noteq> NULL" "semcount s sem < SEM_VALUE_MAX"
    and lc: "\<not> in_irq \<Longrightarrow> lockcount s (hd (g_readytorun s)) < MAX_LOCK_COUNT"
  obtains r s' where "sem_post in_irq sem s = Some (r, s')" "sem_inv s'" "posted sem s s'" "r = Ret 0 \<or> \<not> in_irq \<and> (\<exists>b. r = Suspended b)"
    "\<not> in_irq \<Longrightarrow> r = Ret 0 \<Longrightarrow> lockcount s (hd (g_readytorun s)) = 0 \<Longrightarrow> g_pendingtasks s' = []"
proof -
  let ?r = "hd (g_readytorun s)"
  obtain s3 stcb where s3: "sem_post in_irq sem s = do {
        (r, s) \<leftarrow> sem_restorebaseprio in_irq stcb sem s3;
        case r of Suspended b \<Rightarrow> Some (Suspended b, s)
        | Ret _ \<Rightarrow> do { s \<leftarrow> sched_unlock in_irq s; Some (Ret 0, s) } }"
    "restoring s3 s3" "waiting_ok s3" "posted sem s s3" "semcount s3 sem > 0 \<and> stcb = NULL \<or> semcount s3 sem \<le> 0 \<and> stcb \<noteq> NULL"
    "\<not> in_irq \<Longrightarrow> hd (g_readytorun s3) = ?r \<and> lockcount s3 ?r = lockcount s ?r + 1"
    by (rule sem_post_prefix [OF inv sem lc]) (assumption, rule that)
  have lk: "\<not> in_irq \<Longrightarrow> lockcount s3 (hd (g_readytorun s3)) \<noteq> 0" using s3(6) by simp
  obtain r s4 where s4: "sem_restorebaseprio in_irq stcb sem s3 = Some (r, s4)" "restoring s3 s4" "r = Ret 0 \<or> \<not> in_irq \<and> (\<exists>b. r = Suspended b)"
    "\<not> in_irq \<Longrightarrow> r = Ret 0 \<Longrightarrow> hd (g_readytorun s4) = hd (g_readytorun s3)"
    by (rule sem_restorebaseprio_spec [OF s3(2,5) lk]) (assumption, rule that)
  note p4 = restoring_posted [OF s4(2) s3(4,3)]
  note r4 = restoringD [OF s4(2)]
  show thesis
  proof (cases "r = Ret 0")
    case True
    obtain s5 where s5: "sched_unlock in_irq s4 = Some s5" "restoring s5 s5" "semcount s5 = semcount s4" "waitsem s5 = waitsem s4" "pterrno s5 = pterrno s4"
        "set (tlist s5 Waitingforsemaphore) = set (tlist s4 Waitingforsemaphore)" "sched_priority s5 = sched_priority s4"
        "runnable s5 = runnable s4"
        "\<not> in_irq \<Longrightarrow> lockcount s4 (hd (g_readytorun s4)) \<le> 1 \<Longrightarrow> g_pendingtasks s5 = []"
      by (rule sched_unlock_ok [OF r4(5), of in_irq]) (rule that)
    have "sem_inv s5" using s5 p4(2) by (simp add: sem_inv_restoring waiting_ok_def)
    moreover have "posted sem s s5" using p4(1) s5 by (simp add: posted_def)
    moreover have "sem_post in_irq sem s = Some (Ret 0, s5)" using s3(1) s4(1) True s5(1) by simp
    moreover have "g_pendingtasks s5 = []" if "\<not> in_irq" "lockcount s ?r = 0"
      using s5(9) s4(4) [OF that(1) True] s3(6) that r4(4) by (simp add: sem_frame_def)
    ultimately show thesis using that [of "Ret 0" s5] by simp
  next
    case False
    then obtain b where b: "r = Suspended b" "\<not> in_irq" using s4(3) by auto
    have "sem_post in_irq sem s = Some (Suspended b, s4)" using s3(1) s4(1) b by simp
    moreover have "sem_inv s4" using p4(2) r4(5) by (simp add: sem_inv_restoring)
    ultimately show thesis using that [of "Suspended b" s4] p4(1) b by auto
  qed
qed

section \<open>Taking a semaphore, time-outs and interrupt handlers\<close>

lemma running_user:
  assumes "sched_wf s" "hd (g_readytorun s) \<noteq> idle_tcb s"
  shows "hd (g_readytorun s) \<noteq> NULL" "hd (g_readytorun s) \<in> listed s"
  using running_facts [OF wf_inv [OF assms(1)]] member_facts(1) [OF wf_inv [OF assms(1)] _ assms(2), of Readytorun] by (auto simp: listed_def)

text \<open>The semaphore is taken: the count goes down and the running task is a holder.\<close>

lemma sem_take:
  assumes inv: "sem_inv s" and sem: "semcount s sem > 0" and r: "hd (g_readytorun s) \<noteq> idle_tcb s"
    and s1: "s1 = set_semcount sem (semcount s sem - 1) (s\<lparr>pterrno := e\<rparr>)"
    and s2: "s2 = set_waitsem (hd (g_readytorun s)) NULL (if h then sem_addholder sem s1 else s1)"
  shows "sem_inv s2" "semcount s2 = (semcount s)(sem := semcount s sem - 1)" "waitsem s2 = waitsem s" "tlist s2 = tlist s"
proof -
  let ?r = "hd (g_readytorun s)"
  have s: "restoring s s" and w: "waiting_ok s" using inv by (simp_all add: sem_inv_restoring)
  have r1: "restoring s1 s1" unfolding s1 using aux_ok1(1) [OF aux_ok1(3) [OF s, of e]] .
  have wf1: "sched_wf s1" "holders_ok s1" using r1 by (simp_all add: restoring_def)
  have f1: "tlist s1 = tlist s" "idle_tcb s1 = idle_tcb s" "waitsem s1 = waitsem s" "semcount s1 = (semcount s)(sem := semcount s sem - 1)"
    by (simp_all add: s1)
  have ru: "?r \<noteq> NULL" "?r \<in> listed s1" "head_of (g_readytorun s1) = ?r"
    using running_user [OF wf1(1)] running_facts(1) [OF wf_inv [OF wf1(1)]] r f1 by simp_all
  let ?s = "if h then sem_addholder sem s1 else s1"
  have "restoring ?s ?s \<and> semcount ?s = semcount s1 \<and> waitsem ?s = waitsem s1 \<and> tlist ?s = tlist s1"
  proof (cases h)
    case True
    note ah = sem_addholder_tcb_ok [OF wf1(2) ru(1,2), of sem]
    then show ?thesis using True r f1(2) ru(3) task_frame_ok [OF r1 ah(1,2)] by (simp add: sem_addholder_def)
  qed (use r1 in simp)
  then have a: "restoring ?s ?s" "semcount ?s = semcount s1" "waitsem ?s = waitsem s1" "tlist ?s = tlist s1" by simp_all
  have wr: "(waitsem s)(?r := NULL) = waitsem s" using running_not_waiting [OF inv] by auto
  have r2: "restoring s2 s2" unfolding s2 by (rule aux_ok1(2) [OF a(1)])
  show c: "semcount s2 = (semcount s)(sem := semcount s sem - 1)" "waitsem s2 = waitsem s" "tlist s2 = tlist s"
    using a(2-4) f1 wr by (simp_all add: s2)
  have "nat (- (semcount s sem - 1)) = nat (- semcount s sem)" "semcount s sem - 1 \<le> SEM_VALUE_MAX"
    using sem w by (simp, simp add: waiting_ok_def) (meson order_trans less_imp_le less_add_one diff_le_eq)
  then have "waiting_ok s2" using w by (simp add: waiting_ok_def c)
  then show "sem_inv s2" using r2 by (simp add: sem_inv_restoring)
qed

lemma sem_trywait_spec:
  assumes inv: "sem_inv s" and r: "hd (g_readytorun s) \<noteq> idle_tcb s"
  obtains s' where "sem_trywait sem s = (sem \<noteq> NULL \<and> semcount s sem > 0, s')" "sem_inv s'" "waitsem s' = waitsem s" "tlist s' = tlist s"
    "semcount s' = (if sem \<noteq> NULL \<and> semcount s sem > 0 then (semcount s)(sem := semcount s sem - 1) else semcount s)"
    "\<not> (sem \<noteq> NULL \<and> semcount s sem > 0) \<Longrightarrow> pterrno s' (hd (g_readytorun s)) = (if sem = NULL then EINVAL else EAGAIN)"
proof -
  let ?r = "hd (g_readytorun s)"
  have s: "restoring s s" "waiting_ok s" using inv by (simp_all add: sem_inv_restoring)
  have hd: "head_of (g_readytorun s) = ?r" using running_facts(1) [OF wf_inv [OF restoringD(1) [OF s(1)]]] .
  show thesis
  proof (cases "sem \<noteq> NULL \<and> semcount s sem > 0")
    case True
    define s1 where "s1 = set_semcount sem (semcount s sem - 1) (s\<lparr>pterrno := (pterrno s)(?r := EINVAL, ?r := EAGAIN)\<rparr>)"
    define s2 where "s2 = set_waitsem ?r NULL (sem_addholder sem s1)"
    have call: "sem_trywait sem s = (True, s2)" using True hd by (simp add: sem_trywait_def Let_def s1_def s2_def)
    have "semcount s sem > 0" "s2 = set_waitsem ?r NULL (if True then sem_addholder sem s1 else s1)" using True by (simp_all add: s2_def)
    note t = sem_take [OF inv this(1) r s1_def this(2)]
    show thesis using that [of s2] call t True by simp
  next
    case False
    let ?s = "s\<lparr>pterrno := (pterrno s)(?r := if sem = NULL then EINVAL else EAGAIN)\<rparr>"
    have "sem_trywait sem s = (False, ?s)" using False hd by (auto simp: sem_trywait_def Let_def)
    moreover have "sem_inv ?s" using aux_ok1(3) [OF s(1)] s(2) by (simp add: sem_inv_restoring waiting_ok_def)
    ultimately show thesis using that [of ?s] False by auto
  qed
qed

lemma sem_wait_takes:
  assumes inv: "sem_inv s" and sem: "sem \<noteq> NULL" "semcount s sem > 0" and r: "hd (g_readytorun s) \<noteq> idle_tcb s"
  obtains s' where "sem_wait sem s = Some (Done True, s')" "sem_inv s'" "semcount s' = (semcount s)(sem := semcount s sem - 1)"
    "waitsem s' = waitsem s" "tlist s' = tlist s"
proof -
  let ?r = "hd (g_readytorun s)"
  have hd: "head_of (g_readytorun s) = ?r" using running_facts(1) [OF wf_inv, of s] inv by (simp add: sem_inv_def)
  define s1 where "s1 = set_semcount sem (semcount s sem - 1) (s\<lparr>pterrno := (pterrno s)(?r := EINVAL)\<rparr>)"
  define s2 where "s2 = set_waitsem ?r NULL (sem_addholder sem s1)"
  have call: "sem_wait sem s = Some (Done True, s2)" using sem hd by (simp add: sem_wait_def Let_def s1_def s2_def)
  have "s2 = set_waitsem ?r NULL (if True then sem_addholder sem s1 else s1)" by (simp add: s2_def)
  from that [OF call] sem_take [OF inv sem(2) r s1_def this] show thesis by simp
qed

lemma sem_wait_for_isr_spec:
  assumes inv: "sem_inv s" and sem: "sem \<noteq> NULL" and r: "hd (g_readytorun s) \<noteq> idle_tcb s"
  obtains s' where "sem_wait_for_isr sem s = Some (if semcount s sem > 0 then Done True else Switched, s')" "sem_inv s'"
    "semcount s' = (semcount s)(sem := semcount s sem - 1)"
    "waitsem s' = (if semcount s sem > 0 then waitsem s else (waitsem s)(hd (g_readytorun s) := sem))"
proof -
  let ?r = "hd (g_readytorun s)"
  have s: "restoring s s" and w: "waiting_ok s" using inv by (simp_all add: sem_inv_restoring)
  have hd: "head_of (g_readytorun s) = ?r" using running_facts(1) [OF wf_inv [OF restoringD(1) [OF s]]] .
  show thesis
  proof (cases "semcount s sem > 0")
    case True
    define s1 where "s1 = set_semcount sem (semcount s sem - 1) (s\<lparr>pterrno := (pterrno s)(?r := EINVAL)\<rparr>)"
    define s2 where "s2 = set_waitsem ?r NULL s1"
    have call: "sem_wait_for_isr sem s = Some (Done True, s2)" using sem hd True by (simp add: sem_wait_for_isr_def Let_def s1_def s2_def)
    have "s2 = set_waitsem ?r NULL (if False then sem_addholder sem s1 else s1)" by (simp add: s2_def)
    from that [of s2] call sem_take [OF inv True r s1_def this] True show thesis by simp
  next
    case False
    define s4 where "s4 = s\<lparr>semcount := (semcount s)(sem := semcount s sem - 1), waitsem := (waitsem s)(?r := sem), pterrno := (pterrno s)(?r := 0)\<rparr>"
    have r4: "restoring s4 s4" unfolding s4_def by (rule aux_ok [OF s])
    have f4: "tlist s4 = tlist s" "idle_tcb s4 = idle_tcb s" by (simp_all add: s4_def)
    then have "?r = hd (g_readytorun s4)" "?r \<noteq> idle_tcb s4" using r by simp_all
    then obtain b s5 where s5: "up_block_task ?r TSTATE_WAIT_SEM s4 = Some (b, s5)" "restoring s5 s5" "relisted s4 s5"
      "set (tlist s5 Waitingforsemaphore) = insert ?r (set (tlist s4 Waitingforsemaphore))"
      by (rule sem_block [OF r4])
    have "s\<lparr>pterrno := (pterrno s)(?r := EINVAL), semcount := (semcount s)(sem := semcount s sem - 1), waitsem := (waitsem s)(?r := sem),
        pterrno := (pterrno s)(?r := EINVAL, ?r := 0)\<rparr> = s4" by (simp add: s4_def)
    then have call: "sem_wait_for_isr sem s = Some (Switched, s5)"
      using sem False running_not_waiting [OF inv] hd s5(1) by (simp add: sem_wait_for_isr_def debugassert_def Let_def s4_def)
    note fr5 = relisted_fields [OF s5(3)] relisted_frames [OF s5(3)]
    have sc: "semcount s5 = (semcount s)(sem := semcount s sem - 1)" "waitsem s5 = (waitsem s)(?r := sem)" using fr5 by (simp_all add: s4_def)
    have "waiting_ok s5" using waiting_ok_block [OF w running_not_waiting [OF inv] sem _ sc(2,1)] s5(4) f4(1) False by simp
    then have "sem_inv s5" using s5(2) by (simp add: sem_inv_restoring)
    then show thesis using that [of s5] call sc False by simp
  qed
qed

lemma sem_waitirq_spec:
  assumes inv: "sem_inv s" and t: "t \<in> set (tlist s Waitingforsemaphore)"
  obtains s' where "sem_waitirq t e s = Some s'" "sem_inv s'" "semcount s' = (semcount s)(waitsem s t := semcount s (waitsem s t) + 1)"
    "waitsem s' = (waitsem s)(t := NULL)" "pterrno s' = (pterrno s)(t := e)" "runnable s' = insert t (runnable s)" "semcount s (waitsem s t) < 0"
proof -
  let ?sem = "waitsem s t"
  have s: "restoring s s" and w: "waiting_ok s" using inv by (simp_all add: sem_inv_restoring)
  have st: "task_state s t = TSTATE_WAIT_SEM" using waiter_facts(3) [OF restoringD(1) [OF s] t] .
  have sem: "?sem \<noteq> NULL" using w t by (auto simp: waiting_ok_def)
  have neg: "semcount s ?sem < 0"
  proof -
    have "card {u. waitsem s u = ?sem} \<noteq> 0" using waits_card [OF w sem] by auto
    moreover have "card {u. waitsem s u = ?sem} = nat (- semcount s ?sem)" using w sem by (simp add: waiting_ok_def)
    ultimately show ?thesis by simp
  qed
  obtain s1 where s1: "sem_foreachholder ?sem (sem_restoreholderprio True ?sem t) s = Some (Ret 0, s1)" "restoring s s1"
    using sem_restore_irq [OF s] by blast
  note d1 = restoringD [OF s1(2)]
  define s2 where "s2 = set_errno t e (set_waitsem t NULL (set_semcount ?sem (semcount s1 ?sem + 1) s1))"
  have r2: "restoring s2 s2" unfolding s2_def by (rule aux_ok1(3) [OF aux_ok1(2) [OF aux_ok1(1) [OF d1(5)]]])
  have f2: "semcount s2 = (semcount s)(?sem := semcount s ?sem + 1)" "waitsem s2 = (waitsem s)(t := NULL)" "pterrno s2 = (pterrno s)(t := e)"
    "set (tlist s2 Waitingforsemaphore) = set (tlist s Waitingforsemaphore)" "runnable s2 = runnable s"
    using d1(4) by (simp_all add: s2_def sem_frame_def)
  have t2: "t \<in> set (tlist s2 Waitingforsemaphore)" using t f2(4) by simp
  obtain s3 where s3: "map_option snd (up_unblock_task t s2) = Some s3" "restoring s3 s3" "relisted s2 s3" "listed s3 = listed s2"
    "set (tlist s3 Waitingforsemaphore) = set (tlist s2 Waitingforsemaphore) - {t}" "runnable s3 = insert t (runnable s2)" "made_ready t s2 s3"
    by (rule sem_wake [OF r2 t2]) (rule that)
  note fr = relisted_frames [OF s3(3)]
  have "semcount s1 = semcount s" using d1(4) by (simp add: sem_frame_def)
  then have call: "sem_waitirq t e s = Some s3"
    using st sem neg s1(1) s3(1) by (auto simp: sem_waitirq_def sem_canceled_def debugassert_def Let_def s2_def)
  have c: "semcount s3 = (semcount s)(?sem := semcount s ?sem + 1)" "waitsem s3 = (waitsem s)(t := NULL)" "pterrno s3 = (pterrno s)(t := e)"
    using fr f2 by simp_all
  have "waiting_ok s3" using waiting_ok_wake(1) [OF w refl sem c(2,1)] s3(5) f2(4) by simp
  then show thesis using that [OF call _ c] s3(2,6) f2(5) neg by (simp add: sem_inv_restoring)
qed

lemma sem_post_from_isr_spec:
  assumes inv: "sem_inv s" and sem: "sem \<noteq> NULL" "semcount s sem < SEM_VALUE_MAX"
  obtains s' where "sem_post_from_isr sem s = Some (True, s')" "sem_inv s'" "posted sem s s'"
proof -
  let ?w = "first_waiter sem s"
  have s: "restoring s s" and w: "waiting_ok s" using inv by (simp_all add: sem_inv_restoring)
  have wf: "sched_wf s" by (rule restoringD(1) [OF s])
  define s1 where "s1 = set_semcount sem (semcount s sem + 1) s"
  have fw1: "first_waiter sem s1 = ?w" by (simp add: first_waiter_def s1_def)
  have r1: "restoring s1 s1" unfolding s1_def by (rule aux_ok1(1) [OF s])
  show thesis
  proof (cases "semcount s sem < 0")
    case True
    note fw = first_waiter_spec [OF wf w sem(1) True]
    define s2 where "s2 = set_waitsem ?w NULL s1"
    have r2: "restoring s2 s2" unfolding s2_def by (rule aux_ok1(2) [OF r1])
    have w2: "?w \<in> set (tlist s2 Waitingforsemaphore)" using fw(1) by (simp add: s2_def s1_def)
    obtain s3 where s3: "map_option snd (up_unblock_task ?w s2) = Some s3" "restoring s3 s3" "relisted s2 s3" "listed s3 = listed s2"
      "set (tlist s3 Waitingforsemaphore) = set (tlist s2 Waitingforsemaphore) - {?w}" "runnable s3 = insert ?w (runnable s2)" "made_ready ?w s2 s3"
      by (rule sem_wake [OF r2 w2]) (rule that)
    have c: "semcount s3 = (semcount s)(sem := semcount s sem + 1)" "waitsem s3 = (waitsem s)(?w := NULL)"
      using relisted_frames [OF s3(3)] by (simp_all add: s2_def s1_def)
    have "waiting_ok s3" using waiting_ok_wake(1) [OF w fw(2) sem(1) c(2,1)] s3(5) by (simp add: s2_def s1_def)
    moreover have "?w \<noteq> NULL" by (rule waiter_facts(1) [OF wf fw(1)])
    moreover have "semcount s1 sem \<le> 0" using True by (simp add: s1_def)
    ultimately have "sem_post_from_isr sem s = Some (True, s3)" "sem_inv s3"
      using sem s3(1,2) fw1 by (auto simp: sem_post_from_isr_def debugassert_def Let_def s1_def [symmetric] s2_def sem_inv_restoring)
    moreover have "posted sem s s3" using True c s3(6) by (simp add: posted_def s2_def s1_def)
    ultimately show thesis using that by simp
  next
    case False
    have "waiting_ok s1" using w False sem by (auto simp: waiting_ok_def s1_def)
    moreover have "sem_post_from_isr sem s = Some (True, s1)"
      using sem False by (simp add: sem_post_from_isr_def debugassert_def Let_def s1_def)
    moreover have "posted sem s s1" using False by (simp add: posted_def s1_def)
    ultimately show thesis using that r1 by (simp add: sem_inv_restoring)
  qed
qed

lemma sem_timeout_spec:
  assumes inv: "sem_inv s" and t: "sched_gettcb pid s = NULL \<or> sched_gettcb pid s \<in> listed s"
  obtains s' where "sem_timeout pid s = Some s'" "sem_inv s'"
    "if sched_gettcb pid s \<in> set (tlist s Waitingforsemaphore)
     then sem_waitirq (sched_gettcb pid s) ETIMEDOUT s = Some s' else s' = s"
proof -
  let ?t = "sched_gettcb pid s"
  have wf: "sched_wf s" using inv by (simp add: sem_inv_def)
  have "?t \<in> set (tlist s Waitingforsemaphore)" if a: "?t \<noteq> NULL" "task_state s ?t = TSTATE_WAIT_SEM"
  proof -
    obtain l where l: "?t \<in> set (tlist s l)" using t a(1) by (auto simp: listed_def)
    have "task_state s ?t = (if l = Readytorun \<and> ?t = hd (tlist s l) then TSTATE_TASK_RUNNING else list_state l)"
      using wf_inv [OF wf] l by (simp add: sched_inv_def states_ok_def)
    then have "l = Waitingforsemaphore" using a(2) by (cases l) (auto split: if_splits)
    then show ?thesis using l by simp
  qed
  then have iff: "?t \<in> set (tlist s Waitingforsemaphore) \<longleftrightarrow> ?t \<noteq> NULL \<and> task_state s ?t = TSTATE_WAIT_SEM"
    using waiter_facts(1,3) [OF wf] by blast
  show thesis
  proof (cases "?t \<in> set (tlist s Waitingforsemaphore)")
    case True
    obtain s' where s': "sem_waitirq ?t ETIMEDOUT s = Some s'" "sem_inv s'" by (rule sem_waitirq_spec [OF inv True])
    then show thesis using that [of s'] True iff by (simp add: sem_timeout_def Let_def)
  next
    case False
    then show thesis using that [of s] inv iff by (auto simp: sem_timeout_def Let_def)
  qed
qed

lemma sem_wait_resume_spec:
  assumes inv: "sem_inv s"
  obtains s' where "sem_wait_resume s = Some (pterrno s (hd (g_readytorun s)) \<noteq> EINTR \<and> pterrno s (hd (g_readytorun s)) \<noteq> ETIMEDOUT, s')"
    "sem_inv s'" "semcount s' = semcount s" "waitsem s' = waitsem s"
proof -
  have s: "restoring s s" "waiting_ok s" using inv by (simp_all add: sem_inv_restoring)
  have hd: "head_of (g_readytorun s) = hd (g_readytorun s)" using running_facts(1) [OF wf_inv [OF restoringD(1) [OF s(1)]]] .
  obtain s' where s': "sched_unlock False s = Some s'" "restoring s' s'" "semcount s' = semcount s" "waitsem s' = waitsem s"
    "set (tlist s' Waitingforsemaphore) = set (tlist s Waitingforsemaphore)"
    by (rule sched_unlock_ok [OF s(1), of False]) (rule that)
  have "sem_inv s'" using s' s(2) by (simp add: sem_inv_restoring waiting_ok_def)
  then show thesis using that [of s'] s' hd by (simp add: sem_wait_resume_def Let_def)
qed

lemma sem_post_resume_spec:
  assumes inv: "sem_inv s" and p: "reprio = None \<or> reprio = Some (base_priority s (hd (g_readytorun s)))"
  obtains s' where "sem_post_resume reprio sem s = Some s'" "sem_inv s'" "semcount s' = semcount s" "waitsem s' = waitsem s"
proof -
  let ?r = "hd (g_readytorun s)"
  have s: "restoring s s" "waiting_ok s" using inv by (simp_all add: sem_inv_restoring)
  note d = restoringD [OF s(1)]
  have hd: "head_of (g_readytorun s) = ?r" using running_facts(1) [OF wf_inv [OF d(1)]] .
  define s1 where "s1 = (case reprio of Some p \<Rightarrow> sched_reprioritize_resume ?r (int p) s | None \<Rightarrow> s)"
  have "(base_priority s)(?r := base_priority s ?r) = base_priority s" by auto
  then have eq: "s1 = s \<or> s1 = s\<lparr>npend_reprio := (npend_reprio s)(?r := 0)\<rparr>"
    using p by (auto simp: s1_def sched_reprioritize_resume_def)
  have r1: "restoring s1 s1"
  proof -
    have "sched_wf s1" using eq d(1) sched_wf_cong [of s1 s] by auto
    moreover have li: "listed s1 = listed s" using eq by (auto simp: listed_def)
    then have "prios_ok s1" using eq d(2) unfolding prios_ok_def by (auto split: if_splits)
    moreover have "sem_frame s s1" "holder_frame s s1" using eq li by (auto simp: sem_frame_def holder_frame_def)
    then have "holders_ok s1" by (rule holders_ok_frame [OF d(3)])
    ultimately show ?thesis by (simp add: restoring_def)
  qed
  note dr = sem_drop_holder_ok [OF r1, of ?r sem]
  define s2 where "s2 = sem_drop_holder ?r sem s1"
  have f2: "semcount s2 = semcount s" "waitsem s2 = waitsem s" "set (tlist s2 Waitingforsemaphore) = set (tlist s Waitingforsemaphore)"
    using restoringD(4) [OF dr(1)] eq by (auto simp: s2_def sem_frame_def)
  obtain s' where s': "sched_unlock False s2 = Some s'" "restoring s' s'" "semcount s' = semcount s2" "waitsem s' = waitsem s2"
    "set (tlist s' Waitingforsemaphore) = set (tlist s2 Waitingforsemaphore)"
    by (rule sched_unlock_ok [OF restoringD(5) [OF dr(1)], of False, folded s2_def]) (rule that)
  have "sem_inv s'" using s' s(2) f2 by (simp add: sem_inv_restoring waiting_ok_def)
  then show thesis using that [of s'] s' f2 hd by (simp add: sem_post_resume_def Let_def s1_def s2_def)
qed

lemma sem_destroyholder_spec:
  assumes "restoring s0 s"
  shows "\<exists>s'. sem_destroyholder sem s = Some s' \<and> restoring s0 s'"
proof -
  have "\<exists>r s'. sem_foreachholder sem (sem_recoverholders sem) s = Some (r, s') \<and> (if r = Ret 0 then restoring s0 s' else False)"
  proof (rule holder_foreach [where P = "restoring s0"])
    show "restoring s0 s" by (rule assms)
    show "holders_ok u" if "restoring s0 u" for u using that by (simp add: restoring_def)
    fix p and u :: "'a sem_state_scheme"
    assume u: "restoring s0 u" "p \<in> set (hlist u sem)"
    note d = restoringD [OF u(1)] and fr = sem_freeholder_frame [where s = u and sem = sem and p = p]
    have "restoring s0 (sem_freeholder sem p u)"
      using d fr prios_ok_frame [OF d(2) fr(1,2)] sem_freeholder_ok(1) [OF d(3) u(2)] sem_frame_trans [OF d(4) fr(1)] by (simp add: restoring_def)
    moreover have "set (hlist u sem) - {p} \<subseteq> set (hlist (sem_freeholder sem p u) sem)"
      by (rule restored_holders [OF d(3) u(2), where v = False]) simp
    ultimately show "\<exists>r s'. sem_recoverholders sem p u = Some (r, s') \<and> (if r = Ret 0 then restoring s0 s' else False) \<and>
        set (hlist u sem) - {p} \<subseteq> set (hlist s' sem)" by (simp add: sem_recoverholders_def)
  qed
  then show ?thesis using assms by (auto simp: sem_destroyholder_def split: if_splits)
qed

lemma sem_destroy_spec:
  assumes inv: "sem_inv s" and sem: "sem \<noteq> NULL"
  obtains s' where "sem_destroy sem s = Some (True, s')" "sem_inv s'" "waitsem s' = waitsem s"
    "semcount s' = (if semcount s sem \<ge> 0 then (semcount s)(sem := 1) else semcount s)"
proof -
  have s: "restoring s s" "waiting_ok s" using inv by (simp_all add: sem_inv_restoring)
  define s1 where "s1 = (if semcount s sem \<ge> 0 then set_semcount sem 1 s else s)"
  have r1: "restoring s1 s1" unfolding s1_def using s aux_ok1(1) [OF s(1)] by simp
  have "waiting_ok s1" using s(2) by (auto simp: s1_def waiting_ok_def SEM_VALUE_MAX_def)
  moreover obtain s2 where s2: "sem_destroyholder sem s1 = Some s2" "restoring s1 s2" using sem_destroyholder_spec [OF r1] by blast
  ultimately have "sem_inv s2" using waiting_ok_frame restoringD(4,5) [OF s2(2)] by (auto simp: sem_inv_restoring)
  moreover have "sem_destroy sem s = Some (True, s2)" using sem s2(1) by (simp add: sem_destroy_def Let_def s1_def)
  ultimately show thesis using that [of s2] restoringD(4) [OF s2(2)] by (simp add: sem_frame_def s1_def)
qed

lemma sem_init_ok:
  assumes inv: "sem_inv s" and sem: "sem \<noteq> NULL" "int v \<le> SEM_VALUE_MAX" "hlist s sem = []" "\<And>t. waitsem s t \<noteq> sem"
  shows "sem_init sem v s = (True, s\<lparr>semcount := (semcount s)(sem := int v)\<rparr>)" "sem_inv (s\<lparr>semcount := (semcount s)(sem := int v)\<rparr>)"
proof -
  have "(hlist s)(sem := []) = hlist s" using sem(3) by auto
  then show "sem_init sem v s = (True, s\<lparr>semcount := (semcount s)(sem := int v)\<rparr>)" using sem by (simp add: sem_init_def)
  have s: "restoring s s" "waiting_ok s" using inv by (simp_all add: sem_inv_restoring)
  have "card {t. waitsem s t = sem} = nat (- semcount s sem)" using s(2) sem(1) by (simp add: waiting_ok_def)
  then have "semcount s sem \<ge> 0" using sem(4) by simp
  then have "waiting_ok (s\<lparr>semcount := (semcount s)(sem := int v)\<rparr>)" using s(2) sem(2,4) by (simp add: waiting_ok_def)
  then show "sem_inv (s\<lparr>semcount := (semcount s)(sem := int v)\<rparr>)"
    using aux_ok1(1) [OF s(1)] by (simp add: sem_inv_restoring)
qed

text \<open>A task that is deleted while it waits gives its place back; the tasks that still wait are counted.\<close>

lemma sem_recover_spec:
  assumes inv: "sem_inv s" and t: "t \<in> set (tlist s Waitingforsemaphore)"
  obtains s' where "sem_recover t s = Some s'" "semcount s' (waitsem s t) = semcount s (waitsem s t) + 1" "waitsem s' = (waitsem s)(t := NULL)"
    "sched_wf s'" "holders_ok s'" "prios_ok s'"
proof -
  let ?sem = "waitsem s t"
  have s: "restoring s s" "waiting_ok s" using inv by (simp_all add: sem_inv_restoring)
  have st: "task_state s t = TSTATE_WAIT_SEM" using waiter_facts(3) [OF restoringD(1) [OF s(1)] t] .
  have sem: "?sem \<noteq> NULL" using s(2) t by (auto simp: waiting_ok_def)
  obtain s' where neg: "semcount s ?sem < 0" by (rule sem_waitirq_spec [OF inv t])
  obtain s1 where s1: "sem_foreachholder ?sem (sem_restoreholderprio True ?sem t) s = Some (Ret 0, s1)" "restoring s s1"
    using sem_restore_irq [OF s(1)] by blast
  note d = restoringD [OF s1(2)]
  have "semcount s1 = semcount s" "waitsem s1 = waitsem s" using d(4) by (simp_all add: sem_frame_def)
  then have "sem_recover t s = Some (set_waitsem t NULL (set_semcount ?sem (semcount s ?sem + 1) s1))"
    using st sem neg s1(1) by (simp add: sem_recover_def sem_canceled_def debugassert_def Let_def)
  then show thesis using that restoringD [OF aux_ok1(2) [OF aux_ok1(1) [OF d(5)]]] \<open>waitsem s1 = waitsem s\<close> by simp
qed

section \<open>Calls\<close>

text \<open>The calls on semaphores. The result says whether the caller has taken the semaphore.\<close>

datatype sem_call = Init addr nat | Destroy addr | Trywait addr | Wait addr | Wait_isr addr | Wait_resume
  | Post bool addr | Post_isr addr | Post_resume "nat option" addr | Timeout int

fun sem_exec :: "sem_call \<Rightarrow> 'a sem_state_scheme \<Rightarrow> (bool \<times> 'a sem_state_scheme) option" where
  "sem_exec (Init sem v) s = Some (False, snd (sem_init sem v s))"
| "sem_exec (Destroy sem) s = map_option (\<lambda>(_, s). (False, s)) (sem_destroy sem s)"
| "sem_exec (Trywait sem) s = Some (sem_trywait sem s)"
| "sem_exec (Wait sem) s = map_option (\<lambda>(r, s). (r = Done True, s)) (sem_wait sem s)"
| "sem_exec (Wait_isr sem) s = map_option (\<lambda>(r, s). (r = Done True, s)) (sem_wait_for_isr sem s)"
| "sem_exec Wait_resume s = map_option (\<lambda>(_, s). (False, s)) (sem_wait_resume s)"
| "sem_exec (Post in_irq sem) s = map_option (\<lambda>(_, s). (False, s)) (sem_post in_irq sem s)"
| "sem_exec (Post_isr sem) s = map_option (\<lambda>(_, s). (False, s)) (sem_post_from_isr sem s)"
| "sem_exec (Post_resume reprio sem) s = map_option (\<lambda>s. (False, s)) (sem_post_resume reprio sem s)"
| "sem_exec (Timeout pid) s = map_option (\<lambda>s. (False, s)) (sem_timeout pid s)"

text \<open>When a call is allowed: the conditions of its assertions, that the running task is not the idle task where
  the call may block, and that boosting the holders does not write past their pending priorities (\<open>room_for\<close>).\<close>

fun sem_allowed :: "sem_call \<Rightarrow> 'a sem_state_scheme \<Rightarrow> bool" where
  "sem_allowed (Init sem v) s \<longleftrightarrow> sem \<noteq> NULL \<and> int v \<le> SEM_VALUE_MAX \<and> hlist s sem = [] \<and> semcount s sem \<ge> 0"
| "sem_allowed (Destroy sem) s \<longleftrightarrow> sem \<noteq> NULL"
| "sem_allowed (Trywait sem) s \<longleftrightarrow> hd (g_readytorun s) \<noteq> idle_tcb s"
| "sem_allowed (Wait sem) s \<longleftrightarrow> sem \<noteq> NULL \<and> hd (g_readytorun s) \<noteq> idle_tcb s \<and>
     (semcount s sem \<le> 0 \<longrightarrow> lockcount s (hd (g_readytorun s)) < MAX_LOCK_COUNT \<and> room_for sem s)"
| "sem_allowed (Wait_isr sem) s \<longleftrightarrow> sem \<noteq> NULL \<and> hd (g_readytorun s) \<noteq> idle_tcb s"
| "sem_allowed Wait_resume s \<longleftrightarrow> True"
| "sem_allowed (Post in_irq sem) s \<longleftrightarrow> sem \<noteq> NULL \<and> semcount s sem < SEM_VALUE_MAX \<and>
     (\<not> in_irq \<longrightarrow> lockcount s (hd (g_readytorun s)) < MAX_LOCK_COUNT)"
| "sem_allowed (Post_isr sem) s \<longleftrightarrow> sem \<noteq> NULL \<and> semcount s sem < SEM_VALUE_MAX"
| "sem_allowed (Post_resume reprio sem) s \<longleftrightarrow> (reprio = None \<or> reprio = Some (base_priority s (hd (g_readytorun s))))"
| "sem_allowed (Timeout pid) s \<longleftrightarrow> sched_gettcb pid s = NULL \<or> (\<exists>l. sched_gettcb pid s \<in> set (tlist s l))"

text \<open>What a call does to the count of a semaphore, in terms of the units it takes and gives: \<open>b\<close> says that the
  caller took one, and the tasks that a post wakes take one each.\<close>

abbreviation waiters :: "addr \<Rightarrow> 'a sem_state_scheme \<Rightarrow> addr set" where
  "waiters sem s \<equiv> {t. waitsem s t = sem}"

fun gives :: "addr \<Rightarrow> sem_call \<Rightarrow> nat" where
  "gives sem (Post _ sem') = (if sem' = sem then 1 else 0)"
| "gives sem (Post_isr sem') = (if sem' = sem then 1 else 0)"
| "gives sem _ = 0"

fun target :: "sem_call \<Rightarrow> addr" where
  "target (Init sem _) = sem" | "target (Destroy sem) = sem" | "target (Trywait sem) = sem" | "target (Wait sem) = sem"
| "target (Wait_isr sem) = sem" | "target (Post _ sem) = sem" | "target (Post_isr sem) = sem" | "target _ = NULL"

definition takes :: "addr \<Rightarrow> sem_call \<Rightarrow> bool \<Rightarrow> 'a sem_state_scheme \<Rightarrow> 'a sem_state_scheme \<Rightarrow> nat" where
  "takes sem c b s s' = (if b \<and> target c = sem then 1 else 0) + (if gives sem c > 0 then card (waiters sem s) - card (waiters sem s') else 0)"

fun resets :: "addr \<Rightarrow> sem_call \<Rightarrow> bool" where
  "resets sem (Init sem' _) \<longleftrightarrow> sem' = sem"
| "resets sem (Destroy sem') \<longleftrightarrow> sem' = sem"
| "resets sem _ \<longleftrightarrow> False"

end
