(* ===== verification/Sem_Props.thy ===== *)
theory Sem_Props
  imports Sem_Ops Sched_Props
begin

unbundle bit_operations_syntax

text \<open>
  The correctness of the semaphores.
\<close>

lemma card_wake:
  assumes "waiting_ok s" "sem \<noteq> NULL" "waitsem s t = sem" "waitsem s' = (waitsem s)(t := NULL)"
  shows "card (waiters sem s) - card (waiters sem s') = 1"
proof -
  have "waiters sem s' = waiters sem s - {t}" using assms(2-4) by auto
  moreover have "t \<in> waiters sem s" "finite (waiters sem s)" using assms(3) waits_card [OF assms(1,2)] by auto
  moreover have "card (waiters sem s) > 0" using \<open>t \<in> waiters sem s\<close> \<open>finite (waiters sem s)\<close> by (auto simp: card_gt_0_iff)
  ultimately show ?thesis by (simp add: card_Diff_singleton)
qed

lemma posted_count:
  assumes "sem_inv s" "sem' \<noteq> NULL" "posted sem' s s'" "sem \<noteq> NULL"
  shows "max (semcount s' sem) 0 + int (if sem' = sem then card (waiters sem s) - card (waiters sem s') else 0) =
    max (semcount s sem) 0 + (if sem' = sem then 1 else 0)"
proof (cases "sem' = sem \<and> semcount s sem < 0")
  case True
  have w: "sched_wf s" "waiting_ok s" using assms(1) by (simp_all add: sem_inv_def)
  have "waitsem s' = (waitsem s)(first_waiter sem s := NULL)" using assms(3) True by (simp add: posted_def)
  then have "card (waiters sem s) - card (waiters sem s') = 1"
    using card_wake [OF w(2) assms(4)] first_waiter_spec(2) [OF w assms(4)] True by blast
  then show ?thesis using assms(3) True by (simp add: posted_def)
qed (use assms(3) in \<open>auto simp: posted_def\<close>)

lemma posted_units:
  assumes inv: "sem_inv s" and c: "c = Post in_irq sem' \<or> c = Post_isr sem'" "sem' \<noteq> NULL"
    and s': "sem_exec c s = Some (False, s')" "sem_inv s'" "posted sem' s s'"
  shows "\<exists>b s'. sem_exec c s = Some (b, s') \<and> sem_inv s' \<and>
    (\<forall>sem. sem \<noteq> NULL \<longrightarrow> \<not> resets sem c \<longrightarrow>
      max (semcount s' sem) 0 + int (takes sem c b s s') = max (semcount s sem) 0 + int (gives sem c))"
proof -
  have t: "takes sem c False s s' = (if sem' = sem then card (waiters sem s) - card (waiters sem s') else 0)"
    and g: "int (gives sem c) = (if sem' = sem then 1 else 0)" for sem using c by (auto simp: takes_def)
  have "\<forall>sem. sem \<noteq> NULL \<longrightarrow> \<not> resets sem c \<longrightarrow>
      max (semcount s' sem) 0 + int (takes sem c False s s') = max (semcount s sem) 0 + int (gives sem c)"
    unfolding t g using posted_count [OF inv c(2) s'(3)] by blast
  then show ?thesis using s'(1,2) by blast
qed

text \<open>Every call returns, keeps the invariant, and accounts for the units of each semaphore.\<close>

lemma sem_exec_spec:
  assumes inv: "sem_inv s" and c: "sem_allowed c s"
  shows "\<exists>b s'. sem_exec c s = Some (b, s') \<and> sem_inv s' \<and>
    (\<forall>sem. sem \<noteq> NULL \<longrightarrow> \<not> resets sem c \<longrightarrow>
      max (semcount s' sem) 0 + int (takes sem c b s s') = max (semcount s sem) 0 + int (gives sem c))"
proof (cases c)
  case (Init sem v)
  have w: "waiting_ok s" using inv by (simp add: sem_inv_def)
  have "card (waiters sem s) = 0" using w c Init by (simp add: waiting_ok_def)
  then have "waitsem s t \<noteq> sem" for t using waits_card [OF w, of sem] c Init by auto
  then show ?thesis using sem_init_ok [OF inv, of sem v] c Init by (auto simp: takes_def)
next
  case (Destroy sem)
  then have "sem \<noteq> NULL" using c by simp
  from sem_destroy_spec [OF inv this] obtain s' where "sem_destroy sem s = Some (True, s')" "sem_inv s'"
    "semcount s' = (if semcount s sem \<ge> 0 then (semcount s)(sem := 1) else semcount s)" by blast
  then show ?thesis using Destroy by (auto simp: takes_def)
next
  case (Trywait sem)
  obtain s' where "sem_trywait sem s = (sem \<noteq> NULL \<and> semcount s sem > 0, s')" "sem_inv s'"
    "semcount s' = (if sem \<noteq> NULL \<and> semcount s sem > 0 then (semcount s)(sem := semcount s sem - 1) else semcount s)"
    by (rule sem_trywait_spec [OF inv]) (use c Trywait in auto)
  then show ?thesis using Trywait by (auto simp: takes_def)
next
  case (Wait sem)
  show ?thesis
  proof (cases "semcount s sem > 0")
    case True
    obtain s' where "sem_wait sem s = Some (Done True, s')" "sem_inv s'" "semcount s' = (semcount s)(sem := semcount s sem - 1)"
      by (rule sem_wait_takes [OF inv _ True, of]) (use c Wait in auto)
    then show ?thesis using Wait True by (auto simp: takes_def)
  next
    case False
    obtain s' where "sem_wait sem s = Some (Switched, s')" "sem_inv s'" "semcount s' = (semcount s)(sem := semcount s sem - 1)"
      by (rule sem_wait_blocks [OF inv, of sem]) (use c Wait False in auto)
    then show ?thesis using Wait False by (auto simp: takes_def)
  qed
next
  case (Wait_isr sem)
  obtain s' where "sem_wait_for_isr sem s = Some (if semcount s sem > 0 then Done True else Switched, s')" "sem_inv s'"
    "semcount s' = (semcount s)(sem := semcount s sem - 1)"
    by (rule sem_wait_for_isr_spec [OF inv, of sem]) (use c Wait_isr in auto)
  then show ?thesis using Wait_isr by (auto simp: takes_def)
next
  case Wait_resume
  obtain b s' where "sem_wait_resume s = Some (b, s')" "sem_inv s'" "semcount s' = semcount s" by (rule sem_wait_resume_spec [OF inv])
  then show ?thesis using Wait_resume by (auto simp: takes_def)
next
  case (Post in_irq sem)
  have sem: "sem \<noteq> NULL" "semcount s sem < SEM_VALUE_MAX" using c Post by simp_all
  obtain r s' where "sem_post in_irq sem s = Some (r, s')" "sem_inv s'" "posted sem s s'"
    by (rule sem_post_spec [OF inv sem, of in_irq]) (use c Post in auto)
  then show ?thesis using Post by (intro posted_units [OF inv _ sem(1), of c in_irq s']) auto
next
  case (Post_isr sem)
  have sem: "sem \<noteq> NULL" "semcount s sem < SEM_VALUE_MAX" using c Post_isr by simp_all
  obtain s' where "sem_post_from_isr sem s = Some (True, s')" "sem_inv s'" "posted sem s s'"
    by (rule sem_post_from_isr_spec [OF inv sem])
  then show ?thesis using Post_isr by (intro posted_units [OF inv _ sem(1), of c False s']) auto
next
  case (Post_resume reprio sem)
  obtain s' where "sem_post_resume reprio sem s = Some s'" "sem_inv s'" "semcount s' = semcount s"
    by (rule sem_post_resume_spec [OF inv, of reprio]) (use c Post_resume in auto)
  then show ?thesis using Post_resume by (auto simp: takes_def)
next
  case (Timeout pid)
  have t: "sched_gettcb pid s = NULL \<or> sched_gettcb pid s \<in> listed s" using c Timeout by (simp add: listed_def)
  obtain s' where s': "sem_timeout pid s = Some s'" "sem_inv s'"
    "if sched_gettcb pid s \<in> set (tlist s Waitingforsemaphore)
     then sem_waitirq (sched_gettcb pid s) ETIMEDOUT s = Some s' else s' = s"
    by (rule sem_timeout_spec [OF inv t])
  have "\<exists>sem. semcount s sem < 0 \<and> semcount s' = (semcount s)(sem := semcount s sem + 1) \<or> semcount s' = semcount s"
  proof (cases "sched_gettcb pid s \<in> set (tlist s Waitingforsemaphore)")
    case True
    show ?thesis by (rule sem_waitirq_spec [OF inv True, of ETIMEDOUT]) (use s'(3) True in auto)
  qed (use s'(3) in auto)
  then show ?thesis using Timeout s'(1,2) by (auto simp: takes_def)
qed

text \<open>Runs of calls on semaphores, with the units of one semaphore that were taken and given.\<close>

inductive sem_run :: "addr \<Rightarrow> 'a sem_state_scheme \<Rightarrow> nat \<Rightarrow> nat \<Rightarrow> 'a sem_state_scheme \<Rightarrow> bool" for sem s0 where
  start: "sem_run sem s0 0 0 s0"
| call: "sem_run sem s0 a p s \<Longrightarrow> sem_allowed c s \<Longrightarrow> \<not> resets sem c \<Longrightarrow> sem_exec c s = Some (b, s') \<Longrightarrow>
    sem_run sem s0 (a + takes sem c b s s') (p + gives sem c) s'"

lemma sem_run_units:
  assumes "sem_run sem s0 a p s" "sem_inv s0" "sem \<noteq> NULL" "semcount s0 sem = int v"
  shows "sem_inv s \<and> int a + max (semcount s sem) 0 = int v + int p"
  using assms
proof (induction rule: sem_run.induct)
  case start
  then show ?case by simp
next
  case (call a p s c b s')
  then have IH: "sem_inv s" "int a + max (semcount s sem) 0 = int v + int p" by simp_all
  obtain b' s'' where s'': "sem_exec c s = Some (b', s'')" "sem_inv s''"
    "max (semcount s'' sem) 0 + int (takes sem c b' s s'') = max (semcount s sem) 0 + int (gives sem c)"
    using sem_exec_spec [OF IH(1) call.hyps(2)] call.hyps(3) call.prems by blast
  then show ?case using call.hyps(4) IH(2) by simp
qed

section \<open>Concrete states\<close>

text \<open>Task 3 runs; task 2 holds the semaphore 1000, for which task 4 waits, and has inherited its priority.\<close>

definition sem_demo :: sem_state where
  "sem_demo = \<lparr>tlist = (\<lambda>_. [])(Readytorun := [3, 2, 9], Waitingforsemaphore := [4]),
     sched_priority = (\<lambda>_. 0)(2 := 100, 3 := 200, 4 := 100), base_priority = (\<lambda>_. 0)(2 := 50, 3 := 200, 4 := 100),
     npend_reprio = (\<lambda>_. 0), pend_reprios = (\<lambda>_. replicate 16 0),
     task_state = (\<lambda>_. TSTATE_TASK_INVALID)(3 := TSTATE_TASK_RUNNING, 2 := TSTATE_TASK_READYTORUN, 9 := TSTATE_TASK_READYTORUN,
       4 := TSTATE_WAIT_SEM),
     round_robin = (\<lambda>_. False), lockcount = (\<lambda>_. 0), timeslice = (\<lambda>_. 0),
     tcb_pid = int(9 := 0), pidhash_tcb = (\<lambda>_. 0)(0 := 9, 2 := 2, 3 := 3, 4 := 4, 5 := 5), pidhash_pid = int, idle_tcb = 9,
     semcount = (\<lambda>_. 0)(1000 := -1, 2000 := 1), hlist = (\<lambda>_. [])(1000 := [500]), htcb = (\<lambda>_. 0)(500 := 2), hcounts = (\<lambda>_. 0)(500 := 1),
     g_freeholders = [512, 524], waitsem = (\<lambda>_. 0)(4 := 1000), pterrno = (\<lambda>_. 0)\<rparr>"

lemma listed_tasklists: "listed s = set (g_pendingtasks s) \<union> set (g_readytorun s) \<union> set (tlist s Inactivetasks) \<union>
    set (tlist s Waitingforsemaphore) \<union> set (tlist s Waitingforsignal) \<union> set (tlist s Waitingformqnotempty) \<union> set (tlist s Waitingformqnotfull)"
proof -
  have "t \<in> listed s \<longleftrightarrow> \<not> (\<forall>l. t \<notin> set (tlist s l))" for t by (simp add: listed_def)
  then show ?thesis by (auto simp: all_tasklist)
qed

lemmas sem_inv_defs = sem_inv_def waiting_ok_def prios_ok_def holders_ok_def listed_tasklists sched_wf_def sched_inv_def lists_ok_def
  states_ok_def idle_ok_def all_tasklist by_priority_def sched_consts valid_priority_def sched_verifytcb_def
  CONFIG_SEM_NNESTPRIO_def SEM_VALUE_MAX_def

lemma sem_demo_inv: "sem_inv sem_demo"
  by (simp add: sem_inv_defs sem_demo_def)

section \<open>Correctness\<close>

text \<open>(C8) Every permitted call on a semaphore returns: waiting, posting from a task or from an interrupt handler,
  the rest of a suspended call and time-outs pass all their assertions. Each keeps the invariant: exactly the tasks
  on the waiting list wait, a negative count is the number of tasks that wait for the semaphore, no task runs
  below its base priority, and no holder container is lost or used twice. \<open>sem_allowed\<close> says which calls are
  permitted. Besides the obligations of the caller (the idle task does not wait, preemption locks nest at most
  \<open>MAX_LOCK_COUNT\<close> deep, counts stay in range, a semaphore is initialized only without holders and waiters) it
  restricts a wait that blocks: every live holder of the semaphore has fewer than \<open>CONFIG_SEM_NNESTPRIO\<close> pending
  priorities (\<open>room_for\<close>). The code does not check this, and \<open>sem_wait_overflows\<close> is what happens
  without it.\<close>

theorem sem_calls_keep_invariant:
  assumes "sem_inv s" "sem_allowed c s"
  shows "\<exists>b s'. sem_exec c s = Some (b, s') \<and> sem_inv s'"
  using sem_exec_spec [OF assms] by blast

theorem sem_calls_keep_invariant_witness: "\<exists>b s'. sem_exec (Wait 1000) sem_demo = Some (b, s') \<and> sem_inv s'"
proof -
  have "sem_allowed (Wait 1000) sem_demo" by (simp add: sem_demo_def room_for_def CONFIG_SEM_NNESTPRIO_def MAX_LOCK_COUNT_def)
  from sem_calls_keep_invariant [OF sem_demo_inv this] show ?thesis .
qed

text \<open>(C3) In every run of calls, the units of a semaphore that have been taken and not given back never exceed
  its initial value: with initial value 1 it excludes. While a task waits, all units are taken. Tasks that are
  woken by a post count as takers, tasks whose wait timed out do not.\<close>

theorem sem_exclusion:
  assumes "sem_run sem s0 a p s" "sem_inv s0" "sem \<noteq> NULL" "semcount s0 sem = int v"
  shows "int a - int p \<le> int v \<and> (waiters sem s \<noteq> {} \<longrightarrow> int a - int p = int v)"
proof -
  have u: "sem_inv s" "int a + max (semcount s sem) 0 = int v + int p" using sem_run_units [OF assms] by simp_all
  have w: "waiting_ok s" using u(1) by (simp add: sem_inv_def)
  have "semcount s sem < 0" if "waiters sem s \<noteq> {}"
  proof -
    have "card (waiters sem s) \<noteq> 0" using that waits_card [OF w assms(3)] by simp
    moreover have "card (waiters sem s) = nat (- semcount s sem)" using w assms(3) by (simp add: waiting_ok_def)
    ultimately show ?thesis by simp
  qed
  then have "int a - int p = int v" if "waiters sem s \<noteq> {}" using that u(2) by simp
  moreover have "int a - int p \<le> int v" using u(2) by linarith
  ultimately show ?thesis by blast
qed

theorem sem_exclusion_witness: "\<exists>s. sem_run 2000 sem_demo 1 0 s \<and> int 1 - int 0 \<le> int 1"
proof -
  have al: "sem_allowed (Trywait 2000) sem_demo" by (simp add: sem_demo_def)
  obtain s where s: "sem_exec (Trywait 2000) sem_demo = Some (True, s)"
    by (rule sem_trywait_spec [OF sem_demo_inv, of 2000]) (simp_all add: sem_demo_def)
  have "sem_run 2000 sem_demo (0 + takes 2000 (Trywait 2000) True sem_demo s) (0 + gives 2000 (Trywait 2000)) s"
    by (rule sem_run.call [OF sem_run.start al _ s]) simp
  then have r: "sem_run 2000 sem_demo 1 0 s" by (simp add: takes_def)
  have "semcount sem_demo 2000 = int 1" by (simp add: sem_demo_def)
  from sem_exclusion [OF r sem_demo_inv _ this] r show ?thesis by auto
qed

text \<open>(C6) A task other than the idle task that waits for a taken semaphore blocks, and every holder that is still
  alive runs at least at its priority from then on: the holder inherits the priority. This holds while every live
  holder has fewer than \<open>CONFIG_SEM_NNESTPRIO\<close> pending priorities (\<open>room_for\<close>); a holder whose array
  of pending priorities is full can make the call write past its end instead, see \<open>sem_wait_overflows\<close>. The
  caller nests preemption locks less than \<open>MAX_LOCK_COUNT\<close> deep.\<close>

theorem sem_wait_inherits:
  assumes "sem_inv s" "sem \<noteq> NULL" "semcount s sem \<le> 0" "hd (g_readytorun s) \<noteq> idle_tcb s"
    "lockcount s (hd (g_readytorun s)) < MAX_LOCK_COUNT" "room_for sem s"
  shows "\<exists>s'. sem_wait sem s = Some (Switched, s') \<and> waitsem s' (hd (g_readytorun s)) = sem \<and>
    task_state s' (hd (g_readytorun s)) = TSTATE_WAIT_SEM \<and> hd (g_readytorun s') \<noteq> hd (g_readytorun s) \<and>
    (\<forall>q \<in> set (hlist s sem). sched_verifytcb (htcb s q) s \<longrightarrow> sched_priority s (hd (g_readytorun s)) \<le> sched_priority s' (htcb s q))"
proof -
  obtain s' where s': "sem_wait sem s = Some (Switched, s')" "sem_inv s'"
    "waitsem s' = (waitsem s)(hd (g_readytorun s) := sem)" "task_state s' (hd (g_readytorun s)) = TSTATE_WAIT_SEM"
    "\<forall>q \<in> set (hlist s sem). sched_verifytcb (htcb s q) s \<longrightarrow> sched_priority s (hd (g_readytorun s)) \<le> sched_priority s' (htcb s q)"
    by (rule sem_wait_blocks [OF assms]) (rule that)
  have "hd (g_readytorun s') \<noteq> hd (g_readytorun s)"
    using running_not_waiting [OF s'(2)] s'(3) assms(2) by (auto split: if_splits)
  then show ?thesis using s' by simp
qed

theorem sem_wait_inherits_witness: "\<exists>s'. sem_wait 1000 sem_demo = Some (Switched, s') \<and> waitsem s' 3 = 1000 \<and> 200 \<le> sched_priority s' 2"
proof -
  have "(1000::addr) \<noteq> NULL" "semcount sem_demo 1000 \<le> 0" "hd (g_readytorun sem_demo) \<noteq> idle_tcb sem_demo"
    "lockcount sem_demo (hd (g_readytorun sem_demo)) < MAX_LOCK_COUNT" "room_for 1000 sem_demo"
    by (simp_all add: sem_demo_def room_for_def CONFIG_SEM_NNESTPRIO_def MAX_LOCK_COUNT_def)
  from sem_wait_inherits [OF sem_demo_inv this] show ?thesis by (auto simp: sem_demo_def sched_verifytcb_def CONFIG_MAX_TASKS_def)
qed

text \<open>(C9) A post by a task on a semaphore for which tasks wait wakes the first waiter of the highest priority and hands
  the unit over to it. Unless the poster holds the preemption lock, the running task has at least the
  priority of the woken task when the call returns.\<close>

theorem sem_post_wakes_highest:
  assumes "sem_inv s" "sem \<noteq> NULL" "semcount s sem < 0" "lockcount s (hd (g_readytorun s)) < MAX_LOCK_COUNT"
  shows "\<exists>r s'. sem_post False sem s = Some (r, s') \<and> semcount s' sem = semcount s sem + 1 \<and>
    waitsem s (first_waiter sem s) = sem \<and> (\<forall>t. waitsem s t = sem \<longrightarrow> sched_priority s t \<le> sched_priority s (first_waiter sem s)) \<and>
    waitsem s' = (waitsem s)(first_waiter sem s := NULL) \<and> first_waiter sem s \<in> runnable s' \<and>
    (r = Ret 0 \<and> lockcount s (hd (g_readytorun s)) = 0 \<longrightarrow> sched_priority s' (first_waiter sem s) \<le> sched_priority s' (hd (g_readytorun s')))"
proof -
  let ?w = "first_waiter sem s"
  have max: "semcount s sem < SEM_VALUE_MAX" using assms(3) by (simp add: SEM_VALUE_MAX_def)
  have wf: "sched_wf s" "waiting_ok s" using assms(1) by (simp_all add: sem_inv_def)
  obtain r s' where s': "sem_post False sem s = Some (r, s')" "sem_inv s'" "posted sem s s'"
    "\<not> False \<Longrightarrow> r = Ret 0 \<Longrightarrow> lockcount s (hd (g_readytorun s)) = 0 \<Longrightarrow> g_pendingtasks s' = []"
    by (rule sem_post_spec [OF assms(1,2) max, of False]) (use assms(4) in auto)
  have wf': "sched_wf s'" using s'(2) by (simp add: sem_inv_def)
  have run: "?w \<in> runnable s'" using s'(3) assms(3) by (simp add: posted_def)
  have "sched_priority s' ?w \<le> sched_priority s' (hd (g_readytorun s'))" if "r = Ret 0" "lockcount s (hd (g_readytorun s)) = 0"
  proof -
    have "?w \<in> set (g_readytorun s')" using run s'(4) that by auto
    moreover have "by_priority s' (g_readytorun s')" by (rule priority_order [OF wf_inv [OF wf']]) simp
    ultimately show ?thesis by (cases "g_readytorun s'") (auto simp: by_priority_def)
  qed
  then show ?thesis using s'(1,3) run first_waiter_spec(2,3) [OF wf assms(2,3)] assms(3)
    by (intro exI [of _ r] exI [of _ s']) (auto simp: posted_def)
qed

theorem sem_post_wakes_highest_witness:
  "\<exists>r s'. sem_post False 1000 sem_demo = Some (r, s') \<and> semcount s' 1000 = 0 \<and> waitsem s' 4 = NULL \<and> 4 \<in> runnable s'"
proof -
  have "(1000::addr) \<noteq> NULL" "semcount sem_demo 1000 < 0" "lockcount sem_demo (hd (g_readytorun sem_demo)) < MAX_LOCK_COUNT"
    by (simp_all add: sem_demo_def MAX_LOCK_COUNT_def)
  from sem_post_wakes_highest [OF sem_demo_inv this]
  have "\<exists>r s'. sem_post False 1000 sem_demo = Some (r, s') \<and> semcount s' 1000 = semcount sem_demo 1000 + 1 \<and>
      waitsem s' = (waitsem sem_demo)(first_waiter 1000 sem_demo := NULL) \<and> first_waiter 1000 sem_demo \<in> runnable s'" by blast
  moreover have "first_waiter 1000 sem_demo = 4" "semcount sem_demo 1000 = -1" by (simp_all add: first_waiter_def sem_demo_def)
  ultimately show ?thesis by auto
qed

text \<open>(C23) When the watchdog of a timed wait expires, the task stops waiting, gives its place back and can
  run again; its call then fails with \<open>ETIMEDOUT\<close>.\<close>

theorem sem_timeout_cancels:
  assumes "sem_inv s" "sched_gettcb pid s = t" "t \<in> set (tlist s Waitingforsemaphore)"
  shows "\<exists>s'. sem_timeout pid s = Some s' \<and> sem_inv s' \<and> semcount s' (waitsem s t) = semcount s (waitsem s t) + 1 \<and>
    semcount s' (waitsem s t) \<le> 0 \<and> waitsem s' t = NULL \<and> t \<in> runnable s' \<and> pterrno s' t = ETIMEDOUT \<and>
    (hd (g_readytorun s') = t \<longrightarrow> (\<exists>s''. sem_wait_resume s' = Some (False, s'')))"
proof -
  have t: "sched_gettcb pid s = NULL \<or> sched_gettcb pid s \<in> listed s" using assms(2,3) by (auto simp: listed_def)
  obtain s' where s': "sem_timeout pid s = Some s'" "sem_inv s'"
    "if sched_gettcb pid s \<in> set (tlist s Waitingforsemaphore)
     then sem_waitirq (sched_gettcb pid s) ETIMEDOUT s = Some s' else s' = s"
    by (rule sem_timeout_spec [OF assms(1) t])
  have q: "sem_waitirq t ETIMEDOUT s = Some s'" using s'(3) assms(2,3) by simp
  obtain s1 where s1: "sem_waitirq t ETIMEDOUT s = Some s1" "semcount s1 = (semcount s)(waitsem s t := semcount s (waitsem s t) + 1)"
    "waitsem s1 = (waitsem s)(t := NULL)" "pterrno s1 = (pterrno s)(t := ETIMEDOUT)" "runnable s1 = insert t (runnable s)" "semcount s (waitsem s t) < 0"
    by (rule sem_waitirq_spec [OF assms(1,3)]) (rule that)
  have "s1 = s'" using q s1(1) by simp
  moreover have "\<exists>s''. sem_wait_resume s' = Some (False, s'')" if "hd (g_readytorun s') = t" "pterrno s' t = ETIMEDOUT"
    by (rule sem_wait_resume_spec [OF s'(2)]) (use that in auto)
  ultimately show ?thesis using s'(1,2) s1 by auto
qed

theorem sem_timeout_cancels_witness: "\<exists>s'. sem_timeout 4 sem_demo = Some s' \<and> semcount s' 1000 = 0 \<and> waitsem s' 4 = NULL \<and> pterrno s' 4 = ETIMEDOUT"
proof -
  have t: "sched_gettcb 4 sem_demo = 4" by (simp add: sched_gettcb_def sem_demo_def CONFIG_MAX_TASKS_def Let_def)
  have w: "4 \<in> set (tlist sem_demo Waitingforsemaphore)" by (simp add: sem_demo_def)
  show ?thesis using sem_timeout_cancels [OF sem_demo_inv t w] by (auto simp: sem_demo_def)
qed

text \<open>(C39) The list of pending priorities of a holder has no bounds check in one of its branches: a task that
  waits for a semaphore whose holder already has \<open>CONFIG_SEM_NNESTPRIO\<close> pending priorities and runs at its
  priority or above writes beyond the end of the array.\<close>

theorem sem_wait_overflows:
  assumes "sem_inv s" "sem \<noteq> NULL" "semcount s sem \<le> 0" "hlist s sem = [q]" "sched_verifytcb (htcb s q) s"
    "npend_reprio s (htcb s q) = CONFIG_SEM_NNESTPRIO" "base_priority s (htcb s q) < sched_priority s (hd (g_readytorun s))"
    "sched_priority s (hd (g_readytorun s)) \<le> sched_priority s (htcb s q)"
  shows "sem_wait sem s = None"
proof -
  have wf: "sched_wf s" and ho: "holders_ok s" using assms(1) by (simp_all add: sem_inv_def)
  note run = running_facts [OF wf_inv [OF wf]]
  have "htcb s q \<noteq> NULL" using holders_ok_facts(7) [OF ho, of q sem] assms(4) by simp
  then show ?thesis using assms(2-8) run running_not_waiting [OF assms(1)]
    by (simp add: sem_wait_def sched_lock_def sem_boostpriority_def sem_foreachholder_def sem_boostholderprio_def push_reprio_def
      sched_verifytcb_def debugassert_def Let_def)
qed

theorem sem_wait_overflows_witness:
  "sem_wait 1000 (sem_demo\<lparr>npend_reprio := (\<lambda>_. 0)(2 := 16), pend_reprios := (\<lambda>_. replicate 16 100),
     sched_priority := (sched_priority sem_demo)(2 := 200)\<rparr>) = None"
  by (rule sem_wait_overflows [where q = 500])
    (simp_all add: sem_inv_defs sem_demo_def CONFIG_MAX_TASKS_def)

text \<open>Every holder that is alive runs at least at the priority of each task that waits for it.\<close>

definition inherits :: "'a sem_state_scheme \<Rightarrow> bool" where
  "inherits s \<longleftrightarrow> (\<forall>t. waitsem s t \<noteq> NULL \<longrightarrow> (\<forall>q \<in> set (hlist s (waitsem s t)).
     sched_verifytcb (htcb s q) s \<longrightarrow> sched_priority s t \<le> sched_priority s (htcb s q)))"

text \<open>Task 4 waits for the semaphore 1000, held by the running task 2, and holds the semaphore 2000, for which task
  5 waits.\<close>

definition sem_demo_two :: sem_state where
  "sem_demo_two = sem_demo\<lparr>tlist := (\<lambda>_. [])(Readytorun := [2, 9], Waitingforsemaphore := [5, 4]),
     sched_priority := (\<lambda>_. 0)(2 := 200, 4 := 200, 5 := 200), base_priority := (\<lambda>_. 0)(2 := 50, 4 := 100, 5 := 200),
     task_state := (\<lambda>_. TSTATE_TASK_INVALID)(2 := TSTATE_TASK_RUNNING, 9 := TSTATE_TASK_READYTORUN, 4 := TSTATE_WAIT_SEM, 5 := TSTATE_WAIT_SEM),
     semcount := (\<lambda>_. 0)(1000 := -1, 2000 := -1), hlist := (\<lambda>_. [])(1000 := [500], 2000 := [512]), htcb := (\<lambda>_. 0)(500 := 2, 512 := 4),
     hcounts := (\<lambda>_. 0)(500 := 1, 512 := 1), g_freeholders := [524], waitsem := (\<lambda>_. 0)(4 := 1000, 5 := 2000)\<rparr>"

lemma sem_demo_two_inv: "sem_inv sem_demo_two" "inherits sem_demo_two"
proof -
  have "{t. t \<noteq> 4 \<and> (t \<noteq> 4 \<longrightarrow> t = 5)} = {5 :: addr}" by auto
  then show "sem_inv sem_demo_two" "inherits sem_demo_two"
    by (simp_all add: sem_inv_defs sem_demo_two_def sem_demo_def inherits_def CONFIG_MAX_TASKS_def)
qed

text \<open>What restoring the holders of a semaphore does to the one in the container \<open>p\<close>, a task \<open>w\<close> without pending
  priorities: it is set to its base priority when its turn comes, and stays there.\<close>

definition tracked :: "addr \<Rightarrow> addr \<Rightarrow> addr \<Rightarrow> 'a sem_state_scheme \<Rightarrow> 'a sem_state_scheme \<Rightarrow> bool" where
  "tracked sem p w s u \<longleftrightarrow> restoring s u \<and> others_frame sem s u \<and> p \<in> set (hlist u sem) \<and> htcb u p = w \<and> npend_reprio u w = 0"

lemma sem_restore_tracked:
  assumes u: "tracked sem p w s u" "sched_verifytcb w s" and q: "q \<in> set (hlist u sem)"
    and r: "sem_restoreholderprio in_irq sem stcb q u = Some (r, u')"
  shows "tracked sem p w s u'" "set (hlist u sem) - {q} \<subseteq> set (hlist u' sem)"
    "q = p \<or> sched_priority u w = base_priority s w \<Longrightarrow> sched_priority u' w = base_priority s w"
    "htcb u q \<noteq> hd (g_readytorun u) \<Longrightarrow> lockcount u (hd (g_readytorun u)) \<noteq> 0 \<Longrightarrow> hd (g_readytorun u') = hd (g_readytorun u)"
proof -
  have re: "restoring s u" and ofr: "others_frame sem s u" and p: "p \<in> set (hlist u sem)" "htcb u p = w" and np: "npend_reprio u w = 0"
    using u(1) by (simp_all add: tracked_def)
  have v: "sched_verifytcb w u" and bp: "base_priority u = base_priority s" using u(2) ofr by (simp_all add: others_frame_def)
  note ho = restoringD(3) [OF re]
  obtain r1 u1 where u1: "sem_restoreholderprio in_irq sem stcb q u = Some (r1, u1)" "restoring s u1"
      "if sched_verifytcb (htcb u q) u then holder_frame u u1 else u1 = sem_freeholder sem q u"
      "\<And>t. t \<noteq> htcb u q \<Longrightarrow> sched_priority u1 t = sched_priority u t \<and> npend_reprio u1 t = npend_reprio u t"
      "sched_verifytcb (htcb u q) u \<Longrightarrow> npend_reprio u (htcb u q) = 0 \<Longrightarrow>
        sched_priority u1 (htcb u q) = base_priority u (htcb u q) \<and> npend_reprio u1 (htcb u q) = 0"
      "htcb u q \<noteq> hd (g_readytorun u) \<Longrightarrow> lockcount u (hd (g_readytorun u)) \<noteq> 0 \<Longrightarrow> hd (g_readytorun u1) = hd (g_readytorun u)"
    by (rule sem_restoreholderprio_spec [OF re q, of in_irq stcb]) (rule that)
  have e: "u' = u1" using r u1(1) by simp
  have re': "restoring s u'" using u1(2) e by simp
  show "set (hlist u sem) - {q} \<subseteq> set (hlist u' sem)" unfolding e by (rule restored_holders [OF ho q u1(3)])
  have qp: "htcb u q = w \<longleftrightarrow> q = p" using inj_onD [OF holders_ok_facts(10) [OF ho, of sem] _ q p(1)] p(2) by auto
  have "sem_frame u u'" using re re' by (simp add: restoring_def sem_frame_def)
  then have "others_frame sem u u' \<and> p \<in> set (hlist u' sem) \<and> htcb u' p = w"
    using u1(3) p v qp q others_frameI [of u u' sem] others_frame_free [OF ho q] sem_freeholder_ok(2,3) [OF ho q] holders_ok_facts(3) [OF ho, of sem]
    unfolding e by (cases "sched_verifytcb (htcb u q) u") (auto simp: holder_frame_def)
  moreover have w: "npend_reprio u' w = 0 \<and> (q = p \<or> sched_priority u w = base_priority s w \<longrightarrow> sched_priority u' w = base_priority s w)"
    using u1(4) [of w] u1(5) qp v np bp unfolding e by (cases "q = p") auto
  ultimately show "tracked sem p w s u'" using re' others_frame_trans [OF ofr] by (simp add: tracked_def)
  show "q = p \<or> sched_priority u w = base_priority s w \<Longrightarrow> sched_priority u' w = base_priority s w" using w by simp
  show "htcb u q \<noteq> hd (g_readytorun u) \<Longrightarrow> lockcount u (hd (g_readytorun u)) \<noteq> 0 \<Longrightarrow> hd (g_readytorun u') = hd (g_readytorun u)"
    using u1(6) e by simp
qed

lemma foreach_tracked:
  assumes step: "\<And>q u r u'. I u \<Longrightarrow> q \<in> set (hlist u sem) \<Longrightarrow> handler q u = Some (r, u') \<Longrightarrow>
      I u' \<and> set (hlist u sem) - {q} \<subseteq> set (hlist u' sem) \<and> (Q u \<or> q = p \<longrightarrow> Q u')"
    and p: "\<And>u. I u \<Longrightarrow> htcb u p \<noteq> NULL"
  shows "sem_foreach_loop handler qs u = Some (r, u') \<Longrightarrow> I u \<Longrightarrow> set qs \<subseteq> set (hlist u sem) \<Longrightarrow> distinct qs \<Longrightarrow>
    I u' \<and> (Q u \<or> r = Ret 0 \<and> p \<in> set qs \<longrightarrow> Q u')"
proof (induction qs arbitrary: u)
  case Nil
  then show ?case by simp
next
  case (Cons q qs)
  show ?case
  proof (cases "htcb u q = NULL")
    case True
    then have "q \<noteq> p" using p [OF Cons.prems(2)] by auto
    then show ?thesis using Cons.IH [of u] Cons.prems True by auto
  next
    case False
    then obtain r1 u1 where u1: "handler q u = Some (r1, u1)"
      "(if r1 = Ret 0 then sem_foreach_loop handler qs u1 else Some (r1, u1)) = Some (r, u')"
      using Cons.prems(1) by (auto simp: bind_eq_Some_conv)
    note st = step [OF Cons.prems(2) _ u1(1)]
    have "q \<in> set (hlist u sem)" "set qs \<subseteq> set (hlist u1 sem)" using Cons.prems(3,4) st by auto
    then show ?thesis using Cons.IH [of u1] Cons.prems(4) st u1(2) by (cases "r1 = Ret 0") auto
  qed
qed

lemma foreachholder_tracked:
  assumes "sem_foreachholder sem handler u = Some (r, u')" "I u" "\<And>u. I u \<Longrightarrow> holders_ok u \<and> p \<in> set (hlist u sem)"
    and "\<And>q u r u'. I u \<Longrightarrow> q \<in> set (hlist u sem) \<Longrightarrow> handler q u = Some (r, u') \<Longrightarrow>
      I u' \<and> set (hlist u sem) - {q} \<subseteq> set (hlist u' sem) \<and> (Q u \<or> q = p \<longrightarrow> Q u')"
  shows "I u'" "Q u \<or> r = Ret 0 \<Longrightarrow> Q u'"
proof -
  have "I u' \<and> (Q u \<or> r = Ret 0 \<and> p \<in> set (hlist u sem) \<longrightarrow> Q u')"
  proof (rule foreach_tracked [where I = I and sem = sem and handler = handler])
    show "htcb v p \<noteq> NULL" if "I v" for v using assms(3) [OF that] holders_ok_facts(7) by blast
    show "distinct (hlist u sem)" using assms(3) [OF assms(2)] holders_ok_facts(3) by blast
    show "sem_foreach_loop handler (hlist u sem) u = Some (r, u')" using assms(1) by (simp add: sem_foreachholder_def)
  qed (erule (2) assms(4), use assms(2) in simp_all)
  then show "I u'" "Q u \<or> r = Ret 0 \<Longrightarrow> Q u'" using assms(3) [OF assms(2)] by auto
qed

lemma tracked_holders: "tracked sem p w s u \<Longrightarrow> holders_ok u \<and> p \<in> set (hlist u sem)"
  by (simp add: tracked_def restoring_def)

lemma tracked_head: "tracked sem p w s u \<Longrightarrow> head_of (g_readytorun u) = hd (g_readytorun u)"
  using running_facts(1) [OF wf_inv, of u] by (simp add: tracked_def restoring_def)

lemma sem_restore_A_tracked:
  assumes s: "tracked sem p w s s" "sched_verifytcb w s" and lk: "lockcount s (hd (g_readytorun s)) \<noteq> 0" "w \<noteq> hd (g_readytorun s)"
    and r: "sem_foreachholder sem (sem_restoreholderprioA sem stcb) s = Some (Ret 0, s')"
  shows "tracked sem p w s s'" "sched_priority s' w = base_priority s w"
proof -
  let ?Q = "\<lambda>u. sched_priority u w = base_priority s w" and ?r = "hd (g_readytorun s)"
  let ?I = "\<lambda>u. tracked sem p w s u \<and> hd (g_readytorun u) = ?r"
  have step: "?I u' \<and> set (hlist u sem) - {q} \<subseteq> set (hlist u' sem) \<and> (?Q u \<or> q = p \<longrightarrow> ?Q u')"
    if u: "?I u" and q: "q \<in> set (hlist u sem)" and h: "sem_restoreholderprioA sem stcb q u = Some (ra, u')" for q u ra u'
  proof (cases "htcb u q = ?r")
    case True
    then have "u' = u" using h u tracked_head [of sem p w s u] by (simp add: sem_restoreholderprioA_def)
    moreover have "q \<noteq> p" using True u lk(2) by (auto simp: tracked_def)
    ultimately show ?thesis using u by auto
  next
    case False
    then have "sem_restoreholderprio True sem stcb q u = Some (ra, u')"
      using h u tracked_head [of sem p w s u] by (simp add: sem_restoreholderprioA_def)
    note t = sem_restore_tracked [OF conjunct1 [OF u] s(2) q this]
    have "lockcount u = lockcount s" using u by (simp add: tracked_def restoring_def sem_frame_def)
    then have "hd (g_readytorun u') = ?r" using t(4) u False lk(1) by simp
    then show ?thesis using t(1-3) by blast
  qed
  have I: "?I s" "\<And>u. ?I u \<Longrightarrow> holders_ok u \<and> p \<in> set (hlist u sem)" using s(1) tracked_holders by blast+
  have "?I s'" by (rule foreachholder_tracked(1) [where I = ?I and Q = ?Q and p = p, OF r I]) (assumption, erule (2) step)
  then show "tracked sem p w s s'" by simp
  show "?Q s'" by (rule foreachholder_tracked(2) [where I = ?I and Q = ?Q and p = p, OF r I]) (assumption, erule (2) step, simp)
qed

lemma sem_restore_B_tracked:
  assumes s: "tracked sem p w s u" "sched_verifytcb w s" "sched_priority u w = base_priority s w"
    and r: "sem_foreachholder sem (sem_restoreholderprioB sem stcb) u = Some (r, s')"
  shows "tracked sem p w s s'" "sched_priority s' w = base_priority s w"
proof -
  let ?I = "\<lambda>u. tracked sem p w s u \<and> sched_priority u w = base_priority s w"
  have step: "?I u' \<and> set (hlist u sem) - {q} \<subseteq> set (hlist u' sem) \<and> (True \<or> q = p \<longrightarrow> True)"
    if u: "?I u" and q: "q \<in> set (hlist u sem)" and h: "sem_restoreholderprioB sem stcb q u = Some (rb, u')" for q u rb u'
  proof (cases "htcb u q = head_of (g_readytorun u)")
    case True
    then obtain r1 where "sem_restoreholderprio False sem stcb q u = Some (r1, u')"
      using h by (auto simp: sem_restoreholderprioB_def bind_eq_Some_conv)
    from sem_restore_tracked [OF conjunct1 [OF u] s(2) q this] show ?thesis using u by blast
  qed (use u h in \<open>auto simp: sem_restoreholderprioB_def\<close>)
  have I: "?I u" "\<And>u. ?I u \<Longrightarrow> holders_ok u \<and> p \<in> set (hlist u sem)" using s(1,3) tracked_holders by blast+
  have "?I s'" by (rule foreachholder_tracked(1) [where I = ?I and Q = "\<lambda>_. True" and p = p, OF r I]) (assumption, erule (2) step)
  then show "tracked sem p w s s'" "sched_priority s' w = base_priority s w" by simp_all
qed

lemma sem_restorebaseprio_tracked:
  assumes s: "tracked sem p w s s" "sched_verifytcb w s" "semcount s sem \<le> 0" "stcb \<noteq> NULL"
    and lk: "\<not> in_irq \<Longrightarrow> lockcount s (hd (g_readytorun s)) \<noteq> 0 \<and> w \<noteq> hd (g_readytorun s)"
    and r: "sem_restorebaseprio in_irq stcb sem s = Some (r, s')"
  shows "sched_priority s' w = base_priority s w" "others_frame sem s s'"
proof -
  let ?Q = "\<lambda>u. sched_priority u w = base_priority s w"
  have re: "restoring s s" using s(1) by (simp add: tracked_def)
  have "?Q s' \<and> others_frame sem s s'"
  proof (cases in_irq)
    case True
    obtain s1 where s1: "sem_foreachholder sem (sem_restoreholderprio True sem stcb) s = Some (Ret 0, s1)"
      using sem_restore_irq [OF re] by blast
    have st: "tracked sem p w s u' \<and> set (hlist u sem) - {q} \<subseteq> set (hlist u' sem) \<and> (?Q u \<or> q = p \<longrightarrow> ?Q u')"
      if "tracked sem p w s u" "q \<in> set (hlist u sem)" "sem_restoreholderprio True sem stcb q u = Some (ri, u')" for q u ri u'
      using sem_restore_tracked [OF that(1) s(2) that(2,3)] by blast
    note f = foreachholder_tracked [where I = "tracked sem p w s" and Q = ?Q and p = p, OF s1 s(1)]
    have "tracked sem p w s s1" by (rule f(1)) (erule tracked_holders, erule (2) st)
    moreover have "?Q s1" by (rule f(2)) (erule tracked_holders, erule (2) st, simp)
    moreover have "s' = s1" using r True s(3,4) s1 by (simp add: sem_restorebaseprio_def sem_restorebaseprio_irq_def debugassert_def)
    ultimately show ?thesis by (simp add: tracked_def)
  next
    case False
    obtain s1 where s1: "sem_foreachholder sem (sem_restoreholderprioA sem stcb) s = Some (Ret 0, s1)"
      using sem_restore_A [OF re conjunct1 [OF lk [OF False]] refl] by blast
    note t1 = sem_restore_A_tracked [OF s(1,2) conjunct1 [OF lk [OF False]] conjunct2 [OF lk [OF False]] s1]
    have "restoring s s1" using t1(1) by (simp add: tracked_def)
    then obtain r2 s2 where s2: "sem_foreachholder sem (sem_restoreholderprioB sem stcb) s1 = Some (r2, s2)"
      using sem_restore_B [OF _ refl] by blast
    note t2 = sem_restore_B_tracked [OF t1(1) s(2) t1(2) s2]
    have ho: "holders_ok s2" and of2: "others_frame sem s s2" using t2(1) by (simp_all add: tracked_def restoring_def)
    have "s' = s2 \<or> s' = sem_drop_holder (head_of (g_readytorun s)) sem s2"
      using r False s(3,4) s1 s2
      by (cases r2) (simp_all add: sem_restorebaseprio_def sem_restorebaseprio_task_def debugassert_def Let_def)
    then have "s' = s2 \<or> (\<exists>c \<in> set (hlist s2 sem). s' = sem_freeholder sem c s2)"
      using sem_findholder_spec(2) [OF ho, of sem "head_of (g_readytorun s)"] unfolding sem_drop_holder_def Let_def by (metis (full_types))
    then show ?thesis
    proof
      assume "\<exists>c \<in> set (hlist s2 sem). s' = sem_freeholder sem c s2"
      then obtain c where c: "c \<in> set (hlist s2 sem)" "s' = sem_freeholder sem c s2" by blast
      then show ?thesis using t2(2) sem_freeholder_frame(3) [of sem c s2] others_frame_trans [OF of2 others_frame_free [OF ho c(1)]] by simp
    qed (use t2 of2 in simp)
  qed
  then show "sched_priority s' w = base_priority s w" "others_frame sem s s'" by simp_all
qed

text \<open>(C40) The post restores the priorities of all holders, the new one included. Let \<open>w\<close>, the task that the post
  hands the semaphore, have no pending priorities and hold a second semaphore, for which a task \<open>t\<close> of a higher base
  priority waits, and let a holder container be free. After the post, by a task or by an interrupt handler, \<open>w\<close> has
  fallen back to its base priority, though it still holds the second semaphore and \<open>t\<close> still waits for it at a
  higher priority: the inheritance is lost.\<close>

theorem sem_post_loses_priority:
  assumes inv: "sem_inv s" and sem: "sem \<noteq> NULL" "semcount s sem < 0"
    and lc: "\<not> in_irq \<Longrightarrow> lockcount s (hd (g_readytorun s)) < MAX_LOCK_COUNT"
    and w: "w = first_waiter sem s" "sched_verifytcb w s" "npend_reprio s w = 0" "g_freeholders s \<noteq> []"
    and t: "waitsem s t \<noteq> NULL" "waitsem s t \<noteq> sem" "q \<in> set (hlist s (waitsem s t))" "htcb s q = w" "base_priority s w < base_priority s t"
  shows "\<exists>r s'. sem_post in_irq sem s = Some (r, s') \<and> sched_priority s' w = base_priority s w \<and>
    waitsem s' t = waitsem s t \<and> q \<in> set (hlist s' (waitsem s t)) \<and> htcb s' q = w \<and> sched_priority s' w < sched_priority s' t \<and>
    \<not> inherits s'"
proof -
  let ?r = "hd (g_readytorun s)"
  have sv: "semcount s sem < SEM_VALUE_MAX" using sem(2) by (simp add: SEM_VALUE_MAX_def)
  have re: "restoring s s" and wo: "waiting_ok s" using inv by (simp_all add: sem_inv_restoring)
  note fw = first_waiter_spec(1,2) [OF restoringD(1) [OF re] wo sem, folded w(1)]
  obtain s3 stcb where s3: "sem_post in_irq sem s = do {
        (r, s) \<leftarrow> sem_restorebaseprio in_irq stcb sem s3;
        case r of Suspended b \<Rightarrow> Some (Suspended b, s)
        | Ret _ \<Rightarrow> do { s \<leftarrow> sched_unlock in_irq s; Some (Ret 0, s) } }"
    "restoring s3 s3" "waiting_ok s3" "posted sem s s3" "semcount s3 sem > 0 \<and> stcb = NULL \<or> semcount s3 sem \<le> 0 \<and> stcb \<noteq> NULL"
    "\<not> in_irq \<Longrightarrow> hd (g_readytorun s3) = ?r \<and> lockcount s3 ?r = lockcount s ?r + 1"
    "semcount s sem < 0 \<Longrightarrow> handed (first_waiter sem s) sem s s3"
    by (rule sem_post_prefix [OF inv sem(1) sv lc]) (assumption, rule that)
  have hn: "handed w sem s s3" using s3(7) sem(2) w(1) by simp
  then obtain p where p: "p \<in> set (hlist s3 sem)" "htcb s3 p = w" using w(4) by (auto simp: handed_def)
  have tr: "tracked sem p w s3 s3" using s3(2) p hn w(3) by (simp add: tracked_def handed_def others_frame_def)
  have v3: "sched_verifytcb w s3" "base_priority s3 = base_priority s" using hn w(2) by (simp_all add: handed_def others_frame_def)
  have st: "semcount s3 sem \<le> 0" "stcb \<noteq> NULL" using s3(4,5) sem(2) by (auto simp: posted_def)
  have "?r \<in> set (g_readytorun s)" using readytorun_nonempty [OF wf_inv [OF restoringD(1) [OF re]]] by simp
  then have wr: "w \<noteq> ?r" using only_list [OF wf_inv [OF restoringD(1) [OF re]], of w Readytorun Waitingforsemaphore] fw(1) by auto
  have lk: "\<not> in_irq \<Longrightarrow> lockcount s3 (hd (g_readytorun s3)) \<noteq> 0 \<and> w \<noteq> hd (g_readytorun s3)" using s3(6) wr by simp
  obtain r s4 where s4: "sem_restorebaseprio in_irq stcb sem s3 = Some (r, s4)" "restoring s3 s4"
    by (rule sem_restorebaseprio_spec [OF s3(2,5) conjunct1 [OF lk]]) (assumption, rule that)
  note t4 = sem_restorebaseprio_tracked [OF tr v3(1) st lk s4(1)]
  obtain s5 where s5: "sched_unlock in_irq s4 = Some s5" "sched_priority s5 = sched_priority s4"
      "holder_frame s4 s5" "base_priority s5 = base_priority s4" "\<And>t. sched_verifytcb t s5 = sched_verifytcb t s4"
    by (rule sched_unlock_ok [OF restoringD(5) [OF s4(2)], of in_irq]) (rule that)
  obtain r' s' where post: "sem_post in_irq sem s = Some (r', s')" "sem_inv s'" "posted sem s s'"
    by (rule sem_post_spec [OF inv sem(1) sv lc]) (assumption, rule that)
  have "s' = s4 \<or> s' = s5" using post(1) s3(1) s4(1) s5(1) by (cases r) auto
  then have pr: "sched_priority s' w = base_priority s w" and of': "others_frame sem s s'"
    using t4 v3(2) s5(2-5) others_frame_trans [of sem s s3 s4] hn by (auto simp: handed_def others_frame_def holder_frame_def)
  have wt: "waitsem s' t = waitsem s t" using post(3) sem(2) t(2) fw(2) by (auto simp: posted_def w(1) [symmetric])
  have q': "q \<in> set (hlist s' (waitsem s t))" "htcb s' q = w" "sched_verifytcb w s'" "base_priority s' = base_priority s"
    using of' t(2-4) w(2) by (simp_all add: others_frame_def)
  have "t \<in> set (tlist s' Waitingforsemaphore)" "sched_wf s'" "prios_ok s'" using post(2) t(1) wt by (auto simp: sem_inv_def waiting_ok_def)
  then have "base_priority s t \<le> sched_priority s' t" using waiter_facts(2,4) [of s' t] prios_okD(5) [of s' t] q'(4) by simp
  then have lt: "sched_priority s' w < sched_priority s' t" using pr t(5) by simp
  then have "\<not> inherits s'" using q'(1-3) wt t(1) unfolding inherits_def by (metis not_le)
  then show ?thesis using post(1) pr wt q'(1,2) lt by blast
qed

theorem sem_post_loses_priority_witness:
  "inherits sem_demo_two \<and> (\<exists>r s'. sem_post False 1000 sem_demo_two = Some (r, s') \<and> sched_priority s' 4 = 100 \<and> \<not> inherits s')"
proof -
  have w: "4 = first_waiter 1000 sem_demo_two" "sched_verifytcb 4 sem_demo_two" "npend_reprio sem_demo_two 4 = 0"
    "base_priority sem_demo_two 4 = 100" "g_freeholders sem_demo_two \<noteq> []" "base_priority sem_demo_two 5 = 200"
    "waitsem sem_demo_two 5 = 2000" "512 \<in> set (hlist sem_demo_two 2000)" "htcb sem_demo_two 512 = 4"
    "semcount sem_demo_two 1000 < 0" "lockcount sem_demo_two (hd (g_readytorun sem_demo_two)) < MAX_LOCK_COUNT"
    by (simp_all add: sem_demo_two_def sem_demo_def first_waiter_def sched_verifytcb_def CONFIG_MAX_TASKS_def MAX_LOCK_COUNT_def)
  show ?thesis
    using sem_post_loses_priority [where in_irq = False and t = 5 and q = 512, OF sem_demo_two_inv(1) _ w(10) w(11) w(1-3,5)] w(4,6-9) sem_demo_two_inv(2) by auto
qed

end
