(* ===== verification/Calendar.thy ===== *)
theory Calendar
  imports Prelude "HOL-Library.Signed_Division"
begin

unbundle bit_operations_syntax

text \<open>
  Calendar arithmetic of \<open>lib/libc/time\<close> (gmtime_r, mktime, the Gregorian conversions of Seidelmann) and the two
  weekday routines, against a calendar that is defined by the step from a day to the next one. C's \<open>/\<close> and
  \<open>%\<close> on \<open>int\<close> are \<open>sdiv\<close> and \<open>smod\<close>; \<open>time_t\<close> is a word of 32 bits. The values of the
  \<open>int\<close> and \<open>long\<close> variables stay below \<open>2 ^ 31\<close> on the dates up to 2106, the largest being
  \<open>4000 * (l + 1)\<close> with \<open>l\<close> below 36525.
\<close>

section \<open>Definitions\<close>

definition JD_OF_EPOCH :: int where "JD_OF_EPOCH = 2440588"
definition SEC_PER_MIN :: u32 where "SEC_PER_MIN = 60"
definition SEC_PER_HOUR :: u32 where "SEC_PER_HOUR = 60 * SEC_PER_MIN"
definition SEC_PER_DAY :: u32 where "SEC_PER_DAY = 24 * SEC_PER_HOUR"

definition clock_isleapyear :: "int \<Rightarrow> bool" where
  "clock_isleapyear year \<longleftrightarrow> (if year smod 400 \<noteq> 0 then (if year smod 100 \<noteq> 0 then (if year smod 4 \<noteq> 0 then False else True) else False) else True)"

definition g_daysbeforemonth :: "int list" where
  "g_daysbeforemonth = [0, 31, 59, 90, 120, 151, 181, 212, 243, 273, 304, 334, 365]"

text \<open>\<open>None\<close>: the table is read out of bounds.\<close>

definition clock_daysbeforemonth :: "int \<Rightarrow> bool \<Rightarrow> int option" where
  "clock_daysbeforemonth month leapyear =
     (if 1 \<le> month \<and> month \<le> 13
      then Some (g_daysbeforemonth ! nat (month - 1) + (if month > 2 \<and> leapyear then 1 else 0)) else None)"

definition clock_gregorian2utc :: "int \<Rightarrow> int \<Rightarrow> int \<Rightarrow> int" where
  "clock_gregorian2utc year month day =
     (let temp = (if month \<le> 2 then -1 else 0)
      in (1461 * (year + 4800 + temp)) sdiv 4 + (367 * (month - 2 - 12 * temp)) sdiv 12
         - (3 * ((year + 4900 + temp) sdiv 100)) sdiv 4 + day - 32075)"

definition clock_calendar2utc :: "int \<Rightarrow> int \<Rightarrow> int \<Rightarrow> u32" where
  "clock_calendar2utc year month day =
     (let dyear = (month - 1) sdiv 12;
          month = month - 12 * dyear;
          year = year + dyear;
          (month, year) = (if month < 1 then (month + 12, year - 1) else (month, year))
      in word_of_int (clock_gregorian2utc year month day) - word_of_int JD_OF_EPOCH)"

text \<open>The results are year, month and day.\<close>

definition clock_utc2gregorian :: "int \<Rightarrow> int \<times> int \<times> int" where
  "clock_utc2gregorian jd =
     (let l = jd + 68569;
          n = (4 * l) sdiv 146097;
          l = l - (146097 * n + 3) sdiv 4;
          i = (4000 * (l + 1)) sdiv 1461001;
          l = l - (1461 * i) sdiv 4 + 31;
          j = (80 * l) sdiv 2447;
          d = l - (2447 * j) sdiv 80;
          l = j sdiv 11;
          m = j + 2 - 12 * l;
          y = 100 * (n - 49) + i + l
      in (y, m, d))"

definition clock_utc2calendar :: "u32 \<Rightarrow> int \<times> int \<times> int" where
  "clock_utc2calendar utc = clock_utc2gregorian (uint (utc + word_of_int JD_OF_EPOCH))"

record tm =
  tm_sec :: int
  tm_min :: int
  tm_hour :: int
  tm_mday :: int
  tm_mon :: int
  tm_year :: int

definition gmtime_r :: "u32 \<Rightarrow> tm" where
  "gmtime_r timer =
     (let epoch = timer;
          jdn = epoch div SEC_PER_DAY;
          epoch = epoch - SEC_PER_DAY * jdn;
          hour = uint (epoch div SEC_PER_HOUR);
          epoch = epoch - SEC_PER_HOUR * word_of_int hour;
          min = uint (epoch div SEC_PER_MIN);
          epoch = epoch - SEC_PER_MIN * word_of_int min;
          sec = uint epoch;
          (year, month, day) = clock_utc2calendar jdn
      in \<lparr>tm_sec = sec, tm_min = min, tm_hour = hour, tm_mday = day, tm_mon = month - 1, tm_year = year - 1900\<rparr>)"

definition mktime :: "tm \<Rightarrow> u32" where
  "mktime tp =
     (let jdn = clock_calendar2utc (tm_year tp + 1900) (tm_mon tp + 1) (tm_mday tp)
      in ((jdn * 24 + word_of_int (tm_hour tp)) * 60 + word_of_int (tm_min tp)) * 60 + word_of_int (tm_sec tp))"

text \<open>The computations of weekdays use the C type \<open>int\<close>; for years from 1 to \<open>2 ^ 30\<close> all intermediate values
  are at most \<open>year + year / 4 + year / 400 + 100\<close> in size and do not overflow. \<open>clock_dayoftheweek\<close> is
  compiled only with \<open>CONFIG_TIME_EXTENDED\<close>.\<close>

definition clock_dayoftheweek :: "int \<Rightarrow> int \<Rightarrow> int \<Rightarrow> int" where
  "clock_dayoftheweek mday month year =
     (let (year, month) = (if month \<le> 2 then (year - 1, month + 12) else (year, month));
          month = month - 2
      in (mday + year + year sdiv 4 - year sdiv 100 + year sdiv 400 + (31 * month) sdiv 12) smod 7)"

definition g_lookup :: "int list" where
  "g_lookup = [2, 5, 7, 10, 12, 15, 17, 20, 23, 25, 28, 30]"

definition clock_dow :: "int \<Rightarrow> int \<Rightarrow> int \<Rightarrow> int" where
  "clock_dow year month day =
     (let (day, year) = (if month < 2 then (day + year, year - 1) else (day + (year - 2), year))
      in (g_lookup ! nat month + day + 4 + year sdiv 4 - year sdiv 100 + year sdiv 400) smod 7)"

section \<open>The calendar\<close>

definition leap :: "int \<Rightarrow> bool" where
  "leap y \<longleftrightarrow> y mod 4 = 0 \<and> (y mod 100 = 0 \<longrightarrow> y mod 400 = 0)"

definition days_in :: "int \<Rightarrow> int \<Rightarrow> int" where
  "days_in y m = (if m = 2 then (if leap y then 29 else 28) else if m \<in> {4, 6, 9, 11} then 30 else 31)"

definition valid_date :: "int \<times> int \<times> int \<Rightarrow> bool" where
  "valid_date = (\<lambda>(y, m, d). 0 < y \<and> 1 \<le> m \<and> m \<le> 12 \<and> 1 \<le> d \<and> d \<le> days_in y m)"

definition next_day :: "int \<times> int \<times> int \<Rightarrow> int \<times> int \<times> int" where
  "next_day = (\<lambda>(y, m, d). if d < days_in y m then (y, m, d + 1) else if m < 12 then (y, m + 1, 1) else (y + 1, 1, 1))"

lemma valid_next_day: "valid_date x \<Longrightarrow> valid_date (next_day x)"
  by (cases x) (auto simp: valid_date_def next_day_def days_in_def split: if_splits)

lemma sdiv_nonneg: "0 \<le> x \<Longrightarrow> 0 < y \<Longrightarrow> x sdiv y = x div y" for x y :: int
  by (cases "x = 0") (simp_all add: signed_divide_int_def sgn_if)

lemma smod_nonneg: "0 \<le> x \<Longrightarrow> 0 < y \<Longrightarrow> x smod y = x mod y" for x y :: int
  by (cases "x = 0") (simp_all add: signed_modulo_int_def sgn_if)

lemma clock_isleapyear_leap: "0 < y \<Longrightarrow> clock_isleapyear y = leap y"
proof -
  assume y: "0 < y"
  have "400 dvd y \<Longrightarrow> 100 dvd y" "100 dvd y \<Longrightarrow> 4 dvd y" by (auto elim: dvd_trans [rotated])
  then show ?thesis using y by (auto simp: clock_isleapyear_def leap_def smod_nonneg mod_eq_0_iff_dvd)
qed

text \<open>Years from March to February, and the day of such a year on which a month starts.\<close>

definition month_start :: "int \<Rightarrow> int" where
  "month_start m = (367 * m) div 12"

definition month_len :: "bool \<Rightarrow> int \<Rightarrow> int" where
  "month_len lp m = (if m = 12 then (if lp then 29 else 28) else if m \<in> {2, 4, 7, 9} then 30 else 31)"

lemma div_eqI: "q * b \<le> a \<Longrightarrow> a < (q + 1) * b \<Longrightarrow> 0 < b \<Longrightarrow> a div b = q" for a b q :: int
  by (rule int_div_pos_eq [of a b q "a - b * q"]) (simp_all add: algebra_simps)

lemma months:
  "1 \<le> m \<Longrightarrow> m \<le> 12 \<Longrightarrow> m = 1 \<or> m = 2 \<or> m = 3 \<or> m = 4 \<or> m = 5 \<or> m = 6 \<or> m = 7 \<or> m = 8 \<or> m = 9 \<or> m = 10 \<or> m = 11 \<or> m = 12"
  for m :: int by presburger

lemma month_of_day:
  assumes "1 \<le> m" "m \<le> 12" "1 \<le> d" "d \<le> month_len lp m"
  shows "(80 * (month_start m + d)) div 2447 = m" "(2447 * m) div 80 = month_start m"
    "0 \<le> month_start m + d - 31" "month_start m + d - 31 \<le> (if lp then 365 else 364)"
  using months [OF assms(1,2)] assms(3,4)
  by (auto simp: month_start_def month_len_def intro!: div_eqI split: if_splits)

text \<open>The day number of a date, with the year split into centuries of March years.\<close>

lemma clock_utc2gregorian_inverse:
  fixes a b r m d :: int
  assumes ab: "0 \<le> a" "0 \<le> b" "b \<le> 3" and r: "0 \<le> r" "r \<le> 99" and m: "1 \<le> m" "m \<le> 12"
    and lp: "lp \<Longrightarrow> (r + 1) mod 4 = 0 \<and> (r = 99 \<longrightarrow> b = 3)" and d: "1 \<le> d" "d \<le> month_len lp m"
    and jd: "jd = 146097 * a + 36524 * b + (1461 * r) div 4 + month_start m + d - 32075"
  shows "clock_utc2gregorian jd = (400 * a + 100 * b + r - 4800 + (if m \<ge> 11 then 1 else 0), (if m \<ge> 11 then m - 10 else m + 2), d)"
proof -
  define e where "e = month_start m + d - 31"
  define q where "q = (1461 * r) div 4"
  note md = month_of_day [OF m d]
  have e: "0 \<le> e" "e \<le> (if lp then 365 else 364)" using md(3,4) by (simp_all add: e_def)
  have "q * 4 + (1461 * r) mod 4 = 1461 * r" unfolding q_def by (rule div_mult_mod_eq)
  moreover have "0 \<le> (1461 * r) mod 4" "(1461 * r) mod 4 < 4" by simp_all
  ultimately have q: "4 * q \<le> 1461 * r" "1461 * r \<le> 4 * q + 3" by linarith+
  have ql: "4 * q + 3 = 1461 * r" if lp
  proof -
    have "4 dvd r + 1" using lp [OF that] by (simp add: mod_eq_0_iff_dvd)
    then obtain k where k: "r + 1 = 4 * k" ..
    have "q = 1461 * k - 366" unfolding q_def by (rule div_eqI) (use k in auto)
    then show ?thesis using k by simp
  qed
  define c where "c = q + e"
  have q99: "r = 99 \<Longrightarrow> q = 36159" by (simp add: q_def)
  have "4 * c \<le> 146093 + b"
  proof (cases "r = 99")
    case True
    then show ?thesis using q99 e lp ab by (auto simp: c_def split: if_splits)
  next
    case False
    then have "r \<le> 98" using r by simp
    then show ?thesis using q(1) e(2) ab by (auto simp: c_def split: if_splits)
  qed
  moreover have "0 \<le> c" using q(2) e(1) r unfolding c_def q_def by (simp add: pos_imp_zdiv_nonneg_iff)
  ultimately have c: "0 \<le> c" "4 * c \<le> 146093 + b" by simp_all
  define l0 where "l0 = jd + 68569"
  have l0: "l0 = 146097 * a + 36524 * b + 36525 + c" by (simp add: l0_def jd c_def e_def q_def)
  define n where "n = (4 * l0) sdiv 146097"
  have "(4 * l0) div 146097 = 4 * a + b + 1" by (rule div_eqI) (use c ab l0 in auto)
  then have n: "n = 4 * a + b + 1" using l0 c ab unfolding n_def by (subst sdiv_nonneg) auto
  have "(146097 * n + 3) div 4 = 146097 * a + 36524 * (b + 1) + 1" by (rule div_eqI) (use ab n in auto)
  then have l1: "l0 - (146097 * n + 3) sdiv 4 = c" using l0 n ab by (subst sdiv_nonneg) auto
  define i where "i = (4000 * (c + 1)) sdiv 1461001"
  have "(4000 * (c + 1)) div 1461001 = r"
  proof (rule div_eqI)
    show "r * 1461001 \<le> 4000 * (c + 1)" using q(2) e(1) r unfolding c_def by simp
    show "4000 * (c + 1) < (r + 1) * 1461001" using q(1) e(2) r ql unfolding c_def by (cases lp) simp_all
  qed simp
  then have i: "i = r" using c unfolding i_def by (subst sdiv_nonneg) auto
  have l2: "c - (1461 * i) sdiv 4 + 31 = month_start m + d" using r unfolding i by (subst sdiv_nonneg) (auto simp: c_def e_def q_def)
  define j where "j = (80 * (month_start m + d)) sdiv 2447"
  have j: "j = m" using md(1,3) unfolding j_def by (subst sdiv_nonneg) auto
  have dd: "month_start m + d - (2447 * j) sdiv 80 = d" using md(2) m unfolding j by (subst sdiv_nonneg) auto
  have l3: "j sdiv 11 = (if m \<ge> 11 then 1 else 0)" unfolding j using m by (subst sdiv_nonneg) (auto intro: div_eqI)
  show ?thesis
    unfolding clock_utc2gregorian_def Let_def l0_def [symmetric] n_def [symmetric] l1 i_def [symmetric] l2 j_def [symmetric] dd l3
    using n i j by auto
qed

text \<open>The days before a March year.\<close>

definition dayno :: "int \<Rightarrow> int" where
  "dayno Y = 146097 * (Y div 400) + 36524 * (Y mod 400 div 100) + (1461 * (Y mod 100)) div 4"

lemma year_split:
  fixes Y :: int
  obtains a b r where "Y = 400 * a + 100 * b + r" "0 \<le> b" "b \<le> 3" "0 \<le> r" "r \<le> 99" "a = Y div 400" "b = Y mod 400 div 100" "r = Y mod 100"
proof -
  define z where "z = Y mod 400"
  have z: "0 \<le> z" "z < 400" "Y = 400 * (Y div 400) + z" by (simp_all add: z_def)
  have "z = 100 * (z div 100) + z mod 100" by simp
  moreover have "0 \<le> z mod 100" "z mod 100 \<le> 99" by (simp, use pos_mod_bound [of 100 z] in linarith)
  moreover have "0 \<le> z div 100" "z div 100 \<le> 3"
    using z zdiv_mono1 [of z 399 100] by (simp_all add: pos_imp_zdiv_nonneg_iff)
  moreover have "Y mod 100 = z mod 100" by (simp add: z_def mod_mod_cancel)
  ultimately show thesis using that [of "Y div 400" "z div 100" "z mod 100"] z by (simp add: z_def)
qed

lemma split_unique:
  fixes a b r :: int
  assumes "0 \<le> b" "b \<le> 3" "0 \<le> r" "r \<le> 99" "Y = 400 * a + 100 * b + r"
  shows "Y div 400 = a" "Y mod 400 div 100 = b" "Y mod 100 = r"
proof -
  show 1: "Y div 400 = a" by (rule div_eqI) (use assms in auto)
  have "Y mod 400 = Y - a * 400" using minus_div_mult_eq_mod [of Y 400] 1 by simp
  then have 2: "Y mod 400 = 100 * b + r" using assms by simp
  show "Y mod 400 div 100 = b" unfolding 2 by (rule div_eqI) (use assms in auto)
  have "Y div 100 = 4 * a + b" by (rule div_eqI) (use assms in auto)
  then show "Y mod 100 = r" using minus_div_mult_eq_mod [of Y 100] assms by simp
qed

lemma leap_split:
  fixes a b r :: int
  assumes "0 \<le> b" "b \<le> 3" "0 \<le> r" "r \<le> 99" "Y = 400 * a + 100 * b + r"
  shows "leap (Y + 1) \<longleftrightarrow> (r + 1) mod 4 = 0 \<and> (r = 99 \<longrightarrow> b = 3)"
proof -
  have 4: "(Y + 1) mod 4 = (r + 1) mod 4"
  proof -
    have "Y + 1 = (r + 1) + 4 * (100 * a + 25 * b)" using assms(5) by simp
    then show ?thesis by (simp only: mod_mult_self2)
  qed
  show ?thesis
  proof (cases "r = 99")
    case True
    have "(Y + 1) mod 400 = 0 \<longleftrightarrow> b = 3"
    proof (cases "b = 3")
      case True
      then have "Y + 1 = 400 * (a + 1)" using assms(5) \<open>r = 99\<close> by simp
      then show ?thesis using True by simp
    next
      case False
      then have "(Y + 1) mod 400 = 100 * (b + 1)" using split_unique(1) [of "b + 1" 0 "Y + 1" a] assms \<open>r = 99\<close>
          minus_div_mult_eq_mod [of "Y + 1" 400] by simp
      then show ?thesis using False assms(1) by simp
    qed
    moreover have "Y + 1 = 100 * (4 * a + b + 1)" using assms(5) True by simp
    then have "(Y + 1) mod 100 = 0" by simp
    ultimately show ?thesis using True 4 by (simp add: leap_def)
  next
    case False
    then have "(Y + 1) mod 100 = r + 1" using split_unique(3) [of b "r + 1" "Y + 1" a] assms by simp
    then show ?thesis using False assms(3) 4 by (simp add: leap_def)
  qed
qed

lemma div_add_mult:
  fixes x y :: int
  shows "(x + 4 * y) div 4 = y + x div 4"
  by simp

lemma dayno_step: "dayno (Y + 1) = dayno Y + (if leap (Y + 1) then 366 else 365)"
proof -
  obtain a b r where s: "Y = 400 * a + 100 * b + r" "0 \<le> b" "b \<le> 3" "0 \<le> r" "r \<le> 99" by (rule year_split)
  note u = split_unique [OF s(2-5,1)] and lp = leap_split [OF s(2-5,1)]
  consider "r = 99" "b = 3" | "r = 99" "b \<le> 2" | "r \<le> 98" using s by linarith
  then show ?thesis
  proof cases
    case 1
    have v: "(Y + 1) div 400 = a + 1" "(Y + 1) mod 400 div 100 = 0" "(Y + 1) mod 100 = 0"
      using split_unique [of 0 0 "Y + 1" "a + 1"] s(1) 1 by simp_all
    show ?thesis unfolding dayno_def u v using lp 1 by simp
  next
    case 2
    have v: "(Y + 1) div 400 = a" "(Y + 1) mod 400 div 100 = b + 1" "(Y + 1) mod 100 = 0"
      using split_unique [of "b + 1" 0 "Y + 1" a] s 2 by simp_all
    show ?thesis unfolding dayno_def u v using lp 2 by simp
  next
    case 3
    have v: "(Y + 1) div 400 = a" "(Y + 1) mod 400 div 100 = b" "(Y + 1) mod 100 = r + 1"
      using split_unique [of b "r + 1" "Y + 1" a] s 3 by simp_all
    have eq: "(1461 * x) div 4 = 365 * x + x div 4" for x :: int
    proof -
      have "1461 * x = x + 4 * (365 * x)" by simp
      then show ?thesis by (simp only: div_add_mult)
    qed
    have "(r + 1) div 4 = r div 4 + (if (r + 1) mod 4 = 0 then 1 else 0)" by presburger
    then show ?thesis unfolding dayno_def u v eq using lp 3 by simp
  qed
qed

lemma gregorian_dayno:
  assumes "0 \<le> year + 4799" "1 \<le> month" "month \<le> 12"
  shows "clock_gregorian2utc year month day =
    (if month \<le> 2 then dayno (year + 4799) + month_start (month + 10) else dayno (year + 4800) + month_start (month - 2)) + day - 32075"
proof -
  have core: "(1461 * Y) sdiv 4 + k - (3 * ((Y + 100) sdiv 100)) sdiv 4 = dayno Y + k" if "0 \<le> Y" for Y k :: int
  proof -
    obtain a b r where s: "Y = 400 * a + 100 * b + r" "0 \<le> b" "b \<le> 3" "0 \<le> r" "r \<le> 99" by (rule year_split)
    have a: "0 \<le> a" using s that by linarith
    have d1: "(1461 * Y) div 4 = (146100 * a + 36525 * b) + (1461 * r) div 4"
    proof -
      have "1461 * Y = 1461 * r + 4 * (146100 * a + 36525 * b)" using s(1) by simp
      then show ?thesis by (simp only: div_add_mult)
    qed
    have d2: "(Y + 100) div 100 = 4 * a + b + 1" by (rule div_eqI) (use s in auto)
    have d3: "(3 * (4 * a + b + 1)) div 4 = 3 * a + b" by (rule div_eqI) (use s in auto)
    have d4: "(1461 * Y) sdiv 4 = (1461 * Y) div 4" "(Y + 100) sdiv 100 = (Y + 100) div 100"
      using that by (simp_all add: sdiv_nonneg)
    have d5: "(3 * (4 * a + b + 1)) sdiv 4 = (3 * (4 * a + b + 1)) div 4" using a s by (simp add: sdiv_nonneg)
    show ?thesis unfolding d4 d2 d5 d3 d1 dayno_def split_unique [OF s(2-5,1)] by linarith
  qed
  have m: "(367 * x) sdiv 12 = month_start x" if "0 \<le> x" for x using that by (simp add: sdiv_nonneg month_start_def)
  show ?thesis
  proof (cases "month \<le> 2")
    case True
    have e: "year + 4900 + - 1 = year + 4799 + 100" "year + 4800 + - 1 = year + 4799" "month - 2 - 12 * - 1 = month + 10" by simp_all
    show ?thesis using core [of "year + 4799" "month_start (month + 10)"] m [of "month + 10"] assms True
      unfolding clock_gregorian2utc_def Let_def by (simp only: e if_True)
  next
    case False
    have e: "year + 4900 + 0 = year + 4800 + 100" "year + 4800 + 0 = year + 4800" "month - 2 - 12 * 0 = month - 2" by simp_all
    show ?thesis using core [of "year + 4800" "month_start (month - 2)"] m [of "month - 2"] assms False
      unfolding clock_gregorian2utc_def Let_def by (simp only: e if_False)
  qed
qed

lemma month_start_steps:
  "month_start 1 = 30" "month_start 2 = 61" "month_start 3 = 91" "month_start 4 = 122" "month_start 5 = 152" "month_start 6 = 183"
  "month_start 7 = 214" "month_start 8 = 244" "month_start 9 = 275" "month_start 10 = 305" "month_start 11 = 336" "month_start 12 = 367"
  by (simp_all add: month_start_def)

lemma leap_period: "leap (y + 4800) = leap y"
proof -
  have "(y + 4 * 1200) mod 4 = y mod 4" "(y + 100 * 48) mod 100 = y mod 100" "(y + 400 * 12) mod 400 = y mod 400"
    by (simp_all only: mod_mult_self2)
  then show ?thesis by (simp add: leap_def)
qed

lemma clock_gregorian2utc_next:
  assumes "valid_date (y, m, d)"
  shows "(case next_day (y, m, d) of (y', m', d') \<Rightarrow> clock_gregorian2utc y' m' d') = clock_gregorian2utc y m d + 1"
proof -
  have v: "0 < y" "1 \<le> m" "m \<le> 12" "1 \<le> d" "d \<le> days_in y m" using assms by (simp_all add: valid_date_def)
  have jump: "dayno (y + 4800) = dayno (y + 4799) + (if leap y then 366 else 365)"
    using dayno_step [of "y + 4799"] leap_period [of y] by (simp add: add.commute)
  show ?thesis
  proof (cases "d < days_in y m")
    case True
    then show ?thesis using v by (simp add: next_day_def gregorian_dayno)
  next
    case False
    then have d: "d = days_in y m" using v(5) by simp
    show ?thesis using months [OF v(2,3)] v(1) jump unfolding d
      by (elim disjE) (simp_all add: next_day_def gregorian_dayno days_in_def month_start_steps add.commute [of 4800 y])
  qed
qed

lemma clock_utc2gregorian_gregorian:
  assumes "valid_date (y, m, d)"
  shows "clock_utc2gregorian (clock_gregorian2utc y m d) = (y, m, d)"
proof -
  have v: "0 < y" "1 \<le> m" "m \<le> 12" "1 \<le> d" "d \<le> days_in y m" using assms by (simp_all add: valid_date_def)
  define Y where "Y = (if m \<le> 2 then y + 4799 else y + 4800)"
  define M where "M = (if m \<le> 2 then m + 10 else m - 2)"
  obtain a b r where s: "Y = 400 * a + 100 * b + r" "0 \<le> b" "b \<le> 3" "0 \<le> r" "r \<le> 99"
    "a = Y div 400" "b = Y mod 400 div 100" "r = Y mod 100" by (rule year_split)
  have "0 \<le> Y" using v by (simp add: Y_def)
  then have a: "0 \<le> a" using s(6) by (simp add: pos_imp_zdiv_nonneg_iff)
  have M: "1 \<le> M" "M \<le> 12" using v by (auto simp: M_def)
  have "leap (Y + 1) = leap y" if "m = 2" using that leap_period [of y] by (simp add: Y_def add.commute)
  then have len: "month_len (leap (Y + 1)) M = days_in y m"
    using months [OF v(2,3)] by (elim disjE) (simp_all add: month_len_def days_in_def M_def)
  have "clock_gregorian2utc y m d = 146097 * a + 36524 * b + (1461 * r) div 4 + month_start M + d - 32075"
    using gregorian_dayno [of y m d] v unfolding s(6-8) by (auto simp: dayno_def Y_def M_def)
  from clock_utc2gregorian_inverse [OF a s(2-5) M _ v(4) _ this, of "leap (Y + 1)"] leap_split [OF s(2-5,1)] len v(5)
  have "clock_utc2gregorian (clock_gregorian2utc y m d) = (Y - 4800 + (if 11 \<le> M then 1 else 0), if 11 \<le> M then M - 10 else M + 2, d)"
    using s(1) by simp
  also have "\<dots> = (y, m, d)" using v by (auto simp: Y_def M_def)
  finally show ?thesis .
qed

definition date_after :: "nat \<Rightarrow> int \<times> int \<times> int" where
  "date_after n = (next_day ^^ n) (1970, 1, 1)"

lemma date_after_Suc: "date_after (Suc n) = next_day (date_after n)"
  by (simp add: date_after_def)

lemma valid_date_after: "valid_date (date_after n)"
proof (induction n)
  case 0
  show ?case by (simp add: date_after_def valid_date_def days_in_def)
next
  case (Suc n)
  then show ?case by (simp add: date_after_Suc valid_next_day)
qed

lemma gregorian_date_after: "(case date_after n of (y, m, d) \<Rightarrow> clock_gregorian2utc y m d) = JD_OF_EPOCH + int n"
proof (induction n)
  case 0
  show ?case by (simp add: date_after_def clock_gregorian2utc_def JD_OF_EPOCH_def sdiv_nonneg)
next
  case (Suc n)
  obtain y m d where x: "date_after n = (y, m, d)" by (cases "date_after n") auto
  have "valid_date (y, m, d)" using valid_date_after [of n] x by simp
  from clock_gregorian2utc_next [OF this] Suc show ?case by (simp add: date_after_Suc x)
qed

lemma utc2gregorian_date_after: "clock_utc2gregorian (JD_OF_EPOCH + int n) = date_after n"
proof -
  obtain y m d where x: "date_after n = (y, m, d)" by (cases "date_after n") auto
  then show ?thesis using clock_utc2gregorian_gregorian [of y m d] valid_date_after [of n] gregorian_date_after [of n] by simp
qed

lemma uint_JD: "n < 2000000000 \<Longrightarrow> uint (of_nat n + word_of_int JD_OF_EPOCH :: u32) = JD_OF_EPOCH + int n"
proof -
  assume n: "n < 2000000000"
  have "of_nat n + word_of_int JD_OF_EPOCH = (word_of_int (JD_OF_EPOCH + int n) :: u32)" by simp
  then show ?thesis using n by (simp only: uint_word_of_int) (simp add: JD_OF_EPOCH_def)
qed

lemma clock_utc2calendar_date_after: "n < 2000000000 \<Longrightarrow> clock_utc2calendar (of_nat n) = date_after n"
  by (simp add: clock_utc2calendar_def uint_JD utc2gregorian_date_after)

lemma clock_calendar2utc_date_after:
  "date_after n = (y, m, d) \<Longrightarrow> clock_calendar2utc y m d = of_nat n"
proof -
  assume x: "date_after n = (y, m, d)"
  have m: "1 \<le> m" "m \<le> 12" using valid_date_after [of n] x by (simp_all add: valid_date_def)
  have "(m - 1) sdiv 12 = 0" using m by (simp add: sdiv_nonneg)
  then show ?thesis using gregorian_date_after [of n] x m by (simp add: clock_calendar2utc_def Let_def)
qed

lemma hms: "(s div 3600 * 60 + s mod 3600 div 60) * 60 + s mod 60 = s" for s :: nat
proof -
  define a b c where "a = s div 3600" and "b = s mod 3600" and "c = b div 60"
  have "a * 3600 + b = s" unfolding a_def b_def by (rule div_mult_mod_eq)
  moreover have "c * 60 + b mod 60 = b" unfolding c_def by (rule div_mult_mod_eq)
  moreover have "b mod 60 = s mod 60" by (simp add: b_def mod_mod_cancel)
  ultimately have "(a * 60 + c) * 60 + s mod 60 = s" by simp
  then show ?thesis by (simp add: a_def b_def c_def)
qed

lemma gmtime_r_fields:
  fixes t :: u32
  defines "n \<equiv> unat t div 86400" and "s \<equiv> unat t mod 86400"
  shows "(tm_year (gmtime_r t) + 1900, tm_mon (gmtime_r t) + 1, tm_mday (gmtime_r t)) = date_after n"
    "tm_hour (gmtime_r t) = int (s div 3600)" "tm_min (gmtime_r t) = int (s mod 3600 div 60)" "tm_sec (gmtime_r t) = int (s mod 60)"
proof -
  have day: "SEC_PER_DAY = 86400" "SEC_PER_HOUR = 3600" "SEC_PER_MIN = 60" by (simp_all add: SEC_PER_DAY_def SEC_PER_HOUR_def SEC_PER_MIN_def)
  have t: "unat t < 4294967296" using unsigned_less [of t, where 'a = nat] by simp
  have n: "n < 2000000000" using t by (simp add: n_def)
  have q: "t div 86400 = of_nat n" by (simp add: n_def word_arith_nat_div)
  have r: "x - k * (x div k) = x mod k" for x k :: u32 by (simp add: minus_mult_div_eq_mod)
  have s: "t mod 86400 = of_nat s" by (simp add: s_def word_arith_nat_mod)
  have s_lt: "s < 86400" by (simp add: s_def)
  have h: "uint (of_nat s div 3600 :: u32) = int (s div 3600)" and h': "(of_nat s mod 3600 :: u32) = of_nat (s mod 3600)"
    using s_lt by (simp_all add: uint_nat unat_div unat_of_nat word_arith_nat_mod)
  have m: "uint (of_nat (s mod 3600) div 60 :: u32) = int (s mod 3600 div 60)"
    and m': "(of_nat (s mod 3600) mod 60 :: u32) = of_nat (s mod 3600 mod 60)"
    by (simp_all add: uint_nat unat_div unat_of_nat word_arith_nat_mod)
  have u: "uint (of_nat (s mod 3600 mod 60) :: u32) = int (s mod 60)"
    by (simp add: uint_nat unat_of_nat mod_mod_cancel)
  note eqs = gmtime_r_def Let_def day word_of_int_uint r q s h h' m m' u clock_utc2calendar_date_after [OF n]
  show "(tm_year (gmtime_r t) + 1900, tm_mon (gmtime_r t) + 1, tm_mday (gmtime_r t)) = date_after n"
    unfolding eqs by (simp split: prod.split)
  show "tm_hour (gmtime_r t) = int (s div 3600)" unfolding eqs by (simp split: prod.split)
  show "tm_min (gmtime_r t) = int (s mod 3600 div 60)" unfolding eqs by (simp split: prod.split)
  show "tm_sec (gmtime_r t) = int (s mod 60)" unfolding eqs by (simp split: prod.split)
qed

text \<open>(C30) Broken-down time is the calendar's: the date that gmtime_r stores is the one reached from 1 January 1970 by
  as many steps to the next day as the time has whole days, for every time of 32 bits (until the year 2106), and the hour,
  the minute and the second are within their ranges and make up the rest of the day.\<close>

theorem gmtime_r_calendar:
  "(let tp = gmtime_r t
    in (tm_year tp + 1900, tm_mon tp + 1, tm_mday tp) = (next_day ^^ (unat t div 86400)) (1970, 1, 1)
       \<and> 0 \<le> tm_hour tp \<and> tm_hour tp < 24 \<and> 0 \<le> tm_min tp \<and> tm_min tp < 60 \<and> 0 \<le> tm_sec tp \<and> tm_sec tp < 60
       \<and> (tm_hour tp * 60 + tm_min tp) * 60 + tm_sec tp = uint t mod 86400)"
proof -
  define s where "s = unat t mod 86400"
  have s: "s < 86400" by (simp add: s_def)
  have b: "s div 3600 < 24" "s mod 3600 div 60 < 60" "s mod 60 < 60" using s by (simp_all add: div_less_iff_less_mult)
  have "(int (s div 3600) * 60 + int (s mod 3600 div 60)) * 60 + int (s mod 60) = int s"
    using arg_cong [OF hms [of s], of int] by simp
  also have "int s = uint t mod 86400" unfolding s_def uint_nat by (simp only: zmod_int of_nat_numeral)
  finally show ?thesis
    using b unfolding Let_def gmtime_r_fields s_def [symmetric] by (simp add: date_after_def)
qed

lemma mktime_inverse: "mktime (gmtime_r t) = t"
proof -
  define n s where "n = unat t div 86400" and "s = unat t mod 86400"
  obtain y m d where x: "date_after n = (y, m, d)" by (cases "date_after n") auto
  note f = gmtime_r_fields [of t, folded n_def s_def]
  have ymd: "tm_year (gmtime_r t) + 1900 = y" "tm_mon (gmtime_r t) + 1 = m" "tm_mday (gmtime_r t) = d" using f(1) x by simp_all
  have sum: "((n * 24 + s div 3600) * 60 + s mod 3600 div 60) * 60 + s mod 60 = unat t"
  proof -
    have "((n * 24 + h) * 60 + m) * 60 + l = 86400 * n + ((h * 60 + m) * 60 + l)" for h m l :: nat by simp
    moreover have "86400 * n + s = unat t" unfolding n_def s_def by (rule mult_div_mod_eq)
    ultimately show ?thesis by (simp only: hms)
  qed
  have "mktime (gmtime_r t) = ((of_nat n * 24 + of_nat (s div 3600)) * 60 + of_nat (s mod 3600 div 60)) * 60 + of_nat (s mod 60)"
    unfolding mktime_def Let_def ymd f(2-4) clock_calendar2utc_date_after [OF x] by simp
  also have "\<dots> = (of_nat (((n * 24 + s div 3600) * 60 + s mod 3600 div 60) * 60 + s mod 60) :: u32)" by simp
  also have "\<dots> = t" unfolding sum by simp
  finally show ?thesis .
qed

text \<open>(C31) Round trip: mktime takes what gmtime_r stores back to the time it was given, for every time of 32 bits.\<close>

theorem mktime_gmtime_r: "mktime (gmtime_r t) = t"
  by (rule mktime_inverse)

lemma weekday_year:
  assumes "0 \<le> y"
  shows "(y + y sdiv 4 - y sdiv 100 + y sdiv 400) mod 7 = dayno (y + 4800) mod 7"
proof -
  obtain a b r where s: "y = 400 * a + 100 * b + r" "0 \<le> b" "b \<le> 3" "0 \<le> r" "r \<le> 99" by (rule year_split)
  have d: "y div 400 = a" "y div 100 = 4 * a + b"
    by (rule div_eqI; use s in simp)+
  have d4: "y div 4 = 100 * a + 25 * b + r div 4"
  proof -
    have "y = r + 4 * (100 * a + 25 * b)" using s(1) by simp
    then show ?thesis by (simp only: div_add_mult)
  qed
  have r4: "(1461 * r) div 4 = 365 * r + r div 4"
  proof -
    have "1461 * r = r + 4 * (365 * r)" by simp
    then show ?thesis by (simp only: div_add_mult)
  qed
  have Y: "y + 4800 = 400 * (a + 12) + 100 * b + r" using s(1) by simp
  have "dayno (y + 4800) = 146097 * (a + 12) + 36524 * b + (365 * r + r div 4)"
    unfolding dayno_def split_unique [OF s(2-5) Y] r4 by simp
  moreover have "y + y sdiv 4 - y sdiv 100 + y sdiv 400 = 497 * a + 124 * b + (r + r div 4)"
    using assms d d4 s(1) by (simp add: sdiv_nonneg)
  moreover have "146097 * (a + 12) + 36524 * b + (365 * r + r div 4) = 497 * a + 124 * b + (r + r div 4) + 7 * (20800 * a + 250452 + 5200 * b + 52 * r)"
    by simp
  ultimately show ?thesis by (simp only: mod_mult_self2)
qed

lemma weekday_month: "(31 * M) div 12 mod 7 = month_start M mod 7"
proof -
  have "month_start M = (31 * M + 12 * (28 * M)) div 12" by (simp add: month_start_def)
  also have "\<dots> = 7 * (4 * M) + (31 * M) div 12" by simp
  finally show ?thesis by (simp only: mod_mult_self4)
qed

lemma clock_dayoftheweek_gregorian:
  assumes "valid_date (y, m, d)"
  shows "clock_dayoftheweek d m y = (clock_gregorian2utc y m d + 1) mod 7"
proof -
  have v: "0 < y" "1 \<le> m" "m \<le> 12" "1 \<le> d" using assms by (simp_all add: valid_date_def)
  have key: "(d + Y + Y sdiv 4 - Y sdiv 100 + Y sdiv 400 + (31 * M) sdiv 12) smod 7 = (dayno (Y + 4800) + month_start M + d - 32075 + 1) mod 7"
    if "0 \<le> Y" "1 \<le> M" for Y M
  proof -
    have nn: "0 \<le> Y sdiv 4 - Y sdiv 100" using that by (simp add: sdiv_nonneg zdiv_mono2)
    have nn': "0 \<le> Y sdiv 400" "0 \<le> (31 * M) sdiv 12" using that by (simp_all add: sdiv_nonneg pos_imp_zdiv_nonneg_iff)
    have "(d + Y + Y sdiv 4 - Y sdiv 100 + Y sdiv 400 + (31 * M) sdiv 12) smod 7
      = ((Y + Y sdiv 4 - Y sdiv 100 + Y sdiv 400) + (31 * M) sdiv 12 + d) mod 7"
      using nn nn' v(4) that by (subst smod_nonneg) (simp_all add: algebra_simps)
    also have "\<dots> = (dayno (Y + 4800) + month_start M + d) mod 7"
      using weekday_year [OF that(1)] weekday_month [of M] that by (intro mod_add_cong) (simp_all add: sdiv_nonneg)
    also have "\<dots> = (dayno (Y + 4800) + month_start M + d + 7 * (- 4582)) mod 7" by (simp only: mod_mult_self2)
    finally show ?thesis by (simp add: algebra_simps)
  qed
  show ?thesis
  proof (cases "m \<le> 2")
    case True
    have e: "y - 1 + 4800 = y + 4799" "m + 12 - 2 = m + 10" by simp_all
    show ?thesis using key [of "y - 1" "m + 10"] v True
      gregorian_dayno [of y m d]
      by (simp add: clock_dayoftheweek_def add.commute [of 310] add.commute [of 4799 y])
  next
    case False
    then show ?thesis using key [of y "m - 2"] v gregorian_dayno [of y m d]
      by (simp add: clock_dayoftheweek_def)
  qed
qed

lemma smod7_cong: "0 \<le> a \<Longrightarrow> 0 \<le> b \<Longrightarrow> 7 dvd a - b \<Longrightarrow> a smod 7 = b smod 7" for a b :: int
  by (simp add: smod_nonneg mod_eq_dvd_iff)

lemma clock_dow_dayoftheweek:
  assumes "valid_date (y, m, d)"
  shows "clock_dow y (m - 1) d = clock_dayoftheweek d m y"
proof -
  have v: "0 < y" "1 \<le> m" "m \<le> 12" "1 \<le> d" using assms by (simp_all add: valid_date_def)
  define Y where "Y = (if m \<le> 2 then y - 1 else y)"
  define Q where "Q = Y sdiv 4 - Y sdiv 100 + Y sdiv 400"
  have Y: "0 \<le> Y" using v by (simp add: Y_def)
  then have Q: "0 \<le> Q" using zdiv_mono2 [of Y 4 100] by (simp add: Q_def sdiv_nonneg pos_imp_zdiv_nonneg_iff)
  have dow: "clock_dow y (m - 1) d = (g_lookup ! nat (m - 1) + (if m \<le> 2 then 5 else 2) + d + Y + Q) smod 7"
    using months [OF v(2,3)] by (elim disjE) (simp_all add: clock_dow_def Y_def Q_def algebra_simps)
  have wday: "clock_dayoftheweek d m y = ((31 * (if m \<le> 2 then m + 10 else m - 2)) sdiv 12 + d + Y + Q) smod 7"
    using months [OF v(2,3)] by (elim disjE) (simp_all add: clock_dayoftheweek_def Y_def Q_def algebra_simps)
  show ?thesis unfolding dow wday
    by (rule smod7_cong; use months [OF v(2,3)] Y Q v(4) in \<open>elim disjE; simp add: g_lookup_def sdiv_nonneg\<close>)
qed

text \<open>(C33) Weekdays: the two routines of the system that compute the day of the week, clock_dow by a table of months and
  clock_dayoftheweek by a formula, agree on every day, and count on from Thursday, 1 January 1970. The statement is over
  unbounded integers; it speaks of the code for the years in which \<open>int\<close> does not overflow, which go beyond
  the last one that a 32-bit time can reach.\<close>

theorem clock_dow_correct:
  "(case (next_day ^^ n) (1970, 1, 1) of (year, month, day) \<Rightarrow>
      clock_dow year (month - 1) day = (int n + 4) mod 7 \<and> clock_dayoftheweek day month year = (int n + 4) mod 7)"
proof -
  obtain y m d where x: "date_after n = (y, m, d)" by (cases "date_after n") auto
  have v: "valid_date (y, m, d)" using valid_date_after [of n] x by simp
  have "clock_gregorian2utc y m d + 1 = int n + 4 + 7 * 348655" using gregorian_date_after [of n] x by (simp add: JD_OF_EPOCH_def)
  then have "(clock_gregorian2utc y m d + 1) mod 7 = (int n + 4) mod 7" by (simp only: mod_mult_self2)
  then show ?thesis using x clock_dow_dayoftheweek [OF v] clock_dayoftheweek_gregorian [OF v] by (simp add: date_after_def)
qed

text \<open>The table of the days before each month; an index outside 1 to 13 reads past it.\<close>

lemma clock_daysbeforemonth_sum:
  assumes "1 \<le> m" "m \<le> 12" "0 < y"
  shows "clock_daysbeforemonth m (clock_isleapyear y) = Some (\<Sum>i \<in> {1..<m}. days_in y i)"
proof -
  have "{1..<m} = set [1..m - 1]" by auto
  then have "(\<Sum>i \<in> {1..<m}. days_in y i) = sum_list (map (days_in y) [1..m - 1])" by (simp add: sum_list_distinct_conv_sum_set)
  moreover note months [OF assms(1,2)]
  ultimately show ?thesis unfolding clock_isleapyear_leap [OF assms(3)]
    by (elim disjE) (simp_all add: clock_daysbeforemonth_def g_daysbeforemonth_def upto.simps days_in_def)
qed

lemma clock_daysbeforemonth_zero: "clock_daysbeforemonth 0 lp = None"
  by (simp add: clock_daysbeforemonth_def)

end
