(* ===== verification/Clock.thy ===== *)
theory Clock
  imports Calendar
begin

unbundle bit_operations_syntax

text \<open>
  The system clock of \<open>os/kernel/clock\<close>: the tick counter, the base time, reading and setting the time of day, and
  the conversions between times and ticks. Ticks are 10 ms; \<open>systime_t\<close> has 64 bits.
\<close>

section \<open>State and constants (clock.h, time.h)\<close>

definition NSEC_PER_SEC :: int where "NSEC_PER_SEC = 1000000000"
definition NSEC_PER_USEC :: int where "NSEC_PER_USEC = 1000"
definition NSEC_PER_MSEC :: int where "NSEC_PER_MSEC = 1000000"
definition MSEC_PER_SEC :: int where "MSEC_PER_SEC = 1000"
definition MSEC_PER_TICK :: int where "MSEC_PER_TICK = 10"
definition NSEC_PER_TICK :: int where "NSEC_PER_TICK = 10000000"
definition TICK_PER_SEC :: int where "TICK_PER_SEC = 100"
definition CLOCK_REALTIME :: nat where "CLOCK_REALTIME = 0"
definition CLOCK_MONOTONIC :: nat where "CLOCK_MONOTONIC = 1"

lemmas clock_consts = NSEC_PER_SEC_def NSEC_PER_USEC_def NSEC_PER_MSEC_def MSEC_PER_SEC_def MSEC_PER_TICK_def NSEC_PER_TICK_def
  TICK_PER_SEC_def CLOCK_REALTIME_def CLOCK_MONOTONIC_def

text \<open>\<open>time_t\<close> is an unsigned 32-bit number; \<open>long\<close> has 32 bits.\<close>

record timespec =
  tv_sec :: u32
  tv_nsec :: int

record timeval =
  tvl_sec :: u32
  tvl_usec :: int

record clock_state =
  g_system_timer :: u64
  g_basetime :: timespec

section \<open>Operations\<close>

definition clock_timer :: "'a clock_state_scheme \<Rightarrow> 'a clock_state_scheme" where
  "clock_timer s = s\<lparr>g_system_timer := g_system_timer s + 1\<rparr>"

definition clock_systimer :: "'a clock_state_scheme \<Rightarrow> u64" where
  "clock_systimer s = g_system_timer s"

text \<open>The broken-down time that the RTC holds is a parameter.\<close>

definition clock_basetime :: "tm \<Rightarrow> timespec" where
  "clock_basetime rtctime = \<lparr>tv_sec = mktime rtctime, tv_nsec = 0\<rparr>"

definition clock_inittime :: "tm \<Rightarrow> 'a clock_state_scheme \<Rightarrow> 'a clock_state_scheme" where
  "clock_inittime rtctime s = (let s = s\<lparr>g_basetime := clock_basetime rtctime\<rparr> in s\<lparr>g_system_timer := 0\<rparr>)"

definition clock_initialize :: "tm \<Rightarrow> 'a clock_state_scheme \<Rightarrow> 'a clock_state_scheme" where
  "clock_initialize rtctime s = clock_inittime rtctime s"

definition clock_synchronize :: "tm \<Rightarrow> 'a clock_state_scheme \<Rightarrow> 'a clock_state_scheme" where
  "clock_synchronize rtctime s = clock_inittime rtctime s"

definition clock_systimespec :: "'a clock_state_scheme \<Rightarrow> timespec" where
  "clock_systimespec s =
     (let msecs = clock_systimer s * word_of_int MSEC_PER_TICK;
          secs = msecs div word_of_int MSEC_PER_SEC;
          nsecs = (msecs - secs * word_of_int MSEC_PER_SEC) * word_of_int NSEC_PER_MSEC
      in \<lparr>tv_sec = ucast secs, tv_nsec = s32 (uint nsecs)\<rparr>)"

text \<open>\<open>None\<close> is \<open>ERROR\<close> with \<open>EINVAL\<close>.\<close>

definition clock_gettime :: "nat \<Rightarrow> 'a clock_state_scheme \<Rightarrow> timespec option" where
  "clock_gettime clock_id s =
     (if clock_id = CLOCK_MONOTONIC then Some (clock_systimespec s)
      else if clock_id = CLOCK_REALTIME then
        (let ts = clock_systimespec s;
             ts = ts\<lparr>tv_sec := tv_sec ts + tv_sec (g_basetime s)\<rparr>;
             ts = ts\<lparr>tv_nsec := s32 (tv_nsec ts + tv_nsec (g_basetime s))\<rparr>;
             ts = (if tv_nsec ts \<ge> NSEC_PER_SEC then
                     (let carry = word_of_int (tv_nsec ts div NSEC_PER_SEC);
                          ts = ts\<lparr>tv_sec := tv_sec ts + carry\<rparr>
                      in ts\<lparr>tv_nsec := s32 (tv_nsec ts - uint carry * NSEC_PER_SEC)\<rparr>)
                   else ts)
         in Some ts)
      else None)"

text \<open>The hardware clock is set as well; that is not part of the state.\<close>

definition clock_settime :: "nat \<Rightarrow> timespec \<Rightarrow> 'a clock_state_scheme \<Rightarrow> 'a clock_state_scheme option" where
  "clock_settime clock_id tp s =
     (if clock_id = CLOCK_REALTIME then
        (let base = \<lparr>tv_sec = tv_sec tp, tv_nsec = tv_nsec tp\<rparr>;
             bias = clock_systimespec s;
             base = (if tv_nsec base < tv_nsec bias
                     then \<lparr>tv_sec = tv_sec base - 1, tv_nsec = s32 (tv_nsec base + NSEC_PER_SEC)\<rparr> else base);
             base = base\<lparr>tv_nsec := s32 (tv_nsec base - tv_nsec bias)\<rparr>;
             base = base\<lparr>tv_sec := tv_sec base - tv_sec bias\<rparr>
         in Some (s\<lparr>g_basetime := base\<rparr>))
      else None)"

definition clock_getres :: "nat \<Rightarrow> timespec option" where
  "clock_getres clock_id = (if clock_id \<noteq> CLOCK_REALTIME then None else Some \<lparr>tv_sec = 0, tv_nsec = NSEC_PER_TICK\<rparr>)"

definition gettimeofday :: "'a clock_state_scheme \<Rightarrow> timeval option" where
  "gettimeofday s = map_option (\<lambda>ts. \<lparr>tvl_sec = tv_sec ts, tvl_usec = tv_nsec ts sdiv NSEC_PER_USEC\<rparr>) (clock_gettime CLOCK_REALTIME s)"

definition compare_timespec :: "timespec \<Rightarrow> timespec \<Rightarrow> int" where
  "compare_timespec a b =
     (if tv_sec a < tv_sec b then -1 else if tv_sec a > tv_sec b then 1 else s32 (tv_nsec a - tv_nsec b))"

definition clock_time2ticks :: "timespec \<Rightarrow> int" where
  "clock_time2ticks reltime =
     (let relnsec = uint (tv_sec reltime) * NSEC_PER_SEC + tv_nsec reltime
      in s32 ((relnsec + NSEC_PER_TICK - 1) sdiv NSEC_PER_TICK))"

definition clock_ticks2time :: "int \<Rightarrow> timespec" where
  "clock_ticks2time ticks =
     (let sec = word_of_int (ticks sdiv TICK_PER_SEC) :: u32;
          remainder = s32 (ticks - TICK_PER_SEC * uint sec)
      in \<lparr>tv_sec = sec, tv_nsec = s32 (remainder * NSEC_PER_TICK)\<rparr>)"

definition clock_abstime2ticks :: "nat \<Rightarrow> timespec \<Rightarrow> 'a clock_state_scheme \<Rightarrow> int option" where
  "clock_abstime2ticks clockid abstime s = do {
     currtime \<leftarrow> clock_gettime clockid s;
     if compare_timespec abstime currtime < 0 then Some (-1)
     else do {
       let reltime = \<lparr>tv_sec = tv_sec abstime - tv_sec currtime, tv_nsec = s32 (tv_nsec abstime - tv_nsec currtime)\<rparr>;
       let reltime = (if tv_nsec reltime < 0
                      then \<lparr>tv_sec = tv_sec reltime - 1, tv_nsec = s32 (tv_nsec reltime + NSEC_PER_SEC)\<rparr> else reltime);
       Some (clock_time2ticks reltime)
     }
   }"

section \<open>Times as numbers\<close>

definition nsecs :: "timespec \<Rightarrow> int" where
  "nsecs ts = uint (tv_sec ts) * NSEC_PER_SEC + tv_nsec ts"

definition valid_ts :: "timespec \<Rightarrow> bool" where
  "valid_ts ts \<longleftrightarrow> 0 \<le> tv_nsec ts \<and> tv_nsec ts < NSEC_PER_SEC"

text \<open>Seconds wrap after \<open>2 ^ 32\<close>.\<close>

definition EPOCH_NSECS :: int where "EPOCH_NSECS = 2 ^ 32 * NSEC_PER_SEC"

lemma nsecs_mod: "(a mod 2 ^ 32) * NSEC_PER_SEC = (a * NSEC_PER_SEC) mod EPOCH_NSECS"
  by (simp only: EPOCH_NSECS_def mult.commute [of _ NSEC_PER_SEC] mult_mod_right)

lemma nsecs_bounds: "valid_ts ts \<Longrightarrow> 0 \<le> nsecs ts \<and> nsecs ts < EPOCH_NSECS"
proof -
  assume v: "valid_ts ts"
  have "uint (tv_sec ts) < 2 ^ 32" using uint_lt2p [of "tv_sec ts"] by simp
  then show ?thesis using v uint_ge_0 [of "tv_sec ts"] unfolding valid_ts_def nsecs_def EPOCH_NSECS_def clock_consts by linarith
qed

lemma nsecs_make:
  assumes "0 \<le> n" "n < NSEC_PER_SEC"
  shows "valid_ts \<lparr>tv_sec = word_of_int x, tv_nsec = n\<rparr>" "nsecs \<lparr>tv_sec = word_of_int x, tv_nsec = n\<rparr> = (x * NSEC_PER_SEC + n) mod EPOCH_NSECS"
proof -
  show v: "valid_ts \<lparr>tv_sec = word_of_int x, tv_nsec = n\<rparr>" using assms by (simp add: valid_ts_def)
  have "nsecs \<lparr>tv_sec = word_of_int x, tv_nsec = n\<rparr> = (x * NSEC_PER_SEC) mod EPOCH_NSECS + n"
    using nsecs_mod [of x] by (simp add: nsecs_def uint_word_of_int take_bit_eq_mod)
  then show "nsecs \<lparr>tv_sec = word_of_int x, tv_nsec = n\<rparr> = (x * NSEC_PER_SEC + n) mod EPOCH_NSECS"
    using mod_pos_pos_trivial [OF nsecs_bounds [OF v, THEN conjunct1] nsecs_bounds [OF v, THEN conjunct2]]
    by (simp only: mod_add_left_eq)
qed

lemma ticks_nsecs: "q * NSEC_PER_SEC + r * NSEC_PER_TICK = (q * 100 + r) * NSEC_PER_TICK"
  by (simp add: clock_consts)

lemma clock_systimespec_nsecs:
  assumes "uint (g_system_timer s) * MSEC_PER_TICK < 2 ^ 64"
  shows "valid_ts (clock_systimespec s)" "nsecs (clock_systimespec s) = (uint (g_system_timer s) * NSEC_PER_TICK) mod EPOCH_NSECS"
proof -
  let ?t = "uint (g_system_timer s)"
  define m where "m = clock_systimer s * word_of_int MSEC_PER_TICK"
  define n where "n = (m - m div word_of_int MSEC_PER_SEC * word_of_int MSEC_PER_SEC) * word_of_int NSEC_PER_MSEC"
  have um: "uint m = ?t * 10" using assms by (simp add: m_def clock_systimer_def clock_consts uint_word_ariths)
  have sec: "ucast (m div word_of_int MSEC_PER_SEC) = (word_of_int (?t div 100) :: u32)"
  proof -
    have "uint (m div 1000) = ?t div 100" by (simp add: uint_div_distrib um)
    then show ?thesis by (simp add: clock_consts ucast_eq)
  qed
  have "m - m div 1000 * 1000 = m mod 1000" by (simp add: minus_div_mult_eq_mod)
  moreover have "uint (m mod 1000) = ?t * 10 mod 1000" by (simp add: uint_mod_distrib um)
  ultimately have "uint n = (?t * 10 mod 1000) * 1000000"
    by (simp add: n_def clock_consts uint_word_ariths)
  moreover have "?t * 10 mod 1000 = 10 * (?t mod 100)" using mult_mod_right [of 10 ?t 100] by (simp add: mult.commute)
  ultimately have un: "uint n = (?t mod 100) * NSEC_PER_TICK" by (simp add: clock_consts)
  have nb: "0 \<le> (?t mod 100) * NSEC_PER_TICK" "(?t mod 100) * NSEC_PER_TICK < NSEC_PER_SEC"
    using pos_mod_bound [of 100 ?t] pos_mod_sign [of 100 ?t] unfolding clock_consts by linarith+
  have eq: "clock_systimespec s = \<lparr>tv_sec = word_of_int (?t div 100), tv_nsec = (?t mod 100) * NSEC_PER_TICK\<rparr>"
    using sec un nb s32_id [of "uint n"] unfolding clock_systimespec_def m_def [symmetric] Let_def n_def [symmetric]
    by (simp add: NSEC_PER_SEC_def)
  show "valid_ts (clock_systimespec s)" unfolding eq by (rule nsecs_make(1) [OF nb])
  show "nsecs (clock_systimespec s) = (?t * NSEC_PER_TICK) mod EPOCH_NSECS" unfolding eq nsecs_make(2) [OF nb] ticks_nsecs by (simp only: div_mult_mod_eq)
qed

lemma clock_gettime_nsecs:
  assumes t: "uint (g_system_timer s) * MSEC_PER_TICK < 2 ^ 64" and b: "valid_ts (g_basetime s)"
  obtains ts where "clock_gettime CLOCK_REALTIME s = Some ts" "valid_ts ts"
    "nsecs ts = (uint (g_system_timer s) * NSEC_PER_TICK + nsecs (g_basetime s)) mod EPOCH_NSECS"
proof -
  define st where "st = clock_systimespec s"
  note st = clock_systimespec_nsecs [OF t, folded st_def]
  define n where "n = tv_nsec st + tv_nsec (g_basetime s)"
  have n: "0 \<le> n" "n < 2 * NSEC_PER_SEC" using st(1) b by (simp_all add: n_def valid_ts_def)
  have sn: "s32 n = n" using n by (intro s32_id) (simp_all add: clock_consts)
  define c where "c = (if n \<ge> NSEC_PER_SEC then 1 else 0 :: int)"
  have nc: "0 \<le> n - c * NSEC_PER_SEC" "n - c * NSEC_PER_SEC < NSEC_PER_SEC" using n by (auto simp: c_def)
  have dv: "n div NSEC_PER_SEC = 1" if "n \<ge> NSEC_PER_SEC"
  proof -
    have "n div NSEC_PER_SEC = 1 + (n - NSEC_PER_SEC) div NSEC_PER_SEC" using div_add_self2 [of NSEC_PER_SEC "n - NSEC_PER_SEC"] by (simp add: NSEC_PER_SEC_def)
    then show ?thesis using that n(2) by (simp add: div_pos_pos_trivial)
  qed
  have sc: "s32 (n - NSEC_PER_SEC) = n - NSEC_PER_SEC" using n by (intro s32_id) (simp_all add: clock_consts)
  let ?ts = "\<lparr>tv_sec = word_of_int (uint (tv_sec st) + uint (tv_sec (g_basetime s)) + c), tv_nsec = n - c * NSEC_PER_SEC\<rparr>"
  have call: "clock_gettime CLOCK_REALTIME s = Some ?ts"
    using sn dv sc by (auto simp: clock_gettime_def Let_def st_def [symmetric] n_def [symmetric] c_def CLOCK_REALTIME_def CLOCK_MONOTONIC_def)
  have "nsecs ?ts = (nsecs st + nsecs (g_basetime s)) mod EPOCH_NSECS"
    unfolding nsecs_make(2) [OF nc] by (simp add: nsecs_def n_def algebra_simps)
  then have "nsecs ?ts = (uint (g_system_timer s) * NSEC_PER_TICK + nsecs (g_basetime s)) mod EPOCH_NSECS"
    by (simp only: st(2) mod_add_left_eq)
  then show thesis by (rule that [OF call nsecs_make(1) [OF nc]])
qed

lemma clock_settime_nsecs:
  assumes t: "uint (g_system_timer s) * MSEC_PER_TICK < 2 ^ 64" and v: "valid_ts tp"
  obtains base where "clock_settime CLOCK_REALTIME tp s = Some (s\<lparr>g_basetime := base\<rparr>)" "valid_ts base"
    "nsecs base = (nsecs tp - uint (g_system_timer s) * NSEC_PER_TICK) mod EPOCH_NSECS"
proof -
  define st where "st = clock_systimespec s"
  note st = clock_systimespec_nsecs [OF t, folded st_def]
  define c where "c = (if tv_nsec tp < tv_nsec st then 1 else 0 :: int)"
  define n where "n = tv_nsec tp + c * NSEC_PER_SEC - tv_nsec st"
  have n: "0 \<le> n" "n < NSEC_PER_SEC" using st(1) v by (auto simp: n_def c_def valid_ts_def)
  have s1: "s32 (tv_nsec tp + NSEC_PER_SEC) = tv_nsec tp + NSEC_PER_SEC" using v by (intro s32_id) (simp_all add: valid_ts_def clock_consts)
  have s2: "s32 n = n" using n by (intro s32_id) (simp_all add: clock_consts)
  let ?b = "\<lparr>tv_sec = word_of_int (uint (tv_sec tp) - c - uint (tv_sec st)), tv_nsec = n\<rparr>"
  have call: "clock_settime CLOCK_REALTIME tp s = Some (s\<lparr>g_basetime := ?b\<rparr>)"
    using s1 s2 by (auto simp: clock_settime_def Let_def st_def [symmetric] c_def n_def)
  have "nsecs ?b = (nsecs tp - nsecs st) mod EPOCH_NSECS"
    unfolding nsecs_make(2) [OF n] by (simp add: nsecs_def n_def algebra_simps)
  then have "nsecs ?b = (nsecs tp - uint (g_system_timer s) * NSEC_PER_TICK) mod EPOCH_NSECS"
    by (simp only: st(2) mod_diff_right_eq)
  then show thesis by (rule that [OF call nsecs_make(1) [OF n]])
qed

section \<open>Ticks\<close>

lemma clock_time2ticks_least:
  assumes "valid_ts ts" "nsecs ts \<le> (2 ^ 31 - 1) * NSEC_PER_TICK"
  shows "nsecs ts \<le> clock_time2ticks ts * NSEC_PER_TICK" "(clock_time2ticks ts - 1) * NSEC_PER_TICK < nsecs ts"
    "0 \<le> clock_time2ticks ts" "clock_time2ticks ts < 2 ^ 31"
proof -
  let ?n = "nsecs ts"
  define q where "q = (?n + NSEC_PER_TICK - 1) div NSEC_PER_TICK"
  define m where "m = (?n + NSEC_PER_TICK - 1) mod NSEC_PER_TICK"
  have n: "0 \<le> ?n" using nsecs_bounds [OF assms(1)] by simp
  have pos: "(0 :: int) < NSEC_PER_TICK" by (simp add: clock_consts)
  have sd: "(?n + NSEC_PER_TICK - 1) sdiv NSEC_PER_TICK = q" using n pos by (auto simp: signed_divide_int_def sgn_if q_def)
  have q: "q * NSEC_PER_TICK + m = ?n + NSEC_PER_TICK - 1" unfolding q_def m_def by (rule div_mult_mod_eq)
  have m: "0 \<le> m" "m < NSEC_PER_TICK" using pos by (simp_all add: m_def)
  have q0: "0 \<le> q" "q < 2 ^ 31" using q m n assms(2) by (simp_all add: NSEC_PER_TICK_def)
  have eq: "clock_time2ticks ts = q"
    using sd s32_id [of q] q0 by (simp add: clock_time2ticks_def Let_def nsecs_def [symmetric])
  show "?n \<le> clock_time2ticks ts * NSEC_PER_TICK" "(clock_time2ticks ts - 1) * NSEC_PER_TICK < ?n"
    unfolding eq using q m by (simp_all add: left_diff_distrib)
  show "0 \<le> clock_time2ticks ts" "clock_time2ticks ts < 2 ^ 31" unfolding eq by (rule q0(1), rule q0(2))
qed

lemma compare_timespec_nsecs:
  assumes "valid_ts a" "valid_ts b"
  shows "compare_timespec a b < 0 \<longleftrightarrow> nsecs a < nsecs b"
proof -
  have s: "s32 (tv_nsec a - tv_nsec b) = tv_nsec a - tv_nsec b"
    using assms by (intro s32_id) (simp_all add: valid_ts_def clock_consts)
  consider "uint (tv_sec a) < uint (tv_sec b)" | "uint (tv_sec b) < uint (tv_sec a)" | "uint (tv_sec a) = uint (tv_sec b)" by linarith
  then show ?thesis
    using assms s by cases (simp_all add: compare_timespec_def nsecs_def valid_ts_def word_less_def clock_consts)
qed

lemma clock_abstime2ticks_spec:
  assumes "clock_gettime clockid s = Some now" "valid_ts now" "valid_ts abstime"
  shows "clock_abstime2ticks clockid abstime s = Some (if nsecs abstime < nsecs now then -1 else clock_time2ticks
      (let c = (if tv_nsec abstime < tv_nsec now then 1 else 0)
       in \<lparr>tv_sec = tv_sec abstime - tv_sec now - c, tv_nsec = tv_nsec abstime - tv_nsec now + uint c * NSEC_PER_SEC\<rparr>))"
proof -
  have s: "s32 (tv_nsec abstime - tv_nsec now) = tv_nsec abstime - tv_nsec now"
    "tv_nsec abstime < tv_nsec now \<Longrightarrow> s32 (tv_nsec abstime - tv_nsec now + NSEC_PER_SEC) = tv_nsec abstime - tv_nsec now + NSEC_PER_SEC"
    using assms(2,3) by (intro s32_id; simp add: valid_ts_def clock_consts)+
  show ?thesis
    using assms(1) s compare_timespec_nsecs [OF assms(3,2)] by (simp add: clock_abstime2ticks_def Let_def)
qed

lemma reltime_nsecs:
  assumes "valid_ts now" "valid_ts abstime" "nsecs now \<le> nsecs abstime"
    and r: "r = (let c = (if tv_nsec abstime < tv_nsec now then 1 else 0)
       in \<lparr>tv_sec = tv_sec abstime - tv_sec now - c, tv_nsec = tv_nsec abstime - tv_nsec now + uint c * NSEC_PER_SEC\<rparr>)"
  shows "valid_ts r" "nsecs r = nsecs abstime - nsecs now"
proof -
  define c :: int where "c = (if tv_nsec abstime < tv_nsec now then 1 else 0)"
  have n: "0 \<le> tv_nsec abstime - tv_nsec now + c * NSEC_PER_SEC" "tv_nsec abstime - tv_nsec now + c * NSEC_PER_SEC < NSEC_PER_SEC"
    using assms(1,2) by (auto simp: c_def valid_ts_def)
  have eq: "r = \<lparr>tv_sec = word_of_int (uint (tv_sec abstime) - uint (tv_sec now) - c),
      tv_nsec = tv_nsec abstime - tv_nsec now + c * NSEC_PER_SEC\<rparr>"
    by (simp add: r c_def Let_def)
  show "valid_ts r" unfolding eq by (rule nsecs_make(1) [OF n])
  have "nsecs r = (nsecs abstime - nsecs now) mod EPOCH_NSECS"
    unfolding eq nsecs_make(2) [OF n] by (simp add: nsecs_def algebra_simps)
  then show "nsecs r = nsecs abstime - nsecs now"
    using assms(3) nsecs_bounds [OF assms(1)] nsecs_bounds [OF assms(2)] by (simp add: mod_pos_pos_trivial)
qed

text \<open>The clock starts at the time of the RTC.\<close>

lemma clock_initialize_time:
  "clock_gettime CLOCK_REALTIME (clock_initialize (gmtime_r t) s) = Some \<lparr>tv_sec = t, tv_nsec = 0\<rparr>"
  by (simp add: clock_gettime_def clock_initialize_def clock_inittime_def clock_basetime_def clock_systimespec_def clock_systimer_def
      mktime_inverse s32_def clock_consts Let_def)

text \<open>A relative time of whole ticks survives the conversion to a timespec and back.\<close>

lemma clock_ticks2time_ticks:
  assumes "0 \<le> ticks" "ticks < 2 ^ 31"
  shows "clock_time2ticks (clock_ticks2time ticks) = ticks"
proof -
  define q r where "q = ticks div 100" and "r = ticks mod 100"
  have qr: "ticks = 100 * q + r" "0 \<le> r" "r < 100" "0 \<le> q" "q < 2 ^ 31" using assms by (simp_all add: q_def r_def)
  have sd: "ticks sdiv TICK_PER_SEC = q" using assms by (simp add: sdiv_nonneg q_def TICK_PER_SEC_def)
  have uq: "uint (word_of_int q :: u32) = q" using qr by (simp add: uint_word_of_int)
  have "s32 (ticks - TICK_PER_SEC * uint (word_of_int q :: u32)) = r" unfolding uq using qr by (simp add: TICK_PER_SEC_def s32_id)
  moreover have "s32 (r * NSEC_PER_TICK) = r * NSEC_PER_TICK" using qr(2,3) by (intro s32_id) (simp_all add: NSEC_PER_TICK_def)
  ultimately have ts: "clock_ticks2time ticks = \<lparr>tv_sec = word_of_int q, tv_nsec = r * NSEC_PER_TICK\<rparr>"
    by (simp add: clock_ticks2time_def Let_def sd)
  have "uint (word_of_int q :: u32) * NSEC_PER_SEC + r * NSEC_PER_TICK + NSEC_PER_TICK - 1 = ticks * NSEC_PER_TICK + NSEC_PER_TICK - 1"
    unfolding uq qr(1) by (simp add: clock_consts)
  moreover have "(ticks * NSEC_PER_TICK + NSEC_PER_TICK - 1) sdiv NSEC_PER_TICK = ticks"
    using assms div_eqI [of ticks NSEC_PER_TICK "ticks * NSEC_PER_TICK + NSEC_PER_TICK - 1"]
    by (subst sdiv_nonneg) (simp_all add: NSEC_PER_TICK_def)
  ultimately show ?thesis using assms by (simp add: clock_time2ticks_def ts s32_id)
qed

section \<open>Correctness\<close>

text \<open>(C29) The time of day that is set is the time of day that is read, and it advances by one tick of 10 ms with
  each timer interrupt, up to the wrap of the 32-bit seconds.\<close>

theorem clock_settime_gettime:
  assumes "(uint (g_system_timer s) + int k) * MSEC_PER_TICK < 2 ^ 64" "valid_ts tp"
  shows "\<exists>s' ts. clock_settime CLOCK_REALTIME tp s = Some s' \<and> clock_gettime CLOCK_REALTIME ((clock_timer ^^ k) s') = Some ts \<and>
    valid_ts ts \<and> nsecs ts = (nsecs tp + int k * NSEC_PER_TICK) mod EPOCH_NSECS"
proof -
  have t0: "uint (g_system_timer s) * MSEC_PER_TICK < 2 ^ 64" using assms(1) by (simp add: MSEC_PER_TICK_def)
  obtain base where base: "clock_settime CLOCK_REALTIME tp s = Some (s\<lparr>g_basetime := base\<rparr>)" "valid_ts base"
    "nsecs base = (nsecs tp - uint (g_system_timer s) * NSEC_PER_TICK) mod EPOCH_NSECS"
    by (rule clock_settime_nsecs [OF t0 assms(2)])
  let ?s' = "(clock_timer ^^ k) (s\<lparr>g_basetime := base\<rparr>)"
  have k: "g_basetime ?s' = base" "g_system_timer ?s' = g_system_timer s + of_nat k"
    by (induction k) (simp_all add: clock_timer_def add_ac)
  have "uint (g_system_timer s) + int k < 2 ^ 64" using assms(1) by (simp add: MSEC_PER_TICK_def)
  then have u: "uint (g_system_timer ?s') = uint (g_system_timer s) + int k"
    by (simp add: k(2) uint_word_ariths unsigned_of_nat take_bit_eq_mod mod_add_right_eq of_nat_mod)
  have t1: "uint (g_system_timer ?s') * MSEC_PER_TICK < 2 ^ 64" "valid_ts (g_basetime ?s')" using assms(1) u k(1) base(2) by simp_all
  obtain ts where ts: "clock_gettime CLOCK_REALTIME ?s' = Some ts" "valid_ts ts"
    "nsecs ts = (uint (g_system_timer ?s') * NSEC_PER_TICK + nsecs (g_basetime ?s')) mod EPOCH_NSECS"
    by (rule clock_gettime_nsecs [OF t1])
  have "nsecs ts = (nsecs tp + int k * NSEC_PER_TICK) mod EPOCH_NSECS"
    unfolding ts(3) k(1) base(3) u mod_add_right_eq by (simp add: algebra_simps)
  then show ?thesis using base(1) ts(1,2) by blast
qed

theorem clock_settime_gettime_witness:
  "\<exists>s' ts. clock_settime CLOCK_REALTIME \<lparr>tv_sec = 1500000000, tv_nsec = 995000000\<rparr>
      \<lparr>g_system_timer = 12345, g_basetime = \<lparr>tv_sec = 0, tv_nsec = 0\<rparr>\<rparr> = Some s' \<and>
    clock_gettime CLOCK_REALTIME ((clock_timer ^^ 1) s') = Some ts \<and> nsecs ts = 1500000001005000000"
proof -
  have "nsecs \<lparr>tv_sec = 1500000000, tv_nsec = 995000000\<rparr> = 1500000000995000000" by (simp add: nsecs_def clock_consts)
  then show ?thesis
    using clock_settime_gettime [of "\<lparr>g_system_timer = 12345, g_basetime = \<lparr>tv_sec = 0, tv_nsec = 0\<rparr>\<rparr>" 1
        "\<lparr>tv_sec = 1500000000, tv_nsec = 995000000\<rparr>"]
    by (auto simp: valid_ts_def clock_consts EPOCH_NSECS_def)
qed

text \<open>(C32) An absolute deadline is converted to the least number of ticks after which the clock has reached it, and
  to \<open>-1\<close> when it has passed, provided it is at most \<open>2 ^ 31 - 1\<close> ticks (248 days) ahead.\<close>

theorem clock_abstime2ticks_least:
  assumes "clock_gettime clockid s = Some now" "valid_ts now" "valid_ts abstime"
    "nsecs abstime - nsecs now \<le> (2 ^ 31 - 1) * NSEC_PER_TICK"
  shows "\<exists>ticks. clock_abstime2ticks clockid abstime s = Some ticks \<and>
    (if nsecs abstime < nsecs now then ticks = -1
     else 0 \<le> ticks \<and> nsecs abstime \<le> nsecs now + ticks * NSEC_PER_TICK \<and> nsecs now + (ticks - 1) * NSEC_PER_TICK < nsecs abstime)"
proof -
  define r where "r = (let c = (if tv_nsec abstime < tv_nsec now then 1 else 0)
       in \<lparr>tv_sec = tv_sec abstime - tv_sec now - c, tv_nsec = tv_nsec abstime - tv_nsec now + uint c * NSEC_PER_SEC\<rparr>)"
  note eq = clock_abstime2ticks_spec [OF assms(1-3), folded r_def]
  show ?thesis
  proof (cases "nsecs abstime < nsecs now")
    case False
    then have r: "valid_ts r" "nsecs r = nsecs abstime - nsecs now" using reltime_nsecs [OF assms(2,3) _ r_def] by simp_all
    show ?thesis using eq False clock_time2ticks_least [OF r(1)] assms(4) unfolding r(2) by auto
  qed (use eq in simp)
qed

theorem clock_abstime2ticks_least_witness:
  "clock_abstime2ticks CLOCK_MONOTONIC \<lparr>tv_sec = 2, tv_nsec = 1\<rparr> \<lparr>g_system_timer = 150, g_basetime = \<lparr>tv_sec = 0, tv_nsec = 0\<rparr>\<rparr> = Some 51"
proof -
  let ?s = "\<lparr>g_system_timer = 150, g_basetime = \<lparr>tv_sec = 0, tv_nsec = 0\<rparr>\<rparr>"
  have now: "clock_gettime CLOCK_MONOTONIC ?s = Some (clock_systimespec ?s)" by (simp add: clock_gettime_def)
  have st: "valid_ts (clock_systimespec ?s)" "nsecs (clock_systimespec ?s) = 1500000000"
    using clock_systimespec_nsecs [of ?s] by (simp_all add: clock_consts EPOCH_NSECS_def)
  have v: "valid_ts \<lparr>tv_sec = 2, tv_nsec = 1\<rparr>" "nsecs \<lparr>tv_sec = 2, tv_nsec = 1\<rparr> = 2000000001"
    by (simp_all add: valid_ts_def nsecs_def clock_consts)
  obtain ticks where "clock_abstime2ticks CLOCK_MONOTONIC \<lparr>tv_sec = 2, tv_nsec = 1\<rparr> ?s = Some ticks"
    "2000000001 \<le> 1500000000 + ticks * NSEC_PER_TICK" "1500000000 + (ticks - 1) * NSEC_PER_TICK < 2000000001"
    using clock_abstime2ticks_least [OF now st(1) v(1)] by (auto simp: st(2) v(2) clock_consts)
  moreover from this have "ticks = 51" by (simp add: clock_consts)
  ultimately show ?thesis by simp
qed

text \<open>A deadline further ahead is truncated to 32 bits: one that lies \<open>2 ^ 32\<close> ticks (497 days) ahead gives no
  ticks at all, and the waiting call times out at once.\<close>

lemma clock_abstime2ticks_wraps:
  assumes "clock_gettime clockid s = Some now" "valid_ts now" "valid_ts abstime" "nsecs abstime = nsecs now + 2 ^ 32 * NSEC_PER_TICK"
  shows "clock_abstime2ticks clockid abstime s = Some 0"
proof -
  define r where "r = (let c = (if tv_nsec abstime < tv_nsec now then 1 else 0)
       in \<lparr>tv_sec = tv_sec abstime - tv_sec now - c, tv_nsec = tv_nsec abstime - tv_nsec now + uint c * NSEC_PER_SEC\<rparr>)"
  have le: "nsecs now \<le> nsecs abstime" using assms(4) by (simp add: clock_consts)
  have "nsecs r = 2 ^ 32 * NSEC_PER_TICK" using reltime_nsecs(2) [OF assms(2,3) le r_def] assms(4) by simp
  then have e: "uint (tv_sec r) * NSEC_PER_SEC + tv_nsec r = 2 ^ 32 * NSEC_PER_TICK" by (simp add: nsecs_def)
  have "clock_time2ticks r = 0"
    unfolding clock_time2ticks_def Let_def e by (simp add: signed_divide_int_def clock_consts s32_def)
  then show ?thesis using clock_abstime2ticks_spec [OF assms(1-3), folded r_def] le by simp
qed

lemma clock_abstime2ticks_wraps_witness:
  "clock_abstime2ticks CLOCK_MONOTONIC \<lparr>tv_sec = 42949672, tv_nsec = 960000000\<rparr> \<lparr>g_system_timer = 0, g_basetime = \<lparr>tv_sec = 0, tv_nsec = 0\<rparr>\<rparr> = Some 0"
proof (rule clock_abstime2ticks_wraps)
  let ?s = "\<lparr>g_system_timer = 0, g_basetime = \<lparr>tv_sec = 0, tv_nsec = 0\<rparr>\<rparr>"
  show "clock_gettime CLOCK_MONOTONIC ?s = Some (clock_systimespec ?s)" by (simp add: clock_gettime_def)
  show "valid_ts (clock_systimespec ?s)" using clock_systimespec_nsecs(1) [of ?s] by (simp add: clock_consts)
  show "valid_ts \<lparr>tv_sec = 42949672, tv_nsec = 960000000\<rparr>" by (simp add: valid_ts_def clock_consts)
  show "nsecs \<lparr>tv_sec = 42949672, tv_nsec = 960000000\<rparr> = nsecs (clock_systimespec ?s) + 2 ^ 32 * NSEC_PER_TICK"
    using clock_systimespec_nsecs(2) [of ?s] by (simp add: nsecs_def clock_consts)
qed

end
