(* ===== verification/MQ.thy ===== *)
theory MQ
  imports Sem
begin

unbundle bit_operations_syntax

text \<open>
  POSIX message queues of \<open>os/kernel/mqueue\<close>: the state that extends that of the semaphores, and every operation that
  changes it. A call that makes its task wait ends in \<open>Switched\<close>; the part of the C function behind the context switch
  is the operation with the suffix \<open>_resume\<close>.
\<close>

section \<open>State\<close>

definition MQ_MAX_BYTES :: nat where "MQ_MAX_BYTES = 600"
definition MQ_MAX_MSGS :: int where "MQ_MAX_MSGS = 16"
definition MQ_PRIO_MAX :: int where "MQ_PRIO_MAX = 255"
definition NUM_MSG_DESCRIPTORS :: nat where "NUM_MSG_DESCRIPTORS = 24"
definition NUM_INTERRUPT_MSGS :: nat where "NUM_INTERRUPT_MSGS = 8"
definition CONFIG_PREALLOC_MQ_MSGS :: nat where "CONFIG_PREALLOC_MQ_MSGS = 4"
definition O_RDOK :: u32 where "O_RDOK = 1"
definition O_WROK :: u32 where "O_WROK = 2"
definition O_NONBLOCK :: u32 where "O_NONBLOCK = 64"
definition EPERM :: int where "EPERM = 1"
definition EBADF :: int where "EBADF = 9"
definition EBUSY :: int where "EBUSY = 16"
definition EMSGSIZE :: int where "EMSGSIZE = 90"
definition MAX_SIGNO :: int where "MAX_SIGNO = 31"

datatype mqalloc_e = MQ_ALLOC_FIXED | MQ_ALLOC_DYN | MQ_ALLOC_IRQ

text \<open>The fields of \<open>mqueue_inode_s\<close> are functions of the address of a queue, those of \<open>mqueue_msg_s\<close> of that of a
  message, those of \<open>mq_des\<close> of that of a descriptor. The counts of waiting tasks have 16 bits; at most
  \<open>CONFIG_MAX_TASKS\<close> tasks wait, so they do not wrap.\<close>

record mq_state = sem_state +
  msglist :: "addr \<Rightarrow> addr list"
  maxmsgs :: "addr \<Rightarrow> int"
  nmsgs :: "addr \<Rightarrow> int"
  nwaitnotfull :: "addr \<Rightarrow> int"
  nwaitnotempty :: "addr \<Rightarrow> int"
  maxmsgsize :: "addr \<Rightarrow> nat"
  ntmqdes :: "addr \<Rightarrow> addr"
  ntpid :: "addr \<Rightarrow> int"
  ntsigno :: "addr \<Rightarrow> int"
  ntvalue :: "addr \<Rightarrow> addr"
  des_msgq :: "addr \<Rightarrow> addr"
  oflags :: "addr \<Rightarrow> u32"
  mtype :: "addr \<Rightarrow> mqalloc_e"
  mpriority :: "addr \<Rightarrow> nat"
  msglen :: "addr \<Rightarrow> nat"
  mail :: "addr \<Rightarrow> u8 list"
  g_msgfree :: "addr list"
  g_msgfreeirq :: "addr list"
  g_desfree :: "addr list"
  g_desalloc :: "addr list"
  msgwaitq :: "addr \<Rightarrow> addr"
  tcb_group :: "addr \<Rightarrow> addr"
  tg_msgdesq :: "addr \<Rightarrow> addr list"

abbreviation set_msgwaitq :: "addr \<Rightarrow> addr \<Rightarrow> 'a mq_state_scheme \<Rightarrow> 'a mq_state_scheme" where
  "set_msgwaitq t q s \<equiv> s\<lparr>msgwaitq := (msgwaitq s)(t := q)\<rparr>"

abbreviation set_nmsgs :: "addr \<Rightarrow> int \<Rightarrow> 'a mq_state_scheme \<Rightarrow> 'a mq_state_scheme" where
  "set_nmsgs q n s \<equiv> s\<lparr>nmsgs := (nmsgs s)(q := n)\<rparr>"

abbreviation set_nwaitnotfull :: "addr \<Rightarrow> int \<Rightarrow> 'a mq_state_scheme \<Rightarrow> 'a mq_state_scheme" where
  "set_nwaitnotfull q n s \<equiv> s\<lparr>nwaitnotfull := (nwaitnotfull s)(q := n)\<rparr>"

abbreviation set_nwaitnotempty :: "addr \<Rightarrow> int \<Rightarrow> 'a mq_state_scheme \<Rightarrow> 'a mq_state_scheme" where
  "set_nwaitnotempty q n s \<equiv> s\<lparr>nwaitnotempty := (nwaitnotempty s)(q := n)\<rparr>"

text \<open>\<open>set_errno\<close> of the caller: the \<open>errno\<close> of the running task, or that of the interrupt handlers, which nothing
  reads here.\<close>

definition put_errno :: "bool \<Rightarrow> int \<Rightarrow> 'a sem_state_scheme \<Rightarrow> 'a sem_state_scheme" where
  "put_errno in_irq e s =
     (let rtcb = head_of (g_readytorun s)
      in if \<not> in_irq \<and> rtcb \<noteq> NULL \<and> task_state s rtcb = TSTATE_TASK_RUNNING then set_errno rtcb e s else s)"

section \<open>Initialisation, queues and descriptors\<close>

text \<open>\<open>mem\<close> is what \<open>kmm_malloc\<close> returns, NULL when there is no memory. A message has 608 bytes, a descriptor 12.\<close>

definition mq_msgblock :: "addr \<Rightarrow> nat \<Rightarrow> addr list" where
  "mq_msgblock mem n = (if mem \<noteq> NULL then map (\<lambda>i. mem + 608 * i) [0 ..< n] else [])"

definition mq_desblockalloc :: "addr \<Rightarrow> 'a mq_state_scheme \<Rightarrow> 'a mq_state_scheme" where
  "mq_desblockalloc mem s =
     (if mem \<noteq> NULL then
        (let s = s\<lparr>g_desalloc := g_desalloc s @ [mem]\<rparr>
         in s\<lparr>g_desfree := g_desfree s @ map (\<lambda>i. mem + 4 + 12 * i) [0 ..< NUM_MSG_DESCRIPTORS]\<rparr>)
      else s)"

definition mq_initialize :: "addr \<Rightarrow> addr \<Rightarrow> addr \<Rightarrow> 'a mq_state_scheme \<Rightarrow> 'a mq_state_scheme" where
  "mq_initialize mem1 mem2 mem3 s =
     (let s = s\<lparr>g_msgfree := [], g_msgfreeirq := [], g_desalloc := []\<rparr>;
          b1 = mq_msgblock mem1 CONFIG_PREALLOC_MQ_MSGS;
          s = s\<lparr>g_msgfree := g_msgfree s @ b1, mtype := override_on (mtype s) (\<lambda>_. MQ_ALLOC_FIXED) (set b1)\<rparr>;
          b2 = mq_msgblock mem2 NUM_INTERRUPT_MSGS;
          s = s\<lparr>g_msgfreeirq := g_msgfreeirq s @ b2, mtype := override_on (mtype s) (\<lambda>_. MQ_ALLOC_IRQ) (set b2)\<rparr>
      in mq_desblockalloc mem3 s)"

record mq_attr =
  mq_maxmsg :: u32
  mq_msgsize :: u32
  mq_flags :: u32
  mq_curmsgs :: u32

text \<open>\<open>kmm_zalloc\<close> clears the structure.\<close>

definition mq_msgqalloc :: "addr \<Rightarrow> mq_attr option \<Rightarrow> 'a mq_state_scheme \<Rightarrow> (addr \<times> 'a mq_state_scheme) option" where
  "mq_msgqalloc mem attr s = do {
     debugassert (case attr of None \<Rightarrow> True | Some a \<Rightarrow> unat (mq_msgsize a) \<le> MQ_MAX_BYTES);
     let msgq = mem;
     if msgq \<noteq> NULL then do {
       let s = s\<lparr>nmsgs := (nmsgs s)(msgq := 0), nwaitnotfull := (nwaitnotfull s)(msgq := 0), nwaitnotempty := (nwaitnotempty s)(msgq := 0),
         ntmqdes := (ntmqdes s)(msgq := NULL), ntsigno := (ntsigno s)(msgq := 0), ntvalue := (ntvalue s)(msgq := NULL)\<rparr>;
       let s = s\<lparr>msglist := (msglist s)(msgq := [])\<rparr>;
       let s = (case attr of
           Some a \<Rightarrow> s\<lparr>maxmsgs := (maxmsgs s)(msgq := s16 (uint (mq_maxmsg a))),
                       maxmsgsize := (maxmsgsize s)(msgq := nat (s16 (uint (mq_msgsize a)) mod 2 ^ 16))\<rparr>
         | None \<Rightarrow> s\<lparr>maxmsgs := (maxmsgs s)(msgq := MQ_MAX_MSGS), maxmsgsize := (maxmsgsize s)(msgq := MQ_MAX_BYTES)\<rparr>);
       Some (msgq, s\<lparr>ntpid := (ntpid s)(msgq := -1)\<rparr>)
     } else Some (NULL, s)
   }"

definition mq_desalloc :: "addr \<Rightarrow> 'a mq_state_scheme \<Rightarrow> addr \<times> 'a mq_state_scheme" where
  "mq_desalloc mem s =
     (let s = (if g_desfree s = [] then mq_desblockalloc mem s else s)
      in case g_desfree s of [] \<Rightarrow> (NULL, s) | mqdes # rest \<Rightarrow> (mqdes, s\<lparr>g_desfree := rest\<rparr>))"

definition mq_descreate :: "addr \<Rightarrow> addr \<Rightarrow> addr \<Rightarrow> u32 \<Rightarrow> 'a mq_state_scheme \<Rightarrow> (addr \<times> 'a mq_state_scheme) option" where
  "mq_descreate mem mtcb msgq flags s = do {
     let mtcb = (if mtcb = NULL then head_of (g_readytorun s) else mtcb);
     let grp = tcb_group s mtcb;
     debugassert (grp \<noteq> NULL);
     let (mqdes, s) = mq_desalloc mem s;
     if mqdes \<noteq> NULL then do {
       let s = s\<lparr>des_msgq := (des_msgq s)(mqdes := msgq), oflags := (oflags s)(mqdes := flags)\<rparr>;
       Some (mqdes, s\<lparr>tg_msgdesq := (tg_msgdesq s)(grp := tg_msgdesq s grp @ [mqdes])\<rparr>)
     } else Some (NULL, s)
   }"

definition mq_desclose :: "addr \<Rightarrow> 'a mq_state_scheme \<Rightarrow> 'a mq_state_scheme option" where
  "mq_desclose mqdes s = do {
     let rtcb = head_of (g_readytorun s);
     let grp = tcb_group s rtcb;
     debugassert (mqdes \<noteq> NULL \<and> grp \<noteq> NULL);
     let s = s\<lparr>tg_msgdesq := (tg_msgdesq s)(grp := remove1 mqdes (tg_msgdesq s grp))\<rparr>;
     let msgq = des_msgq s mqdes;
     let s = (if ntmqdes s msgq = mqdes
       then s\<lparr>ntpid := (ntpid s)(msgq := -1), ntsigno := (ntsigno s)(msgq := 0), ntvalue := (ntvalue s)(msgq := NULL),
              ntmqdes := (ntmqdes s)(msgq := NULL)\<rparr>
       else s);
     Some (s\<lparr>g_desfree := g_desfree s @ [mqdes]\<rparr>)
   }"

definition mq_getattr :: "addr \<Rightarrow> 'a mq_state_scheme \<Rightarrow> mq_attr option" where
  "mq_getattr mqdes s =
     (if mqdes \<noteq> NULL then
        (let q = des_msgq s mqdes
         in Some \<lparr>mq_maxmsg = word_of_int (maxmsgs s q), mq_msgsize = of_nat (maxmsgsize s q), mq_flags = oflags s mqdes,
                  mq_curmsgs = word_of_int (nmsgs s q)\<rparr>)
      else None)"

definition mq_setattr :: "addr \<Rightarrow> mq_attr option \<Rightarrow> 'a mq_state_scheme \<Rightarrow> mq_attr option \<times> 'a mq_state_scheme" where
  "mq_setattr mqdes mq_stat s =
     (case mq_stat of
        Some a \<Rightarrow>
          (if mqdes \<noteq> NULL then
             (mq_getattr mqdes s,
              s\<lparr>oflags := (oflags s)(mqdes := (mq_flags a AND O_NONBLOCK) OR (oflags s mqdes AND NOT O_NONBLOCK))\<rparr>)
           else (None, s))
      | None \<Rightarrow> (None, s))"

text \<open>\<open>notification\<close> is the signal number and value. The result is \<open>False\<close> for \<open>ERROR\<close>.\<close>

definition mq_notify :: "addr \<Rightarrow> (int \<times> addr) option \<Rightarrow> 'a mq_state_scheme \<Rightarrow> (bool \<times> 'a mq_state_scheme) option" where
  "mq_notify mqdes notification s =
     (let errout = (\<lambda>errval s. do { s \<leftarrow> sched_unlock False (put_errno False errval s); Some (False, s) })
      in if mqdes = NULL then errout EBADF s
         else do {
           s \<leftarrow> sched_lock False s;
           let msgq = des_msgq s mqdes;
           let rtcb = head_of (g_readytorun s);
           if ntmqdes s msgq = NULL then
             (case notification of
                Some (signo, v) \<Rightarrow>
                  (if \<not> (uint (word_of_int signo :: u32) \<le> MAX_SIGNO) then errout EINVAL s
                   else do {
                     let s = s\<lparr>ntvalue := (ntvalue s)(msgq := v), ntsigno := (ntsigno s)(msgq := signo),
                               ntpid := (ntpid s)(msgq := tcb_pid s rtcb), ntmqdes := (ntmqdes s)(msgq := mqdes)\<rparr>;
                     s \<leftarrow> sched_unlock False s;
                     Some (True, s)
                   })
              | None \<Rightarrow> do { s \<leftarrow> sched_unlock False s; Some (True, s) })
           else if ntpid s msgq \<noteq> tcb_pid s rtcb \<or> notification \<noteq> None then errout EBUSY s
           else do {
             let s = s\<lparr>ntpid := (ntpid s)(msgq := -1), ntsigno := (ntsigno s)(msgq := 0), ntvalue := (ntvalue s)(msgq := NULL),
                       ntmqdes := (ntmqdes s)(msgq := NULL)\<rparr>;
             s \<leftarrow> sched_unlock False s;
             Some (True, s)
           }
         })"

section \<open>Messages\<close>

definition mq_msgalloc :: "bool \<Rightarrow> addr \<Rightarrow> 'a mq_state_scheme \<Rightarrow> (addr \<times> 'a mq_state_scheme) option" where
  "mq_msgalloc in_irq mem s =
     (case g_msgfree s of
        mqmsg # rest \<Rightarrow> Some (mqmsg, s\<lparr>g_msgfree := rest\<rparr>)
      | [] \<Rightarrow>
          (if in_irq then
             (case g_msgfreeirq s of
                mqmsg # rest \<Rightarrow> Some (mqmsg, s\<lparr>g_msgfreeirq := rest\<rparr>)
              | [] \<Rightarrow> Some (NULL, s))
           else do {
             debugassert (mem \<noteq> NULL);
             Some (mem, s\<lparr>mtype := (mtype s)(mem := MQ_ALLOC_DYN)\<rparr>)
           }))"

definition mq_msgfree :: "addr \<Rightarrow> 'a mq_state_scheme \<Rightarrow> 'a mq_state_scheme" where
  "mq_msgfree mqmsg s =
     (case mtype s mqmsg of
        MQ_ALLOC_FIXED \<Rightarrow> s\<lparr>g_msgfree := g_msgfree s @ [mqmsg]\<rparr>
      | MQ_ALLOC_IRQ \<Rightarrow> s\<lparr>g_msgfreeirq := g_msgfreeirq s @ [mqmsg]\<rparr>
      | MQ_ALLOC_DYN \<Rightarrow> s)"

definition mq_msgqfree :: "addr \<Rightarrow> 'a mq_state_scheme \<Rightarrow> 'a mq_state_scheme" where
  "mq_msgqfree msgq s = fold mq_msgfree (msglist s msgq) s"

text \<open>The first task of a waiting list that waits for the queue, NULL if there is none.\<close>

definition first_mqwaiter :: "tasklist \<Rightarrow> addr \<Rightarrow> 'a mq_state_scheme \<Rightarrow> addr" where
  "first_mqwaiter l msgq s = head_of (filter (\<lambda>t. msgwaitq s t = msgq) (tlist s l))"

section \<open>Sending (mq_sndinternal.c, mq_send.c)\<close>

text \<open>The error number, 0 for \<open>OK\<close>; \<open>None\<close> is the NULL pointer.\<close>

definition mq_verifysend :: "addr \<Rightarrow> u8 list option \<Rightarrow> nat \<Rightarrow> int \<Rightarrow> 'a mq_state_scheme \<Rightarrow> int" where
  "mq_verifysend mqdes msg len prio s =
     (if msg = None \<or> mqdes = NULL \<or> prio < 0 \<or> prio > MQ_PRIO_MAX then EINVAL
      else if oflags s mqdes AND O_WROK = 0 then EPERM
      else if len > maxmsgsize s (des_msgq s mqdes) then EMSGSIZE
      else 0)"

text \<open>The loop of \<open>mq_waitsend\<close>: a task that finds the queue full blocks, and goes on with
  \<open>mq_waitsend_resume\<close> when it runs again.\<close>

definition mq_waitsend_loop :: "addr \<Rightarrow> 'a mq_state_scheme \<Rightarrow> (bool progress \<times> 'a mq_state_scheme) option" where
  "mq_waitsend_loop mqdes s =
     (let msgq = des_msgq s mqdes
      in if nmsgs s msgq \<ge> maxmsgs s msgq then do {
           let rtcb = head_of (g_readytorun s);
           let s = set_msgwaitq rtcb msgq s;
           let s = set_nwaitnotfull msgq (nwaitnotfull s msgq + 1) s;
           let s = put_errno False 0 s;
           (_, s) \<leftarrow> up_block_task rtcb TSTATE_WAIT_MQNOTFULL s;
           Some (Switched, s)
         } else Some (Done True, s))"

definition mq_waitsend :: "addr \<Rightarrow> 'a mq_state_scheme \<Rightarrow> (bool progress \<times> 'a mq_state_scheme) option" where
  "mq_waitsend mqdes s =
     (let msgq = des_msgq s mqdes
      in if nmsgs s msgq \<ge> maxmsgs s msgq then
           (if oflags s mqdes AND O_NONBLOCK \<noteq> 0 then Some (Done False, put_errno False EAGAIN s) else mq_waitsend_loop mqdes s)
         else Some (Done True, s))"

definition mq_waitsend_resume :: "addr \<Rightarrow> 'a mq_state_scheme \<Rightarrow> (bool progress \<times> 'a mq_state_scheme) option" where
  "mq_waitsend_resume mqdes s =
     (if pterrno s (head_of (g_readytorun s)) \<noteq> 0 then Some (Done False, s) else mq_waitsend_loop mqdes s)"

text \<open>The memory accesses of \<open>memcpy\<close> stay within the two buffers. The signal of a notification is sent by
  \<open>sig_mqnotempty\<close>, an argument.\<close>

definition mq_dosend :: "(int \<Rightarrow> int \<Rightarrow> addr \<Rightarrow> 'a mq_state_scheme \<Rightarrow> 'a mq_state_scheme option) \<Rightarrow> bool \<Rightarrow> addr \<Rightarrow> addr \<Rightarrow> u8 list \<Rightarrow> nat \<Rightarrow> int
    \<Rightarrow> 'a mq_state_scheme \<Rightarrow> 'a mq_state_scheme option" where
  "mq_dosend sig_mqnotempty in_irq mqdes mqmsg msg len prio s = do {
     s \<leftarrow> sched_lock in_irq s;
     let msgq = des_msgq s mqdes;
     let s = s\<lparr>mpriority := (mpriority s)(mqmsg := nat (prio mod 256))\<rparr>;
     let s = s\<lparr>msglen := (msglen s)(mqmsg := len mod 2 ^ 16)\<rparr>;
     debugassert (len \<le> length msg \<and> len \<le> length (mail s mqmsg));
     let s = s\<lparr>mail := (mail s)(mqmsg := take len msg @ drop len (mail s mqmsg))\<rparr>;
     let s = s\<lparr>msglist := (msglist s)(msgq := walk_insert (\<lambda>next. prio \<le> int (mpriority s next)) mqmsg (msglist s msgq))\<rparr>;
     let s = set_nmsgs msgq (s16 (nmsgs s msgq + 1)) s;
     s \<leftarrow> (if ntmqdes s msgq \<noteq> NULL then do {
         let value = ntvalue s msgq;
         let signo = ntsigno s msgq;
         let pid = ntpid s msgq;
         let s = s\<lparr>ntpid := (ntpid s)(msgq := -1), ntsigno := (ntsigno s)(msgq := 0), ntvalue := (ntvalue s)(msgq := NULL),
                   ntmqdes := (ntmqdes s)(msgq := NULL)\<rparr>;
         sig_mqnotempty pid signo value s
       } else Some s);
     s \<leftarrow> (if nwaitnotempty s msgq > 0 then do {
         let btcb = first_mqwaiter Waitingformqnotempty msgq s;
         debugassert (btcb \<noteq> NULL);
         let s = set_msgwaitq btcb NULL s;
         let s = set_nwaitnotempty msgq (nwaitnotempty s msgq - 1) s;
         map_option snd (up_unblock_task btcb s)
       } else Some s);
     sched_unlock in_irq s
   }"

text \<open>\<open>mq_send\<close> from the allocation of the message on; \<open>mem\<close> is what \<open>kmm_malloc\<close> returns.\<close>

definition mq_send_rest :: "(int \<Rightarrow> int \<Rightarrow> addr \<Rightarrow> 'a mq_state_scheme \<Rightarrow> 'a mq_state_scheme option) \<Rightarrow> bool \<Rightarrow> addr \<Rightarrow> addr \<Rightarrow> u8 list \<Rightarrow> nat \<Rightarrow> int
    \<Rightarrow> bool progress \<Rightarrow> 'a mq_state_scheme \<Rightarrow> (bool progress \<times> 'a mq_state_scheme) option" where
  "mq_send_rest sig_mqnotempty in_irq mem mqdes msg len prio r s =
     (case r of
        Switched \<Rightarrow> Some (Switched, s)
      | Done ok \<Rightarrow> do {
          (mqmsg, s) \<leftarrow> (if ok then mq_msgalloc in_irq mem s else Some (NULL, s));
          s \<leftarrow> (if mqmsg \<noteq> NULL then mq_dosend sig_mqnotempty in_irq mqdes mqmsg msg len prio s else Some s);
          s \<leftarrow> sched_unlock in_irq s;
          Some (Done (mqmsg \<noteq> NULL), s)
        })"

definition mq_send :: "(int \<Rightarrow> int \<Rightarrow> addr \<Rightarrow> 'a mq_state_scheme \<Rightarrow> 'a mq_state_scheme option) \<Rightarrow> bool \<Rightarrow> addr \<Rightarrow> addr \<Rightarrow> u8 list option \<Rightarrow> nat \<Rightarrow> int
    \<Rightarrow> 'a mq_state_scheme \<Rightarrow> (bool progress \<times> 'a mq_state_scheme) option" where
  "mq_send sig_mqnotempty in_irq mem mqdes msg len prio s =
     (let e = mq_verifysend mqdes msg len prio s
      in if e \<noteq> 0 then Some (Done False, put_errno in_irq e s)
         else do {
           s \<leftarrow> sched_lock in_irq s;
           let msgq = des_msgq s mqdes;
           (r, s) \<leftarrow> (if in_irq \<or> nmsgs s msgq < maxmsgs s msgq then Some (Done True, s) else mq_waitsend mqdes s);
           mq_send_rest sig_mqnotempty in_irq mem mqdes (the msg) len prio r s
         })"

definition mq_send_resume :: "(int \<Rightarrow> int \<Rightarrow> addr \<Rightarrow> 'a mq_state_scheme \<Rightarrow> 'a mq_state_scheme option) \<Rightarrow> addr \<Rightarrow> addr \<Rightarrow> u8 list \<Rightarrow> nat \<Rightarrow> int
    \<Rightarrow> 'a mq_state_scheme \<Rightarrow> (bool progress \<times> 'a mq_state_scheme) option" where
  "mq_send_resume sig_mqnotempty mem mqdes msg len prio s = do {
     (r, s) \<leftarrow> mq_waitsend_resume mqdes s;
     mq_send_rest sig_mqnotempty False mem mqdes msg len prio r s
   }"

section \<open>Receiving (mq_rcvinternal.c, mq_receive.c)\<close>

text \<open>\<open>buf\<close> is the size of the caller's buffer, \<open>None\<close> for the NULL pointer.\<close>

definition mq_verifyreceive :: "addr \<Rightarrow> nat option \<Rightarrow> nat \<Rightarrow> 'a mq_state_scheme \<Rightarrow> int" where
  "mq_verifyreceive mqdes buf len s =
     (if buf = None \<or> mqdes = NULL then EINVAL
      else if oflags s mqdes AND O_RDOK = 0 then EPERM
      else if len < maxmsgsize s (des_msgq s mqdes) then EMSGSIZE
      else 0)"

definition mq_waitreceive :: "addr \<Rightarrow> 'a mq_state_scheme \<Rightarrow> (addr progress \<times> 'a mq_state_scheme) option" where
  "mq_waitreceive mqdes s =
     (let msgq = des_msgq s mqdes
      in case msglist s msgq of
           rcvmsg # rest \<Rightarrow>
             (let s = s\<lparr>msglist := (msglist s)(msgq := rest)\<rparr> in Some (Done rcvmsg, set_nmsgs msgq (s16 (nmsgs s msgq - 1)) s))
         | [] \<Rightarrow>
             (if oflags s mqdes AND O_NONBLOCK = 0 then do {
                let rtcb = head_of (g_readytorun s);
                let s = set_msgwaitq rtcb msgq s;
                let s = set_nwaitnotempty msgq (nwaitnotempty s msgq + 1) s;
                let s = put_errno False 0 s;
                (_, s) \<leftarrow> up_block_task rtcb TSTATE_WAIT_MQNOTEMPTY s;
                Some (Switched, s)
              } else Some (Done NULL, put_errno False EAGAIN s)))"

definition mq_waitreceive_resume :: "addr \<Rightarrow> 'a mq_state_scheme \<Rightarrow> (addr progress \<times> 'a mq_state_scheme) option" where
  "mq_waitreceive_resume mqdes s =
     (if pterrno s (head_of (g_readytorun s)) \<noteq> 0 then Some (Done NULL, s) else mq_waitreceive mqdes s)"

text \<open>The result is the message, copied to a buffer of \<open>buf\<close> bytes, and its priority.\<close>

definition mq_doreceive :: "addr \<Rightarrow> addr \<Rightarrow> nat \<Rightarrow> 'a mq_state_scheme \<Rightarrow> ((u8 list \<times> nat) \<times> 'a mq_state_scheme) option" where
  "mq_doreceive mqdes mqmsg buf s = do {
     let rcvmsglen = msglen s mqmsg;
     debugassert (rcvmsglen \<le> length (mail s mqmsg) \<and> rcvmsglen \<le> buf);
     let ubuffer = take rcvmsglen (mail s mqmsg);
     let prio = mpriority s mqmsg;
     let s = mq_msgfree mqmsg s;
     let msgq = des_msgq s mqdes;
     s \<leftarrow> (if nwaitnotfull s msgq > 0 then do {
         let btcb = first_mqwaiter Waitingformqnotfull msgq s;
         debugassert (btcb \<noteq> NULL);
         let s = set_msgwaitq btcb NULL s;
         let s = set_nwaitnotfull msgq (nwaitnotfull s msgq - 1) s;
         map_option snd (up_unblock_task btcb s)
       } else Some s);
     Some ((ubuffer, prio), s)
   }"

definition mq_receive_rest :: "addr \<Rightarrow> nat \<Rightarrow> addr progress \<Rightarrow> 'a mq_state_scheme \<Rightarrow> ((u8 list \<times> nat) option progress \<times> 'a mq_state_scheme) option" where
  "mq_receive_rest mqdes buf r s =
     (case r of
        Switched \<Rightarrow> Some (Switched, s)
      | Done mqmsg \<Rightarrow> do {
          (m, s) \<leftarrow> (if mqmsg \<noteq> NULL then do { (m, s) \<leftarrow> mq_doreceive mqdes mqmsg buf s; Some (Some m, s) } else Some (None, s));
          s \<leftarrow> sched_unlock False s;
          Some (Done m, s)
        })"

definition mq_receive :: "bool \<Rightarrow> addr \<Rightarrow> nat option \<Rightarrow> nat \<Rightarrow> 'a mq_state_scheme \<Rightarrow> ((u8 list \<times> nat) option progress \<times> 'a mq_state_scheme) option" where
  "mq_receive in_irq mqdes buf len s = do {
     debugassert (\<not> in_irq);
     let e = mq_verifyreceive mqdes buf len s;
     if e \<noteq> 0 then Some (Done None, put_errno False e s)
     else do {
       s \<leftarrow> sched_lock False s;
       (r, s) \<leftarrow> mq_waitreceive mqdes s;
       mq_receive_rest mqdes (the buf) r s
     }
   }"

definition mq_receive_resume :: "addr \<Rightarrow> nat \<Rightarrow> 'a mq_state_scheme \<Rightarrow> ((u8 list \<times> nat) option progress \<times> 'a mq_state_scheme) option" where
  "mq_receive_resume mqdes buf s = do {
     (r, s) \<leftarrow> mq_waitreceive_resume mqdes s;
     mq_receive_rest mqdes buf r s
   }"

section \<open>Interrupted waits (mq_waitirq.c, mq_timedsend.c, mq_timedreceive.c, mq_recover.c)\<close>

definition mq_waitirq :: "addr \<Rightarrow> int \<Rightarrow> 'a mq_state_scheme \<Rightarrow> 'a mq_state_scheme option" where
  "mq_waitirq wtcb errcode s =
     (if task_state s wtcb = TSTATE_WAIT_MQNOTEMPTY \<or> task_state s wtcb = TSTATE_WAIT_MQNOTFULL then do {
        let msgq = msgwaitq s wtcb;
        debugassert (msgq \<noteq> NULL);
        let s = set_msgwaitq wtcb NULL s;
        s \<leftarrow> (if task_state s wtcb = TSTATE_WAIT_MQNOTEMPTY then do {
            debugassert (nwaitnotempty s msgq > 0);
            Some (set_nwaitnotempty msgq (nwaitnotempty s msgq - 1) s)
          } else do {
            debugassert (nwaitnotfull s msgq > 0);
            Some (set_nwaitnotfull msgq (nwaitnotfull s msgq - 1) s)
          });
        let s = set_errno wtcb errcode s;
        map_option snd (up_unblock_task wtcb s)
      } else Some s)"

definition mq_sndtimeout :: "int \<Rightarrow> 'a mq_state_scheme \<Rightarrow> 'a mq_state_scheme option" where
  "mq_sndtimeout pid s =
     (let wtcb = sched_gettcb pid s
      in if wtcb \<noteq> NULL \<and> task_state s wtcb = TSTATE_WAIT_MQNOTFULL then mq_waitirq wtcb ETIMEDOUT s else Some s)"

definition mq_rcvtimeout :: "int \<Rightarrow> 'a mq_state_scheme \<Rightarrow> 'a mq_state_scheme option" where
  "mq_rcvtimeout pid s =
     (let wtcb = sched_gettcb pid s
      in if wtcb \<noteq> NULL \<and> task_state s wtcb = TSTATE_WAIT_MQNOTEMPTY then mq_waitirq wtcb ETIMEDOUT s else Some s)"

definition mq_recover :: "addr \<Rightarrow> 'a mq_state_scheme \<Rightarrow> 'a mq_state_scheme option" where
  "mq_recover t s =
     (if task_state s t = TSTATE_WAIT_MQNOTEMPTY then do {
        debugassert (msgwaitq s t \<noteq> NULL \<and> nwaitnotempty s (msgwaitq s t) > 0);
        Some (set_nwaitnotempty (msgwaitq s t) (nwaitnotempty s (msgwaitq s t) - 1) s)
      } else if task_state s t = TSTATE_WAIT_MQNOTFULL then do {
        debugassert (msgwaitq s t \<noteq> NULL \<and> nwaitnotfull s (msgwaitq s t) > 0);
        Some (set_nwaitnotfull (msgwaitq s t) (nwaitnotfull s (msgwaitq s t) - 1) s)
      } else Some s)"

end
