(* ===== verification/MQ_Inv.thy ===== *)
theory MQ_Inv
  imports MQ Sched_Ops
begin

unbundle bit_operations_syntax

text \<open>
  The invariant of the message queues: who waits for which queue, where each message structure is, and the order of the
  messages; the steps the calls are made of (lock and unlock, allocation, insertion, removal, blocking, waking a task) keep it.
\<close>

section \<open>Invariant\<close>

text \<open>Every task in a waiting list waits for a queue, and each queue counts the tasks that wait for it.\<close>

definition waits_at :: "addr list \<Rightarrow> (addr \<Rightarrow> addr) \<Rightarrow> (addr \<Rightarrow> int) \<Rightarrow> bool" where
  "waits_at ts w n \<longleftrightarrow> (\<forall>t \<in> set ts. w t \<noteq> NULL) \<and> (\<forall>q. q \<noteq> NULL \<longrightarrow> n q = int (length (filter (\<lambda>t. w t = q) ts)))"

definition mq_waits_ok :: "'a mq_state_scheme \<Rightarrow> bool" where
  "mq_waits_ok s \<longleftrightarrow> waits_at (tlist s Waitingformqnotempty) (msgwaitq s) (nwaitnotempty s) \<and>
     waits_at (tlist s Waitingformqnotfull) (msgwaitq s) (nwaitnotfull s)"

text \<open>Where a message structure is.\<close>

datatype place = Queued addr | Free | Freeirq

fun msgs_at :: "place \<Rightarrow> 'a mq_state_scheme \<Rightarrow> addr list" where
  "msgs_at (Queued q) s = msglist s q"
| "msgs_at Free s = g_msgfree s"
| "msgs_at Freeirq s = g_msgfreeirq s"

definition mq_places_ok :: "'a mq_state_scheme \<Rightarrow> bool" where
  "mq_places_ok s \<longleftrightarrow> (\<forall>p. distinct (msgs_at p s) \<and> NULL \<notin> set (msgs_at p s)) \<and>
     (\<forall>p p'. p \<noteq> p' \<longrightarrow> set (msgs_at p s) \<inter> set (msgs_at p' s) = {}) \<and>
     (\<forall>m \<in> set (g_msgfree s). mtype s m = MQ_ALLOC_FIXED) \<and> (\<forall>m \<in> set (g_msgfreeirq s). mtype s m = MQ_ALLOC_IRQ)"

definition unplaced :: "addr \<Rightarrow> 'a mq_state_scheme \<Rightarrow> bool" where
  "unplaced m s \<longleftrightarrow> m \<noteq> NULL \<and> (\<forall>p. m \<notin> set (msgs_at p s))"

text \<open>The messages of a queue are in order of priority and fit the queue and the buffers.\<close>

definition mq_msgs_ok :: "'a mq_state_scheme \<Rightarrow> bool" where
  "mq_msgs_ok s \<longleftrightarrow> (\<forall>q. nmsgs s q = int (length (msglist s q)) \<and> length (msglist s q) < 2 ^ 15 \<and> maxmsgsize s q \<le> MQ_MAX_BYTES \<and>
       sorted_wrt (\<lambda>m m'. mpriority s m' \<le> mpriority s m) (msglist s q) \<and> (\<forall>m \<in> set (msglist s q). msglen s m \<le> maxmsgsize s q)) \<and>
     (\<forall>m. length (mail s m) = MQ_MAX_BYTES)"

definition mq_inv :: "'a mq_state_scheme \<Rightarrow> bool" where
  "mq_inv s \<longleftrightarrow> sched_wf s \<and> mq_waits_ok s \<and> mq_places_ok s \<and> mq_msgs_ok s"

lemma mq_inv_parts: "mq_inv s \<Longrightarrow> sched_wf s" "mq_inv s \<Longrightarrow> mq_waits_ok s" "mq_inv s \<Longrightarrow> mq_places_ok s" "mq_inv s \<Longrightarrow> mq_msgs_ok s"
  by (simp_all add: mq_inv_def)

section \<open>Waiting lists\<close>

lemma waits_other: "t \<notin> set ts \<Longrightarrow> waits_at ts (w(t := q)) n = waits_at ts w n"
proof -
  assume t: "t \<notin> set ts"
  have "filter (\<lambda>u. (w(t := q)) u = r) ts = filter (\<lambda>u. w u = r) ts" for r
    using t by (intro filter_cong) auto
  then show ?thesis using t by (auto simp: waits_at_def)
qed

lemma length_filter_walk_insert: "length (filter P (walk_insert f x ys)) = (if P x then 1 else 0) + length (filter P ys)"
  by (induction ys) auto

lemma waits_insert:
  assumes "waits_at ts w n" "t \<notin> set ts" "q \<noteq> NULL"
  shows "waits_at (walk_insert f t ts) (w(t := q)) (n(q := n q + 1))"
proof -
  have "waits_at ts (w(t := q)) n" using waits_other [OF assms(2)] assms(1) by simp
  then show ?thesis using assms(3) by (auto simp: waits_at_def length_filter_walk_insert)
qed

lemma length_filter_remove1: "x \<in> set xs \<Longrightarrow> length (filter P (remove1 x xs)) = length (filter P xs) - (if P x then 1 else 0)"
proof (induction xs)
  case (Cons y ys)
  have "0 < length (filter P ys)" if "x \<in> set ys" "P x" using that by (auto simp: filter_empty_conv)
  then show ?case using Cons by auto
qed simp

lemma waits_remove:
  assumes "waits_at ts w n" "t \<in> set ts" "distinct ts" "w t = q"
  shows "waits_at (remove1 t ts) (w(t := NULL)) (n(q := n q - 1))"
proof -
  have t: "t \<notin> set (remove1 t ts)" using assms(3) by simp
  have q: "q \<noteq> NULL" using assms by (auto simp: waits_at_def)
  have "0 < length (filter (\<lambda>u. w u = q) ts)" using assms(2,4) by (auto simp: filter_empty_conv)
  then have pos: "int (length (filter (\<lambda>u. w u = q) ts) - 1) = int (length (filter (\<lambda>u. w u = q) ts)) - 1" by linarith
  have "waits_at (remove1 t ts) w (n(q := n q - 1))"
    unfolding waits_at_def
  proof (intro conjI allI impI)
    show "\<forall>u \<in> set (remove1 t ts). w u \<noteq> NULL" using assms(1) by (auto simp: waits_at_def dest: notin_set_remove1)
    fix r :: addr assume r: "r \<noteq> NULL"
    have "n r = int (length (filter (\<lambda>u. w u = r) ts))" using assms(1) r by (simp add: waits_at_def)
    then show "(n(q := n q - 1)) r = int (length (filter (\<lambda>u. w u = r) (remove1 t ts)))"
      using length_filter_remove1 [OF assms(2), of "\<lambda>u. w u = r"] pos assms(4) by (cases "r = q") simp_all
  qed
  then show ?thesis using waits_other [OF t] by simp
qed

lemma waits_first:
  assumes "waits_at ts w n" "0 < n q" "q \<noteq> NULL"
  shows "head_of (filter (\<lambda>t. w t = q) ts) \<in> set ts" "w (head_of (filter (\<lambda>t. w t = q) ts)) = q" "filter (\<lambda>t. w t = q) ts \<noteq> []"
proof -
  have "filter (\<lambda>t. w t = q) ts \<noteq> []" using assms by (auto simp: waits_at_def)
  then obtain b bs where b: "filter (\<lambda>t. w t = q) ts = b # bs" by (cases "filter (\<lambda>t. w t = q) ts") auto
  have "b \<in> set (filter (\<lambda>t. w t = q) ts)" unfolding b by simp
  then have "b \<in> set ts" "w b = q" by simp_all
  then show "head_of (filter (\<lambda>t. w t = q) ts) \<in> set ts" "w (head_of (filter (\<lambda>t. w t = q) ts)) = q" "filter (\<lambda>t. w t = q) ts \<noteq> []"
    using b by auto
qed

section \<open>Frames\<close>

lemma relisted_mq:
  assumes "relisted s s'"
  shows "msglist s' = msglist s" "maxmsgs s' = maxmsgs s" "nmsgs s' = nmsgs s" "nwaitnotfull s' = nwaitnotfull s"
    "nwaitnotempty s' = nwaitnotempty s" "maxmsgsize s' = maxmsgsize s" "ntmqdes s' = ntmqdes s" "des_msgq s' = des_msgq s"
    "oflags s' = oflags s" "mtype s' = mtype s" "mpriority s' = mpriority s" "msglen s' = msglen s" "mail s' = mail s"
    "g_msgfree s' = g_msgfree s" "g_msgfreeirq s' = g_msgfreeirq s" "msgwaitq s' = msgwaitq s" "pterrno s' = pterrno s"
  using assms unfolding relisted_def by auto

lemma msgs_at_cong:
  "msglist s' = msglist s \<Longrightarrow> g_msgfree s' = g_msgfree s \<Longrightarrow> g_msgfreeirq s' = g_msgfreeirq s \<Longrightarrow> msgs_at p s' = msgs_at p s"
  by (cases p) simp_all

lemma places_cong:
  assumes "msglist s' = msglist s" "g_msgfree s' = g_msgfree s" "g_msgfreeirq s' = g_msgfreeirq s" "mtype s' = mtype s"
  shows "mq_places_ok s' = mq_places_ok s"
  using assms by (simp add: mq_places_ok_def msgs_at_cong [OF assms(1-3)])

lemma msgs_cong:
  assumes "msglist s' = msglist s" "nmsgs s' = nmsgs s" "maxmsgsize s' = maxmsgsize s" "mpriority s' = mpriority s" "msglen s' = msglen s" "mail s' = mail s"
  shows "mq_msgs_ok s' = mq_msgs_ok s"
  using assms by (simp add: mq_msgs_ok_def)

lemma waits_cong:
  assumes "tlist s' Waitingformqnotempty = tlist s Waitingformqnotempty" "tlist s' Waitingformqnotfull = tlist s Waitingformqnotfull"
    "msgwaitq s' = msgwaitq s" "nwaitnotempty s' = nwaitnotempty s" "nwaitnotfull s' = nwaitnotfull s"
  shows "mq_waits_ok s' = mq_waits_ok s"
  using assms by (simp add: mq_waits_ok_def)

text \<open>The scheduler's view of a state depends on its own fields only.\<close>

lemma sched_wf_mq [simp]:
  "sched_wf (s\<lparr>msglist := x1\<rparr>) = sched_wf s" "sched_wf (s\<lparr>nmsgs := x2\<rparr>) = sched_wf s" "sched_wf (s\<lparr>nwaitnotfull := x3\<rparr>) = sched_wf s"
  "sched_wf (s\<lparr>nwaitnotempty := x3\<rparr>) = sched_wf s" "sched_wf (s\<lparr>msgwaitq := x4\<rparr>) = sched_wf s" "sched_wf (s\<lparr>mtype := x5\<rparr>) = sched_wf s"
  "sched_wf (s\<lparr>mpriority := x6\<rparr>) = sched_wf s" "sched_wf (s\<lparr>msglen := x6\<rparr>) = sched_wf s" "sched_wf (s\<lparr>mail := x7\<rparr>) = sched_wf s"
  "sched_wf (s\<lparr>g_msgfree := x8\<rparr>) = sched_wf s" "sched_wf (s\<lparr>g_msgfreeirq := x8\<rparr>) = sched_wf s"
  by (simp_all add: sched_wf_def sched_inv_def lists_ok_def states_ok_def idle_ok_def by_priority_def)

lemma sched_wf_errno [simp]: "sched_wf (s\<lparr>pterrno := e\<rparr>) = sched_wf s"
  by (simp add: sched_wf_def sched_inv_def lists_ok_def states_ok_def idle_ok_def by_priority_def)

lemma mq_inv_errno [simp]: "mq_inv (s\<lparr>pterrno := e\<rparr>) = mq_inv s"
proof -
  have "mq_places_ok (s\<lparr>pterrno := e\<rparr>) = mq_places_ok s" "mq_msgs_ok (s\<lparr>pterrno := e\<rparr>) = mq_msgs_ok s" "mq_waits_ok (s\<lparr>pterrno := e\<rparr>) = mq_waits_ok s"
    by (rule places_cong msgs_cong waits_cong; simp)+
  then show ?thesis by (simp add: mq_inv_def)
qed

lemma mq_inv_put_errno [simp]: "mq_inv (put_errno in_irq e s) = mq_inv s"
  by (simp add: put_errno_def Let_def)

lemma put_errno_running: "sched_inv s \<Longrightarrow> put_errno False e s = s\<lparr>pterrno := (pterrno s)(hd (g_readytorun s) := e)\<rparr>"
  using running_facts [of s] by (simp add: put_errno_def)

lemma mq_inv_lockcount: "sched_wf (s\<lparr>lockcount := c\<rparr>) \<Longrightarrow> mq_inv s \<Longrightarrow> mq_inv (s\<lparr>lockcount := c\<rparr>)"
proof -
  assume wf: "sched_wf (s\<lparr>lockcount := c\<rparr>)" and inv: "mq_inv s"
  have "mq_places_ok (s\<lparr>lockcount := c\<rparr>) = mq_places_ok s" "mq_msgs_ok (s\<lparr>lockcount := c\<rparr>) = mq_msgs_ok s" "mq_waits_ok (s\<lparr>lockcount := c\<rparr>) = mq_waits_ok s"
    by (rule places_cong msgs_cong waits_cong; simp)+
  then show ?thesis using wf inv by (simp add: mq_inv_def)
qed

text \<open>A change of the task lists that leaves the waiting lists of the queues alone.\<close>

lemma mq_inv_relisted:
  assumes inv: "mq_inv s" and r: "relisted s s'" and wf: "sched_wf s'"
    and l: "tlist s' Waitingformqnotempty = tlist s Waitingformqnotempty" "tlist s' Waitingformqnotfull = tlist s Waitingformqnotfull"
  shows "mq_inv s'"
proof -
  note f = relisted_mq [OF r]
  have "mq_places_ok s' = mq_places_ok s" by (rule places_cong) (simp_all add: f)
  moreover have "mq_msgs_ok s' = mq_msgs_ok s" by (rule msgs_cong) (simp_all add: f)
  moreover have "mq_waits_ok s' = mq_waits_ok s" by (rule waits_cong) (simp_all add: f l)
  ultimately show ?thesis using inv wf by (simp add: mq_inv_def)
qed

section \<open>Blocking and waking\<close>

abbreviation mq_wait_list :: "tasklist \<Rightarrow> bool" where
  "mq_wait_list l \<equiv> l = Waitingformqnotempty \<or> l = Waitingformqnotfull"

definition nwait :: "tasklist \<Rightarrow> 'a mq_state_scheme \<Rightarrow> addr \<Rightarrow> int" where
  "nwait l s = (if l = Waitingformqnotempty then nwaitnotempty s else nwaitnotfull s)"

definition set_nwait :: "tasklist \<Rightarrow> addr \<Rightarrow> int \<Rightarrow> 'a mq_state_scheme \<Rightarrow> 'a mq_state_scheme" where
  "set_nwait l q n s = (if l = Waitingformqnotempty then set_nwaitnotempty q n s else set_nwaitnotfull q n s)"

definition runnable_set :: "'a sched_state_scheme \<Rightarrow> addr set" where
  "runnable_set s = set (g_readytorun s) \<union> set (g_pendingtasks s)"

lemma waits_at_list: "mq_waits_ok s \<longleftrightarrow> (\<forall>l. mq_wait_list l \<longrightarrow> waits_at (tlist s l) (msgwaitq s) (nwait l s))"
  by (auto simp: mq_waits_ok_def nwait_def)

lemma set_nwait_fields [simp]:
  "tlist (set_nwait l q n s) = tlist s" "msgwaitq (set_nwait l q n s) = msgwaitq s" "pterrno (set_nwait l q n s) = pterrno s"
  "sched_priority (set_nwait l q n s) = sched_priority s" "lockcount (set_nwait l q n s) = lockcount s" "idle_tcb (set_nwait l q n s) = idle_tcb s"
  "task_state (set_nwait l q n s) = task_state s" "sched_wf (set_nwait l q n s) = sched_wf s"
  "msglist (set_nwait l q n s) = msglist s" "nmsgs (set_nwait l q n s) = nmsgs s" "maxmsgsize (set_nwait l q n s) = maxmsgsize s"
  "mpriority (set_nwait l q n s) = mpriority s" "msglen (set_nwait l q n s) = msglen s" "mail (set_nwait l q n s) = mail s"
  "mtype (set_nwait l q n s) = mtype s" "g_msgfree (set_nwait l q n s) = g_msgfree s" "g_msgfreeirq (set_nwait l q n s) = g_msgfreeirq s"
  "maxmsgs (set_nwait l q n s) = maxmsgs s" "ntmqdes (set_nwait l q n s) = ntmqdes s" "des_msgq (set_nwait l q n s) = des_msgq s" "oflags (set_nwait l q n s) = oflags s"
  by (simp_all add: set_nwait_def)

lemma nwait_set [simp]: "mq_wait_list l \<Longrightarrow> mq_wait_list l' \<Longrightarrow> nwait l' (set_nwait l q n s) = (if l' = l then (nwait l s)(q := n) else nwait l' s)"
  by (auto simp: nwait_def set_nwait_def)

lemma nwait_msgwaitq [simp]: "nwait l (s\<lparr>msgwaitq := w\<rparr>) = nwait l s"
  by (simp add: nwait_def)

lemma nwait_relisted: "relisted s s' \<Longrightarrow> nwait l s' = nwait l s"
  by (simp add: nwait_def relisted_mq)

text \<open>What the queues of a state do not see of a change: the waits are accounted for, the messages are the same.\<close>

lemma mq_inv_waits:
  assumes inv: "mq_inv s" and r: "relisted (set_nwait l q n (set_msgwaitq t v s)) s'" and wf: "sched_wf s'" and w: "mq_waits_ok s'"
  shows "mq_inv s'"
proof -
  note f = relisted_mq [OF r]
  have "mq_places_ok s' = mq_places_ok s" by (rule places_cong) (simp_all add: f)
  moreover have "mq_msgs_ok s' = mq_msgs_ok s" by (rule msgs_cong) (simp_all add: f)
  ultimately show ?thesis using inv wf w by (simp add: mq_inv_def)
qed

lemma running_unlisted:
  assumes "sched_inv s" "t \<in> set (tlist s l)" "l' \<noteq> l"
  shows "t \<notin> set (tlist s l')"
  using assms only_list by blast

lemma mq_block:
  assumes inv: "mq_inv s" and l: "mq_wait_list l" and q: "q \<noteq> NULL" and t: "t \<in> set (g_readytorun s)" "t \<noteq> idle_tcb s"
  obtains s' where "up_block_task t (list_state l) (set_nwait l q (nwait l s q + 1) (set_msgwaitq t q s)) = Some (hd (g_readytorun s') \<noteq> hd (g_readytorun s), s')"
    "mq_inv s'" "relisted (set_nwait l q (nwait l s q + 1) (set_msgwaitq t q s)) s'"
    "tlist s' l = prio_insert s t (tlist s l)" "\<And>l'. mq_wait_list l' \<Longrightarrow> l' \<noteq> l \<Longrightarrow> tlist s' l' = tlist s l'"
    "runnable_set s' = runnable_set s - {t}"
proof -
  define s1 where "s1 = set_nwait l q (nwait l s q + 1) (set_msgwaitq t q s)"
  have wf1: "sched_wf s1" using mq_inv_parts(1) [OF inv] by (simp add: s1_def)
  have f1: "tlist s1 = tlist s" "sched_priority s1 = sched_priority s" "msgwaitq s1 = (msgwaitq s)(t := q)" "idle_tcb s1 = idle_tcb s" by (simp_all add: s1_def)
  have st: "blocked_state (list_state l)" "prioritized l" using l by auto
  obtain s' where s': "up_block_task t (list_state l) s1 = Some (hd (g_readytorun s') \<noteq> hd (g_readytorun s1), s')" "sched_inv s'" "relisted s1 s'"
    "g_pendingtasks s' = []" "g_readytorun s' = prio_merge (sched_priority s1) (g_pendingtasks s1) (remove1 t (g_readytorun s1))"
    "tlist s' l = (if prioritized l then prio_insert s1 t (tlist s1 l) else tlist s1 l @ [t])"
    "\<And>l'. l' \<noteq> Readytorun \<Longrightarrow> l' \<noteq> Pendingtasks \<Longrightarrow> l' \<noteq> l \<Longrightarrow> tlist s' l' = tlist s1 l'"
    by (rule up_block_task_spec [OF wf_inv [OF wf1] _ _ st(1) refl]) (use t f1 in auto)
  have wf': "sched_wf s'" using s'(2,4) by (simp add: sched_wf_def)
  have sinv: "sched_inv s" using wf_inv mq_inv_parts(1) inv by blast
  have tn: "t \<notin> set (tlist s l')" if "mq_wait_list l'" for l'
    by (rule running_unlisted [OF sinv t(1)]) (use that in auto)
  have ins: "tlist s' l = prio_insert s t (tlist s l)" using s'(6) st(2) f1 by simp
  have oth: "tlist s' l' = tlist s l'" if "mq_wait_list l'" "l' \<noteq> l" for l' using s'(7) [of l'] that f1 by auto
  have "mq_waits_ok s'"
    unfolding waits_at_list
  proof (intro allI impI)
    fix l' assume l': "mq_wait_list l'"
    have w: "waits_at (tlist s l') (msgwaitq s) (nwait l' s)" using mq_inv_parts(2) [OF inv] l' unfolding waits_at_list by blast
    have m: "msgwaitq s' = (msgwaitq s)(t := q)" using relisted_mq(16) [OF s'(3)] f1 by simp
    have n: "nwait l' s' = (if l' = l then (nwait l s)(q := nwait l s q + 1) else nwait l' s)"
      using nwait_relisted [OF s'(3), of l'] l l' by (simp add: s1_def)
    show "waits_at (tlist s' l') (msgwaitq s') (nwait l' s')"
    proof (cases "l' = l")
      case True
      then show ?thesis using waits_insert [OF w tn [OF l'] q] n by (simp add: ins m)
    next
      case False
      then show ?thesis using w waits_other [OF tn [OF l']] by (simp add: oth [OF l' False] m n)
    qed
  qed
  then have inv': "mq_inv s'" using mq_inv_waits [OF inv s'(3) [unfolded s1_def] wf'] by blast
  have tp: "t \<notin> set (g_pendingtasks s)" by (rule running_unlisted [OF sinv t(1)]) simp
  have "runnable_set s' = runnable_set s - {t}"
    using s'(4,5) f1 tp inv_distinct [OF sinv, of Readytorun] by (auto simp: runnable_set_def)
  then show thesis
    using that [OF _ inv' s'(3) [unfolded s1_def] ins oth] s'(1) f1 by (simp add: s1_def)
qed

lemma mq_unblock:
  assumes inv: "mq_inv s" and l: "mq_wait_list l" and t: "t \<in> set (tlist s l)" and q: "q = msgwaitq s t"
  obtains s' where "up_unblock_task t (set_nwait l q (nwait l s q - 1) (set_msgwaitq t NULL s)) = Some (hd (g_readytorun s') \<noteq> hd (g_readytorun s), s')"
    "mq_inv s'" "relisted (set_nwait l q (nwait l s q - 1) (set_msgwaitq t NULL s)) s'"
    "tlist s' l = remove1 t (tlist s l)" "\<And>l'. mq_wait_list l' \<Longrightarrow> l' \<noteq> l \<Longrightarrow> tlist s' l' = tlist s l'"
    "runnable_set s' = insert t (runnable_set s)" "made_ready t s s'" "t \<noteq> NULL" "t \<noteq> idle_tcb s"
proof -
  define s1 where "s1 = set_nwait l q (nwait l s q - 1) (set_msgwaitq t NULL s)"
  have wf1: "sched_wf s1" using mq_inv_parts(1) [OF inv] by (simp add: s1_def)
  have f1: "tlist s1 = tlist s" "sched_priority s1 = sched_priority s" "msgwaitq s1 = (msgwaitq s)(t := NULL)" "idle_tcb s1 = idle_tcb s"
    "lockcount s1 = lockcount s" "task_state s1 = task_state s" by (simp_all add: s1_def)
  have sinv: "sched_inv s" using wf_inv mq_inv_parts(1) inv by blast
  have ti: "t \<noteq> idle_tcb s" using running_unlisted [OF sinv idle_listed [OF sinv], of l] t l by auto
  have st: "blocked_state (task_state s t)" using states_at [OF sinv t] l by auto
  obtain s' where s': "up_unblock_task t s1 = Some (hd (g_readytorun s') \<noteq> hd (g_readytorun s1), s')" "sched_inv s'" "relisted s1 s'"
    "tlist s' l = remove1 t (tlist s1 l)" "\<And>l'. l' \<noteq> Readytorun \<Longrightarrow> l' \<noteq> Pendingtasks \<Longrightarrow> l' \<noteq> l \<Longrightarrow> tlist s' l' = tlist s1 l'"
    "made_ready t s1 s'"
    by (rule up_unblock_task_spec [OF wf_inv [OF wf1], of t l]) (use t ti st f1 in auto)
  have wf': "sched_wf s'" by (rule made_ready_wf [OF wf1 s'(2,3,6)])
  have mr: "made_ready t s s'" using s'(6) f1 by (simp add: made_ready_def)
  have rem: "tlist s' l = remove1 t (tlist s l)" using s'(4) f1 by simp
  have oth: "tlist s' l' = tlist s l'" if "mq_wait_list l'" "l' \<noteq> l" for l' using s'(5) [of l'] that f1 by auto
  have "mq_waits_ok s'"
    unfolding waits_at_list
  proof (intro allI impI)
    fix l' assume l': "mq_wait_list l'"
    have w: "waits_at (tlist s l') (msgwaitq s) (nwait l' s)" using mq_inv_parts(2) [OF inv] l' unfolding waits_at_list by blast
    have m: "msgwaitq s' = (msgwaitq s)(t := NULL)" using relisted_mq(16) [OF s'(3)] f1 by simp
    have n: "nwait l' s' = (if l' = l then (nwait l s)(q := nwait l s q - 1) else nwait l' s)"
      using nwait_relisted [OF s'(3), of l'] l l' by (simp add: s1_def)
    show "waits_at (tlist s' l') (msgwaitq s') (nwait l' s')"
    proof (cases "l' = l")
      case True
      then have w: "waits_at (tlist s l) (msgwaitq s) (nwait l s)" using w by simp
      show ?thesis using waits_remove [OF w t inv_distinct [OF sinv] q [symmetric]] True n by (simp add: rem m)
    next
      case False
      have "t \<notin> set (tlist s l')" by (rule running_unlisted [OF sinv t False])
      then show ?thesis using w waits_other False by (simp add: oth [OF l' False] m n)
    qed
  qed
  then have inv': "mq_inv s'" using mq_inv_waits [OF inv s'(3) [unfolded s1_def] wf'] by blast
  have run: "runnable_set s' = insert t (runnable_set s)" using mr by (auto simp: runnable_set_def made_ready_def split: if_splits)
  show thesis
    using that [OF _ inv' s'(3) [unfolded s1_def] rem oth run mr _ ti] s'(1) f1 member_facts(1) [OF sinv t ti] by (simp add: s1_def)
qed

section \<open>What a step leaves alone\<close>

definition mq_static :: "'a mq_state_scheme \<Rightarrow> 'a mq_state_scheme \<Rightarrow> bool" where
  "mq_static s s' \<longleftrightarrow> maxmsgs s' = maxmsgs s \<and> maxmsgsize s' = maxmsgsize s \<and> des_msgq s' = des_msgq s \<and> oflags s' = oflags s \<and>
     ntmqdes s' = ntmqdes s \<and> idle_tcb s' = idle_tcb s"

definition mq_content :: "'a mq_state_scheme \<Rightarrow> 'a mq_state_scheme \<Rightarrow> bool" where
  "mq_content s s' \<longleftrightarrow> msglist s' = msglist s \<and> mpriority s' = mpriority s \<and> msglen s' = msglen s \<and> mail s' = mail s"

definition mq_tasks :: "'a mq_state_scheme \<Rightarrow> 'a mq_state_scheme \<Rightarrow> bool" where
  "mq_tasks s s' \<longleftrightarrow> msgwaitq s' = msgwaitq s \<and> pterrno s' = pterrno s \<and> runnable_set s' = runnable_set s \<and>
     (\<forall>l. mq_wait_list l \<longrightarrow> tlist s' l = tlist s l \<and> nwait l s' = nwait l s)"

lemmas mq_frame_defs = mq_static_def mq_content_def mq_tasks_def

lemma mq_frame_trans [trans]:
  "mq_static s s' \<Longrightarrow> mq_static s' s'' \<Longrightarrow> mq_static s s''" "mq_content s s' \<Longrightarrow> mq_content s' s'' \<Longrightarrow> mq_content s s''"
  "mq_tasks s s' \<Longrightarrow> mq_tasks s' s'' \<Longrightarrow> mq_tasks s s''"
  by (simp_all add: mq_frame_defs)

lemma mq_frame_refl [simp]: "mq_static s s" "mq_content s s" "mq_tasks s s"
  by (simp_all add: mq_frame_defs)

lemma mq_frame_relisted: "relisted s s' \<Longrightarrow> mq_static s s'" "relisted s s' \<Longrightarrow> mq_content s s'"
  by (simp_all add: mq_static_def mq_content_def relisted_mq relisted_fields(11))

lemma mq_lock:
  assumes inv: "mq_inv s" and lc: "\<not> in_irq \<Longrightarrow> lockcount s (hd (g_readytorun s)) < MAX_LOCK_COUNT"
  obtains s' where "sched_lock in_irq s = Some s'" "mq_inv s'" "mq_static s s'" "mq_content s s'" "mq_tasks s s'" "tlist s' = tlist s"
    "lockcount s' (hd (g_readytorun s)) = lockcount s (hd (g_readytorun s)) + (if in_irq then 0 else 1)"
    "g_msgfree s' = g_msgfree s" "g_msgfreeirq s' = g_msgfreeirq s" "\<forall>m. unplaced m s' = unplaced m s" "nmsgs s' = nmsgs s"
    "sched_priority s' = sched_priority s"
proof (cases in_irq)
  case True
  then have "sched_lock in_irq s = Some s" by (simp add: sched_lock_def Let_def)
  then show thesis using that [of s] inv True by simp
next
  case False
  let ?s = "s\<lparr>lockcount := (lockcount s)(hd (g_readytorun s) := lockcount s (hd (g_readytorun s)) + 1)\<rparr>"
  note lk = sched_lock_spec [OF mq_inv_parts(1) [OF inv] lc [OF False]]
  have p: "msgs_at p ?s = msgs_at p s" for p by (rule msgs_at_cong) simp_all
  have "mq_static s ?s" "mq_content s ?s" "mq_tasks s ?s" by (simp_all add: mq_frame_defs runnable_set_def nwait_def)
  then show thesis using that [of ?s] lk mq_inv_lockcount [OF lk(2) inv] False p by (simp add: unplaced_def)
qed

lemma runnable_merge: "set (prio_merge pri ps ts) \<union> set [] = set ts \<union> set ps"
  by auto

lemma mq_unlock:
  assumes inv: "mq_inv s"
  obtains s' where "sched_unlock in_irq s = Some s'" "mq_inv s'" "mq_static s s'" "mq_content s s'" "mq_tasks s s'"
proof (cases in_irq)
  case True
  then have "sched_unlock in_irq s = Some s" by (simp add: sched_unlock_def Let_def)
  then show thesis using that [of s] inv by simp
next
  case False
  let ?r = "hd (g_readytorun s)"
  obtain s' where s': "sched_unlock False s = Some s'" "sched_wf s'" "relisted (s\<lparr>lockcount := (lockcount s)(?r := lockcount s ?r - 1)\<rparr>) s'"
    "if lockcount s ?r \<le> 1
     then g_pendingtasks s' = [] \<and> g_readytorun s' = prio_merge (sched_priority s) (g_pendingtasks s) (g_readytorun s)
     else tlist s' = tlist s" "\<And>l. l \<noteq> Readytorun \<Longrightarrow> l \<noteq> Pendingtasks \<Longrightarrow> tlist s' l = tlist s l"
    by (rule sched_unlock_spec [OF mq_inv_parts(1) [OF inv]]) blast
  note f = relisted_mq [OF s'(3)] relisted_fields(11) [OF s'(3)]
  have lists: "tlist s' l = tlist s l" if "mq_wait_list l" for l using s'(5) that by auto
  have "mq_places_ok s' = mq_places_ok s" by (rule places_cong) (simp_all add: f)
  moreover have "mq_msgs_ok s' = mq_msgs_ok s" by (rule msgs_cong) (simp_all add: f)
  moreover have "mq_waits_ok s' = mq_waits_ok s" by (rule waits_cong) (simp_all add: f lists)
  ultimately have inv': "mq_inv s'" using inv s'(2) by (simp add: mq_inv_def)
  have run: "runnable_set s' = runnable_set s" using s'(4) by (auto simp: runnable_set_def split: if_splits)
  have "mq_static s s'" "mq_content s s'" by (simp_all add: mq_frame_defs f)
  moreover have "mq_tasks s s'" using run lists by (auto simp: mq_tasks_def f nwait_def)
  ultimately show thesis using that [of s'] s'(1) inv' False by simp
qed

section \<open>Message structures\<close>

lemma msgs_at_upd:
  "msgs_at p (s\<lparr>msglist := (msglist s)(q := xs)\<rparr>) = (if p = Queued q then xs else msgs_at p s)"
  "msgs_at p (s\<lparr>g_msgfree := xs\<rparr>) = (if p = Free then xs else msgs_at p s)"
  "msgs_at p (s\<lparr>g_msgfreeirq := xs\<rparr>) = (if p = Freeirq then xs else msgs_at p s)"
  by (cases p; simp)+

lemma places_facts:
  assumes "mq_places_ok s"
  shows "distinct (msgs_at p s)" "NULL \<notin> set (msgs_at p s)" "m \<in> set (msgs_at p s) \<Longrightarrow> m \<in> set (msgs_at p' s) \<Longrightarrow> p' = p"
    "m \<in> set (g_msgfree s) \<Longrightarrow> mtype s m = MQ_ALLOC_FIXED" "m \<in> set (g_msgfreeirq s) \<Longrightarrow> mtype s m = MQ_ALLOC_IRQ"
  using assms unfolding mq_places_ok_def by blast+

lemma mq_places_remove:
  assumes ok: "mq_places_ok s" and at: "msgs_at p s = m # ms" and p': "\<And>p'. msgs_at p' s' = (if p' = p then ms else msgs_at p' s)" and ty: "mtype s' = mtype s"
  shows "mq_places_ok s'" "unplaced m s'"
proof -
  have sub: "set (msgs_at p' s') \<subseteq> set (msgs_at p' s)" for p' using at by (auto simp: p')
  have m: "m \<noteq> NULL" "m \<notin> set ms" using places_facts(1,2) [OF ok, of p] at by auto
  have "distinct (msgs_at p' s')" "NULL \<notin> set (msgs_at p' s')" for p'
    using places_facts(1,2) [OF ok, of p'] sub [of p'] places_facts(1) [OF ok, of p] at by (auto simp: p' split: if_splits)
  moreover have "set (msgs_at p1 s') \<inter> set (msgs_at p2 s') = {}" if "p1 \<noteq> p2" for p1 p2
    using sub [of p1] sub [of p2] ok that unfolding mq_places_ok_def by blast
  moreover have "\<forall>x \<in> set (g_msgfree s'). mtype s' x = MQ_ALLOC_FIXED" using sub [of Free] places_facts(4) [OF ok] ty by auto
  moreover have "\<forall>x \<in> set (g_msgfreeirq s'). mtype s' x = MQ_ALLOC_IRQ" using sub [of Freeirq] places_facts(5) [OF ok] ty by auto
  ultimately show "mq_places_ok s'" unfolding mq_places_ok_def by blast
  have "m \<notin> set (msgs_at p' s)" if "p' \<noteq> p" for p' using places_facts(3) [OF ok, of m p p'] at that by auto
  then show "unplaced m s'" using m by (simp add: unplaced_def p')
qed

lemma mq_places_add:
  assumes ok: "mq_places_ok s" and m: "unplaced m s" and p': "\<And>p'. p' \<noteq> p \<Longrightarrow> msgs_at p' s' = msgs_at p' s"
    and p: "set (msgs_at p s') = insert m (set (msgs_at p s))" "distinct (msgs_at p s')" and ty: "mtype s' = mtype s"
    and free: "p = Free \<Longrightarrow> mtype s m = MQ_ALLOC_FIXED" "p = Freeirq \<Longrightarrow> mtype s m = MQ_ALLOC_IRQ"
  shows "mq_places_ok s'"
proof -
  have st: "set (msgs_at x s') = (if x = p then insert m (set (msgs_at x s)) else set (msgs_at x s))" for x using p(1) p' by auto
  have "distinct (msgs_at x s')" for x using p(2) p' [of x] places_facts(1) [OF ok, of x] by (cases "x = p") auto
  moreover have "NULL \<notin> set (msgs_at x s')" for x using places_facts(2) [OF ok, of x] m by (auto simp: st unplaced_def)
  moreover have "set (msgs_at x s') \<inter> set (msgs_at y s') = {}" if "x \<noteq> y" for x y
    using ok that m unfolding mq_places_ok_def unplaced_def st by (auto split: if_splits)
  moreover have "\<forall>x \<in> set (g_msgfree s'). mtype s' x = MQ_ALLOC_FIXED"
    using st [of Free] places_facts(4) [OF ok] ty free by (auto split: if_splits)
  moreover have "\<forall>x \<in> set (g_msgfreeirq s'). mtype s' x = MQ_ALLOC_IRQ"
    using st [of Freeirq] places_facts(5) [OF ok] ty free by (auto split: if_splits)
  ultimately show ?thesis unfolding mq_places_ok_def by blast
qed

lemma mq_msgalloc_spec:
  assumes inv: "mq_inv s" and mem: "\<not> in_irq \<Longrightarrow> g_msgfree s = [] \<Longrightarrow> unplaced mem s"
  obtains m s' where "mq_msgalloc in_irq mem s = Some (m, s')" "mq_inv s'" "mq_static s s'" "mq_content s s'" "mq_tasks s s'"
    "tlist s' = tlist s" "lockcount s' = lockcount s" "if m = NULL then in_irq else unplaced m s'"
proof -
  note ok = mq_inv_parts(3) [OF inv]
  have frame: "mq_inv s' \<and> mq_static s s' \<and> mq_content s s' \<and> mq_tasks s s' \<and> tlist s' = tlist s \<and> lockcount s' = lockcount s"
    if "s' = s\<lparr>g_msgfree := a, g_msgfreeirq := b, mtype := c\<rparr>" "mq_places_ok s'" for s' a b c
  proof -
    have "mq_msgs_ok s' = mq_msgs_ok s" "mq_waits_ok s' = mq_waits_ok s" by (rule msgs_cong waits_cong; simp add: that(1))+
    moreover have "sched_wf s' = sched_wf s" by (simp add: that(1))
    moreover have "mq_static s s'" "mq_content s s'" "mq_tasks s s'" by (simp_all add: that(1) mq_frame_defs runnable_set_def nwait_def)
    ultimately show ?thesis using inv that(2) by (simp add: mq_inv_def that(1))
  qed
  show thesis
  proof (cases "g_msgfree s")
    case (Cons m rest)
    let ?s = "s\<lparr>g_msgfree := rest\<rparr>"
    have pl: "mq_places_ok ?s" "unplaced m ?s" by (rule mq_places_remove [OF ok, of Free]; simp add: Cons msgs_at_upd)+
    have "?s = s\<lparr>g_msgfree := rest, g_msgfreeirq := g_msgfreeirq s, mtype := mtype s\<rparr>" by simp
    from frame [OF this pl(1)] show thesis using that [of m ?s] pl Cons by (simp add: mq_msgalloc_def unplaced_def)
  next
    case Nil
    show thesis
    proof (cases in_irq)
      case False
      let ?s = "s\<lparr>mtype := (mtype s)(mem := MQ_ALLOC_DYN)\<rparr>"
      have um: "unplaced mem s" using mem False Nil by simp
      have ms: "msgs_at p ?s = msgs_at p s" for p by (rule msgs_at_cong) simp_all
      have "mem \<notin> set (msgs_at Freeirq s)" using um unfolding unplaced_def by blast
      then have pl: "mq_places_ok ?s" using ok Nil unfolding mq_places_ok_def ms by auto
      have "?s = s\<lparr>g_msgfree := g_msgfree s, g_msgfreeirq := g_msgfreeirq s, mtype := (mtype s)(mem := MQ_ALLOC_DYN)\<rparr>" by simp
      from frame [OF this pl] show thesis
        using that [of mem ?s] um False Nil ms by (simp add: mq_msgalloc_def unplaced_def debugassert_def)
    next
      case True
      show thesis
      proof (cases "g_msgfreeirq s")
        case (Cons m rest)
        let ?s = "s\<lparr>g_msgfreeirq := rest\<rparr>"
        have pl: "mq_places_ok ?s" "unplaced m ?s" by (rule mq_places_remove [OF ok, of Freeirq]; simp add: Cons msgs_at_upd)+
        have "?s = s\<lparr>g_msgfree := g_msgfree s, g_msgfreeirq := rest, mtype := mtype s\<rparr>" by simp
        from frame [OF this pl(1)] show thesis using that [of m ?s] pl Cons Nil True by (simp add: mq_msgalloc_def unplaced_def)
      qed (use that [of NULL s] inv Nil True in \<open>simp add: mq_msgalloc_def\<close>)
    qed
  qed
qed

lemma mq_msgfree_spec:
  assumes inv: "mq_inv s" and m: "unplaced m s"
  shows "mq_inv (mq_msgfree m s)" "mq_static s (mq_msgfree m s)" "mq_content s (mq_msgfree m s)" "mq_tasks s (mq_msgfree m s)"
    "tlist (mq_msgfree m s) = tlist s" "lockcount (mq_msgfree m s) = lockcount s" "nmsgs (mq_msgfree m s) = nmsgs s"
proof -
  let ?s = "mq_msgfree m s"
  have "?s = s\<lparr>g_msgfree := g_msgfree ?s, g_msgfreeirq := g_msgfreeirq ?s\<rparr>" by (cases "mtype s m") (simp_all add: mq_msgfree_def)
  then obtain a b where eq: "?s = s\<lparr>g_msgfree := a, g_msgfreeirq := b\<rparr>" by blast
  note ok = mq_inv_parts(3) [OF inv]
  have nm: "m \<notin> set (msgs_at p s)" for p using m by (simp add: unplaced_def)
  have "mq_places_ok ?s"
  proof (cases "mtype s m")
    case MQ_ALLOC_FIXED
    show ?thesis by (rule mq_places_add [OF ok m, of Free]) (use MQ_ALLOC_FIXED nm [of Free] places_facts(1) [OF ok, of Free] in \<open>auto simp: mq_msgfree_def msgs_at_upd\<close>)
  next
    case MQ_ALLOC_IRQ
    show ?thesis by (rule mq_places_add [OF ok m, of Freeirq]) (use MQ_ALLOC_IRQ nm [of Freeirq] places_facts(1) [OF ok, of Freeirq] in \<open>auto simp: mq_msgfree_def msgs_at_upd\<close>)
  qed (use ok in \<open>simp add: mq_msgfree_def\<close>)
  moreover have "mq_msgs_ok ?s = mq_msgs_ok s" "mq_waits_ok ?s = mq_waits_ok s" by (rule msgs_cong waits_cong; simp add: eq)+
  moreover have "sched_wf ?s = sched_wf s" by (simp add: eq)
  ultimately show "mq_inv ?s" using inv by (simp add: mq_inv_def)
  show "mq_static s ?s" "mq_content s ?s" "mq_tasks s ?s" "tlist ?s = tlist s" "lockcount ?s = lockcount s" "nmsgs ?s = nmsgs s"
    by (simp_all add: eq mq_frame_defs runnable_set_def nwait_def)
qed

section \<open>The messages of a queue\<close>

text \<open>What a queue holds: the priorities and the bytes of its messages, in order.\<close>

definition mq_view :: "'a mq_state_scheme \<Rightarrow> addr \<Rightarrow> (nat \<times> u8 list) list" where
  "mq_view s q = map (\<lambda>m. (mpriority s m, take (msglen s m) (mail s m))) (msglist s q)"

definition mq_put :: "nat \<Rightarrow> u8 list \<Rightarrow> (nat \<times> u8 list) list \<Rightarrow> (nat \<times> u8 list) list" where
  "mq_put p bytes ms = walk_insert (\<lambda>m. p \<le> fst m) (p, bytes) ms"

lemma mq_view_content: "mq_content s s' \<Longrightarrow> mq_view s' = mq_view s"
  by (simp add: mq_content_def mq_view_def fun_eq_iff)

lemma length_mq_view: "mq_inv s \<Longrightarrow> int (length (mq_view s q)) = nmsgs s q"
  using mq_inv_parts(4) [of s] by (simp add: mq_msgs_ok_def mq_view_def)

lemma msgs_facts:
  assumes "mq_inv s"
  shows "nmsgs s q = int (length (msglist s q))" "length (msglist s q) < 2 ^ 15" "maxmsgsize s q \<le> MQ_MAX_BYTES"
    "sorted_wrt (\<lambda>m m'. mpriority s m' \<le> mpriority s m) (msglist s q)" "m \<in> set (msglist s q) \<Longrightarrow> msglen s m \<le> maxmsgsize s q"
    "length (mail s m) = MQ_MAX_BYTES"
  using mq_inv_parts(4) [OF assms] by (simp_all add: mq_msgs_ok_def)

lemma s16_id: "- (2 ^ 15) \<le> x \<Longrightarrow> x < 2 ^ 15 \<Longrightarrow> s16 x = x"
  by (simp add: s16_def)

lemma mq_insert:
  assumes inv: "mq_inv s" and m: "unplaced m s" and room: "length (msglist s q) + 1 < 2 ^ 15"
    and len: "len \<le> maxmsgsize s q" "len \<le> length msg"
    and s': "s' = s\<lparr>mpriority := (mpriority s)(m := p), msglen := (msglen s)(m := len), mail := (mail s)(m := take len msg @ drop len (mail s m)),
      msglist := (msglist s)(q := walk_insert (\<lambda>x. p \<le> ((mpriority s)(m := p)) x) m (msglist s q)), nmsgs := (nmsgs s)(q := nmsgs s q + 1)\<rparr>"
  shows "mq_inv s'" "mq_static s s'" "mq_tasks s s'" "mq_view s' = (mq_view s)(q := mq_put p (take len msg) (mq_view s q))"
proof -
  note f = msgs_facts [OF inv]
  let ?pri = "(mpriority s)(m := p)"
  have nm: "m \<notin> set (msglist s x)" for x using m unfolding unplaced_def by (metis msgs_at.simps(1))
  have lm: "len \<le> length (mail s m)" using len(1) f(3) [of q] f(6) [of m] by linarith
  have ins: "walk_insert (\<lambda>x. p \<le> ?pri x) m (msglist s q) = walk_insert (\<lambda>x. ?pri m \<le> ?pri x) m (msglist s q)" by simp
  have srt: "sorted_wrt (\<lambda>x y. ?pri y \<le> ?pri x) (msglist s x)" for x
    by (rule sorted_wrt_mono_rel [OF _ f(4)]) (use nm [of x] in auto)
  have msgs: "mq_msgs_ok s'"
    unfolding mq_msgs_ok_def
  proof (intro conjI allI)
    fix x
    show "nmsgs s' x = int (length (msglist s' x))" using f(1) by (simp add: s')
    show "length (msglist s' x) < 2 ^ 15" using f(2) [of x] room by (simp add: s')
    show "maxmsgsize s' x \<le> MQ_MAX_BYTES" using f(3) by (simp add: s')
    show "sorted_wrt (\<lambda>y z. mpriority s' z \<le> mpriority s' y) (msglist s' x)"
      using srt [of x] prio.sorted_insert [OF srt [of q], of m] unfolding s' by (simp add: ins del: fun_upd_apply) (simp add: fun_upd_def)
    show "\<forall>y \<in> set (msglist s' x). msglen s' y \<le> maxmsgsize s' x" using f(5) len(1) nm by (auto simp: s')
  next
    fix x
    show "length (mail s' x) = MQ_MAX_BYTES" using f(6) lm len(2) by (simp add: s')
  qed
  have at: "msgs_at p' s' = msgs_at p' s" if "p' \<noteq> Queued q" for p' using that by (cases p') (simp_all add: s')
  have pl: "mq_places_ok s'"
    by (rule mq_places_add [OF mq_inv_parts(3) [OF inv] m at])
      (use nm [of q] places_facts(1) [OF mq_inv_parts(3) [OF inv], of "Queued q"] in \<open>auto simp: s'\<close>)
  have "mq_waits_ok s' = mq_waits_ok s" by (rule waits_cong) (simp_all add: s')
  then show "mq_inv s'" using inv msgs pl by (simp add: mq_inv_def s')
  show "mq_static s s'" "mq_tasks s s'" by (simp_all add: s' mq_frame_defs runnable_set_def nwait_def)
  show "mq_view s' = (mq_view s)(q := mq_put p (take len msg) (mq_view s q))"
  proof
    fix x
    let ?v = "\<lambda>m. (mpriority s' m, take (msglen s' m) (mail s' m))"
    have same: "?v y = (mpriority s y, take (msglen s y) (mail s y))" if "y \<noteq> m" for y using that by (simp add: s')
    have other: "map ?v (msglist s x) = mq_view s x" for x using same nm [of x] unfolding mq_view_def by (intro map_cong) metis+
    have "?v m = (p, take len msg)" using lm len(2) by (simp add: s' min_def)
    moreover have "map ?v (walk_insert (\<lambda>x. p \<le> ?pri x) m (msglist s q)) = walk_insert (\<lambda>x. p \<le> fst x) (?v m) (map ?v (msglist s q))"
      by (rule map_walk_insert) (simp add: s')
    ultimately have "map ?v (walk_insert (\<lambda>x. p \<le> ?pri x) m (msglist s q)) = mq_put p (take len msg) (mq_view s q)"
      unfolding mq_put_def other by simp
    moreover have "msglist s' x = (if x = q then walk_insert (\<lambda>x. p \<le> ?pri x) m (msglist s q) else msglist s x)" by (simp add: s')
    moreover have "mq_view s' x = map ?v (msglist s' x)" by (simp add: mq_view_def)
    ultimately show "mq_view s' x = ((mq_view s)(q := mq_put p (take len msg) (mq_view s q))) x"
      using other [of x] by (simp split: if_splits)
  qed
qed

lemma mq_take:
  assumes inv: "mq_inv s" and q: "msglist s q = m # ms"
    and s': "s' = s\<lparr>msglist := (msglist s)(q := ms), nmsgs := (nmsgs s)(q := nmsgs s q - 1)\<rparr>"
  shows "mq_inv s'" "mq_static s s'" "mq_tasks s s'" "unplaced m s'" "mq_view s q = (mpriority s m, take (msglen s m) (mail s m)) # mq_view s' q"
    "mq_view s' = (mq_view s)(q := tl (mq_view s q))" "msglen s m \<le> maxmsgsize s q" "m \<noteq> NULL"
proof -
  note f = msgs_facts [OF inv]
  have msgs: "mq_msgs_ok s'"
    unfolding mq_msgs_ok_def
  proof (intro conjI allI)
    fix x
    show "nmsgs s' x = int (length (msglist s' x))" using f(1) [of x] f(1) [of q] q by (simp add: s')
    show "length (msglist s' x) < 2 ^ 15" using f(2) [of x] q by (auto simp: s')
    show "maxmsgsize s' x \<le> MQ_MAX_BYTES" using f(3) by (simp add: s')
    show "sorted_wrt (\<lambda>y z. mpriority s' z \<le> mpriority s' y) (msglist s' x)" using f(4) [of x] q by (auto simp: s')
    show "\<forall>y \<in> set (msglist s' x). msglen s' y \<le> maxmsgsize s' x" using f(5) [of _ x] q by (auto simp: s')
  next
    fix x
    show "length (mail s' x) = MQ_MAX_BYTES" using f(6) by (simp add: s')
  qed
  have at: "msgs_at p' s' = (if p' = Queued q then ms else msgs_at p' s)" for p' by (cases p') (simp_all add: s')
  have pl: "mq_places_ok s'" "unplaced m s'"
    using mq_places_remove [OF mq_inv_parts(3) [OF inv] _ at] q by (simp_all add: s')
  have "mq_waits_ok s' = mq_waits_ok s" by (rule waits_cong) (simp_all add: s')
  then show "mq_inv s'" using inv msgs pl by (simp add: mq_inv_def s')
  show "mq_static s s'" "mq_tasks s s'" by (simp_all add: s' mq_frame_defs runnable_set_def nwait_def)
  show "unplaced m s'" by (rule pl(2))
  show "mq_view s q = (mpriority s m, take (msglen s m) (mail s m)) # mq_view s' q" "mq_view s' = (mq_view s)(q := tl (mq_view s q))"
    using q by (auto simp: mq_view_def s')
  show "msglen s m \<le> maxmsgsize s q" using f(5) [of m q] q by simp
  show "m \<noteq> NULL" using pl(2) by (simp add: unplaced_def)
qed

section \<open>Waking a waiting task\<close>

definition woke :: "tasklist \<Rightarrow> addr \<Rightarrow> 'a mq_state_scheme \<Rightarrow> 'a mq_state_scheme \<Rightarrow> bool" where
  "woke l q s s' \<longleftrightarrow>
     (case filter (\<lambda>t. msgwaitq s t = q) (tlist s l) of
        [] \<Rightarrow> mq_tasks s s'
      | b # _ \<Rightarrow> tlist s' l = remove1 b (tlist s l) \<and> (\<forall>l'. mq_wait_list l' \<longrightarrow> l' \<noteq> l \<longrightarrow> tlist s' l' = tlist s l') \<and>
          msgwaitq s' = (msgwaitq s)(b := NULL) \<and> runnable_set s' = insert b (runnable_set s) \<and> pterrno s' = pterrno s)"

lemma woke_tasks:
  assumes "mq_wait_list l" "mq_tasks s s1" "woke l q s1 s2" "mq_tasks s2 s3"
  shows "woke l q s s3"
proof -
  have "filter (\<lambda>t. msgwaitq s1 t = q) (tlist s1 l) = filter (\<lambda>t. msgwaitq s t = q) (tlist s l)"
    using assms(1,2) unfolding mq_tasks_def by metis
  then show ?thesis using assms unfolding woke_def mq_tasks_def by (auto split: list.splits)
qed

definition mq_wakeup :: "tasklist \<Rightarrow> addr \<Rightarrow> 'a mq_state_scheme \<Rightarrow> 'a mq_state_scheme option" where
  "mq_wakeup l q s =
     (if nwait l s q > 0 then do {
        let btcb = first_mqwaiter l q s;
        debugassert (btcb \<noteq> NULL);
        let s = set_msgwaitq btcb NULL s;
        let s = set_nwait l q (nwait l s q - 1) s;
        map_option snd (up_unblock_task btcb s)
      } else Some s)"

lemma mq_wakeup_code:
  "(if nwaitnotempty s q > 0 then do {
      let btcb = first_mqwaiter Waitingformqnotempty q s;
      debugassert (btcb \<noteq> NULL);
      let s = set_msgwaitq btcb NULL s;
      let s = set_nwaitnotempty q (nwaitnotempty s q - 1) s;
      map_option snd (up_unblock_task btcb s)
    } else Some s) = mq_wakeup Waitingformqnotempty q s"
  "(if nwaitnotfull s q > 0 then do {
      let btcb = first_mqwaiter Waitingformqnotfull q s;
      debugassert (btcb \<noteq> NULL);
      let s = set_msgwaitq btcb NULL s;
      let s = set_nwaitnotfull q (nwaitnotfull s q - 1) s;
      map_option snd (up_unblock_task btcb s)
    } else Some s) = mq_wakeup Waitingformqnotfull q s"
  by (auto simp: mq_wakeup_def nwait_def set_nwait_def Let_def)

lemma mq_wake:
  assumes inv: "mq_inv s" and l: "mq_wait_list l" and q: "q \<noteq> NULL"
  obtains s' where "mq_wakeup l q s = Some s'"
    "mq_inv s'" "mq_static s s'" "mq_content s s'" "woke l q s s'" "lockcount s' = lockcount s"
    "0 < lockcount s (hd (g_readytorun s)) \<Longrightarrow> hd (g_readytorun s') = hd (g_readytorun s)"
proof -
  have w: "waits_at (tlist s l) (msgwaitq s) (nwait l s)" using mq_inv_parts(2) [OF inv] l unfolding waits_at_list by blast
  let ?f = "filter (\<lambda>t. msgwaitq s t = q) (tlist s l)"
  show thesis
  proof (cases "nwait l s q > 0")
    case True
    let ?b = "head_of ?f"
    note b = waits_first [OF w True q]
    obtain s' where s': "up_unblock_task ?b (set_nwait l q (nwait l s q - 1) (set_msgwaitq ?b NULL s)) = Some (hd (g_readytorun s') \<noteq> hd (g_readytorun s), s')"
      "mq_inv s'" "relisted (set_nwait l q (nwait l s q - 1) (set_msgwaitq ?b NULL s)) s'" "tlist s' l = remove1 ?b (tlist s l)"
      "\<And>l'. mq_wait_list l' \<Longrightarrow> l' \<noteq> l \<Longrightarrow> tlist s' l' = tlist s l'" "runnable_set s' = insert ?b (runnable_set s)" "made_ready ?b s s'" "?b \<noteq> NULL"
      by (rule mq_unblock [OF inv l b(1) b(2) [symmetric]]) blast
    have rne: "g_readytorun s \<noteq> []" using readytorun_nonempty [OF wf_inv [OF mq_inv_parts(1) [OF inv]]] .
    have fr: "mq_static s s'" "mq_content s s'"
      using mq_frame_relisted [OF s'(3)] by (simp_all add: mq_static_def mq_content_def)
    have wk: "woke l q s s'"
      using b(3) s'(4-6) relisted_mq(16,17) [OF s'(3)] by (cases ?f) (auto simp: woke_def)
    have hd: "hd (g_readytorun s') = hd (g_readytorun s)" if "0 < lockcount s (hd (g_readytorun s))"
      using s'(7) that rne by (auto simp: made_ready_def hd_walk_insert split: if_splits)
    show thesis
      by (rule that [of s']) (use s' fr wk hd True in \<open>simp_all add: mq_wakeup_def first_mqwaiter_def debugassert_def relisted_fields(6) [OF s'(3)]\<close>)
  next
    case False
    have "?f = []" using w q False by (auto simp: waits_at_def)
    then have "woke l q s s" by (simp add: woke_def)
    then show thesis using that [of s] inv False by (simp add: mq_wakeup_def)
  qed
qed

section \<open>Management\<close>

text \<open>After \<open>mq_initialize\<close> the message structures of the two blocks are free, each in the list of its kind.\<close>

lemma msgblock_facts: "distinct (mq_msgblock mem n)" "NULL \<notin> set (mq_msgblock mem n)"
  by (auto simp: mq_msgblock_def distinct_map inj_on_def)

lemma mq_initialize_places:
  assumes "set (mq_msgblock mem1 CONFIG_PREALLOC_MQ_MSGS) \<inter> set (mq_msgblock mem2 NUM_INTERRUPT_MSGS) = {}" "msglist s = (\<lambda>_. [])"
  shows "mq_places_ok (mq_initialize mem1 mem2 mem3 s)"
proof -
  let ?s = "mq_initialize mem1 mem2 mem3 s"
  have f: "g_msgfree ?s = mq_msgblock mem1 CONFIG_PREALLOC_MQ_MSGS" "g_msgfreeirq ?s = mq_msgblock mem2 NUM_INTERRUPT_MSGS" "msglist ?s = (\<lambda>_. [])"
    "mtype ?s = override_on (override_on (mtype s) (\<lambda>_. MQ_ALLOC_FIXED) (set (g_msgfree ?s))) (\<lambda>_. MQ_ALLOC_IRQ) (set (g_msgfreeirq ?s))"
    using assms(2) by (simp_all add: mq_initialize_def mq_desblockalloc_def Let_def)
  have m: "msgs_at p ?s = (case p of Queued q \<Rightarrow> [] | Free \<Rightarrow> g_msgfree ?s | Freeirq \<Rightarrow> g_msgfreeirq ?s)" for p
    using f(3) by (cases p) simp_all
  show ?thesis
    unfolding mq_places_ok_def m f(4) f(1,2) using assms(1) by (auto simp: msgblock_facts override_on_def split: place.splits)
qed

text \<open>\<open>mq_setattr\<close> returns the old attributes and changes nothing but \<open>O_NONBLOCK\<close>.\<close>

lemma mq_setattr_getattr:
  assumes "mqdes \<noteq> NULL" "mq_setattr mqdes (Some a) s = (old, s')"
  shows "old = mq_getattr mqdes s"
    and "mq_getattr mqdes s' = map_option (mq_flags_update (\<lambda>f. (mq_flags a AND O_NONBLOCK) OR (f AND NOT O_NONBLOCK))) (mq_getattr mqdes s)"
  using assms by (auto simp: mq_setattr_def mq_getattr_def Let_def)

text \<open>A task that is about to be removed is not counted any longer.\<close>

lemma mq_recover_spec:
  assumes inv: "mq_inv s" and l: "mq_wait_list l" and t: "t \<in> set (tlist s l)"
  shows "\<exists>s'. mq_recover t s = Some s' \<and> waits_at (remove1 t (tlist s l)) ((msgwaitq s)(t := NULL)) (nwait l s')"
proof -
  have i: "sched_inv s" by (rule wf_inv [OF mq_inv_parts(1) [OF inv]])
  have w: "waits_at (tlist s l) (msgwaitq s) (nwait l s)" using mq_inv_parts(2) [OF inv] l unfolding waits_at_list by blast
  have q: "msgwaitq s t \<noteq> NULL" using w t by (simp add: waits_at_def)
  have "filter (\<lambda>u. msgwaitq s u = msgwaitq s t) (tlist s l) \<noteq> []" using t by (auto simp: filter_empty_conv)
  then have n: "nwait l s (msgwaitq s t) > 0" using w q by (simp add: waits_at_def)
  have d: "distinct (tlist s l)" using inv_distinct i by blast
  have "task_state s t = list_state l" using states_at [OF i t] l by (elim disjE) simp_all
  then have "mq_recover t s = Some (set_nwait l (msgwaitq s t) (nwait l s (msgwaitq s t) - 1) s)"
    using l q n by (elim disjE) (simp_all add: mq_recover_def debugassert_def nwait_def set_nwait_def)
  moreover have "nwait l (set_nwait l (msgwaitq s t) (nwait l s (msgwaitq s t) - 1) s) = (nwait l s)(msgwaitq s t := nwait l s (msgwaitq s t) - 1)"
    using nwait_set [OF l l] by simp
  ultimately show ?thesis using waits_remove [OF w t d refl] by simp
qed

text \<open>\<open>mq_notify\<close> with the NULL descriptor takes the exit that unlocks the scheduler, which it has not locked: the lock of the
  caller is lost.\<close>

lemma mq_notify_null_unlocks:
  assumes "mq_inv s" "1 < lockcount s (hd (g_readytorun s))"
  shows "\<exists>s'. mq_notify NULL n s = Some (False, s') \<and> lockcount s' (hd (g_readytorun s)) = lockcount s (hd (g_readytorun s)) - 1"
proof -
  let ?r = "hd (g_readytorun s)" and ?s = "put_errno False EBADF s"
  have e: "?s = s\<lparr>pterrno := (pterrno s)(?r := EBADF)\<rparr>" by (rule put_errno_running [OF wf_inv [OF mq_inv_parts(1) [OF assms(1)]]])
  have wf: "sched_wf ?s" using assms(1) mq_inv_parts(1) unfolding e by (simp add: mq_inv_errno)
  obtain s' where s': "sched_unlock False ?s = Some s'" "relisted (?s\<lparr>lockcount := (lockcount ?s)(hd (g_readytorun ?s) := lockcount ?s (hd (g_readytorun ?s)) - 1)\<rparr>) s'"
    by (rule sched_unlock_spec [OF wf]) blast
  have "lockcount ?s = lockcount s" "g_readytorun ?s = g_readytorun s" by (simp_all add: e)
  then show ?thesis using s'(1) relisted_fields(6) [OF s'(2)] by (simp add: mq_notify_def)
qed

text \<open>\<open>mq_msgqalloc\<close> keeps 16 bits of the number of messages: a queue for 40000 of them is full when it is empty.\<close>

lemma mq_msgqalloc_truncates:
  assumes "mem \<noteq> NULL"
  shows "\<exists>s'. mq_msgqalloc mem (Some \<lparr>mq_maxmsg = 40000, mq_msgsize = 8, mq_flags = 0, mq_curmsgs = 0\<rparr>) s = Some (mem, s') \<and>
    maxmsgs s' mem = -25536 \<and> nmsgs s' mem \<ge> maxmsgs s' mem \<and> msglist s' mem = []"
  using assms by (simp add: mq_msgqalloc_def debugassert_def MQ_MAX_BYTES_def s16_def)

end
