(* ===== verification/MQ_Ops.thy ===== *)
theory MQ_Ops
  imports MQ_Inv
begin

unbundle bit_operations_syntax

text \<open>
  What each call on a message queue does, by cases on its outcome: a message sent or received, an error, a wait.
\<close>

section \<open>Sending\<close>

text \<open>What a completed call has done: the message is in its place behind those of its priority, and the first task that
  waited for the queue is awake.\<close>

definition mq_sent :: "addr \<Rightarrow> nat \<Rightarrow> u8 list \<Rightarrow> 'a mq_state_scheme \<Rightarrow> 'a mq_state_scheme \<Rightarrow> bool" where
  "mq_sent q p bytes s s' \<longleftrightarrow> mq_static s s' \<and> mq_view s' = (mq_view s)(q := mq_put p bytes (mq_view s q)) \<and> woke Waitingformqnotempty q s s'"

definition mq_received :: "addr \<Rightarrow> nat \<times> u8 list \<Rightarrow> 'a mq_state_scheme \<Rightarrow> 'a mq_state_scheme \<Rightarrow> bool" where
  "mq_received q m s s' \<longleftrightarrow> mq_static s s' \<and> mq_view s q = m # mq_view s' q \<and> mq_view s' = (mq_view s)(q := tl (mq_view s q)) \<and> woke Waitingformqnotfull q s s'"

text \<open>The running task waits for the queue.\<close>

definition mq_blocked :: "tasklist \<Rightarrow> addr \<Rightarrow> 'a mq_state_scheme \<Rightarrow> 'a mq_state_scheme \<Rightarrow> bool" where
  "mq_blocked l q s s' \<longleftrightarrow> mq_static s s' \<and> mq_view s' = mq_view s \<and>
     (let t = hd (g_readytorun s)
      in tlist s' l = prio_insert s t (tlist s l) \<and> (\<forall>l'. mq_wait_list l' \<longrightarrow> l' \<noteq> l \<longrightarrow> tlist s' l' = tlist s l') \<and>
         msgwaitq s' = (msgwaitq s)(t := q) \<and> runnable_set s' = runnable_set s - {t} \<and> pterrno s' = (pterrno s)(t := 0))"

text \<open>A call that gives up, with an error number for its task.\<close>

definition mq_failed :: "int \<Rightarrow> 'a mq_state_scheme \<Rightarrow> 'a mq_state_scheme \<Rightarrow> bool" where
  "mq_failed e s s' \<longleftrightarrow> mq_static s s' \<and> mq_view s' = mq_view s \<and>
     mq_tasks (s\<lparr>pterrno := (pterrno s)(hd (g_readytorun s) := e)\<rparr>) s'"

lemmas mq_outcome_defs = mq_sent_def mq_received_def mq_blocked_def mq_failed_def

lemma mq_dosend_spec:
  assumes inv: "mq_inv s" and m: "unplaced m s" and q: "des_msgq s mqdes \<noteq> NULL" and nt: "ntmqdes s (des_msgq s mqdes) = NULL"
    and room: "length (msglist s (des_msgq s mqdes)) + 1 < 2 ^ 15" and prio: "0 \<le> prio" "prio \<le> MQ_PRIO_MAX"
    and len: "len \<le> maxmsgsize s (des_msgq s mqdes)" "len \<le> length msg"
    and lc: "\<not> in_irq \<Longrightarrow> lockcount s (hd (g_readytorun s)) < MAX_LOCK_COUNT"
  obtains s' where "mq_dosend notify in_irq mqdes m msg len prio s = Some s'" "mq_inv s'" "mq_sent (des_msgq s mqdes) (nat prio) (take len msg) s s'"
proof -
  let ?q = "des_msgq s mqdes"
  obtain s1 where s1: "sched_lock in_irq s = Some s1" "mq_inv s1" "mq_static s s1" "mq_content s s1" "mq_tasks s s1" "\<forall>x. unplaced x s1 = unplaced x s" "nmsgs s1 = nmsgs s"
    by (rule mq_lock [OF inv lc]) blast
  have st1: "des_msgq s1 = des_msgq s" "maxmsgsize s1 = maxmsgsize s" "ntmqdes s1 = ntmqdes s" "msglist s1 = msglist s"
    using s1(3,4) by (simp_all add: mq_static_def mq_content_def)
  define s2 where "s2 = s1\<lparr>mpriority := (mpriority s1)(m := nat prio), msglen := (msglen s1)(m := len),
      mail := (mail s1)(m := take len msg @ drop len (mail s1 m)),
      msglist := (msglist s1)(?q := walk_insert (\<lambda>x. nat prio \<le> ((mpriority s1)(m := nat prio)) x) m (msglist s1 ?q)),
      nmsgs := (nmsgs s1)(?q := nmsgs s1 ?q + 1)\<rparr>"
  have "unplaced m s1" "length (msglist s1 ?q) + 1 < 2 ^ 15" "len \<le> maxmsgsize s1 ?q" using s1(6) m room len(1) st1 by simp_all
  note s2 = mq_insert [OF s1(2) this len(2) s2_def]
  have p: "nat (prio mod 256) = nat prio" using prio by (simp add: MQ_PRIO_MAX_def)
  have pw: "(\<lambda>x. prio \<le> int (f x)) = (\<lambda>x. nat prio \<le> f x)" for f :: "addr \<Rightarrow> nat" using prio by auto
  have len': "len mod 2 ^ 16 = len" "len \<le> length (mail s1 m)"
    using len(1) msgs_facts(3) [OF inv, of ?q] msgs_facts(6) [OF s1(2), of m] by (simp_all add: MQ_MAX_BYTES_def)
  have n: "s16 (nmsgs s1 ?q + 1) = nmsgs s1 ?q + 1" using msgs_facts(1) [OF s1(2), of ?q] room st1 by (intro s16_id) simp_all
  obtain s3 where s3: "mq_wakeup Waitingformqnotempty ?q s2 = Some s3" "mq_inv s3" "mq_static s2 s3" "mq_content s2 s3" "woke Waitingformqnotempty ?q s2 s3"
    by (rule mq_wake [OF s2(1) _ q, of Waitingformqnotempty]) auto
  obtain s4 where s4: "sched_unlock in_irq s3 = Some s4" "mq_inv s4" "mq_static s3 s4" "mq_content s3 s4" "mq_tasks s3 s4"
    by (rule mq_unlock [OF s3(2)]) blast
  have "ntmqdes s2 ?q = NULL" using nt st1 by (simp add: s2_def)
  moreover have "mq_dosend notify in_irq mqdes m msg len prio s = do {
      s \<leftarrow> (if ntmqdes s2 ?q \<noteq> NULL then do {
         let value = ntvalue s2 ?q;
         let signo = ntsigno s2 ?q;
         let pid = ntpid s2 ?q;
         let s = s2\<lparr>ntpid := (ntpid s2)(?q := -1), ntsigno := (ntsigno s2)(?q := 0), ntvalue := (ntvalue s2)(?q := NULL),
                   ntmqdes := (ntmqdes s2)(?q := NULL)\<rparr>;
         notify pid signo value s
       } else Some s2);
      s \<leftarrow> mq_wakeup Waitingformqnotempty ?q s;
      sched_unlock in_irq s }"
    unfolding mq_dosend_def mq_wakeup_code s1(1) using len' len(2) n st1(1) by (simp add: p pw debugassert_def s2_def Let_def)
  ultimately have "mq_dosend notify in_irq mqdes m msg len prio s = Some s4" using s3(1) s4(1) by simp
  moreover have "mq_sent ?q (nat prio) (take len msg) s s4"
  proof -
    have "mq_static s s4" using s1(3) s2(2) s3(3) s4(3) by (blast intro: mq_frame_trans)
    moreover have "woke Waitingformqnotempty ?q s s4"
      using woke_tasks [OF _ mq_frame_trans(3) [OF s1(5) s2(3)] s3(5) s4(5)] by simp
    moreover have "mq_view s4 = (mq_view s)(?q := mq_put (nat prio) (take len msg) (mq_view s ?q))"
      using mq_view_content [OF s1(4)] s2(4) mq_view_content [OF s3(4)] mq_view_content [OF s4(4)] by simp
    ultimately show ?thesis by (simp add: mq_sent_def)
  qed
  ultimately show thesis using that s4(2) by blast
qed

text \<open>What a caller of \<open>mq_send\<close> has to provide. Memory that \<open>kmm_malloc\<close> returns is not in use.\<close>

definition mq_send_ok :: "bool \<Rightarrow> addr \<Rightarrow> addr \<Rightarrow> u8 list \<Rightarrow> nat \<Rightarrow> 'a mq_state_scheme \<Rightarrow> bool" where
  "mq_send_ok in_irq mem mqdes msg len s \<longleftrightarrow> des_msgq s mqdes \<noteq> NULL \<and> ntmqdes s (des_msgq s mqdes) = NULL \<and> len \<le> length msg \<and>
     length (msglist s (des_msgq s mqdes)) + 1 < 2 ^ 15 \<and> (\<not> in_irq \<longrightarrow> unplaced mem s)"

lemma mq_send_rest_spec:
  assumes inv: "mq_inv s" and ok: "mq_send_ok in_irq mem mqdes msg len s" and prio: "0 \<le> prio" "prio \<le> MQ_PRIO_MAX"
    and len: "len \<le> maxmsgsize s (des_msgq s mqdes)" and lc: "\<not> in_irq \<Longrightarrow> lockcount s (hd (g_readytorun s)) < MAX_LOCK_COUNT"
  obtains ret s' where "mq_send_rest notify in_irq mem mqdes msg len prio (Done True) s = Some (Done ret, s')" "mq_inv s'"
    "if ret then mq_sent (des_msgq s mqdes) (nat prio) (take len msg) s s' else in_irq \<and> mq_static s s' \<and> mq_view s' = mq_view s \<and> mq_tasks s s'"
proof -
  let ?q = "des_msgq s mqdes"
  note o = ok [unfolded mq_send_ok_def]
  obtain m s1 where s1: "mq_msgalloc in_irq mem s = Some (m, s1)" "mq_inv s1" "mq_static s s1" "mq_content s s1" "mq_tasks s s1"
    "tlist s1 = tlist s" "lockcount s1 = lockcount s" "if m = NULL then in_irq else unplaced m s1"
    by (rule mq_msgalloc_spec [OF inv, of in_irq mem]) (use o in blast)+
  have st: "des_msgq s1 = des_msgq s" "ntmqdes s1 = ntmqdes s" "maxmsgsize s1 = maxmsgsize s" "msglist s1 = msglist s"
    using s1(3,4) by (simp_all add: mq_static_def mq_content_def)
  show thesis
  proof (cases "m = NULL")
    case True
    obtain s2 where s2: "sched_unlock in_irq s1 = Some s2" "mq_inv s2" "mq_static s1 s2" "mq_content s1 s2" "mq_tasks s1 s2"
      by (rule mq_unlock [OF s1(2)]) blast
    have "mq_send_rest notify in_irq mem mqdes msg len prio (Done True) s = Some (Done False, s2)"
      using s1(1) s2(1) True by (simp add: mq_send_rest_def)
    moreover have "mq_static s s2" "mq_tasks s s2" using s1(3,5) s2(3,5) by (blast intro: mq_frame_trans)+
    moreover have "mq_view s2 = mq_view s" using mq_view_content s1(4) s2(4) by metis
    ultimately show thesis using that [of False s2] s2(2) s1(8) True by simp
  next
    case False
    then have um: "unplaced m s1" using s1(8) by simp
    obtain s2 where s2: "mq_dosend notify in_irq mqdes m msg len prio s1 = Some s2" "mq_inv s2" "mq_sent (des_msgq s1 mqdes) (nat prio) (take len msg) s1 s2"
      by (rule mq_dosend_spec [OF s1(2) um _ _ _ prio, of mqdes len msg in_irq]) (use o st len lc s1(6,7) in auto)
    obtain s3 where s3: "sched_unlock in_irq s2 = Some s3" "mq_inv s3" "mq_static s2 s3" "mq_content s2 s3" "mq_tasks s2 s3"
      by (rule mq_unlock [OF s2(2)]) blast
    have call: "mq_send_rest notify in_irq mem mqdes msg len prio (Done True) s = Some (Done True, s3)"
      using s1(1) s2(1) s3(1) False by (simp add: mq_send_rest_def)
    have "mq_static s s3" using s1(3) s2(3) s3(3) unfolding mq_sent_def by (blast intro: mq_frame_trans)
    moreover have "woke Waitingformqnotempty ?q s s3" using woke_tasks [OF _ s1(5) _ s3(5)] s2(3) st by (simp add: mq_sent_def)
    moreover have "mq_view s3 = (mq_view s)(?q := mq_put (nat prio) (take len msg) (mq_view s ?q))"
      using s2(3) mq_view_content [OF s1(4)] mq_view_content [OF s3(4)] st by (simp add: mq_sent_def)
    ultimately show thesis using that [OF call s3(2)] by (simp add: mq_sent_def)
  qed
qed

lemma mq_blocked_lock:
  assumes "mq_static s s1" "mq_content s s1" "mq_tasks s s1" "tlist s1 = tlist s" "sched_priority s1 = sched_priority s" "mq_wait_list l" "mq_blocked l q s1 s2"
  shows "mq_blocked l q s s2"
  using assms mq_view_content [OF assms(2)] by (auto simp: mq_blocked_def mq_static_def mq_tasks_def Let_def)

lemma mq_block_spec:
  assumes inv: "mq_inv s" and l: "mq_wait_list l" and q: "q \<noteq> NULL" and t: "hd (g_readytorun s) \<noteq> idle_tcb s"
  obtains sw s' where "up_block_task (head_of (g_readytorun s)) (list_state l)
      (put_errno False 0 (set_nwait l q (nwait l s q + 1) (set_msgwaitq (head_of (g_readytorun s)) q s))) = Some (sw, s')"
    "mq_inv s'" "mq_blocked l q s s'"
proof -
  let ?t = "hd (g_readytorun s)"
  note run = running_facts [OF wf_inv [OF mq_inv_parts(1) [OF inv]]]
  define s1 where "s1 = s\<lparr>pterrno := (pterrno s)(?t := 0)\<rparr>"
  have inv1: "mq_inv s1" using inv by (simp add: s1_def)
  have f1: "tlist s1 = tlist s" "nwait l s1 = nwait l s" "idle_tcb s1 = idle_tcb s" "sched_priority s1 = sched_priority s" by (simp_all add: s1_def nwait_def)
  have eq: "put_errno False 0 (set_nwait l q (nwait l s q + 1) (set_msgwaitq (head_of (g_readytorun s)) q s))
    = set_nwait l q (nwait l s1 q + 1) (set_msgwaitq ?t q s1)"
    using run by (simp add: put_errno_def Let_def s1_def set_nwait_def nwait_def)
  obtain s' where s': "up_block_task ?t (list_state l) (set_nwait l q (nwait l s1 q + 1) (set_msgwaitq ?t q s1)) = Some (hd (g_readytorun s') \<noteq> hd (g_readytorun s1), s')"
    "mq_inv s'" "relisted (set_nwait l q (nwait l s1 q + 1) (set_msgwaitq ?t q s1)) s'" "tlist s' l = prio_insert s1 ?t (tlist s1 l)"
    "\<And>l'. mq_wait_list l' \<Longrightarrow> l' \<noteq> l \<Longrightarrow> tlist s' l' = tlist s1 l'" "runnable_set s' = runnable_set s1 - {?t}"
    by (rule mq_block [OF inv1 l q, of ?t]) (use run t f1 in \<open>auto\<close>)
  note f = relisted_mq [OF s'(3)] relisted_fields(11) [OF s'(3)]
  have "mq_static s s'" by (simp add: mq_static_def f s1_def)
  moreover have "mq_view s' = mq_view s" by (rule mq_view_content) (simp add: mq_content_def f s1_def)
  ultimately have "mq_blocked l q s s'"
    using s'(4-6) f1 by (auto simp: mq_blocked_def Let_def f s1_def runnable_set_def)
  then show thesis using that [of _ s'] s'(1,2) eq run(1) by simp
qed

text \<open>The wait of a sender: there is room, the call gives up, or the task blocks.\<close>

lemma mq_waitsend_loop_spec:
  assumes inv: "mq_inv s" and q: "des_msgq s mqdes \<noteq> NULL" and t: "hd (g_readytorun s) \<noteq> idle_tcb s"
  obtains (room) "mq_waitsend_loop mqdes s = Some (Done True, s)" "nmsgs s (des_msgq s mqdes) < maxmsgs s (des_msgq s mqdes)"
  | (blocks) s' where "mq_waitsend_loop mqdes s = Some (Switched, s')" "mq_inv s'" "mq_blocked Waitingformqnotfull (des_msgq s mqdes) s s'"
      "maxmsgs s (des_msgq s mqdes) \<le> nmsgs s (des_msgq s mqdes)"
proof (cases "nmsgs s (des_msgq s mqdes) < maxmsgs s (des_msgq s mqdes)")
  case True
  then show thesis using room by (simp add: mq_waitsend_loop_def)
next
  case False
  obtain sw s' where "up_block_task (head_of (g_readytorun s)) (list_state Waitingformqnotfull)
      (put_errno False 0 (set_nwait Waitingformqnotfull (des_msgq s mqdes) (nwait Waitingformqnotfull s (des_msgq s mqdes) + 1)
        (set_msgwaitq (head_of (g_readytorun s)) (des_msgq s mqdes) s))) = Some (sw, s')" "mq_inv s'" "mq_blocked Waitingformqnotfull (des_msgq s mqdes) s s'"
    by (rule mq_block_spec [OF inv _ q t, of Waitingformqnotfull]) auto
  then show thesis using blocks [of s'] False by (simp add: mq_waitsend_loop_def Let_def nwait_def set_nwait_def)
qed

lemma mq_view_errno [simp]: "mq_view (s\<lparr>pterrno := e\<rparr>) = mq_view s"
  by (rule mq_view_content) (simp add: mq_content_def)

lemma mq_send_ok_lock:
  assumes "mq_static s s1" "mq_content s s1" "\<forall>m. unplaced m s1 = unplaced m s"
  shows "mq_send_ok in_irq mem mqdes msg len s1 = mq_send_ok in_irq mem mqdes msg len s"
  using assms by (simp add: mq_send_ok_def mq_static_def mq_content_def)

lemma mq_sent_lock:
  assumes "mq_static s s1" "mq_content s s1" "mq_tasks s s1" "mq_sent q p bytes s1 s2"
  shows "mq_sent q p bytes s s2"
  using assms(4) woke_tasks [OF _ assms(3), of Waitingformqnotempty q s2 s2] mq_frame_trans(1) [OF assms(1)]
  unfolding mq_sent_def mq_view_content [OF assms(2)] by simp

lemma mq_received_lock:
  assumes "mq_static s s1" "mq_content s s1" "mq_tasks s s1" "mq_received q m s1 s2"
  shows "mq_received q m s s2"
proof -
  have "woke Waitingformqnotfull q s s2"
    by (rule woke_tasks [OF _ assms(3) _ mq_frame_refl(3)]) (use assms(4) in \<open>unfold mq_received_def, blast+\<close>)
  then show ?thesis using assms(4) mq_frame_trans(1) [OF assms(1), of s2]
    unfolding mq_received_def mq_view_content [OF assms(2)] by blast
qed

lemma mq_give_up:
  assumes inv: "mq_inv s" and r: "mq_static s0 s" "mq_content s0 s" "mq_tasks s0 s" "g_readytorun s = g_readytorun s0"
  obtains s' where "sched_unlock False (put_errno False e s) = Some s'" "mq_inv s'" "mq_failed e s0 s'"
proof -
  obtain s' where s': "sched_unlock False (put_errno False e s) = Some s'" "mq_inv s'" "mq_static (put_errno False e s) s'"
    "mq_content (put_errno False e s) s'" "mq_tasks (put_errno False e s) s'"
    by (rule mq_unlock [of "put_errno False e s"]) (use inv in auto)
  note e = put_errno_running [OF wf_inv [OF mq_inv_parts(1) [OF inv]], of e]
  have "mq_view s' = mq_view s" using mq_view_content [OF s'(4)] by (simp add: e mq_view_def)
  then have "mq_failed e s0 s'"
    using s'(3-5) r mq_view_content [OF r(2)] by (simp add: mq_failed_def mq_frame_defs e runnable_set_def nwait_def)
  then show thesis using that s'(1,2) by blast
qed

lemma mq_send_spec:
  assumes inv: "mq_inv s" and ok: "mq_send_ok False mem mqdes (the msg) len s" and v: "mq_verifysend mqdes msg len prio s = 0"
    and t: "hd (g_readytorun s) \<noteq> idle_tcb s" and lc: "lockcount s (hd (g_readytorun s)) + 1 < MAX_LOCK_COUNT"
  obtains (sent) s' where "mq_send notify False mem mqdes msg len prio s = Some (Done True, s')" "mq_inv s'"
      "mq_sent (des_msgq s mqdes) (nat prio) (take len (the msg)) s s'" "nmsgs s (des_msgq s mqdes) < maxmsgs s (des_msgq s mqdes)"
  | (full) s' where "mq_send notify False mem mqdes msg len prio s = Some (Done False, s')" "mq_inv s'" "mq_failed EAGAIN s s'"
      "maxmsgs s (des_msgq s mqdes) \<le> nmsgs s (des_msgq s mqdes)" "oflags s mqdes AND O_NONBLOCK \<noteq> 0"
  | (blocks) s' where "mq_send notify False mem mqdes msg len prio s = Some (Switched, s')" "mq_inv s'"
      "mq_blocked Waitingformqnotfull (des_msgq s mqdes) s s'" "maxmsgs s (des_msgq s mqdes) \<le> nmsgs s (des_msgq s mqdes)" "oflags s mqdes AND O_NONBLOCK = 0"
proof -
  let ?q = "des_msgq s mqdes"
  have lc1: "lockcount s (hd (g_readytorun s)) < MAX_LOCK_COUNT" using lc by simp
  obtain s1 where s1: "sched_lock False s = Some s1" "mq_inv s1" "mq_static s s1" "mq_content s s1" "mq_tasks s s1" "tlist s1 = tlist s"
    "lockcount s1 (hd (g_readytorun s)) = lockcount s (hd (g_readytorun s)) + (if False then 0 else 1)" "\<forall>m. unplaced m s1 = unplaced m s" "nmsgs s1 = nmsgs s"
    "sched_priority s1 = sched_priority s"
    by (rule mq_lock [OF inv, of False]) (use lc1 in blast)+
  have st: "des_msgq s1 = des_msgq s" "maxmsgs s1 = maxmsgs s" "oflags s1 = oflags s" "idle_tcb s1 = idle_tcb s" "maxmsgsize s1 = maxmsgsize s"
    using s1(3) by (simp_all add: mq_static_def)
  have vv: "0 \<le> prio" "prio \<le> MQ_PRIO_MAX" "len \<le> maxmsgsize s ?q" using v by (auto simp: mq_verifysend_def EINVAL_def EPERM_def EMSGSIZE_def split: if_splits)
  have ok1: "mq_send_ok False mem mqdes (the msg) len s1" using mq_send_ok_lock [OF s1(3,4,8)] ok by simp
  have q: "?q \<noteq> NULL" using ok by (simp add: mq_send_ok_def)
  show thesis
  proof (cases "nmsgs s ?q < maxmsgs s ?q")
    case True
    obtain ret s2 where s2: "mq_send_rest notify False mem mqdes (the msg) len prio (Done True) s1 = Some (Done ret, s2)" "mq_inv s2"
      "if ret then mq_sent (des_msgq s1 mqdes) (nat prio) (take len (the msg)) s1 s2 else False \<and> mq_static s1 s2 \<and> mq_view s2 = mq_view s1 \<and> mq_tasks s1 s2"
      by (rule mq_send_rest_spec [OF s1(2) ok1 vv(1,2)]) (use vv(3) st lc s1(6,7) in auto)
    then have ret: "ret" "mq_sent ?q (nat prio) (take len (the msg)) s1 s2" using st(1) by (simp_all split: if_splits)
    have "mq_send notify False mem mqdes msg len prio s = Some (Done True, s2)"
      using v s1(1,9) s2(1) ret(1) st True by (simp add: mq_send_def Let_def)
    then show thesis using sent s2(2) mq_sent_lock [OF s1(3-5) ret(2)] True by blast
  next
    case False
    then have fl: "maxmsgs s ?q \<le> nmsgs s ?q" by simp
    show thesis
    proof (cases "oflags s mqdes AND O_NONBLOCK \<noteq> 0")
      case True
      obtain s2 where s2: "sched_unlock False (put_errno False EAGAIN s1) = Some s2" "mq_inv s2" "mq_failed EAGAIN s s2"
        by (rule mq_give_up [OF s1(2-5), of EAGAIN]) (use s1(6) in auto)
      have "mq_send notify False mem mqdes msg len prio s = Some (Done False, s2)"
        using v s1(1,9) s2(1) st False True by (simp add: mq_send_def Let_def mq_waitsend_def mq_send_rest_def)
      then show thesis using full s2(2,3) fl True by blast
    next
      case nb: False
      have t1: "hd (g_readytorun s1) \<noteq> idle_tcb s1" using t s1(6) st by simp
      have q1: "des_msgq s1 mqdes \<noteq> NULL" using q st by simp
      show thesis
      proof (cases rule: mq_waitsend_loop_spec [OF s1(2) q1 t1])
        case 1
        then show thesis using False s1(9) st by simp
      next
        case (2 s2)
        note blocks = this
        have "mq_send notify False mem mqdes msg len prio s = Some (Switched, s2)"
          using v s1(1,9) blocks(1) st False nb by (simp add: mq_send_def Let_def mq_waitsend_def mq_send_rest_def)
        moreover have "mq_blocked Waitingformqnotfull ?q s s2" using mq_blocked_lock [OF s1(3-6,10)] blocks(3) st by simp
        ultimately show thesis using that(3) [of s2] blocks(2) fl nb by blast
      qed
    qed
  qed
qed

lemma mq_send_irq_spec:
  assumes inv: "mq_inv s" and ok: "mq_send_ok True mem mqdes (the msg) len s" and v: "mq_verifysend mqdes msg len prio s = 0"
  obtains ret s' where "mq_send notify True mem mqdes msg len prio s = Some (Done ret, s')" "mq_inv s'"
    "if ret then mq_sent (des_msgq s mqdes) (nat prio) (take len (the msg)) s s' else mq_static s s' \<and> mq_view s' = mq_view s \<and> mq_tasks s s'"
proof -
  have vv: "0 \<le> prio" "prio \<le> MQ_PRIO_MAX" "len \<le> maxmsgsize s (des_msgq s mqdes)"
    using v by (auto simp: mq_verifysend_def EINVAL_def EPERM_def EMSGSIZE_def split: if_splits)
  obtain ret s2 where s2: "mq_send_rest notify True mem mqdes (the msg) len prio (Done True) s = Some (Done ret, s2)" "mq_inv s2"
    "if ret then mq_sent (des_msgq s mqdes) (nat prio) (take len (the msg)) s s2 else True \<and> mq_static s s2 \<and> mq_view s2 = mq_view s \<and> mq_tasks s s2"
    by (rule mq_send_rest_spec [OF inv ok vv]) auto
  have "mq_send notify True mem mqdes msg len prio s = Some (Done ret, s2)"
    using v s2(1) by (simp add: mq_send_def Let_def sched_lock_def)
  then show thesis using that s2(2,3) by simp
qed

lemma mq_send_resume_spec:
  assumes inv: "mq_inv s" and ok: "mq_send_ok False mem mqdes msg len s" and prio: "0 \<le> prio" "prio \<le> MQ_PRIO_MAX"
    and len: "len \<le> maxmsgsize s (des_msgq s mqdes)" and t: "hd (g_readytorun s) \<noteq> idle_tcb s" and lc: "lockcount s (hd (g_readytorun s)) < MAX_LOCK_COUNT"
  obtains (sent) s' where "mq_send_resume notify mem mqdes msg len prio s = Some (Done True, s')" "mq_inv s'"
      "mq_sent (des_msgq s mqdes) (nat prio) (take len msg) s s'" "nmsgs s (des_msgq s mqdes) < maxmsgs s (des_msgq s mqdes)" "pterrno s (hd (g_readytorun s)) = 0"
  | (failed) s' where "mq_send_resume notify mem mqdes msg len prio s = Some (Done False, s')" "mq_inv s'"
      "mq_static s s'" "mq_view s' = mq_view s" "mq_tasks s s'" "pterrno s (hd (g_readytorun s)) \<noteq> 0"
  | (blocks) s' where "mq_send_resume notify mem mqdes msg len prio s = Some (Switched, s')" "mq_inv s'"
      "mq_blocked Waitingformqnotfull (des_msgq s mqdes) s s'" "maxmsgs s (des_msgq s mqdes) \<le> nmsgs s (des_msgq s mqdes)" "pterrno s (hd (g_readytorun s)) = 0"
proof -
  let ?q = "des_msgq s mqdes"
  have hd: "head_of (g_readytorun s) = hd (g_readytorun s)" using running_facts(1) [OF wf_inv [OF mq_inv_parts(1) [OF inv]]] .
  show thesis
  proof (cases "pterrno s (hd (g_readytorun s)) = 0")
    case False
    obtain s2 where s2: "sched_unlock False s = Some s2" "mq_inv s2" "mq_static s s2" "mq_content s s2" "mq_tasks s s2"
      by (rule mq_unlock [OF inv]) blast
    have "mq_send_resume notify mem mqdes msg len prio s = Some (Done False, s2)"
      using False hd s2(1) by (simp add: mq_send_resume_def mq_waitsend_resume_def mq_send_rest_def)
    then show thesis using failed s2 mq_view_content [OF s2(4)] False by blast
  next
    case True
    have q: "?q \<noteq> NULL" using ok by (simp add: mq_send_ok_def)
    show thesis
    proof (cases rule: mq_waitsend_loop_spec [OF inv q t])
      case 1
      note room = this
      obtain ret s2 where s2: "mq_send_rest notify False mem mqdes msg len prio (Done True) s = Some (Done ret, s2)" "mq_inv s2"
        "if ret then mq_sent ?q (nat prio) (take len msg) s s2 else False \<and> mq_static s s2 \<and> mq_view s2 = mq_view s \<and> mq_tasks s s2"
        by (rule mq_send_rest_spec [OF inv ok prio len]) (use lc in auto)
      have "mq_send_resume notify mem mqdes msg len prio s = Some (Done True, s2)"
        using True hd s2(1,3) room(1) by (simp add: mq_send_resume_def mq_waitsend_resume_def split: if_splits)
      then show thesis using sent s2(2,3) room(2) True by (simp split: if_splits)
    next
      case (2 s2)
      note blocks = this
      have "mq_send_resume notify mem mqdes msg len prio s = Some (Switched, s2)"
        using True hd blocks(1) by (simp add: mq_send_resume_def mq_waitsend_resume_def mq_send_rest_def)
      then show thesis using that(3) blocks True by blast
    qed
  qed
qed

section \<open>Receiving\<close>

lemma mq_receive_rest_spec:
  assumes inv: "mq_inv s" and m: "unplaced m s" and q: "des_msgq s mqdes \<noteq> NULL" and len: "msglen s m \<le> maxmsgsize s (des_msgq s mqdes)"
    and buf: "maxmsgsize s (des_msgq s mqdes) \<le> buf"
  obtains s' where "mq_receive_rest mqdes buf (Done m) s = Some (Done (Some (take (msglen s m) (mail s m), mpriority s m)), s')" "mq_inv s'"
    "mq_static s s'" "mq_view s' = mq_view s" "woke Waitingformqnotfull (des_msgq s mqdes) s s'"
proof -
  let ?q = "des_msgq s mqdes" and ?s1 = "mq_msgfree m s"
  note s1 = mq_msgfree_spec [OF inv m]
  have l: "msglen s m \<le> length (mail s m)" "msglen s m \<le> buf"
    using len buf msgs_facts(3) [OF inv, of ?q] msgs_facts(6) [OF inv, of m] by simp_all
  have st: "des_msgq ?s1 = des_msgq s" using s1(2) by (simp add: mq_static_def)
  obtain s2 where s2: "mq_wakeup Waitingformqnotfull ?q ?s1 = Some s2" "mq_inv s2" "mq_static ?s1 s2" "mq_content ?s1 s2" "woke Waitingformqnotfull ?q ?s1 s2"
    by (rule mq_wake [OF s1(1) _ q, of Waitingformqnotfull]) auto
  obtain s3 where s3: "sched_unlock False s2 = Some s3" "mq_inv s3" "mq_static s2 s3" "mq_content s2 s3" "mq_tasks s2 s3"
    by (rule mq_unlock [OF s2(2)]) blast
  have "mq_doreceive mqdes m buf s = Some ((take (msglen s m) (mail s m), mpriority s m), s2)"
    unfolding mq_doreceive_def mq_wakeup_code using l s2(1) st by (simp add: debugassert_def Let_def)
  moreover have "m \<noteq> NULL" using m by (simp add: unplaced_def)
  ultimately have call: "mq_receive_rest mqdes buf (Done m) s = Some (Done (Some (take (msglen s m) (mail s m), mpriority s m)), s3)"
    using s3(1) by (simp add: mq_receive_rest_def)
  have "mq_static s s3" using s1(2) s2(3) s3(3) by (blast intro: mq_frame_trans)
  moreover have "mq_view s3 = mq_view s" using mq_view_content s1(3) s2(4) s3(4) by metis
  moreover have "woke Waitingformqnotfull ?q s s3" using woke_tasks [OF _ s1(4) s2(5) s3(5)] by simp
  ultimately show thesis using that [OF call s3(2)] by blast
qed

lemma mq_received_take:
  assumes inv: "mq_inv s" and l: "msglist s q = m # ms"
    and s1: "s1 = s\<lparr>msglist := (msglist s)(q := ms), nmsgs := (nmsgs s)(q := nmsgs s q - 1)\<rparr>"
    and s2: "mq_static s1 s2" "mq_view s2 = mq_view s1" "woke Waitingformqnotfull q s1 s2"
  shows "mq_received q (mpriority s m, take (msglen s m) (mail s m)) s s2"
proof -
  note t = mq_take [OF inv l s1]
  have "woke Waitingformqnotfull q s s2" by (rule woke_tasks [OF _ t(3) s2(3) mq_frame_refl(3)]) simp
  then show ?thesis using mq_frame_trans(1) [OF t(2) s2(1)] t(5,6) s2(2) unfolding mq_received_def by metis
qed

text \<open>The message at the head of the queue, \<open>EAGAIN\<close>, or a wait.\<close>

lemma mq_waitreceive_spec:
  assumes inv: "mq_inv s" and q: "des_msgq s mqdes \<noteq> NULL" and t: "hd (g_readytorun s) \<noteq> idle_tcb s"
    and buf: "maxmsgsize s (des_msgq s mqdes) \<le> buf"
  obtains (got) bytes p s' where "do { (r, s) \<leftarrow> mq_waitreceive mqdes s; mq_receive_rest mqdes buf r s } = Some (Done (Some (bytes, p)), s')" "mq_inv s'"
      "mq_received (des_msgq s mqdes) (p, bytes) s s'"
  | (empty) "mq_waitreceive mqdes s = Some (Done NULL, put_errno False EAGAIN s)" "mq_view s (des_msgq s mqdes) = []" "oflags s mqdes AND O_NONBLOCK \<noteq> 0"
  | (blocks) s' where "mq_waitreceive mqdes s = Some (Switched, s')" "mq_inv s'" "mq_blocked Waitingformqnotempty (des_msgq s mqdes) s s'"
      "mq_view s (des_msgq s mqdes) = []" "oflags s mqdes AND O_NONBLOCK = 0"
proof (cases "msglist s (des_msgq s mqdes)")
  case (Cons m ms)
  let ?q = "des_msgq s mqdes"
  define s1 where "s1 = s\<lparr>msglist := (msglist s)(?q := ms), nmsgs := (nmsgs s)(?q := nmsgs s ?q - 1)\<rparr>"
  note t = mq_take [OF inv Cons s1_def]
  have n: "s16 (nmsgs s ?q - 1) = nmsgs s ?q - 1" using msgs_facts(1,2) [OF inv, of ?q] by (intro s16_id) simp_all
  have w: "mq_waitreceive mqdes s = Some (Done m, s1)" using Cons n by (simp add: mq_waitreceive_def Let_def s1_def)
  have f1: "des_msgq s1 = des_msgq s" "maxmsgsize s1 = maxmsgsize s" "msglen s1 = msglen s" "mail s1 = mail s" "mpriority s1 = mpriority s" by (simp_all add: s1_def)
  obtain s2 where s2: "mq_receive_rest mqdes buf (Done m) s1 = Some (Done (Some (take (msglen s1 m) (mail s1 m), mpriority s1 m)), s2)" "mq_inv s2"
    "mq_static s1 s2" "mq_view s2 = mq_view s1" "woke Waitingformqnotfull (des_msgq s1 mqdes) s1 s2"
    by (rule mq_receive_rest_spec [OF t(1) t(4), of mqdes buf]) (use q t(7) buf f1 in auto)
  have "mq_received ?q (mpriority s m, take (msglen s m) (mail s m)) s s2"
    using mq_received_take [OF inv Cons s1_def s2(3,4)] s2(5) f1 by simp
  then show thesis using got [of "take (msglen s m) (mail s m)" "mpriority s m" s2] w s2(1,2) f1 by simp
next
  case Nil
  let ?q = "des_msgq s mqdes"
  have v: "mq_view s ?q = []" using Nil by (simp add: mq_view_def)
  show thesis
  proof (cases "oflags s mqdes AND O_NONBLOCK = 0")
    case True
    obtain sw s' where "up_block_task (head_of (g_readytorun s)) (list_state Waitingformqnotempty)
      (put_errno False 0 (set_nwait Waitingformqnotempty ?q (nwait Waitingformqnotempty s ?q + 1)
        (set_msgwaitq (head_of (g_readytorun s)) ?q s))) = Some (sw, s')" "mq_inv s'" "mq_blocked Waitingformqnotempty ?q s s'"
      by (rule mq_block_spec [OF inv _ q t, of Waitingformqnotempty]) auto
    then show thesis using blocks [of s'] True Nil v by (simp add: mq_waitreceive_def Let_def nwait_def set_nwait_def)
  next
    case False
    then show thesis using empty v Nil by (simp add: mq_waitreceive_def Let_def)
  qed
qed

lemma mq_receive_spec:
  assumes inv: "mq_inv s" and q: "des_msgq s mqdes \<noteq> NULL" and v: "mq_verifyreceive mqdes (Some buf) len s = 0" and len: "len \<le> buf"
    and t: "hd (g_readytorun s) \<noteq> idle_tcb s" and lc: "lockcount s (hd (g_readytorun s)) < MAX_LOCK_COUNT"
  obtains (got) bytes p s' where "mq_receive False mqdes (Some buf) len s = Some (Done (Some (bytes, p)), s')" "mq_inv s'"
      "mq_received (des_msgq s mqdes) (p, bytes) s s'"
  | (empty) s' where "mq_receive False mqdes (Some buf) len s = Some (Done None, s')" "mq_inv s'" "mq_failed EAGAIN s s'"
      "mq_view s (des_msgq s mqdes) = []" "oflags s mqdes AND O_NONBLOCK \<noteq> 0"
  | (blocks) s' where "mq_receive False mqdes (Some buf) len s = Some (Switched, s')" "mq_inv s'" "mq_blocked Waitingformqnotempty (des_msgq s mqdes) s s'"
      "mq_view s (des_msgq s mqdes) = []" "oflags s mqdes AND O_NONBLOCK = 0"
proof -
  let ?q = "des_msgq s mqdes"
  obtain s1 where s1: "sched_lock False s = Some s1" "mq_inv s1" "mq_static s s1" "mq_content s s1" "mq_tasks s s1" "tlist s1 = tlist s"
    "sched_priority s1 = sched_priority s"
    by (rule mq_lock [OF inv, of False]) (use lc in blast)+
  have st: "des_msgq s1 = des_msgq s" "oflags s1 = oflags s" "idle_tcb s1 = idle_tcb s" "maxmsgsize s1 = maxmsgsize s" using s1(3) by (simp_all add: mq_static_def)
  have call: "mq_receive False mqdes (Some buf) len s = do { (r, s) \<leftarrow> mq_waitreceive mqdes s1; mq_receive_rest mqdes buf r s }"
    using v s1(1) by (simp add: mq_receive_def debugassert_def)
  have b: "maxmsgsize s1 (des_msgq s1 mqdes) \<le> buf" using v len st by (auto simp: mq_verifyreceive_def EINVAL_def EPERM_def EMSGSIZE_def split: if_splits)
  have q1: "des_msgq s1 mqdes \<noteq> NULL" and t1: "hd (g_readytorun s1) \<noteq> idle_tcb s1" using q t st s1(6) by simp_all
  show thesis
  proof (cases rule: mq_waitreceive_spec [OF s1(2) q1 t1 b])
    case (1 bytes p s2)
    have "mq_received ?q (p, bytes) s1 s2" using 1(3) st(1) by simp
    then show thesis using got [of bytes p s2] call 1(1,2) mq_received_lock [OF s1(3-5)] by simp
  next
    case 2
    obtain s2 where s2: "sched_unlock False (put_errno False EAGAIN s1) = Some s2" "mq_inv s2" "mq_failed EAGAIN s s2"
      by (rule mq_give_up [OF s1(2-5), of EAGAIN]) (use s1(6) in auto)
    have "mq_receive False mqdes (Some buf) len s = Some (Done None, s2)" using call 2(1) s2(1) by (simp add: mq_receive_rest_def)
    then show thesis using empty s2(2,3) 2(2,3) st mq_view_content [OF s1(4)] by simp
  next
    case (3 s2)
    have "mq_receive False mqdes (Some buf) len s = Some (Switched, s2)" using call 3(1) by (simp add: mq_receive_rest_def)
    moreover have "mq_blocked Waitingformqnotempty ?q s s2" using mq_blocked_lock [OF s1(3-7)] 3(3) st by simp
    ultimately show thesis using blocks 3(2,4,5) st mq_view_content [OF s1(4)] by simp
  qed
qed

lemma mq_receive_resume_spec:
  assumes inv: "mq_inv s" and q: "des_msgq s mqdes \<noteq> NULL" and buf: "maxmsgsize s (des_msgq s mqdes) \<le> buf"
    and t: "hd (g_readytorun s) \<noteq> idle_tcb s"
  obtains (got) bytes p s' where "mq_receive_resume mqdes buf s = Some (Done (Some (bytes, p)), s')" "mq_inv s'"
      "mq_received (des_msgq s mqdes) (p, bytes) s s'" "pterrno s (hd (g_readytorun s)) = 0"
  | (failed) s' where "mq_receive_resume mqdes buf s = Some (Done None, s')" "mq_inv s'" "mq_static s s'" "mq_view s' = mq_view s" "mq_tasks s s'"
      "pterrno s (hd (g_readytorun s)) \<noteq> 0"
  | (empty) s' where "mq_receive_resume mqdes buf s = Some (Done None, s')" "mq_inv s'" "mq_failed EAGAIN s s'" "mq_view s (des_msgq s mqdes) = []"
      "oflags s mqdes AND O_NONBLOCK \<noteq> 0" "pterrno s (hd (g_readytorun s)) = 0"
  | (blocks) s' where "mq_receive_resume mqdes buf s = Some (Switched, s')" "mq_inv s'" "mq_blocked Waitingformqnotempty (des_msgq s mqdes) s s'"
      "mq_view s (des_msgq s mqdes) = []" "pterrno s (hd (g_readytorun s)) = 0"
proof -
  let ?q = "des_msgq s mqdes"
  have hd: "head_of (g_readytorun s) = hd (g_readytorun s)" using running_facts(1) [OF wf_inv [OF mq_inv_parts(1) [OF inv]]] .
  show thesis
  proof (cases "pterrno s (hd (g_readytorun s)) = 0")
    case False
    obtain s2 where s2: "sched_unlock False s = Some s2" "mq_inv s2" "mq_static s s2" "mq_content s s2" "mq_tasks s s2"
      by (rule mq_unlock [OF inv]) blast
    have "mq_receive_resume mqdes buf s = Some (Done None, s2)"
      using False hd s2(1) by (simp add: mq_receive_resume_def mq_waitreceive_resume_def mq_receive_rest_def)
    then show thesis using failed s2 mq_view_content [OF s2(4)] False by blast
  next
    case True
    have call: "mq_receive_resume mqdes buf s = do { (r, s) \<leftarrow> mq_waitreceive mqdes s; mq_receive_rest mqdes buf r s }"
      using True hd by (simp add: mq_receive_resume_def mq_waitreceive_resume_def)
    show thesis
    proof (cases rule: mq_waitreceive_spec [OF inv q t buf])
      case (1 bytes p s2)
      then show thesis using got [of bytes p s2] call True by simp
    next
      case 2
      obtain s2 where s2: "sched_unlock False (put_errno False EAGAIN s) = Some s2" "mq_inv s2" "mq_failed EAGAIN s s2"
        by (rule mq_give_up [OF inv mq_frame_refl, of EAGAIN]) auto
      have "mq_receive_resume mqdes buf s = Some (Done None, s2)" using call 2(1) s2(1) by (simp add: mq_receive_rest_def)
      then show thesis using empty s2(2,3) 2(2,3) True by simp
    next
      case (3 s2)
      have "mq_receive_resume mqdes buf s = Some (Switched, s2)" using call 3(1) by (simp add: mq_receive_rest_def)
      then show thesis using blocks 3(2-4) True by simp
    qed
  qed
qed

section \<open>Interrupted waits\<close>


definition mq_interrupted :: "tasklist \<Rightarrow> addr \<Rightarrow> int \<Rightarrow> 'a mq_state_scheme \<Rightarrow> 'a mq_state_scheme \<Rightarrow> bool" where
  "mq_interrupted l t e s s' \<longleftrightarrow> mq_static s s' \<and> mq_view s' = mq_view s \<and> t \<in> set (tlist s l) \<and> tlist s' l = remove1 t (tlist s l) \<and>
     (\<forall>l'. mq_wait_list l' \<longrightarrow> l' \<noteq> l \<longrightarrow> tlist s' l' = tlist s l') \<and> msgwaitq s' = (msgwaitq s)(t := NULL) \<and>
     runnable_set s' = insert t (runnable_set s) \<and> pterrno s' = (pterrno s)(t := e)"

lemma mq_waitirq_spec:
  assumes inv: "mq_inv s" and l: "mq_wait_list l" and t: "t \<in> set (tlist s l)"
  obtains s' where "mq_waitirq t e s = Some s'" "mq_inv s'" "mq_interrupted l t e s s'"
proof -
  let ?q = "msgwaitq s t"
  have sinv: "sched_inv s" using wf_inv mq_inv_parts(1) inv by blast
  have w: "waits_at (tlist s l) (msgwaitq s) (nwait l s)" using mq_inv_parts(2) [OF inv] l unfolding waits_at_list by blast
  have q: "?q \<noteq> NULL" using w t by (simp add: waits_at_def)
  have "t \<in> set (filter (\<lambda>u. msgwaitq s u = ?q) (tlist s l))" using t by simp
  then have "filter (\<lambda>u. msgwaitq s u = ?q) (tlist s l) \<noteq> []" by (metis empty_iff list.set(1))
  then have n: "0 < nwait l s ?q" using w q by (simp add: waits_at_def)
  have st: "task_state s t = list_state l" using states_at [OF sinv t] l by auto
  define s1 where "s1 = s\<lparr>pterrno := (pterrno s)(t := e)\<rparr>"
  have inv1: "mq_inv s1" using inv by (simp add: s1_def)
  have f1: "tlist s1 = tlist s" "nwait l s1 = nwait l s" "msgwaitq s1 = msgwaitq s" by (simp_all add: s1_def nwait_def)
  obtain s' where s': "up_unblock_task t (set_nwait l ?q (nwait l s1 ?q - 1) (set_msgwaitq t NULL s1)) = Some (hd (g_readytorun s') \<noteq> hd (g_readytorun s1), s')"
    "mq_inv s'" "relisted (set_nwait l ?q (nwait l s1 ?q - 1) (set_msgwaitq t NULL s1)) s'" "tlist s' l = remove1 t (tlist s1 l)"
    "\<And>l'. mq_wait_list l' \<Longrightarrow> l' \<noteq> l \<Longrightarrow> tlist s' l' = tlist s1 l'" "runnable_set s' = insert t (runnable_set s1)"
    by (rule mq_unblock [OF inv1 l, of t ?q]) (use t f1 in auto)
  note f = relisted_mq [OF s'(3)] relisted_fields(11) [OF s'(3)]
  have "mq_static s s'" by (simp add: mq_static_def f s1_def)
  moreover have "mq_view s' = mq_view s" by (rule mq_view_content) (simp add: mq_content_def f s1_def)
  ultimately have it: "mq_interrupted l t e s s'"
    using s'(4-6) f1 t by (auto simp: mq_interrupted_def f s1_def runnable_set_def)
  have "set_errno t e (set_nwait l ?q (nwait l s ?q - 1) (set_msgwaitq t NULL s)) = set_nwait l ?q (nwait l s1 ?q - 1) (set_msgwaitq t NULL s1)"
    by (simp add: s1_def set_nwait_def nwait_def)
  then have call: "map_option snd (up_unblock_task t (set_errno t e (set_nwait l ?q (nwait l s ?q - 1) (set_msgwaitq t NULL s)))) = Some s'"
    using s'(1) by simp
  have "mq_waitirq t e s = Some s'"
  proof (cases "l = Waitingformqnotempty")
    case True
    then show ?thesis using q n st call by (simp add: mq_waitirq_def debugassert_def nwait_def set_nwait_def Let_def)
  next
    case False
    then have "l = Waitingformqnotfull" using l by simp
    then show ?thesis using q n st call by (simp add: mq_waitirq_def debugassert_def nwait_def set_nwait_def Let_def)
  qed
  then show thesis using that s'(2) it by blast
qed

end
