(* ===== verification/MQ_Props.thy ===== *)
theory MQ_Props
  imports MQ_Ops Sched_Props
begin

unbundle bit_operations_syntax

text \<open>
  Runs of tasks, interrupt handlers and timers on message queues, and the properties of the component.
\<close>

section \<open>Changes of the scheduler\<close>

text \<open>The fields of the queues are those that extend the scheduler's.\<close>

lemma more_mq:
  assumes "sched_state.more s' = sched_state.more s"
  shows "msglist s' = msglist s" "maxmsgs s' = maxmsgs s" "nmsgs s' = nmsgs s" "nwaitnotfull s' = nwaitnotfull s"
    "nwaitnotempty s' = nwaitnotempty s" "maxmsgsize s' = maxmsgsize s" "ntmqdes s' = ntmqdes s" "des_msgq s' = des_msgq s"
    "oflags s' = oflags s" "mtype s' = mtype s" "mpriority s' = mpriority s" "msglen s' = msglen s" "mail s' = mail s"
    "g_msgfree s' = g_msgfree s" "g_msgfreeirq s' = g_msgfreeirq s" "msgwaitq s' = msgwaitq s" "pterrno s' = pterrno s"
  using assms by (cases s; cases s'; simp)+

definition mq_rescheduled :: "'a mq_state_scheme \<Rightarrow> 'a mq_state_scheme \<Rightarrow> bool" where
  "mq_rescheduled s s' \<longleftrightarrow> sched_wf s' \<and> sched_state.more s' = sched_state.more s \<and> idle_tcb s' = idle_tcb s \<and>
     (\<forall>l. mq_wait_list l \<longrightarrow> set (tlist s' l) = set (tlist s l))"

lemma waits_at_set:
  assumes "waits_at ts w n" "distinct ts" "distinct ts'" "set ts' = set ts"
  shows "waits_at ts' w n"
proof -
  have "length (filter P ts') = length (filter P ts)" for P
    using distinct_card [of "filter P ts'"] distinct_card [of "filter P ts"] assms(2-4) by simp
  then show ?thesis using assms(1,4) by (simp add: waits_at_def)
qed

lemma mq_rescheduled_inv:
  assumes inv: "mq_inv s" and r: "mq_rescheduled s s'"
  shows "mq_inv s'" "mq_static s s'" "mq_view s' = mq_view s" "msgwaitq s' = msgwaitq s" "pterrno s' = pterrno s"
proof -
  have more: "sched_state.more s' = sched_state.more s" and wf: "sched_wf s'" using r by (simp_all add: mq_rescheduled_def)
  note f = more_mq [OF more]
  have "mq_places_ok s' = mq_places_ok s" by (rule places_cong) (simp_all add: f)
  moreover have "mq_msgs_ok s' = mq_msgs_ok s" by (rule msgs_cong) (simp_all add: f)
  moreover have "mq_waits_ok s'"
    unfolding waits_at_list
  proof (intro allI impI)
    fix l assume l: "mq_wait_list l"
    have "waits_at (tlist s l) (msgwaitq s) (nwait l s)" using mq_inv_parts(2) [OF inv] l unfolding waits_at_list by blast
    moreover have "set (tlist s' l) = set (tlist s l)" using r l unfolding mq_rescheduled_def by blast
    moreover have "distinct (tlist s l)" "distinct (tlist s' l)" using inv_distinct wf_inv wf mq_inv_parts(1) [OF inv] by blast+
    ultimately have "waits_at (tlist s' l) (msgwaitq s) (nwait l s)" using waits_at_set by blast
    then show "waits_at (tlist s' l) (msgwaitq s') (nwait l s')" by (simp only: f nwait_def)
  qed
  ultimately show "mq_inv s'" using inv wf by (simp add: mq_inv_def)
  show "mq_static s s'" using r by (simp add: mq_static_def f mq_rescheduled_def)
  show "mq_view s' = mq_view s" by (rule mq_view_content) (simp add: mq_content_def f)
  show "msgwaitq s' = msgwaitq s" "pterrno s' = pterrno s" by (simp_all add: f)
qed

text \<open>The scheduler calls that tasks and handlers make besides those of the queues: all of them, except that only the
  queues block a task as waiting for a queue and unblock it again.\<close>

fun mq_other_call :: "sched_call \<Rightarrow> 'a sched_state_scheme \<Rightarrow> bool" where
  "mq_other_call (Block st) s \<longleftrightarrow> st \<noteq> TSTATE_WAIT_MQNOTEMPTY \<and> st \<noteq> TSTATE_WAIT_MQNOTFULL"
| "mq_other_call (Unblock t) s \<longleftrightarrow> task_state s t \<noteq> TSTATE_WAIT_MQNOTEMPTY \<and> task_state s t \<noteq> TSTATE_WAIT_MQNOTFULL"
| "mq_other_call _ s \<longleftrightarrow> True"

text \<open>The runnable tasks afterwards: only a call that blocks takes the running task away.\<close>

fun gives_up :: "sched_call \<Rightarrow> 'a sched_state_scheme \<Rightarrow> addr set" where
  "gives_up (Block st) s = {hd (g_readytorun s)}"
| "gives_up c s = {}"

lemma mq_rescheduledI:
  assumes "sched_wf s'" "relisted s1 s'" "sched_state.more s1 = sched_state.more s" "idle_tcb s1 = idle_tcb s"
    "\<And>l. mq_wait_list l \<Longrightarrow> set (tlist s' l) = set (tlist s l)"
  shows "mq_rescheduled s s'"
  using assms relisted_fields(11,12) [OF assms(2)] by (auto simp: mq_rescheduled_def)

lemma mq_block_other:
  assumes inv: "mq_inv s" and c: "permitted (Block st) s" "mq_other_call (Block st) s"
  shows "\<exists>s'. sched_exec (Block st) s = Some s' \<and> mq_rescheduled s s' \<and> runnable_set s - gives_up (Block st) s \<subseteq> runnable_set s'"
proof -
  let ?r = "hd (g_readytorun s)"
  have wf: "sched_wf s" by (rule mq_inv_parts(1) [OF inv])
  note run = running_facts [OF wf_inv [OF wf]]
  have t: "?r \<noteq> idle_tcb s" "blocked_state st" using c(1) by (simp_all add: user_task_def)
  obtain l where l: "list_state l = st" "\<not> mq_wait_list l" "l \<noteq> Readytorun" "l \<noteq> Pendingtasks"
    using blocked_list [OF t(2)] c(2) t(2) by fastforce
  obtain s' where s': "up_block_task ?r st s = Some (hd (g_readytorun s') \<noteq> ?r, s')" "sched_inv s'" "relisted s s'" "g_pendingtasks s' = []"
    "g_readytorun s' = prio_merge (sched_priority s) (g_pendingtasks s) (remove1 ?r (g_readytorun s))"
    "\<And>l'. l' \<noteq> Readytorun \<Longrightarrow> l' \<noteq> Pendingtasks \<Longrightarrow> l' \<noteq> l \<Longrightarrow> tlist s' l' = tlist s l'"
    by (rule up_block_task_spec [OF wf_inv [OF wf] run(3) t l(1)]) blast
  have "mq_rescheduled s s'"
  proof (rule mq_rescheduledI [OF _ s'(3)])
    show "sched_wf s'" using s'(2,4) by (simp add: sched_wf_def)
    show "set (tlist s' l') = set (tlist s l')" if "mq_wait_list l'" for l' using s'(6) [of l'] that l(2) by auto
  qed simp_all
  moreover have "runnable_set s - {?r} \<subseteq> runnable_set s'" using s'(4,5) by (auto simp: runnable_set_def)
  ultimately show ?thesis using s'(1) run(1) by auto
qed

lemma mq_unblock_other:
  assumes inv: "mq_inv s" and c: "permitted (Unblock t) s" "mq_other_call (Unblock t) s"
  shows "\<exists>s'. sched_exec (Unblock t) s = Some s' \<and> mq_rescheduled s s' \<and> runnable_set s \<subseteq> runnable_set s'"
proof -
  have wf: "sched_wf s" by (rule mq_inv_parts(1) [OF inv])
  obtain l where l: "t \<in> set (tlist s l)" "t \<noteq> idle_tcb s" "blocked_state (task_state s t)" using c(1) by (auto simp: user_task_def)
  have "\<not> mq_wait_list l" using states_at [OF wf_inv [OF wf] l(1)] c(2) by auto
  obtain s' where s': "up_unblock_task t s = Some (hd (g_readytorun s') \<noteq> hd (g_readytorun s), s')" "sched_inv s'" "relisted s s'"
    "\<And>l'. l' \<noteq> Readytorun \<Longrightarrow> l' \<noteq> Pendingtasks \<Longrightarrow> l' \<noteq> l \<Longrightarrow> tlist s' l' = tlist s l'" "made_ready t s s'"
    by (rule up_unblock_task_spec [OF wf_inv [OF wf] l]) blast
  have "mq_rescheduled s s'"
  proof (rule mq_rescheduledI [OF _ s'(3)])
    show "sched_wf s'" by (rule made_ready_wf [OF wf s'(2,3,5)])
    show "set (tlist s' l') = set (tlist s l')" if "mq_wait_list l'" for l' using s'(4) [of l'] that \<open>\<not> mq_wait_list l\<close> by auto
  qed simp_all
  moreover have "runnable_set s \<subseteq> runnable_set s'" using s'(5) by (auto simp: runnable_set_def made_ready_def split: if_splits)
  ultimately show ?thesis using s'(1) by auto
qed

lemma mq_reordered:
  assumes "sched_wf s'" "reordered s s'"
  shows "mq_rescheduled s s'" "runnable_set s' = runnable_set s"
  using assms by (auto simp: mq_rescheduled_def reordered_def runnable_set_def)

lemma mq_reordering_call:
  assumes wf: "sched_wf s" and c: "permitted c s" "\<And>st. c \<noteq> Block st" "\<And>t. c \<noteq> Unblock t"
  shows "\<exists>s'. sched_exec c s = Some s' \<and> sched_wf s' \<and> reordered s s'"
proof (cases c)
  case Lock
  then show ?thesis using sched_lock_wf [OF wf, of False] c(1) by auto
next
  case Unlock
  then show ?thesis using sched_unlock_wf [OF wf, of False] by auto
next
  case (Setpriority t p)
  then obtain l where l: "t \<in> set (tlist s l)" "t \<noteq> idle_tcb s" using c(1) by (auto simp: user_task_def)
  obtain ok s' where s': "sched_setpriority t p s = Some (ok, s')" "sched_wf s'" "if ok then reprioritized t (nat p) s s' else s' = s"
    by (rule sched_setpriority_wf [OF wf l]) (rule that)
  then show ?thesis using Setpriority reprioritized_reordered by (auto split: if_splits)
next
  case Yield
  then show ?thesis using sched_yield_wf [OF wf] by auto
next
  case Tick
  then show ?thesis using sched_process_timeslice_wf [OF wf] by auto
next
  case (Setparam in_irq pid param)
  then show ?thesis using sched_setparam_wf [OF wf, of pid in_irq param] c(1) by auto
next
  case (Setscheduler in_irq pid pol p)
  then show ?thesis using sched_setscheduler_wf [OF wf, of pid in_irq pol p] c(1) by auto
next
  case (Resume p)
  let ?s = "sched_reprioritize_resume (head_of (g_readytorun s)) p s"
  have "sched_wf ?s" using wf by (simp add: sched_reprioritize_resume_def)
  then obtain s' where "sched_unlock False ?s = Some s'" "sched_wf s'" "reordered ?s s'" using sched_unlock_wf by blast
  then show ?thesis using Resume reordered_trans [OF reordered_resume] by (auto simp: sched_setparam_resume_def)
qed (use c in auto)

lemma mq_other_call_spec:
  assumes inv: "mq_inv s" and c: "permitted c s" "mq_other_call c s"
  shows "\<exists>s'. sched_exec c s = Some s' \<and> mq_rescheduled s s' \<and> runnable_set s - gives_up c s \<subseteq> runnable_set s'"
proof (cases "(\<exists>st. c = Block st) \<or> (\<exists>t. c = Unblock t)")
  case True
  then show ?thesis using mq_block_other [OF inv] mq_unblock_other [OF inv] c by auto
next
  case False
  then obtain s' where "sched_exec c s = Some s'" "sched_wf s'" "reordered s s'"
    using mq_reordering_call [OF mq_inv_parts(1) [OF inv] c(1)] by blast
  then show ?thesis using mq_reordered [of s' s] by auto
qed

section \<open>Runs\<close>

text \<open>Where a task is in the calls of this component: outside, or inside a call that has blocked.\<close>

datatype mq_pc = Outside | Sending addr "u8 list" nat int | Receiving addr nat

fun waits_as :: "mq_pc \<Rightarrow> tasklist \<Rightarrow> addr option" where
  "waits_as Outside l = None"
| "waits_as (Receiving mqdes buf) l = (if l = Waitingformqnotempty then Some mqdes else None)"
| "waits_as (Sending mqdes msg len prio) l = (if l = Waitingformqnotfull then Some mqdes else None)"

fun pc_ok :: "mq_pc \<Rightarrow> 'a mq_state_scheme \<Rightarrow> bool" where
  "pc_ok Outside s \<longleftrightarrow> True"
| "pc_ok (Sending mqdes msg len prio) s \<longleftrightarrow> des_msgq s mqdes \<noteq> NULL \<and> 0 \<le> prio \<and> prio \<le> MQ_PRIO_MAX \<and> len \<le> maxmsgsize s (des_msgq s mqdes) \<and> len \<le> length msg"
| "pc_ok (Receiving mqdes buf) s \<longleftrightarrow> des_msgq s mqdes \<noteq> NULL \<and> maxmsgsize s (des_msgq s mqdes) \<le> buf"

text \<open>The tasks that wait for a queue, and those that were woken for it and have not run yet.\<close>

definition waiting :: "tasklist \<Rightarrow> addr \<Rightarrow> 'a mq_state_scheme \<Rightarrow> addr set" where
  "waiting l q s = {t \<in> set (tlist s l). msgwaitq s t = q}"

definition woken :: "tasklist \<Rightarrow> addr \<Rightarrow> 'a mq_state_scheme \<Rightarrow> (addr \<Rightarrow> mq_pc) \<Rightarrow> addr set" where
  "woken l q s pc = {t \<in> runnable_set s. pterrno s t = 0 \<and> (\<exists>d. waits_as (pc t) l = Some d \<and> des_msgq s d = q)}"

text \<open>The messages that receivers can take, the free places that senders can take.\<close>

definition to_serve :: "tasklist \<Rightarrow> 'a mq_state_scheme \<Rightarrow> addr \<Rightarrow> int" where
  "to_serve l s q = (if l = Waitingformqnotempty then int (length (mq_view s q)) else maxmsgs s q - int (length (mq_view s q)))"

definition served :: "'a mq_state_scheme \<Rightarrow> (addr \<Rightarrow> mq_pc) \<Rightarrow> bool" where
  "served s pc \<longleftrightarrow> (\<forall>l q. mq_wait_list l \<longrightarrow> waiting l q s \<noteq> {} \<longrightarrow> to_serve l s q \<le> int (card (woken l q s pc)))"

definition pcs_ok :: "'a mq_state_scheme \<Rightarrow> (addr \<Rightarrow> mq_pc) \<Rightarrow> bool" where
  "pcs_ok s pc \<longleftrightarrow>
     (\<forall>l t. mq_wait_list l \<longrightarrow> t \<in> set (tlist s l) \<longrightarrow> pterrno s t = 0 \<and> (\<exists>d. waits_as (pc t) l = Some d \<and> des_msgq s d = msgwaitq s t)) \<and>
     (\<forall>t. pc t \<noteq> Outside \<longrightarrow> t \<noteq> idle_tcb s \<and> pc_ok (pc t) s \<and> (t \<in> runnable_set s \<or> (\<exists>l. mq_wait_list l \<and> t \<in> set (tlist s l))))"

definition mq_run_inv :: "'a mq_state_scheme \<Rightarrow> (addr \<Rightarrow> mq_pc) \<Rightarrow> bool" where
  "mq_run_inv s pc \<longleftrightarrow> mq_inv s \<and> pcs_ok s pc \<and> served s pc"

lemma finite_runnable [simp]: "finite (runnable_set s)" "finite (woken l q s pc)"
  by (simp_all add: runnable_set_def woken_def)

lemma pc_ok_static: "mq_static s s' \<Longrightarrow> pc_ok p s' = pc_ok p s"
  by (cases p) (simp_all add: mq_static_def)

lemma waits_as_one: "waits_as p l = Some d \<Longrightarrow> waits_as p l' = Some d' \<Longrightarrow> l' = l \<and> d' = d"
  by (cases p) (auto split: if_splits)

lemma serve_step:
  fixes W W' :: "addr set"
  assumes "n \<le> int (card W)" "(W - D) \<union> N \<subseteq> W'" "N \<inter> W = {}" "finite W" "finite W'" "n' \<le> n - int (card (D \<inter> W)) + int (card N)"
  shows "n' \<le> int (card W')"
proof -
  have fN: "finite N" using assms(2,5) finite_subset by blast
  have "card ((W - D) \<union> N) = card (W - D) + card N" by (rule card_Un_disjoint) (use assms fN in auto)
  moreover have "card (W - D) = card W - card (D \<inter> W)" using card_Diff_subset_Int [of W D] assms(4) by (simp add: Int_commute)
  moreover have "card (D \<inter> W) \<le> card W" by (rule card_mono) (use assms(4) in auto)
  moreover have "card ((W - D) \<union> N) \<le> card W'" by (rule card_mono [OF assms(5,2)])
  ultimately show ?thesis using assms(1,6) by linarith
qed

lemma mq_running_not_waiting:
  assumes "mq_inv s" "mq_wait_list l"
  shows "hd (g_readytorun s) \<notin> set (tlist s l)" "hd (g_readytorun s) \<in> runnable_set s"
proof -
  have i: "sched_inv s" using wf_inv mq_inv_parts(1) assms(1) by blast
  show "hd (g_readytorun s) \<notin> set (tlist s l)" by (rule running_unlisted [OF i running_facts(3) [OF i]]) (use assms(2) in auto)
  show "hd (g_readytorun s) \<in> runnable_set s" using running_facts(3) [OF i] by (simp add: runnable_set_def)
qed

lemma waiting_not_runnable: "mq_inv s \<Longrightarrow> mq_wait_list l \<Longrightarrow> t \<in> set (tlist s l) \<Longrightarrow> t \<notin> runnable_set s"
proof -
  assume a: "mq_inv s" "mq_wait_list l" "t \<in> set (tlist s l)"
  have i: "sched_inv s" using wf_inv mq_inv_parts(1) a(1) by blast
  have "t \<notin> set (g_readytorun s)" "t \<notin> set (g_pendingtasks s)" by (rule running_unlisted [OF i a(3)]; use a(2) in auto)+
  then show ?thesis by (simp add: runnable_set_def)
qed

text \<open>A change of the state that lets no task start to wait; the tasks \<open>L\<close>, at most the running one, leave their call.\<close>

definition released :: "addr set \<Rightarrow> 'a mq_state_scheme \<Rightarrow> 'a mq_state_scheme \<Rightarrow> bool" where
  "released L s s' \<longleftrightarrow> mq_static s s' \<and> L \<subseteq> {hd (g_readytorun s)} \<and> runnable_set s - L \<subseteq> runnable_set s' \<and>
     (\<forall>l t. mq_wait_list l \<longrightarrow> t \<in> set (tlist s' l) \<longrightarrow> t \<in> set (tlist s l)) \<and>
     (\<forall>l t. mq_wait_list l \<longrightarrow> t \<in> set (tlist s' l) \<longrightarrow> msgwaitq s' t = msgwaitq s t) \<and>
     (\<forall>l t. mq_wait_list l \<longrightarrow> t \<in> set (tlist s l) \<longrightarrow> t \<in> set (tlist s' l) \<or> t \<in> runnable_set s') \<and>
     (\<forall>t. t \<notin> L \<longrightarrow> t \<in> runnable_set s \<longrightarrow> pterrno s' t = pterrno s t) \<and>
     (\<forall>l t. t \<notin> L \<longrightarrow> mq_wait_list l \<longrightarrow> t \<in> set (tlist s' l) \<longrightarrow> pterrno s' t = pterrno s t)"

lemma releasedI:
  assumes "mq_static s s'" "L \<subseteq> {hd (g_readytorun s)}" "runnable_set s - L \<subseteq> runnable_set s'"
    "\<And>l t. mq_wait_list l \<Longrightarrow> t \<in> set (tlist s' l) \<Longrightarrow> t \<in> set (tlist s l)"
    "\<And>l t. mq_wait_list l \<Longrightarrow> t \<in> set (tlist s' l) \<Longrightarrow> msgwaitq s' t = msgwaitq s t"
    "\<And>l t. mq_wait_list l \<Longrightarrow> t \<in> set (tlist s l) \<Longrightarrow> t \<in> set (tlist s' l) \<or> t \<in> runnable_set s'"
    "\<And>t. t \<notin> L \<Longrightarrow> t \<in> runnable_set s \<Longrightarrow> pterrno s' t = pterrno s t"
    "\<And>l t. t \<notin> L \<Longrightarrow> mq_wait_list l \<Longrightarrow> t \<in> set (tlist s' l) \<Longrightarrow> pterrno s' t = pterrno s t"
  shows "released L s s'"
  unfolding released_def by (intro conjI allI impI) (rule assms; assumption)+

lemma releasedD:
  assumes "released L s s'"
  shows "mq_static s s'" "L \<subseteq> {hd (g_readytorun s)}" "runnable_set s - L \<subseteq> runnable_set s'"
    "\<forall>l t. mq_wait_list l \<longrightarrow> t \<in> set (tlist s' l) \<longrightarrow> t \<in> set (tlist s l)"
    "\<forall>l t. mq_wait_list l \<longrightarrow> t \<in> set (tlist s' l) \<longrightarrow> msgwaitq s' t = msgwaitq s t"
    "\<forall>l t. mq_wait_list l \<longrightarrow> t \<in> set (tlist s l) \<longrightarrow> t \<in> set (tlist s' l) \<or> t \<in> runnable_set s'"
    "\<forall>t. t \<notin> L \<longrightarrow> t \<in> runnable_set s \<longrightarrow> pterrno s' t = pterrno s t"
    "\<forall>l t. t \<notin> L \<longrightarrow> mq_wait_list l \<longrightarrow> t \<in> set (tlist s' l) \<longrightarrow> pterrno s' t = pterrno s t"
  using assms unfolding released_def by - (elim conjE, assumption)+

definition leaves :: "addr set \<Rightarrow> (addr \<Rightarrow> mq_pc) \<Rightarrow> addr \<Rightarrow> mq_pc" where
  "leaves L pc t = (if t \<in> L then Outside else pc t)"

lemma leaves_none [simp]: "leaves {} pc = pc"
  and leaves_one: "leaves {r} pc = pc(r := Outside)"
  by (auto simp: leaves_def)

lemma released_pcs:
  assumes run: "mq_run_inv s pc" and rel: "released L s s'"
  shows "pcs_ok s' (leaves L pc)" and "mq_wait_list l \<Longrightarrow> waiting l q s' \<subseteq> waiting l q s"
    and "woken l q s pc - L \<subseteq> woken l q s' (leaves L pc)"
proof -
  have inv: "mq_inv s" and ok: "pcs_ok s pc" using run by (simp_all add: mq_run_inv_def)
  note rd = releasedD [OF rel]
  note st = rd(1) and sub = rd(4,5) [rule_format] and kp = rd(6) [rule_format] and er = rd(7) [rule_format] and ew = rd(8) [rule_format]
  have d: "des_msgq s' = des_msgq s" "idle_tcb s' = idle_tcb s" using st by (simp_all add: mq_static_def)
  have ok1: "\<And>x t. mq_wait_list x \<Longrightarrow> t \<in> set (tlist s x) \<Longrightarrow> pterrno s t = 0 \<and> (\<exists>d. waits_as (pc t) x = Some d \<and> des_msgq s d = msgwaitq s t)"
    and ok2: "\<And>t. pc t \<noteq> Outside \<Longrightarrow> t \<noteq> idle_tcb s \<and> pc_ok (pc t) s \<and> (t \<in> runnable_set s \<or> (\<exists>l. mq_wait_list l \<and> t \<in> set (tlist s l)))"
    using ok unfolding pcs_ok_def by (elim conjE; metis)+
  show "pcs_ok s' (leaves L pc)"
    unfolding pcs_ok_def
  proof (intro conjI allI impI)
    fix l t assume l: "mq_wait_list l" "t \<in> set (tlist s' l)"
    then have t: "t \<in> set (tlist s l)" "msgwaitq s' t = msgwaitq s t" using sub by blast+
    then have tL: "t \<notin> L" using mq_running_not_waiting(1) [OF inv l(1)] rd(2) by blast
    have "pterrno s' t = pterrno s t" by (rule ew [OF tL l])
    then show "pterrno s' t = 0" "\<exists>d. waits_as (leaves L pc t) l = Some d \<and> des_msgq s' d = msgwaitq s' t"
      using ok1 [OF l(1) t(1)] t(2) d tL by (simp_all add: leaves_def)
  next
    fix t assume "leaves L pc t \<noteq> Outside"
    then have p: "pc t \<noteq> Outside" "leaves L pc t = pc t" "t \<notin> L" by (auto simp: leaves_def split: if_splits)
    show "t \<noteq> idle_tcb s'" "pc_ok (leaves L pc t) s'" using ok2 [OF p(1)] d pc_ok_static [OF st] p(2) by simp_all
    show "t \<in> runnable_set s' \<or> (\<exists>l. mq_wait_list l \<and> t \<in> set (tlist s' l))" 
    proof (cases "t \<in> runnable_set s")
      case True
      then show ?thesis using rd(3) p(3) by blast
    next
      case False
      then obtain l where "mq_wait_list l" "t \<in> set (tlist s l)" using ok2 [OF p(1)] by blast
      then show ?thesis using kp by metis
    qed
  qed
  show "waiting l q s' \<subseteq> waiting l q s" if "mq_wait_list l" using sub [OF that] by (auto simp: waiting_def)
  show "woken l q s pc - L \<subseteq> woken l q s' (leaves L pc)" using rd(3) er d by (auto simp: woken_def leaves_def)
qed

lemma released_run:
  assumes run: "mq_run_inv s pc" and rel: "released L s s'" and inv: "mq_inv s'"
    and bal: "\<And>l q. mq_wait_list l \<Longrightarrow> waiting l q s' \<noteq> {} \<Longrightarrow> to_serve l s' q \<le> 0 \<or>
      (\<exists>N. N \<subseteq> woken l q s' (leaves L pc) \<and> N \<inter> woken l q s pc = {} \<and> to_serve l s' q \<le> to_serve l s q - int (card (L \<inter> woken l q s pc)) + int (card N))"
  shows "mq_run_inv s' (leaves L pc)"
proof -
  note rp = released_pcs [OF run rel]
  have "served s' (leaves L pc)"
    unfolding served_def
  proof (intro allI impI)
    fix l q assume l: "mq_wait_list l" "waiting l q s' \<noteq> {}"
    then have "waiting l q s \<noteq> {}" using rp(2) by blast
    then have sv: "to_serve l s q \<le> int (card (woken l q s pc))" using run l(1) unfolding mq_run_inv_def served_def by blast
    from bal [OF l] show "to_serve l s' q \<le> int (card (woken l q s' (leaves L pc)))"
    proof (elim disjE exE conjE)
      fix N assume N: "N \<subseteq> woken l q s' (leaves L pc)" "N \<inter> woken l q s pc = {}"
        "to_serve l s' q \<le> to_serve l s q - int (card (L \<inter> woken l q s pc)) + int (card N)"
      show ?thesis by (rule serve_step [OF sv _ N(2) _ _ N(3)]) (use N(1) rp(3) in auto)
    qed simp
  qed
  then show ?thesis using inv rp(1) by (simp add: mq_run_inv_def)
qed

lemma released_tasks: "mq_static s s' \<Longrightarrow> mq_tasks s s' \<Longrightarrow> L \<subseteq> {hd (g_readytorun s)} \<Longrightarrow> released L s s'"
  by (rule releasedI) (simp_all only: mq_tasks_def, blast+)

lemma released_failed: "mq_failed e s s' \<Longrightarrow> released {hd (g_readytorun s)} s s'"
  by (rule releasedI) (auto simp: mq_failed_def mq_tasks_def runnable_set_def)

lemma taken_out:
  assumes inv: "mq_inv s" and l: "mq_wait_list l" and b: "b \<in> set (tlist s l)"
    and s': "tlist s' l = remove1 b (tlist s l)" "\<forall>l'. mq_wait_list l' \<longrightarrow> l' \<noteq> l \<longrightarrow> tlist s' l' = tlist s l'" and x: "mq_wait_list x"
  shows "set (tlist s' x) = set (tlist s x) - {b}"
proof (cases "x = l")
  case True
  have "distinct (tlist s l)" using inv_distinct wf_inv mq_inv_parts(1) [OF inv] by blast
  then show ?thesis using True s'(1) by (simp add: set_remove1_eq)
next
  case False
  moreover have "tlist s' x = tlist s x" using s'(2) x False by blast
  ultimately show ?thesis using x running_unlisted [OF wf_inv [OF mq_inv_parts(1) [OF inv]] b False] by simp
qed

lemma released_interrupted:
  assumes inv: "mq_inv s" and l: "mq_wait_list l" and i: "mq_interrupted l t e s s'"
  shows "released {} s s'"
proof -
  have i': "t \<in> set (tlist s l)" "tlist s' l = remove1 t (tlist s l)" "\<forall>l'. mq_wait_list l' \<longrightarrow> l' \<noteq> l \<longrightarrow> tlist s' l' = tlist s l'"
    "msgwaitq s' = (msgwaitq s)(t := NULL)" "runnable_set s' = insert t (runnable_set s)" "pterrno s' = (pterrno s)(t := e)" "mq_static s s'"
    using i by (simp_all add: mq_interrupted_def)
  note sub = taken_out [OF inv l i'(1-3)]
  have "t \<notin> runnable_set s" by (rule waiting_not_runnable [OF inv l i'(1)])
  then show ?thesis using i'(7) by (intro releasedI) (simp_all only: sub i'(4-6), auto)
qed

lemma released_woke:
  assumes run: "mq_run_inv s pc" and st: "mq_static s s'" and l: "mq_wait_list l" and w: "woke l q s s'" and L: "L \<subseteq> {hd (g_readytorun s)}"
  shows "released L s s'" "waiting l q s' \<noteq> {} \<Longrightarrow> \<exists>N. N \<subseteq> woken l q s' (leaves L pc) \<and> N \<inter> woken l q s pc = {} \<and> card N = 1"
proof -
  have inv: "mq_inv s" and ok: "pcs_ok s pc" using run by (simp_all add: mq_run_inv_def)
  have "released L s s' \<and> (waiting l q s' \<noteq> {} \<longrightarrow> (\<exists>N. N \<subseteq> woken l q s' (leaves L pc) \<and> N \<inter> woken l q s pc = {} \<and> card N = 1))"
  proof (cases "filter (\<lambda>t. msgwaitq s t = q) (tlist s l)")
    case Nil
    then have t: "mq_tasks s s'" using w by (simp add: woke_def)
    then have "waiting l q s' = {}" using Nil l by (auto simp: waiting_def mq_tasks_def filter_empty_conv)
    then show ?thesis using released_tasks [OF st t L] by simp
  next
    case (Cons b bs)
    have "b \<in> set (filter (\<lambda>t. msgwaitq s t = q) (tlist s l))" unfolding Cons by simp
    then have b: "b \<in> set (tlist s l)" "msgwaitq s b = q" by simp_all
    have w': "tlist s' l = remove1 b (tlist s l)" "\<forall>x. mq_wait_list x \<longrightarrow> x \<noteq> l \<longrightarrow> tlist s' x = tlist s x" "msgwaitq s' = (msgwaitq s)(b := NULL)"
      "runnable_set s' = insert b (runnable_set s)" "pterrno s' = pterrno s" using w Cons by (auto simp: woke_def)
    note sub = taken_out [OF inv l b(1) w'(1,2)]
    have rel: "released L s s'" using st L by (intro releasedI) (simp_all only: sub w'(3-5), auto)
    have bn: "b \<notin> runnable_set s" by (rule waiting_not_runnable [OF inv l b(1)])
    have "b \<notin> L" using mq_running_not_waiting(1) [OF inv l] L b(1) by blast
    moreover have "pterrno s b = 0" "\<exists>d. waits_as (pc b) l = Some d \<and> des_msgq s d = q" using ok l b unfolding pcs_ok_def by blast+
    ultimately have "b \<in> woken l q s' (leaves L pc)" using w'(4,5) st by (simp add: woken_def leaves_def mq_static_def)
    moreover have "b \<notin> woken l q s pc" using bn by (simp add: woken_def)
    ultimately show ?thesis using rel by (intro conjI impI exI [of _ "{b}"]) simp_all
  qed
  then show "released L s s'" "waiting l q s' \<noteq> {} \<Longrightarrow> \<exists>N. N \<subseteq> woken l q s' (leaves L pc) \<and> N \<inter> woken l q s pc = {} \<and> card N = 1" by blast+
qed

lemma leaver_counts:
  assumes L: "L \<subseteq> {r}" and own: "\<forall>l d. r \<in> L \<longrightarrow> waits_as (pc r) l = Some d \<longrightarrow> l = l0 \<and> des_msgq s d = q0"
  shows "int (card (L \<inter> woken l q s pc)) \<le> (if l = l0 \<and> q = q0 then 1 else 0)"
proof (cases "l = l0 \<and> q = q0")
  case True
  have "card (L \<inter> woken l q s pc) \<le> card {r}" by (rule card_mono) (use L in auto)
  then show ?thesis using True by simp
next
  case False
  then have "L \<inter> woken l q s pc = {}" using L own unfolding woken_def by blast
  then show ?thesis by simp
qed

text \<open>A message that passes from the senders of a queue to its receivers, or a place that passes back.\<close>

lemma run_transfer:
  assumes run: "mq_run_inv s pc" and inv: "mq_inv s'" and st: "mq_static s s'" and l: "mq_wait_list l1" and w: "woke l1 q s s'"
    and L: "L \<subseteq> {hd (g_readytorun s)}" and own: "\<forall>l d. hd (g_readytorun s) \<in> L \<longrightarrow> waits_as (pc (hd (g_readytorun s))) l = Some d \<longrightarrow> l = l0 \<and> des_msgq s d = q"
    and ne: "l0 \<noteq> l1" and bal: "\<And>l x. mq_wait_list l \<Longrightarrow> to_serve l s' x = to_serve l s x + (if x = q then (if l = l1 then 1 else -1) else 0)"
    and l0: "mq_wait_list l0"
  shows "mq_run_inv s' (leaves L pc)"
proof (rule released_run [OF run released_woke(1) [OF run st l w L] inv])
  fix l x assume l': "mq_wait_list l" "waiting l x s' \<noteq> {}"
  have c: "int (card (L \<inter> woken l x s pc)) \<le> (if l = l0 \<and> x = q then 1 else 0)" by (rule leaver_counts [where pc = pc and s = s, OF L own])
  show "to_serve l s' x \<le> 0 \<or>
      (\<exists>N. N \<subseteq> woken l x s' (leaves L pc) \<and> N \<inter> woken l x s pc = {} \<and> to_serve l s' x \<le> to_serve l s x - int (card (L \<inter> woken l x s pc)) + int (card N))"
  proof (cases "l = l1 \<and> x = q")
    case True
    then obtain N where "N \<subseteq> woken l x s' (leaves L pc)" "N \<inter> woken l x s pc = {}" "card N = 1"
      using released_woke(2) [OF run st l w L] l'(2) by blast
    moreover have "to_serve l s' x = to_serve l s x + 1" using bal [OF l'(1), of x] True by simp
    moreover have "int (card (L \<inter> woken l x s pc)) \<le> 0" using c True ne by simp
    ultimately show ?thesis by (intro disjI2 exI [of _ N]) simp
  next
    case False
    have "to_serve l s' x \<le> to_serve l s x - int (card (L \<inter> woken l x s pc))"
    proof (cases "x = q")
      case True
      then have "l \<noteq> l1" using False by simp
      then have "to_serve l s' x = to_serve l s x - 1" using bal [OF l'(1), of x] True by simp
      then show ?thesis using c by (simp split: if_splits)
    next
      case False
      then show ?thesis using bal [OF l'(1), of x] c by simp
    qed
    then show ?thesis by (intro disjI2 exI [of _ "{}"]) simp
  qed
qed

lemma length_mq_put [simp]: "length (mq_put p b ms) = Suc (length ms)"
  by (simp add: mq_put_def)

lemma run_sent:
  assumes run: "mq_run_inv s pc" and inv: "mq_inv s'" and snt: "mq_sent q p b s s'" and L: "L \<subseteq> {hd (g_readytorun s)}"
    and own: "\<forall>l d. hd (g_readytorun s) \<in> L \<longrightarrow> waits_as (pc (hd (g_readytorun s))) l = Some d \<longrightarrow> l = Waitingformqnotfull \<and> des_msgq s d = q"
  shows "mq_run_inv s' (leaves L pc)"
proof -
  have m: "mq_static s s'" "mq_view s' = (mq_view s)(q := mq_put p b (mq_view s q))" "woke Waitingformqnotempty q s s'"
    using snt by (simp_all add: mq_sent_def)
  have "maxmsgs s' = maxmsgs s" using m(1) by (simp add: mq_static_def)
  then show ?thesis by (intro run_transfer [OF run inv m(1) _ m(3) L own]) (auto simp: to_serve_def m(2))
qed

lemma run_received:
  assumes run: "mq_run_inv s pc" and inv: "mq_inv s'" and rc: "mq_received q m s s'"
    and own: "\<forall>l d. waits_as (pc (hd (g_readytorun s))) l = Some d \<longrightarrow> l = Waitingformqnotempty \<and> des_msgq s d = q"
  shows "mq_run_inv s' (leaves {hd (g_readytorun s)} pc)"
proof -
  have m: "mq_static s s'" "mq_view s q = m # mq_view s' q" "mq_view s' = (mq_view s)(q := tl (mq_view s q))" "woke Waitingformqnotfull q s s'"
    using rc unfolding mq_received_def by blast+
  have "length (mq_view s q) = length (m # mq_view s' q)" by (rule arg_cong [OF m(2)])
  then have n: "length (mq_view s q) = Suc (length (mq_view s' q))" by simp
  have other: "mq_view s' x = mq_view s x" if "x \<noteq> q" for x unfolding m(3) using that by simp
  have "maxmsgs s' = maxmsgs s" using m(1) by (simp add: mq_static_def)
  then have bal: "to_serve l s' x = to_serve l s x + (if x = q then (if l = Waitingformqnotfull then 1 else -1) else 0)" if "mq_wait_list l" for l x
    using n other that by (cases "x = q") (auto simp: to_serve_def)
  show ?thesis by (rule run_transfer [OF run inv m(1) _ m(4) _ _ _ bal]) (use own in auto)
qed

text \<open>A call that fails: its task was not woken, or there was nothing to do.\<close>

lemma run_failed:
  assumes run: "mq_run_inv s pc" and inv: "mq_inv s'" and rel: "released L s s'" and v: "mq_view s' = mq_view s"
    and own: "\<forall>l d. hd (g_readytorun s) \<in> L \<longrightarrow> pterrno s (hd (g_readytorun s)) = 0 \<longrightarrow> waits_as (pc (hd (g_readytorun s))) l = Some d \<longrightarrow> to_serve l s (des_msgq s d) \<le> 0"
  shows "mq_run_inv s' (leaves L pc)"
proof (rule released_run [OF run rel inv])
  fix l q
  have "maxmsgs s' = maxmsgs s" using releasedD(1) [OF rel] by (simp add: mq_static_def)
  then have e: "to_serve l s' q = to_serve l s q" using v by (simp add: to_serve_def)
  show "to_serve l s' q \<le> 0 \<or>
      (\<exists>N. N \<subseteq> woken l q s' (leaves L pc) \<and> N \<inter> woken l q s pc = {} \<and> to_serve l s' q \<le> to_serve l s q - int (card (L \<inter> woken l q s pc)) + int (card N))"
  proof (cases "L \<inter> woken l q s pc = {}")
    case True
    then show ?thesis using e by (intro disjI2 exI [of _ "{}"]) simp
  next
    case False
    then have "hd (g_readytorun s) \<in> L" "hd (g_readytorun s) \<in> woken l q s pc" using releasedD(2) [OF rel] by blast+
    then show ?thesis using own e by (auto simp: woken_def)
  qed
qed

lemma run_blocked:
  assumes run: "mq_run_inv s pc" and inv: "mq_inv s'" and b: "mq_blocked l q s s'" and l: "mq_wait_list l" and t: "hd (g_readytorun s) \<noteq> idle_tcb s"
    and x: "waits_as x l = Some d" "des_msgq s d = q" "pc_ok x s" and zero: "to_serve l s q \<le> 0"
    and own: "\<forall>l' d. waits_as (pc (hd (g_readytorun s))) l' = Some d \<longrightarrow> l' = l \<and> des_msgq s d = q"
  shows "mq_run_inv s' (pc(hd (g_readytorun s) := x))"
proof -
  let ?r = "hd (g_readytorun s)" and ?pc = "pc(hd (g_readytorun s) := x)"
  have inv0: "mq_inv s" and ok: "pcs_ok s pc" and sv: "served s pc" using run by (simp_all add: mq_run_inv_def)
  have b': "mq_static s s'" "mq_view s' = mq_view s" "tlist s' l = prio_insert s ?r (tlist s l)" "\<forall>l'. mq_wait_list l' \<longrightarrow> l' \<noteq> l \<longrightarrow> tlist s' l' = tlist s l'"
    "msgwaitq s' = (msgwaitq s)(?r := q)" "runnable_set s' = runnable_set s - {?r}" "pterrno s' = (pterrno s)(?r := 0)" using b by (simp_all add: mq_blocked_def Let_def)
  have d: "des_msgq s' = des_msgq s" "idle_tcb s' = idle_tcb s" "maxmsgs s' = maxmsgs s" using b'(1) by (simp_all add: mq_static_def)
  have lists: "set (tlist s' k) = (if k = l then insert ?r (set (tlist s k)) else set (tlist s k))" if "mq_wait_list k" for k
  proof (cases "k = l")
    case False
    then have "tlist s' k = tlist s k" using b'(4) that by blast
    then show ?thesis using False by simp
  qed (simp add: b'(3))
  have nr: "?r \<notin> set (tlist s k)" if "mq_wait_list k" for k by (rule mq_running_not_waiting(1) [OF inv0 that])
  have ok1: "\<And>k t. mq_wait_list k \<Longrightarrow> t \<in> set (tlist s k) \<Longrightarrow> pterrno s t = 0 \<and> (\<exists>d. waits_as (pc t) k = Some d \<and> des_msgq s d = msgwaitq s t)"
    and ok2: "\<And>t. pc t \<noteq> Outside \<Longrightarrow> t \<noteq> idle_tcb s \<and> pc_ok (pc t) s \<and> (t \<in> runnable_set s \<or> (\<exists>l. mq_wait_list l \<and> t \<in> set (tlist s l)))"
    using ok unfolding pcs_ok_def by (elim conjE; metis)+
  have "pcs_ok s' ?pc"
    unfolding pcs_ok_def
  proof (intro conjI allI impI)
    fix k u assume k: "mq_wait_list k" "u \<in> set (tlist s' k)"
    have "pterrno s' u = 0 \<and> (\<exists>d. waits_as (?pc u) k = Some d \<and> des_msgq s' d = msgwaitq s' u)"
    proof (cases "u = ?r")
      case True
      then have "k = l" using k(2) nr [OF k(1)] unfolding lists [OF k(1)] by (simp split: if_splits)
      then show ?thesis using True x b'(5,7) d by simp
    next
      case False
      then have "u \<in> set (tlist s k)" using k(2) unfolding lists [OF k(1)] by (simp split: if_splits)
      then show ?thesis using ok1 [OF k(1)] False b'(5,7) d by simp
    qed
    then show "pterrno s' u = 0" "\<exists>d. waits_as (?pc u) k = Some d \<and> des_msgq s' d = msgwaitq s' u" by blast+
  next
    fix u assume u: "?pc u \<noteq> Outside"
    have "u \<noteq> idle_tcb s \<and> pc_ok (?pc u) s \<and> (u \<in> runnable_set s' \<or> (\<exists>k. mq_wait_list k \<and> u \<in> set (tlist s' k)))"
    proof (cases "u = ?r")
      case True
      then show ?thesis using t x(3) lists [OF l] l by auto
    next
      case False
      then have "pc u \<noteq> Outside" using u by simp
      from ok2 [OF this] have p: "u \<noteq> idle_tcb s" "pc_ok (pc u) s" "u \<in> runnable_set s \<or> (\<exists>l. mq_wait_list l \<and> u \<in> set (tlist s l))" by blast+
      have "u \<in> set (tlist s' k)" if "mq_wait_list k" "u \<in> set (tlist s k)" for k using that lists [of k] by (cases "k = l") simp_all
      then show ?thesis using p False b'(6) by auto
    qed
    then show "u \<noteq> idle_tcb s'" "pc_ok (?pc u) s'" "u \<in> runnable_set s' \<or> (\<exists>k. mq_wait_list k \<and> u \<in> set (tlist s' k))"
      using d(2) pc_ok_static [OF b'(1)] by simp_all
  qed
  moreover have "served s' ?pc"
    unfolding served_def
  proof (intro allI impI)
    fix k y assume k: "mq_wait_list k" "waiting k y s' \<noteq> {}"
    have e: "to_serve k s' y = to_serve k s y" using b'(2) d(3) by (simp add: to_serve_def)
    show "to_serve k s' y \<le> int (card (woken k y s' ?pc))"
    proof (cases "k = l \<and> y = q")
      case True
      then show ?thesis using e zero by simp
    next
      case False
      have "waiting k y s' \<subseteq> waiting k y s"
        using False b'(5) nr [OF k(1)] unfolding waiting_def lists [OF k(1)] by (auto split: if_splits)
      then have "to_serve k s y \<le> int (card (woken k y s pc))" using sv k unfolding served_def by blast
      moreover have "?r \<notin> woken k y s pc" using own False by (auto simp: woken_def)
      then have "woken k y s pc \<subseteq> woken k y s' ?pc" using b'(6,7) d(1) by (auto simp: woken_def)
      then have "card (woken k y s pc) \<le> card (woken k y s' ?pc)" by (rule card_mono [rotated]) simp
      ultimately show ?thesis using e by linarith
    qed
  qed
  ultimately show ?thesis using inv by (simp add: mq_run_inv_def)
qed

text \<open>The calls of a run. A call made by a task is made by the running one; a blocked one goes on when its task runs again.
  \<open>Signal\<close> is the end of a wait by \<open>mq_waitirq\<close> for a signal.\<close>

datatype mq_call =
    Send addr addr "u8 list option" nat int
  | Send_resume addr
  | Receive addr "nat option" nat
  | Receive_resume
  | Send_irq addr addr "u8 list option" nat int
  | Sndtimeout int
  | Rcvtimeout int
  | Signal addr
  | Sched sched_call

fun mq_permitted :: "mq_call \<Rightarrow> 'a mq_state_scheme \<times> (addr \<Rightarrow> mq_pc) \<Rightarrow> bool" where
  "mq_permitted (Send mem mqdes msg len prio) (s, pc) \<longleftrightarrow> pc (hd (g_readytorun s)) = Outside \<and> hd (g_readytorun s) \<noteq> idle_tcb s \<and>
     lockcount s (hd (g_readytorun s)) + 1 < MAX_LOCK_COUNT \<and> (mq_verifysend mqdes msg len prio s = 0 \<longrightarrow> mq_send_ok False mem mqdes (the msg) len s)"
| "mq_permitted (Send_resume mem) (s, pc) \<longleftrightarrow> lockcount s (hd (g_readytorun s)) < MAX_LOCK_COUNT \<and>
     (case pc (hd (g_readytorun s)) of Sending mqdes msg len prio \<Rightarrow> mq_send_ok False mem mqdes msg len s | _ \<Rightarrow> False)"
| "mq_permitted (Receive mqdes buf len) (s, pc) \<longleftrightarrow> pc (hd (g_readytorun s)) = Outside \<and> hd (g_readytorun s) \<noteq> idle_tcb s \<and>
     lockcount s (hd (g_readytorun s)) < MAX_LOCK_COUNT \<and> (mq_verifyreceive mqdes buf len s = 0 \<longrightarrow> des_msgq s mqdes \<noteq> NULL \<and> len \<le> the buf)"
| "mq_permitted Receive_resume (s, pc) \<longleftrightarrow> (case pc (hd (g_readytorun s)) of Receiving mqdes buf \<Rightarrow> True | _ \<Rightarrow> False)"
| "mq_permitted (Send_irq mem mqdes msg len prio) (s, pc) \<longleftrightarrow> (mq_verifysend mqdes msg len prio s = 0 \<longrightarrow> mq_send_ok True mem mqdes (the msg) len s)"
| "mq_permitted (Sndtimeout pid) (s, pc) \<longleftrightarrow> sched_gettcb pid s = NULL \<or> (\<exists>l. sched_gettcb pid s \<in> set (tlist s l))"
| "mq_permitted (Rcvtimeout pid) (s, pc) \<longleftrightarrow> sched_gettcb pid s = NULL \<or> (\<exists>l. sched_gettcb pid s \<in> set (tlist s l))"
| "mq_permitted (Signal t) (s, pc) \<longleftrightarrow> (\<exists>l. t \<in> set (tlist s l))"
| "mq_permitted (Sched c) (s, pc) \<longleftrightarrow> permitted c s \<and> mq_other_call c s \<and> pc (hd (g_readytorun s)) = Outside"

fun mq_exec :: "(int \<Rightarrow> int \<Rightarrow> addr \<Rightarrow> 'a mq_state_scheme \<Rightarrow> 'a mq_state_scheme option) \<Rightarrow> mq_call
    \<Rightarrow> 'a mq_state_scheme \<times> (addr \<Rightarrow> mq_pc) \<Rightarrow> ('a mq_state_scheme \<times> (addr \<Rightarrow> mq_pc)) option" where
  "mq_exec notify (Send mem mqdes msg len prio) (s, pc) = do {
     (r, s') \<leftarrow> mq_send notify False mem mqdes msg len prio s;
     Some (s', pc(hd (g_readytorun s) := (case r of Done _ \<Rightarrow> Outside | Switched \<Rightarrow> Sending mqdes (the msg) len prio)))
   }"
| "mq_exec notify (Send_resume mem) (s, pc) = (case pc (hd (g_readytorun s)) of Sending mqdes msg len prio \<Rightarrow> do {
     (r, s') \<leftarrow> mq_send_resume notify mem mqdes msg len prio s;
     Some (s', pc(hd (g_readytorun s) := (case r of Done _ \<Rightarrow> Outside | Switched \<Rightarrow> Sending mqdes msg len prio)))
   } | _ \<Rightarrow> None)"
| "mq_exec notify (Receive mqdes buf len) (s, pc) = do {
     (r, s') \<leftarrow> mq_receive False mqdes buf len s;
     Some (s', pc(hd (g_readytorun s) := (case r of Done _ \<Rightarrow> Outside | Switched \<Rightarrow> Receiving mqdes (the buf))))
   }"
| "mq_exec notify Receive_resume (s, pc) = (case pc (hd (g_readytorun s)) of Receiving mqdes buf \<Rightarrow> do {
     (r, s') \<leftarrow> mq_receive_resume mqdes buf s;
     Some (s', pc(hd (g_readytorun s) := (case r of Done _ \<Rightarrow> Outside | Switched \<Rightarrow> Receiving mqdes buf)))
   } | _ \<Rightarrow> None)"
| "mq_exec notify (Send_irq mem mqdes msg len prio) (s, pc) = map_option (\<lambda>(_, s'). (s', pc)) (mq_send notify True mem mqdes msg len prio s)"
| "mq_exec notify (Sndtimeout pid) (s, pc) = map_option (\<lambda>s'. (s', pc)) (mq_sndtimeout pid s)"
| "mq_exec notify (Rcvtimeout pid) (s, pc) = map_option (\<lambda>s'. (s', pc)) (mq_rcvtimeout pid s)"
| "mq_exec notify (Signal t) (s, pc) = map_option (\<lambda>s'. (s', pc)) (mq_waitirq t EINTR s)"
| "mq_exec notify (Sched c) (s, pc) = map_option (\<lambda>s'. (s', pc)) (sched_exec c s)"

inductive mq_reach :: "(int \<Rightarrow> int \<Rightarrow> addr \<Rightarrow> 'a mq_state_scheme \<Rightarrow> 'a mq_state_scheme option)
    \<Rightarrow> 'a mq_state_scheme \<times> (addr \<Rightarrow> mq_pc) \<Rightarrow> 'a mq_state_scheme \<times> (addr \<Rightarrow> mq_pc) \<Rightarrow> bool" for notify x0 where
  start: "mq_reach notify x0 x0"
| call: "mq_reach notify x0 x \<Longrightarrow> mq_permitted c x \<Longrightarrow> mq_exec notify c x = Some x' \<Longrightarrow> mq_reach notify x0 x'"

text \<open>Each call of a run returns a state in which no wakeup is lost.\<close>

definition mq_returns :: "('a mq_state_scheme \<times> (addr \<Rightarrow> mq_pc)) option \<Rightarrow> bool" where
  "mq_returns x \<longleftrightarrow> (\<exists>s' pc'. x = Some (s', pc') \<and> mq_run_inv s' pc')"

lemma mq_returnsI: "x = Some (s', pc') \<Longrightarrow> mq_run_inv s' pc' \<Longrightarrow> mq_returns x"
  by (auto simp: mq_returns_def)

lemma run_facts:
  assumes "mq_run_inv s pc"
  shows "mq_inv s" and "pc t \<noteq> Outside \<Longrightarrow> t \<noteq> idle_tcb s \<and> pc_ok (pc t) s"
  using assms unfolding mq_run_inv_def pcs_ok_def by blast+

lemma put_errno_fails:
  assumes "mq_inv s"
  shows "mq_inv (put_errno False e s)" "mq_failed e s (put_errno False e s)"
proof -
  note e = put_errno_running [OF wf_inv [OF mq_inv_parts(1) [OF assms]], of e]
  show "mq_inv (put_errno False e s)" "mq_failed e s (put_errno False e s)"
    using assms by (simp_all add: e mq_inv_errno mq_failed_def mq_frame_defs)
qed

lemma run_send:
  assumes run: "mq_run_inv s pc" and p: "mq_permitted (Send mem mqdes msg len prio) (s, pc)"
  shows "mq_returns (mq_exec notify (Send mem mqdes msg len prio) (s, pc))"
proof -
  let ?r = "hd (g_readytorun s)"
  note inv = run_facts(1) [OF run]
  have p': "pc ?r = Outside" "?r \<noteq> idle_tcb s" "lockcount s ?r + 1 < MAX_LOCK_COUNT" using p by simp_all
  have out: "pc(?r := Outside) = leaves {?r} pc" by (simp add: leaves_one)
  have fails: "mq_returns (Some (s', pc(?r := Outside)))" if "mq_inv s'" "mq_failed e s s'" for e s'
    unfolding out by (rule mq_returnsI [OF refl run_failed [OF run that(1) released_failed [OF that(2)]]]) (use that(2) p'(1) in \<open>auto simp: mq_failed_def\<close>)
  show ?thesis
  proof (cases "mq_verifysend mqdes msg len prio s = 0")
    case False
    then show ?thesis using fails [OF put_errno_fails [OF inv]] by (simp add: mq_send_def Let_def)
  next
    case True
    then have ok: "mq_send_ok False mem mqdes (the msg) len s" using p by simp
    show ?thesis
    proof (cases rule: mq_send_spec [OF inv ok True p'(2,3), where notify = notify])
      case (1 s')
      have "mq_run_inv s' (leaves {?r} pc)" by (rule run_sent [OF run 1(2,3)]) (use p'(1) in auto)
      then show ?thesis using 1(1) out by (auto intro: mq_returnsI)
    next
      case (2 s')
      then show ?thesis using fails by simp
    next
      case (3 s')
      have "pc_ok (Sending mqdes (the msg) len prio) s"
        using ok True by (auto simp: mq_send_ok_def mq_verifysend_def EINVAL_def EPERM_def EMSGSIZE_def split: if_splits)
      moreover have "to_serve Waitingformqnotfull s (des_msgq s mqdes) \<le> 0" using 3(4) length_mq_view [OF inv] by (simp add: to_serve_def)
      ultimately have "mq_run_inv s' (pc(?r := Sending mqdes (the msg) len prio))"
        by (intro run_blocked [OF run 3(2,3) _ p'(2)]) (use p'(1) in auto)
      then show ?thesis using 3(1) by (auto intro: mq_returnsI)
    qed
  qed
qed

lemma run_leaves:
  assumes run: "mq_run_inv s pc" and inv: "mq_inv s'" and s': "mq_static s s'" "mq_view s' = mq_view s" "mq_tasks s s'" and e: "pterrno s (hd (g_readytorun s)) \<noteq> 0"
  shows "mq_run_inv s' (pc(hd (g_readytorun s) := Outside))"
  unfolding leaves_one [symmetric] by (rule run_failed [OF run inv released_tasks [OF s'(1,3)] s'(2)]) (use e in auto)

lemma run_send_resume:
  assumes run: "mq_run_inv s pc" and p: "mq_permitted (Send_resume mem) (s, pc)"
  shows "mq_returns (mq_exec notify (Send_resume mem) (s, pc))"
proof -
  let ?r = "hd (g_readytorun s)"
  note inv = run_facts(1) [OF run]
  obtain mqdes msg len prio where pc: "pc ?r = Sending mqdes msg len prio" and ok: "mq_send_ok False mem mqdes msg len s" and lc: "lockcount s ?r < MAX_LOCK_COUNT"
    using p by (auto split: mq_pc.splits)
  have pk: "0 \<le> prio" "prio \<le> MQ_PRIO_MAX" "len \<le> maxmsgsize s (des_msgq s mqdes)" and t: "?r \<noteq> idle_tcb s" and pok: "pc_ok (Sending mqdes msg len prio) s"
    using run_facts(2) [OF run, of ?r] pc by simp_all
  have own: "\<forall>l d. waits_as (pc ?r) l = Some d \<longrightarrow> l = Waitingformqnotfull \<and> des_msgq s d = des_msgq s mqdes" using pc by simp
  show ?thesis
  proof (cases rule: mq_send_resume_spec [OF inv ok pk t lc, where notify = notify])
    case (1 s')
    have "mq_run_inv s' (leaves {?r} pc)" by (rule run_sent [OF run 1(2,3)]) (use own in auto)
    then show ?thesis using 1(1) pc by (simp add: mq_returns_def leaves_one)
  next
    case (2 s')
    then show ?thesis using run_leaves [OF run 2(2-6)] pc by (simp add: mq_returns_def)
  next
    case (3 s')
    have "to_serve Waitingformqnotfull s (des_msgq s mqdes) \<le> 0" using 3(4) length_mq_view [OF inv] by (simp add: to_serve_def)
    then have "mq_run_inv s' (pc(?r := Sending mqdes msg len prio))"
      by (intro run_blocked [OF run 3(2,3) _ t _ _ pok _ own]) simp_all
    then show ?thesis using 3(1) pc by (simp add: mq_returns_def)
  qed
qed

lemma run_receive:
  assumes run: "mq_run_inv s pc" and p: "mq_permitted (Receive mqdes buf len) (s, pc)"
  shows "mq_returns (mq_exec notify (Receive mqdes buf len) (s, pc))"
proof -
  let ?r = "hd (g_readytorun s)"
  note inv = run_facts(1) [OF run]
  have p': "pc ?r = Outside" "?r \<noteq> idle_tcb s" "lockcount s ?r < MAX_LOCK_COUNT" using p by simp_all
  have out: "pc(?r := Outside) = leaves {?r} pc" by (simp add: leaves_one)
  have fails: "mq_returns (Some (s', pc(?r := Outside)))" if "mq_inv s'" "mq_failed e s s'" for e s'
    unfolding out by (rule mq_returnsI [OF refl run_failed [OF run that(1) released_failed [OF that(2)]]]) (use that(2) p'(1) in \<open>auto simp: mq_failed_def\<close>)
  show ?thesis
  proof (cases "mq_verifyreceive mqdes buf len s = 0")
    case False
    then show ?thesis using fails [OF put_errno_fails [OF inv]] by (simp add: mq_receive_def debugassert_def Let_def)
  next
    case True
    then obtain n where n: "buf = Some n" by (cases buf) (simp_all add: mq_verifyreceive_def EINVAL_def)
    have q: "des_msgq s mqdes \<noteq> NULL" "len \<le> n" using p True n by simp_all
    have sz: "maxmsgsize s (des_msgq s mqdes) \<le> n" using True q(2) by (simp add: n mq_verifyreceive_def EINVAL_def EPERM_def EMSGSIZE_def split: if_splits)
    show ?thesis
    proof (cases rule: mq_receive_spec [OF inv q(1) True [unfolded n] q(2) p'(2,3)])
      case (1 bytes p s')
      have "mq_run_inv s' (leaves {?r} pc)" by (rule run_received [OF run 1(2,3)]) (use p'(1) in auto)
      then show ?thesis using 1(1) out n by (simp add: mq_returns_def)
    next
      case (2 s')
      then show ?thesis using fails n by simp
    next
      case (3 s')
      have "to_serve Waitingformqnotempty s (des_msgq s mqdes) \<le> 0" using 3(4) by (simp add: to_serve_def)
      then have "mq_run_inv s' (pc(?r := Receiving mqdes n))"
        by (intro run_blocked [OF run 3(2,3) _ p'(2)]) (use p'(1) q(1) sz in auto)
      then show ?thesis using 3(1) n by (simp add: mq_returns_def)
    qed
  qed
qed

lemma run_receive_resume:
  assumes run: "mq_run_inv s pc" and p: "mq_permitted Receive_resume (s, pc)"
  shows "mq_returns (mq_exec notify Receive_resume (s, pc))"
proof -
  let ?r = "hd (g_readytorun s)"
  note inv = run_facts(1) [OF run]
  obtain mqdes buf where pc: "pc ?r = Receiving mqdes buf" using p by (auto split: mq_pc.splits)
  have pk: "des_msgq s mqdes \<noteq> NULL" "maxmsgsize s (des_msgq s mqdes) \<le> buf" and t: "?r \<noteq> idle_tcb s" and pok: "pc_ok (Receiving mqdes buf) s"
    using run_facts(2) [OF run, of ?r] pc by simp_all
  have own: "\<forall>l d. waits_as (pc ?r) l = Some d \<longrightarrow> l = Waitingformqnotempty \<and> des_msgq s d = des_msgq s mqdes" using pc by simp
  show ?thesis
  proof (cases rule: mq_receive_resume_spec [OF inv pk t])
    case (1 bytes p s')
    have "mq_run_inv s' (leaves {?r} pc)" by (rule run_received [OF run 1(2,3) own])
    then show ?thesis using 1(1) pc by (simp add: mq_returns_def leaves_one)
  next
    case (2 s')
    then show ?thesis using run_leaves [OF run 2(2-6)] pc by (simp add: mq_returns_def)
  next
    case (3 s')
    have "mq_view s' = mq_view s" using 3(3) by (simp add: mq_failed_def)
    then have "mq_run_inv s' (leaves {?r} pc)"
      by (rule run_failed [OF run 3(2) released_failed [OF 3(3)]]) (use pc 3(4) in \<open>auto simp: to_serve_def\<close>)
    then show ?thesis using 3(1) pc by (simp add: mq_returns_def leaves_one)
  next
    case (4 s')
    have "to_serve Waitingformqnotempty s (des_msgq s mqdes) \<le> 0" using 4(4) by (simp add: to_serve_def)
    then have "mq_run_inv s' (pc(?r := Receiving mqdes buf))"
      by (intro run_blocked [OF run 4(2,3) _ t _ _ pok _ own]) simp_all
    then show ?thesis using 4(1) pc by (simp add: mq_returns_def)
  qed
qed

lemma run_send_irq:
  assumes run: "mq_run_inv s pc" and p: "mq_permitted (Send_irq mem mqdes msg len prio) (s, pc)"
  shows "mq_returns (mq_exec notify (Send_irq mem mqdes msg len prio) (s, pc))"
proof (cases "mq_verifysend mqdes msg len prio s = 0")
  case False
  then show ?thesis using run by (simp add: mq_send_def put_errno_def mq_returns_def Let_def)
next
  case True
  note inv = run_facts(1) [OF run]
  have "mq_send_ok True mem mqdes (the msg) len s" using p True by simp
  from mq_send_irq_spec [OF inv this True] obtain ret s' where s': "mq_send notify True mem mqdes msg len prio s = Some (Done ret, s')" "mq_inv s'"
    "if ret then mq_sent (des_msgq s mqdes) (nat prio) (take len (the msg)) s s' else mq_static s s' \<and> mq_view s' = mq_view s \<and> mq_tasks s s'"
    by metis
  have "mq_run_inv s' (leaves {} pc)"
  proof (cases ret)
    case True
    then have m: "mq_sent (des_msgq s mqdes) (nat prio) (take len (the msg)) s s'" using s'(3) by simp
    show ?thesis by (rule run_sent [OF run s'(2) m]) simp_all
  next
    case False
    then have m: "mq_static s s'" "mq_view s' = mq_view s" "mq_tasks s s'" using s'(3) by simp_all
    show ?thesis by (rule run_failed [OF run s'(2) released_tasks [OF m(1,3)] m(2)]) simp_all
  qed
  then show ?thesis using s'(1) by (simp add: mq_returns_def)
qed

lemma run_waitirq:
  assumes run: "mq_run_inv s pc" and t: "\<exists>l. t \<in> set (tlist s l)"
  shows "\<exists>s'. mq_waitirq t e s = Some s' \<and> mq_run_inv s' pc"
proof (cases "task_state s t = TSTATE_WAIT_MQNOTEMPTY \<or> task_state s t = TSTATE_WAIT_MQNOTFULL")
  case False
  then show ?thesis using run by (simp add: mq_waitirq_def)
next
  case True
  note inv = run_facts(1) [OF run]
  note i = wf_inv [OF mq_inv_parts(1) [OF inv]]
  obtain l where l: "t \<in> set (tlist s l)" using t by blast
  have w: "mq_wait_list l" using states_at [OF i l] True by (cases l) (auto split: if_splits)
  obtain s' where s': "mq_waitirq t e s = Some s'" "mq_inv s'" "mq_interrupted l t e s s'" by (rule mq_waitirq_spec [OF inv w l]) blast
  have "mq_run_inv s' (leaves {} pc)"
    by (rule run_failed [OF run s'(2) released_interrupted [OF inv w s'(3)]]) (use s'(3) in \<open>simp_all add: mq_interrupted_def\<close>)
  then show ?thesis using s'(1) by simp
qed

lemma run_sched:
  assumes run: "mq_run_inv s pc" and c: "permitted c s" "mq_other_call c s" and pc: "pc (hd (g_readytorun s)) = Outside"
  shows "\<exists>s'. sched_exec c s = Some s' \<and> mq_run_inv s' pc"
proof -
  let ?r = "hd (g_readytorun s)"
  note inv = run_facts(1) [OF run]
  obtain s' where s': "sched_exec c s = Some s'" "mq_rescheduled s s'" "runnable_set s - gives_up c s \<subseteq> runnable_set s'"
    using mq_other_call_spec [OF inv c] by blast
  note r = mq_rescheduled_inv [OF inv s'(2)]
  have lists: "set (tlist s' l) = set (tlist s l)" if "mq_wait_list l" for l using s'(2) that unfolding mq_rescheduled_def by blast
  have "gives_up c s \<subseteq> {?r}" by (cases c) simp_all
  then have "released {?r} s s'" using s'(3) by (intro releasedI r(1,2)) (simp_all only: lists r, blast+)
  then have "mq_run_inv s' (leaves {?r} pc)" by (rule run_failed [OF run r(1) _ r(3)]) (simp add: pc)
  moreover have "leaves {?r} pc = pc" using pc by (simp add: leaves_one fun_upd_idem)
  ultimately show ?thesis using s'(1) by auto
qed

lemma mq_exec_returns:
  assumes run: "mq_run_inv s pc" and p: "mq_permitted c (s, pc)"
  shows "mq_returns (mq_exec notify c (s, pc))"
proof (cases c)
  case (Sndtimeout pid)
  then show ?thesis using run_waitirq [OF run, of "sched_gettcb pid s" ETIMEDOUT] run p by (auto simp: mq_sndtimeout_def mq_returns_def Let_def)
next
  case (Rcvtimeout pid)
  then show ?thesis using run_waitirq [OF run, of "sched_gettcb pid s" ETIMEDOUT] run p by (auto simp: mq_rcvtimeout_def mq_returns_def Let_def)
next
  case (Signal t)
  then show ?thesis using run_waitirq [OF run, of t EINTR] p by (auto simp: mq_returns_def)
next
  case (Sched c)
  then show ?thesis using run_sched [OF run] p by (auto simp: mq_returns_def)
qed (use run p run_send run_send_resume run_receive run_receive_resume run_send_irq in \<open>simp_all only:\<close>)

lemma mq_reach_run:
  assumes "mq_reach notify x0 x" "mq_run_inv (fst x0) (snd x0)"
  shows "mq_run_inv (fst x) (snd x)"
  using assms
proof induction
  case (call x c x')
  then show ?case using mq_exec_returns [of "fst x" "snd x" c notify] by (auto simp: mq_returns_def)
qed simp

lemma mq_run_start:
  assumes "mq_inv s" "tlist s Waitingformqnotempty = []" "tlist s Waitingformqnotfull = []"
  shows "mq_run_inv s (\<lambda>_. Outside)"
  using assms by (auto simp: mq_run_inv_def pcs_ok_def served_def waiting_def)

section \<open>Properties\<close>

text \<open>Tasks 1 and 2 and the idle task 9; a queue 20 for two messages, one of them there, behind descriptor 31, and an
  empty queue 21 behind descriptor 32.\<close>

definition mq_demo :: mq_state where
  "mq_demo = \<lparr>tlist = (\<lambda>_. [])(Readytorun := [1, 2, 9]),
     sched_priority = (\<lambda>_. 0)(1 := 100, 2 := 50), base_priority = (\<lambda>_. 0)(1 := 100, 2 := 50),
     npend_reprio = (\<lambda>_. 0), pend_reprios = (\<lambda>_. []),
     task_state = (\<lambda>_. TSTATE_TASK_INVALID)(1 := TSTATE_TASK_RUNNING, 2 := TSTATE_TASK_READYTORUN, 9 := TSTATE_TASK_READYTORUN),
     round_robin = (\<lambda>_. False), lockcount = (\<lambda>_. 0), timeslice = (\<lambda>_. 0),
     tcb_pid = int(9 := 0), pidhash_tcb = (\<lambda>_. 0)(0 := 9, 1 := 1, 2 := 2), pidhash_pid = int, idle_tcb = 9,
     semcount = (\<lambda>_. 0), hlist = (\<lambda>_. []), htcb = (\<lambda>_. 0), hcounts = (\<lambda>_. 0), g_freeholders = [], waitsem = (\<lambda>_. 0), pterrno = (\<lambda>_. 0),
     msglist = (\<lambda>_. [])(20 := [101]), maxmsgs = (\<lambda>_. 2), nmsgs = (\<lambda>_. 0)(20 := 1), nwaitnotfull = (\<lambda>_. 0), nwaitnotempty = (\<lambda>_. 0),
     maxmsgsize = (\<lambda>_. 8), ntmqdes = (\<lambda>_. 0), ntpid = (\<lambda>_. -1), ntsigno = (\<lambda>_. 0), ntvalue = (\<lambda>_. 0),
     des_msgq = (\<lambda>_. 0)(31 := 20, 32 := 21), oflags = (\<lambda>_. O_RDOK OR O_WROK), mtype = (\<lambda>_. MQ_ALLOC_FIXED),
     mpriority = (\<lambda>_. 0)(101 := 7), msglen = (\<lambda>_. 0)(101 := 2), mail = (\<lambda>_. replicate 600 0)(101 := [65, 66] @ replicate 598 0),
     g_msgfree = [100], g_msgfreeirq = [], g_desfree = [], g_desalloc = [], msgwaitq = (\<lambda>_. 0), tcb_group = (\<lambda>_. 0), tg_msgdesq = (\<lambda>_. [])\<rparr>"

lemma mq_demo_sched: "sched_wf mq_demo"
  by (simp add: sched_wf_def sched_inv_def lists_ok_def states_ok_def idle_ok_def all_tasklist by_priority_def mq_demo_def sched_consts)

lemma mq_demo_places: "mq_places_ok mq_demo"
proof -
  have m: "msgs_at p mq_demo = (case p of Queued q \<Rightarrow> if q = 20 then [101] else [] | Free \<Rightarrow> [100] | Freeirq \<Rightarrow> [])" for p
    by (cases p) (simp_all add: mq_demo_def)
  show ?thesis unfolding mq_places_ok_def m by (auto simp: mq_demo_def split: place.splits)
qed

lemma mq_demo_inv: "mq_inv mq_demo"
  unfolding mq_inv_def
  by (intro conjI mq_demo_sched mq_demo_places) (simp_all add: mq_waits_ok_def waits_at_def mq_msgs_ok_def mq_demo_def MQ_MAX_BYTES_def)

text \<open>The order of a queue: behind the messages of the same or a higher priority.\<close>

lemma mq_put_order:
  assumes "sorted_wrt (\<lambda>m m'. fst m' \<le> fst m) ms"
  shows "mq_put p b ms = filter (\<lambda>m. p \<le> fst m) ms @ (p, b) # filter (\<lambda>m. fst m < p) ms"
  using assms
proof (induction ms)
  case (Cons m ms)
  show ?case
  proof (cases "p \<le> fst m")
    case False
    then have "\<forall>m' \<in> set ms. fst m' < p" using Cons.prems by auto
    then have "filter (\<lambda>m. p \<le> fst m) ms = []" "filter (\<lambda>m. fst m < p) ms = ms" by (auto simp: filter_empty_conv filter_id_conv)
    then show ?thesis using False by (simp add: mq_put_def)
  qed (use Cons in \<open>simp add: mq_put_def\<close>)
qed (simp add: mq_put_def)

lemma mq_view_sorted: "mq_inv s \<Longrightarrow> sorted_wrt (\<lambda>m m'. fst m' \<le> fst m) (mq_view s q)"
  using mq_inv_parts(4) [of s] by (simp add: mq_msgs_ok_def mq_view_def sorted_wrt_map)

lemma blocked_facts:
  assumes "mq_blocked l q s s'"
  shows "mq_view s' = mq_view s" "hd (g_readytorun s) \<in> set (tlist s' l)" "msgwaitq s' (hd (g_readytorun s)) = q"
  using assms by (simp_all add: mq_blocked_def Let_def)

lemma failed_facts:
  assumes "mq_failed e s s'"
  shows "mq_view s' = mq_view s" "pterrno s' (hd (g_readytorun s)) = e"
  using assms by (simp_all add: mq_failed_def mq_tasks_def)

text \<open>(C4) No wakeup is lost on a message queue, whatever tasks, handlers, timeouts, signals and the scheduler do: as long as a
  receiver waits for a queue, each message in the queue is matched by a receiver of its own that was woken for the queue and has
  not run yet, and as long as a sender waits, each free place is matched by a woken sender. The run starts with no task
  waiting for a queue; its steps are the calls that \<open>mq_permitted\<close> allows, on queues with no notification registered.\<close>

theorem mq_no_lost_wakeup:
  assumes "mq_inv s0" "tlist s0 Waitingformqnotempty = []" "tlist s0 Waitingformqnotfull = []" "mq_reach notify (s0, \<lambda>_. Outside) (s, pc)"
  shows "(\<forall>t \<in> set (tlist s Waitingformqnotempty).
      length (mq_view s (msgwaitq s t)) \<le> card (woken Waitingformqnotempty (msgwaitq s t) s pc)) \<and>
    (\<forall>t \<in> set (tlist s Waitingformqnotfull).
      maxmsgs s (msgwaitq s t) - int (length (mq_view s (msgwaitq s t))) \<le> int (card (woken Waitingformqnotfull (msgwaitq s t) s pc)))"
proof -
  have "served s pc" using mq_reach_run [OF assms(4)] mq_run_start [OF assms(1-3)] by (simp add: mq_run_inv_def)
  moreover have "waiting l (msgwaitq s t) s \<noteq> {}" if "t \<in> set (tlist s l)" for l t using that by (auto simp: waiting_def)
  ultimately show ?thesis by (fastforce simp: served_def to_serve_def)
qed

lemma mq_demo_waits:
  "\<exists>s. mq_exec (\<lambda>_ _ _. Some) (Receive 32 (Some 8) 8) (mq_demo, \<lambda>_. Outside) = Some (s, (\<lambda>_. Outside)(1 := Receiving 32 8)) \<and>
     mq_permitted (Receive 32 (Some 8) 8) (mq_demo, \<lambda>_. Outside) \<and> mq_blocked Waitingformqnotempty 21 mq_demo s"
proof -
  have d: "des_msgq mq_demo 32 = 21" "hd (g_readytorun mq_demo) = 1" "oflags mq_demo 32 AND O_NONBLOCK = 0" "mq_view mq_demo 21 = []"
    "mq_verifyreceive 32 (Some 8) 8 mq_demo = 0" "idle_tcb mq_demo = 9" "lockcount mq_demo 1 = 0"
    by (simp_all add: mq_demo_def mq_view_def mq_verifyreceive_def O_RDOK_def O_WROK_def O_NONBLOCK_def)
  have p: "mq_permitted (Receive 32 (Some 8) 8) (mq_demo, \<lambda>_. Outside)" using d by (simp add: MAX_LOCK_COUNT_def)
  have q: "des_msgq mq_demo 32 \<noteq> NULL" and r: "hd (g_readytorun mq_demo) \<noteq> idle_tcb mq_demo" "lockcount mq_demo (hd (g_readytorun mq_demo)) < MAX_LOCK_COUNT"
    using d by (simp_all add: MAX_LOCK_COUNT_def)
  show ?thesis
  proof (cases rule: mq_receive_spec [OF mq_demo_inv q d(5) _ r])
    case (2 b p s')
    then show ?thesis using d by (simp add: mq_received_def)
  next
    case (3 s')
    then show ?thesis using d(3) by simp
  next
    case (4 s')
    then show ?thesis using p d by auto
  qed simp
qed

theorem mq_no_lost_wakeup_witness:
  "\<exists>s pc. mq_reach (\<lambda>_ _ _. Some) (mq_demo, \<lambda>_. Outside) (s, pc) \<and> 1 \<in> set (tlist s Waitingformqnotempty) \<and> msgwaitq s 1 = 21 \<and>
     length (mq_view s 21) \<le> card (woken Waitingformqnotempty 21 s pc)"
proof -
  obtain s where s: "mq_exec (\<lambda>_ _ _. Some) (Receive 32 (Some 8) 8) (mq_demo, \<lambda>_. Outside) = Some (s, (\<lambda>_. Outside)(1 := Receiving 32 8))"
    "mq_permitted (Receive 32 (Some 8) 8) (mq_demo, \<lambda>_. Outside)" "mq_blocked Waitingformqnotempty 21 mq_demo s" using mq_demo_waits by blast
  note r = mq_reach.call [OF mq_reach.start s(2,1)]
  have w: "1 \<in> set (tlist s Waitingformqnotempty)" "msgwaitq s 1 = 21" using blocked_facts(2,3) [OF s(3)] by (simp_all add: mq_demo_def)
  have "\<forall>t \<in> set (tlist s Waitingformqnotempty). length (mq_view s (msgwaitq s t)) \<le>
      card (woken Waitingformqnotempty (msgwaitq s t) s ((\<lambda>_. Outside)(1 := Receiving 32 8)))"
    using mq_no_lost_wakeup [OF mq_demo_inv _ _ r] by (simp add: mq_demo_def)
  then show ?thesis using r w by fastforce
qed

text \<open>(C11) No assertion of the message queues fails and no call gets stuck: in every state of a run, every call that tasks
  and handlers may make returns or blocks, and the waiting lists, the counts of waiting tasks, the ownership of the message
  structures and the order of the queues are intact afterwards.\<close>

theorem mq_calls_return:
  assumes "mq_inv s0" "tlist s0 Waitingformqnotempty = []" "tlist s0 Waitingformqnotfull = []" "mq_reach notify (s0, \<lambda>_. Outside) (s, pc)"
    and "mq_permitted c (s, pc)"
  shows "\<exists>s' pc'. mq_exec notify c (s, pc) = Some (s', pc') \<and> mq_inv s'"
proof -
  have "mq_run_inv s pc" using mq_reach_run [OF assms(4)] mq_run_start [OF assms(1-3)] by simp
  from mq_exec_returns [OF this assms(5), of notify] show ?thesis by (auto simp: mq_returns_def mq_run_inv_def)
qed

theorem mq_calls_return_witness:
  "\<exists>s' pc'. mq_exec (\<lambda>_ _ _. Some) (Receive 32 (Some 8) 8) (mq_demo, \<lambda>_. Outside) = Some (s', pc') \<and> mq_inv s'"
proof (rule mq_calls_return [OF mq_demo_inv _ _ mq_reach.start])
  show "mq_permitted (Receive 32 (Some 8) 8) (mq_demo, \<lambda>_. Outside)" using mq_demo_waits by blast
qed (simp_all add: mq_demo_def)

text \<open>(C12) \<open>mq_send\<close> refines insertion into a queue ordered by priority: with a free place the message goes behind all messages
  of its priority and before all of a lower one; on a full queue nothing is sent, and the caller gets \<open>EAGAIN\<close> if its
  descriptor is non-blocking and waits for the queue otherwise. The caller is a task other than the idle task, its arguments
  pass the checks of \<open>mq_verifysend\<close>, and the queue has no notification registered.\<close>

theorem mq_send_refines:
  assumes "mq_inv s" "mq_send_ok False mem mqdes (the msg) len s" "mq_verifysend mqdes msg len prio s = 0"
    and "hd (g_readytorun s) \<noteq> idle_tcb s" "lockcount s (hd (g_readytorun s)) + 1 < MAX_LOCK_COUNT"
  shows "\<exists>r s'. mq_send notify False mem mqdes msg len prio s = Some (r, s') \<and> mq_inv s' \<and>
    (let q = des_msgq s mqdes; full = (int (length (mq_view s q)) \<ge> maxmsgs s q) in
     if \<not> full then r = Done True \<and>
       mq_view s' = (mq_view s)(q := filter (\<lambda>m. nat prio \<le> fst m) (mq_view s q) @ (nat prio, take len (the msg)) # filter (\<lambda>m. fst m < nat prio) (mq_view s q))
     else mq_view s' = mq_view s \<and>
       (if oflags s mqdes AND O_NONBLOCK \<noteq> 0 then r = Done False \<and> pterrno s' (hd (g_readytorun s)) = EAGAIN
        else r = Switched \<and> hd (g_readytorun s) \<in> set (tlist s' Waitingformqnotfull) \<and> msgwaitq s' (hd (g_readytorun s)) = q))"
proof (cases rule: mq_send_spec [OF assms, where notify = notify])
  case (1 s')
  then show ?thesis using mq_put_order [OF mq_view_sorted [OF assms(1)]] length_mq_view [OF assms(1)] by (simp add: mq_sent_def Let_def)
next
  case (2 s')
  then show ?thesis using failed_facts [OF 2(3)] length_mq_view [OF assms(1)] by (simp add: Let_def)
next
  case (3 s')
  then show ?thesis using blocked_facts [OF 3(3)] length_mq_view [OF assms(1)] by (simp add: Let_def)
qed

lemma mq_demo_facts: "hd (g_readytorun mq_demo) = 1" "idle_tcb mq_demo = 9" "lockcount mq_demo = (\<lambda>_. 0)" "des_msgq mq_demo 31 = 20"
    "mq_view mq_demo 20 = [(7, [65, 66])]" "maxmsgs mq_demo = (\<lambda>_. 2)"
  by (simp_all add: mq_demo_def mq_view_def)

theorem mq_send_refines_witness:
  "\<exists>s'. mq_send (\<lambda>_ _ _. Some) False 200 31 (Some [1, 2, 3]) 3 9 mq_demo = Some (Done True, s') \<and> mq_view s' 20 = [(9, [1, 2, 3]), (7, [65, 66])]"
proof -
  have v: "mq_verifysend 31 (Some [1, 2, 3]) 3 9 mq_demo = 0"
    by (simp add: mq_verifysend_def mq_demo_def MQ_PRIO_MAX_def O_RDOK_def O_WROK_def)
  have u: "200 \<notin> set (msgs_at p mq_demo)" for p by (cases p) (simp_all add: mq_demo_def)
  have ok: "mq_send_ok False 200 31 (the (Some [1, 2, 3])) 3 mq_demo"
    unfolding mq_send_ok_def unplaced_def using u by (simp add: mq_demo_def)
  show ?thesis using mq_send_refines [OF mq_demo_inv ok v, of "\<lambda>_ _ _. Some"] by (auto simp: mq_demo_facts MAX_LOCK_COUNT_def Let_def)
qed

text \<open>(C13) \<open>mq_receive\<close> refines removal from that queue: it returns the bytes and the priority of the first message, that
  is the oldest one of the highest priority, and leaves the others; on an empty queue the caller gets \<open>EAGAIN\<close> if its
  descriptor is non-blocking and waits for the queue otherwise. The caller is a task other than the idle task, and its
  arguments pass the checks of \<open>mq_verifyreceive\<close>.\<close>

theorem mq_receive_refines:
  assumes "mq_inv s" "des_msgq s mqdes \<noteq> NULL" "mq_verifyreceive mqdes (Some buf) len s = 0" "len \<le> buf"
    and "hd (g_readytorun s) \<noteq> idle_tcb s" "lockcount s (hd (g_readytorun s)) < MAX_LOCK_COUNT"
  shows "\<exists>r s'. mq_receive False mqdes (Some buf) len s = Some (r, s') \<and> mq_inv s' \<and>
    (let q = des_msgq s mqdes in
     case mq_view s q of
       m # ms \<Rightarrow> r = Done (Some (snd m, fst m)) \<and> mq_view s' = (mq_view s)(q := ms)
     | [] \<Rightarrow> mq_view s' = mq_view s \<and>
       (if oflags s mqdes AND O_NONBLOCK \<noteq> 0 then r = Done None \<and> pterrno s' (hd (g_readytorun s)) = EAGAIN
        else r = Switched \<and> hd (g_readytorun s) \<in> set (tlist s' Waitingformqnotempty) \<and> msgwaitq s' (hd (g_readytorun s)) = q))"
proof (cases rule: mq_receive_spec [OF assms])
  case (1 bytes p s')
  have m: "mq_view s (des_msgq s mqdes) = (p, bytes) # mq_view s' (des_msgq s mqdes)"
    "mq_view s' = (mq_view s)(des_msgq s mqdes := tl (mq_view s (des_msgq s mqdes)))" using 1(3) unfolding mq_received_def by blast+
  have "tl (mq_view s (des_msgq s mqdes)) = mq_view s' (des_msgq s mqdes)" unfolding m(1) by simp
  then have "mq_view s' = (mq_view s)(des_msgq s mqdes := mq_view s' (des_msgq s mqdes))" using m(2) by metis
  then show ?thesis using 1(1,2) unfolding Let_def m(1) by auto
next
  case (2 s')
  then show ?thesis using failed_facts [OF 2(3)] by (simp add: Let_def)
next
  case (3 s')
  then show ?thesis using blocked_facts [OF 3(3)] by (simp add: Let_def)
qed

theorem mq_receive_refines_witness:
  "\<exists>s'. mq_receive False 31 (Some 8) 8 mq_demo = Some (Done (Some ([65, 66], 7)), s') \<and> mq_view s' 20 = []"
proof -
  have "mq_verifyreceive 31 (Some 8) 8 mq_demo = 0" by (simp add: mq_verifyreceive_def mq_demo_def O_RDOK_def O_WROK_def)
  from mq_receive_refines [OF mq_demo_inv _ this] show ?thesis by (auto simp: mq_demo_facts MAX_LOCK_COUNT_def Let_def)
qed

end
