(* ===== verification/Spec2Isabelle.thy ===== *)
theory Spec2Isabelle
  imports Prelude Queue MM_Heap MM_Heap_Inv MM_Heap_Ops MM_Heap_Resize Alloc_Spec MM_Heap_Props
    MM_Gran MM_Gran_Props Wdog Sched Sched_Inv Sched_Ops Sched_Props
    Sem Sem_Inv Sem_Ops Sem_Props Calendar Clock MQ MQ_Inv MQ_Ops MQ_Props
begin

text \<open>
  Verification of TinyAra: the parts of the kernel and of the C library on which tasks, memory and time rest.

  The program. TinyAra is a real-time operating system for microcontrollers. Tasks are scheduled by priority
  (\<open>os/kernel/sched\<close>, with the context switches of \<open>os/arch/arm/src/armv7-r\<close>). They block on semaphores
  (\<open>os/kernel/semaphore\<close>), which lend the priority of a waiting task to the holders, and pass messages in queues ordered by
  priority (\<open>os/kernel/mqueue\<close>). Watchdog timers
  (\<open>os/kernel/wdog\<close>) run functions from the timer interrupt, which also drives the system clock
  (\<open>os/kernel/clock\<close>). Memory comes from a heap of chunks (\<open>os/mm/mm_heap\<close>) and, for DMA and pages, from an allocator of
  granules (\<open>os/mm/mm_gran\<close>). Lists of kernel objects are linked through the objects (\<open>lib/libc/queue\<close>).

  The configuration is that of \<open>build/configs/sidk_s5jt200/tc\<close>: \<open>CONFIG_DEBUG\<close>, priority inheritance with 16
  preallocated holders and 16 nested priorities, ticks of 10 ms in 64 bits, round-robin slices of 100 ms, 16 tasks,
  \<open>CONFIG_GREGORIAN_TIME\<close>. The granule allocator is modelled as under \<open>CONFIG_GRAN\<close>.

  Conventions. Addresses are natural numbers and NULL is 0. A field of a C structure is a function of the address of
  the structure; the state of a component is a record, extended by the components that build on it (the semaphores
  extend the scheduler, the message queues the semaphores). A list through the links of its members is a HOL list of addresses, except in \<open>Queue\<close> and in
  the heap, where the links themselves are the state. An operation that may fail an assertion, access memory out of
  bounds or run forever returns an \<open>option\<close>, and \<open>None\<close> stands for that; the theorems prove \<open>Some\<close>. Integers keep
  their width where the code depends on it: words of 32 or 64 bits, or \<open>s32\<close> of an integer. A call that gives up the processor
  returns \<open>Switched\<close> or \<open>Suspended\<close>, and what it does when its task runs again is an operation of its own
  (\<open>..._resume\<close>), so that a run is an interleaving of such steps.

  Theories and source.

  \<^item> \<open>Prelude\<close>: types, \<open>debugassert\<close>, 32-bit wrap-around, list facts, and the locale \<open>ordered_list\<close> of insertion
    behind equal keys, which \<open>Wdog\<close> interprets for expiry times and \<open>Sched_Inv\<close> for priorities.
  \<^item> \<open>Queue\<close> (\<open>lib/libc/queue\<close>, \<open>os/include/queue.h\<close>): all \<open>sq_*\<close> and \<open>dq_*\<close> operations, link by link; each refines
    the list operation of its name. Locales \<open>fifo_queue\<close> and \<open>linked_deque\<close>.
  \<^item> \<open>MM_Heap\<close>, \<open>MM_Heap_Inv\<close>, \<open>MM_Heap_Ops\<close>, \<open>MM_Heap_Resize\<close>, \<open>MM_Heap_Props\<close> (\<open>os/mm/mm_heap\<close>): the chunk
    headers in memory, the free lists by size, the lock; invariant \<open>mm_wf\<close>; allocation, release, reallocation,
    alignment, extension and statistics keep it and do what they promise, for requests that with the header do not wrap in 32
    bits. Requests that wrap are not refused: \<open>mm_malloc_wraps\<close>, \<open>mm_malloc_sentinel\<close> and \<open>mm_realloc_wraps\<close> show what
    they get. The lock is taken through \<open>sem_trywait\<close> or \<open>sem_wait\<close>, whose assertion excludes interrupt handlers; the
    theorems are about callers that find it free, or hold it (\<open>lock_ok\<close>).
  \<^item> \<open>Alloc_Spec\<close>: the locale \<open>block_allocator\<close>, what a client relies on; interpreted by the heap and by the
    granule allocator, which gives both that blocks held by a client never overlap.
  \<^item> \<open>MM_Gran\<close>, \<open>MM_Gran_Props\<close> (\<open>os/mm/mm_gran\<close>): the table of granules, the search for a free run by shifting, marking,
    release and reservation, and the page allocator on top. On a table of one word the search is first fit; on a table of
    several words \<open>gran_alloc_two_words\<close> shows when it returns a granule in use.
  \<^item> \<open>Wdog\<close> (\<open>os/kernel/wdog\<close>): watchdogs on a list of relative delays, which refines a list of expiry times; the timer
    interrupt with functions that start and cancel watchdogs returns, and fires each one on time.
  \<^item> \<open>Sched\<close>, \<open>Sched_Inv\<close>, \<open>Sched_Ops\<close>, \<open>Sched_Props\<close> (\<open>os/kernel/sched\<close>, \<open>os/arch/arm/src/armv7-r\<close>): the
    task lists and states, blocking, unblocking, priorities, the preemption lock and time slices; the running task has the
    highest priority in every reachable state.
  \<^item> \<open>Sem\<close>, \<open>Sem_Inv\<close>, \<open>Sem_Ops\<close>, \<open>Sem_Props\<close> (\<open>os/kernel/semaphore\<close>): counts, holders, boosting and
    restoring priorities; units are never handed out twice, every permitted call keeps the invariant, waiters wake in order of
    priority. A wait is permitted only while the live holders have room for another pending priority; \<open>sem_wait_overflows\<close>
    shows the write out of bounds otherwise, and \<open>sem_post_loses_priority\<close> how a post takes away an inherited priority.
    Cancelling a wait is modelled as it runs in an interrupt handler (the watchdog of a timed wait); a signal or a deletion by a
    task, where restoring the priority of the running task could switch in the middle, is not.
  \<^item> \<open>MQ\<close>, \<open>MQ_Inv\<close>, \<open>MQ_Ops\<close>, \<open>MQ_Props\<close> (\<open>os/kernel/mqueue\<close>, \<open>lib/libc/mqueue\<close>): queues, descriptors,
    message structures, sending and receiving with waits, timeouts and signals; sending and receiving refine a queue ordered by
    priority, and in runs of tasks, interrupt handlers and the scheduler no call fails an assertion and no wakeup is lost. The
    signal of \<open>mq_notify\<close> is an argument of the send operations; the theorems are about queues with no notification registered.
  \<^item> \<open>Calendar\<close> (\<open>lib/libc/time\<close>, \<open>clock_dow.c\<close>): conversions between times and dates, against a calendar given by the step
    from a day to the next. \<open>clock_dayoftheweek\<close> is compiled only with \<open>CONFIG_TIME_EXTENDED\<close>.
  \<^item> \<open>Clock\<close> (\<open>os/kernel/clock\<close>): reading and setting the time, conversions between times and ticks.

  Bounds. The loops over linked structures are functions on lists, or \<open>partial_function (option)\<close> with a theorem that they
  return on well-formed states; no fuel is used. The search of the granule allocator is exact for tables of one word (32
  granules), and the development proves what goes wrong beyond. Semaphore counts do not wrap because a semaphore has at most 16
  waiters.

  Not modelled. Code that drives hardware (\<open>os/arch\<close> but for the context switches, \<open>os/drivers\<close>, \<open>os/board\<close>), code whose
  behaviour is input and output (\<open>os/fs\<close>, \<open>os/net\<close>, \<open>os/logm\<close>, \<open>apps\<close>), third-party packages (\<open>external\<close>, lwIP and mbed
  TLS under \<open>os/net\<close>), and the kernel services that are built on the modelled ones but have large state of their own: task
  creation and exit, signals, pthreads, POSIX timers and work queues. Within the modelled components: named semaphores, the
  names of message queues (\<open>os/fs/mqueue\<close>), the calls with a time limit up to the functions their watchdogs run,
  the tickless scheduler, sporadic scheduling, CPU load, the RTC hardware, and the debug printers.
\<close>

end
